(* ===== verification/Prelude.thy ===== *)
theory Prelude
  imports Main "HOL-Library.Word" "HOL-Library.Monad_Syntax"
begin

text \<open>
  The vocabulary shared by all components of the gateway model.

  \<^item> A C function that may abort is a function into \<open>option\<close>: \<open>None\<close> is a failed
    \<open>gw_assert\<close>, a \<open>panic\<close>, an access outside an allocated area, or a read of a cell that
    was never written. Error codes that the C code returns are ordinary values.
  \<^item> An allocated area is a list of cells; a cell that is allocated but not yet written holds
    \<open>None\<close>. \<open>rd\<close>, \<open>wr\<close>, \<open>memmove\<close>, \<open>memcpy\<close> and \<open>gw_realloc\<close> are the accesses of the C
    code, each with its bounds check.
  \<^item> \<open>runs c P\<close> says that \<open>c\<close> does not abort and that its result satisfies \<open>P\<close>; the
    lemmas below make it a weakest-precondition calculus for the option monad.
\<close>

named_theorems runs_simps \<open>symbolic execution of the option monad under runs\<close>
named_theorems cell_simps \<open>reads and writes of allocated areas\<close>

section \<open>Aborting computations\<close>

definition gw_assert :: "bool \<Rightarrow> unit option" where
  "gw_assert b = (if b then Some () else None)"

lemma gw_assert_True [simp]: "gw_assert True = Some ()"
  by (simp add: gw_assert_def)

lemma gw_assert_False [simp]: "gw_assert False = None"
  by (simp add: gw_assert_def)

definition runs :: "'a option \<Rightarrow> ('a \<Rightarrow> bool) \<Rightarrow> bool" where
  "runs c P \<longleftrightarrow> (\<exists>x. c = Some x \<and> P x)"

lemma runs_Some [runs_simps, simp]: "runs (Some x) P \<longleftrightarrow> P x"
  by (simp add: runs_def)

lemma runs_None [runs_simps, simp]: "\<not> runs None P"
  by (simp add: runs_def)

lemma runs_bind [runs_simps]: "runs (Option.bind c f) P \<longleftrightarrow> runs c (\<lambda>x. runs (f x) P)"
  by (cases c) simp_all

lemma runs_assert [runs_simps, simp]: "runs (gw_assert b) P \<longleftrightarrow> b \<and> P ()"
  by (simp add: gw_assert_def)

lemma runs_mono: "runs c P \<Longrightarrow> (\<And>x. P x \<Longrightarrow> Q x) \<Longrightarrow> runs c Q"
  by (auto simp: runs_def)

lemma runs_conj: "runs c P \<Longrightarrow> runs c Q \<Longrightarrow> runs c (\<lambda>x. P x \<and> Q x)"
  by (auto simp: runs_def)

lemma runs_bindI: "runs c P \<Longrightarrow> (\<And>x. P x \<Longrightarrow> runs (f x) Q) \<Longrightarrow> runs (Option.bind c f) Q"
  by (auto simp: runs_def)

lemma runsE: "runs c P \<Longrightarrow> (\<And>x. c = Some x \<Longrightarrow> P x \<Longrightarrow> thesis) \<Longrightarrow> thesis"
  by (auto simp: runs_def)

lemma runsD: "runs c P \<Longrightarrow> c = Some x \<Longrightarrow> P x"
  by (auto simp: runs_def)

lemma runsI: "c = Some x \<Longrightarrow> P x \<Longrightarrow> runs c P"
  by (simp add: runs_def)

text \<open>A loop over a list whose body may abort.\<close>

fun iterate :: "('a \<Rightarrow> 's \<Rightarrow> 's option) \<Rightarrow> 'a list \<Rightarrow> 's \<Rightarrow> 's option" where
  "iterate f [] s = Some s"
| "iterate f (x # xs) s = do { s \<leftarrow> f x s; iterate f xs s }"

lemma iterate_append: "iterate f (xs @ ys) s = do { s \<leftarrow> iterate f xs s; iterate f ys s }"
  by (induction xs arbitrary: s) (auto split: bind_splits)

lemma iterate_Some: "iterate (\<lambda>x s. Some (g x s)) xs s = Some (fold g xs s)"
  by (induction xs arbitrary: s) simp_all

lemma iterate_runs:
  assumes "P [] s" and "\<And>xs x ys s. zs = xs @ x # ys \<Longrightarrow> P xs s \<Longrightarrow> runs (f x s) (P (xs @ [x]))"
  shows "runs (iterate f zs s) (P zs)"
proof -
  have "runs (iterate f ys s) (P (xs @ ys))" if "zs = xs @ ys" "P xs s" for xs ys s
    using that
  proof (induction ys arbitrary: xs s)
    case Nil
    then show ?case by simp
  next
    case (Cons y ys)
    have "runs (f y s) (P (xs @ [y]))" using assms(2) Cons.prems by blast
    then show ?case using Cons.IH [of "xs @ [y]"] Cons.prems by (auto simp: runs_bind elim!: runs_mono)
  qed
  from this [of "[]" zs] show ?thesis using assms(1) by simp
qed

section \<open>C integer division\<close>

text \<open>C rounds towards zero; on non-negative operands this is HOL's division.\<close>

definition cdiv :: "int \<Rightarrow> int \<Rightarrow> int" where
  "cdiv a b = sgn a * sgn b * (\<bar>a\<bar> div \<bar>b\<bar>)"

definition crem :: "int \<Rightarrow> int \<Rightarrow> int" where
  "crem a b = sgn a * (\<bar>a\<bar> mod \<bar>b\<bar>)"

lemma cdiv_nonneg [simp]: "0 \<le> a \<Longrightarrow> 0 \<le> b \<Longrightarrow> cdiv a b = a div b"
  by (cases "a = 0"; cases "b = 0") (simp_all add: cdiv_def)

lemma crem_nonneg [simp]: "0 \<le> a \<Longrightarrow> 0 \<le> b \<Longrightarrow> crem a b = a mod b"
  by (cases "a = 0") (simp_all add: crem_def)

lemma cdiv_crem: "cdiv a b * b + crem a b = a"
proof -
  have "cdiv a b * b = sgn a * (\<bar>a\<bar> div \<bar>b\<bar> * (sgn b * b))"
    by (simp add: cdiv_def)
  also have "sgn b * b = \<bar>b\<bar>"
    by (simp add: sgn_if abs_if)
  finally have "cdiv a b * b = sgn a * (\<bar>a\<bar> div \<bar>b\<bar> * \<bar>b\<bar>)" .
  then have "cdiv a b * b + crem a b = sgn a * (\<bar>a\<bar> div \<bar>b\<bar> * \<bar>b\<bar> + \<bar>a\<bar> mod \<bar>b\<bar>)"
    by (simp only: crem_def distrib_left)
  then show ?thesis by (simp add: sgn_mult_abs)
qed

section \<open>Allocated areas\<close>

type_synonym 'a cells = "'a option list"

definition rd :: "'a cells \<Rightarrow> int \<Rightarrow> 'a option" where
  "rd a i = (if 0 \<le> i \<and> i < int (length a) then a ! nat i else None)"

definition wr :: "'a cells \<Rightarrow> int \<Rightarrow> 'a \<Rightarrow> 'a cells option" where
  "wr a i v = (if 0 \<le> i \<and> i < int (length a) then Some (a[nat i := Some v]) else None)"

definition memmove :: "'a cells \<Rightarrow> int \<Rightarrow> int \<Rightarrow> int \<Rightarrow> 'a cells option" where
  "memmove a to from n =
     (if 0 \<le> n \<and> 0 \<le> to \<and> to + n \<le> int (length a) \<and> 0 \<le> from \<and> from + n \<le> int (length a)
      then Some (take (nat to) a @ take (nat n) (drop (nat from) a) @ drop (nat (to + n)) a)
      else None)"

definition memcpy :: "'a cells \<Rightarrow> int \<Rightarrow> 'a cells \<Rightarrow> int \<Rightarrow> int \<Rightarrow> 'a cells option" where
  "memcpy a to b from n =
     (if 0 \<le> n \<and> 0 \<le> to \<and> to + n \<le> int (length a) \<and> 0 \<le> from \<and> from + n \<le> int (length b)
      then Some (take (nat to) a @ take (nat n) (drop (nat from) b) @ drop (nat (to + n)) a)
      else None)"

text \<open>
  The allocator of \<open>gwlib/gwmem-native.c\<close>: a request for zero bytes is an assertion failure,
  a request that cannot be met never returns (\<open>panic\<close>), so a call that returns has the space.
\<close>

definition gw_malloc :: "int \<Rightarrow> 'a cells option" where
  "gw_malloc n = do { gw_assert (n > 0); Some (replicate (nat n) None) }"

definition gw_realloc :: "'a cells \<Rightarrow> int \<Rightarrow> 'a cells option" where
  "gw_realloc a n = do { gw_assert (n > 0);
     Some (take (nat n) a @ replicate (nat n - length a) None) }"

lemma rd_nat [cell_simps]: "i < length a \<Longrightarrow> rd a (int i) = a ! i"
  by (simp add: rd_def)

lemma wr_nat [cell_simps]: "i < length a \<Longrightarrow> wr a (int i) v = Some (a[i := Some v])"
  by (simp add: wr_def)

lemma rd_in: "0 \<le> i \<Longrightarrow> i < int (length a) \<Longrightarrow> rd a i = a ! nat i"
  by (simp add: rd_def)

lemma wr_in: "0 \<le> i \<Longrightarrow> i < int (length a) \<Longrightarrow> wr a i v = Some (a[nat i := Some v])"
  by (simp add: wr_def)

lemma rd_Some_bounds: "rd a i = Some v \<Longrightarrow> 0 \<le> i \<and> i < int (length a)"
  by (simp add: rd_def split: if_splits)

lemma wr_length: "wr a i v = Some b \<Longrightarrow> length b = length a"
  by (auto simp: wr_def split: if_splits)

lemma rd_wr: "wr a i v = Some b \<Longrightarrow> rd b j = (if j = i then Some v else rd a j)"
  by (auto simp: wr_def rd_def nth_list_update split: if_splits)

lemma memmove_length: "memmove a to from n = Some b \<Longrightarrow> length b = length a"
  by (auto simp: memmove_def split: if_splits)

lemma memmove_zero [simp]:
  "0 \<le> to \<Longrightarrow> to \<le> int (length a) \<Longrightarrow> 0 \<le> from \<Longrightarrow> from \<le> int (length a) \<Longrightarrow>
   memmove a to from 0 = Some a"
  by (simp add: memmove_def)

lemma splice_nth:
  assumes "t + n \<le> length a" "f + n \<le> length b" "i < length a"
  shows "(take t a @ take n (drop f b) @ drop (t + n) a) ! i =
    (if t \<le> i \<and> i < t + n then b ! (f + (i - t)) else a ! i)"
proof -
  have l: "length (take t a) = t" "length (take n (drop f b)) = n"
    using assms by simp_all
  consider "i < t" | k where "i = t + k" "k < n" | k where "i = t + n + k"
    using that by (cases "i < t"; cases "i < t + n") (auto simp: not_less le_iff_add)
  then show ?thesis
  proof cases
    case 1
    then show ?thesis using l by (simp add: nth_append)
  next
    case 2
    then show ?thesis using l assms by (simp add: nth_append del: length_take)
  next
    case 3
    then show ?thesis using l assms by (simp add: nth_append del: length_take)
  qed
qed

lemma memmove_nth:
  assumes "memmove a to from n = Some b" and "i < length a"
  shows "b ! i = (if to \<le> int i \<and> int i < to + n then a ! nat (int i - to + from) else a ! i)"
proof -
  from assms(1) have *: "0 \<le> n" "0 \<le> to" "to + n \<le> int (length a)" "0 \<le> from" "from + n \<le> int (length a)"
    and b: "b = take (nat to) a @ take (nat n) (drop (nat from) a) @ drop (nat to + nat n) a"
    by (auto simp: memmove_def nat_add_distrib split: if_splits)
  have "b ! i = (if nat to \<le> i \<and> i < nat to + nat n then a ! (nat from + (i - nat to)) else a ! i)"
    unfolding b by (rule splice_nth) (use * assms(2) in linarith)+
  moreover have "nat to \<le> i \<Longrightarrow> nat from + (i - nat to) = nat (int i - to + from)"
    using * by linarith
  moreover have "(nat to \<le> i \<and> i < nat to + nat n) = (to \<le> int i \<and> int i < to + n)"
    using * by linarith
  ultimately show ?thesis by presburger
qed

lemma runs_rd: "0 \<le> i \<Longrightarrow> i < int (length a) \<Longrightarrow> a ! nat i = Some v \<Longrightarrow> P v \<Longrightarrow> runs (rd a i) P"
  by (simp add: rd_def)

lemma runs_wr:
  "0 \<le> i \<Longrightarrow> i < int (length a) \<Longrightarrow> P (a[nat i := Some v]) \<Longrightarrow> runs (wr a i v) P"
  by (simp add: wr_def)

lemma gw_realloc_grow:
  "int (length a) \<le> n \<Longrightarrow> 0 < n \<Longrightarrow> gw_realloc a n = Some (a @ replicate (nat n - length a) None)"
  by (simp add: gw_realloc_def)

text \<open>Splitting areas at their end.\<close>

lemma split_end:
  assumes "k \<le> length z"
  obtains x y where "z = x @ y" "length y = k" "length z = length x + k"
proof -
  have "z = take (length z - k) z @ drop (length z - k) z" by simp
  moreover have "length (drop (length z - k) z) = k" "length z = length (take (length z - k) z) + k"
    using assms by simp_all
  ultimately show ?thesis using that by blast
qed

lemma split_mid:
  assumes "k + m \<le> length z"
  obtains x y w where "z = x @ y @ w" "length x = k" "length y = m"
proof -
  have "z = take k z @ take m (drop k z) @ drop m (drop k z)" by (simp del: drop_drop)
  then show ?thesis using that [of "take k z" "take m (drop k z)"] assms by simp
qed

lemma length_2: "length y = 2 \<Longrightarrow> \<exists>a b. y = [a, b]"
  by (auto simp: numeral_eq_Suc length_Suc_conv)

lemma length_3: "length y = 3 \<Longrightarrow> \<exists>a b c. y = [a, b, c]"
  by (auto simp: numeral_eq_Suc length_Suc_conv)

lemma length_4: "length y = 4 \<Longrightarrow> \<exists>a b c d. y = [a, b, c, d]"
  by (auto simp: numeral_eq_Suc length_Suc_conv)

section \<open>Refinement of operation sequences\<close>

text \<open>
  A component is a set of operations \<open>'o\<close> on a state \<open>'s\<close>; each returns a result and a new
  state, or aborts. \<open>run_ops\<close> runs a sequence of them. The locale \<open>refines\<close> is the contract
  between a component and its specification on an abstract state: related states answer every
  operation alike, and the specification aborts exactly when the code does.
\<close>

fun run_ops :: "('o \<Rightarrow> 's \<Rightarrow> ('r \<times> 's) option) \<Rightarrow> 'o list \<Rightarrow> 's \<Rightarrow> ('r list \<times> 's) option" where
  "run_ops f [] s = Some ([], s)"
| "run_ops f (x # xs) s =
     (case f x s of None \<Rightarrow> None
      | Some (r, s') \<Rightarrow> (case run_ops f xs s' of None \<Rightarrow> None | Some (rs, t) \<Rightarrow> Some (r # rs, t)))"

locale refines =
  fixes R :: "'s \<Rightarrow> 'a \<Rightarrow> bool"
    and impl :: "'o \<Rightarrow> 's \<Rightarrow> ('r \<times> 's) option"
    and spec :: "'o \<Rightarrow> 'a \<Rightarrow> ('r \<times> 'a) option"
  assumes step_Some: "R s a \<Longrightarrow> spec x a = Some (r, a') \<Longrightarrow> \<exists>s'. impl x s = Some (r, s') \<and> R s' a'"
    and step_None: "R s a \<Longrightarrow> spec x a = None \<Longrightarrow> impl x s = None"
begin

lemma run_Some:
  "R s a \<Longrightarrow> run_ops spec xs a = Some (rs, a') \<Longrightarrow> \<exists>s'. run_ops impl xs s = Some (rs, s') \<and> R s' a'"
proof (induction xs arbitrary: s a rs)
  case Nil
  then show ?case by simp
next
  case (Cons x xs)
  then obtain r a1 rs' where a1: "spec x a = Some (r, a1)" "run_ops spec xs a1 = Some (rs', a')" "rs = r # rs'"
    by (auto split: option.splits)
  obtain s1 where s1: "impl x s = Some (r, s1)" "R s1 a1"
    using step_Some [OF Cons.prems(1) a1(1)] by blast
  then obtain s' where "run_ops impl xs s1 = Some (rs', s')" "R s' a'"
    using Cons.IH [OF s1(2) a1(2)] by blast
  then show ?case using s1 a1(3) by simp
qed

lemma run_None: "R s a \<Longrightarrow> run_ops spec xs a = None \<Longrightarrow> run_ops impl xs s = None"
proof (induction xs arbitrary: s a)
  case Nil
  then show ?case by simp
next
  case (Cons x xs)
  show ?case
  proof (cases "spec x a")
    case None
    then show ?thesis using step_None [OF Cons.prems(1)] by simp
  next
    case (Some ra)
    then obtain r a1 where a1: "spec x a = Some (r, a1)" by (cases ra) auto
    then obtain s1 where s1: "impl x s = Some (r, s1)" "R s1 a1"
      using step_Some [OF Cons.prems(1)] by blast
    have "run_ops spec xs a1 = None" using Cons.prems(2) a1 by (auto split: option.splits)
    then show ?thesis using Cons.IH [OF s1(2)] s1(1) by simp
  qed
qed

end

end
