(* ===== verification/Gwlist.thy ===== *)
theory Gwlist
  imports Prelude
begin

text \<open>
  The generic list of \<open>gwlib/list.c\<close>: a circular buffer \<open>tab\<close> of \<open>tab_size\<close> cells in
  which item \<open>i\<close> is at \<open>(start + i) % tab_size\<close>. Every operation of the C file runs under
  \<open>single_operation_lock\<close>, so it is one step of the model; the condition variable of the
  consumers is modelled in theory \<open>Gwlist_Threads\<close>.

  The first part translates the operations; the second defines the well-formedness invariant
  \<open>gwlist_ok\<close> and the abstraction \<open>items\<close> to a HOL list and proves that every operation
  keeps the one and implements a list operation under the other.
\<close>

section \<open>The data structure\<close>

record 'a gwlist =
  gl_tab :: "'a cells"
  gl_tab_size :: int
  gl_start :: int
  gl_len :: int
  gl_num_producers :: int
  gl_num_consumers :: int

definition INDEX :: "'a gwlist \<Rightarrow> int \<Rightarrow> int" where
  "INDEX l i = crem (gl_start l + i) (gl_tab_size l)"

definition GET :: "'a gwlist \<Rightarrow> int \<Rightarrow> 'a option" where
  "GET l i = rd (gl_tab l) (INDEX l i)"

definition PUT :: "'a gwlist \<Rightarrow> int \<Rightarrow> 'a \<Rightarrow> 'a gwlist option" where
  "PUT l i v = do { t \<leftarrow> wr (gl_tab l) (INDEX l i) v; Some (l\<lparr>gl_tab := t\<rparr>) }"

definition gwlist_create :: "'a gwlist" where
  "gwlist_create = \<lparr>gl_tab = [], gl_tab_size = 0, gl_start = 0, gl_len = 0,
     gl_num_producers = 0, gl_num_consumers = 0\<rparr>"

text \<open>\<open>gwlist_len\<close> accepts a NULL list.\<close>

definition gwlist_len :: "'a gwlist option \<Rightarrow> int" where
  "gwlist_len list = (case list of None \<Rightarrow> 0 | Some l \<Rightarrow> gl_len l)"

section \<open>Growing and shrinking the array\<close>

definition make_bigger :: "'a gwlist \<Rightarrow> int \<Rightarrow> 'a gwlist option" where
  "make_bigger l n =
     (if gl_len l + n \<le> gl_tab_size l then Some l
      else
        let old_size = gl_tab_size l; new_size = old_size + n in do {
          tab \<leftarrow> gw_realloc (gl_tab l) new_size;
          gw_assert (gl_start l < old_size \<or> (gl_start l = 0 \<and> old_size = 0));
          if gl_start l + gl_len l > old_size then
            let len_at_end = old_size - gl_start l;
                len_at_beginning = gl_len l - len_at_end in
            if len_at_beginning \<le> new_size - old_size then do {
              tab \<leftarrow> memmove tab old_size 0 len_at_beginning;
              Some (l\<lparr>gl_tab := tab, gl_tab_size := new_size\<rparr>) }
            else do {
              tab \<leftarrow> memmove tab old_size 0 (new_size - old_size);
              tab \<leftarrow> memmove tab 0 (new_size - old_size)
                        (len_at_beginning - (new_size - old_size));
              Some (l\<lparr>gl_tab := tab, gl_tab_size := new_size\<rparr>) }
          else Some (l\<lparr>gl_tab := tab, gl_tab_size := new_size\<rparr>) })"

text \<open>The copying loop of the last case of \<open>delete_items_from_list\<close>.\<close>

function delete_shift :: "'a gwlist \<Rightarrow> int \<Rightarrow> int \<Rightarrow> int \<Rightarrow> 'a gwlist option" where
  "delete_shift l pos count i =
     (if i < gl_len l - count - pos then do {
        v \<leftarrow> GET l (pos + i + count);
        t \<leftarrow> wr (gl_tab l) (INDEX l (pos + i)) v;
        delete_shift (l\<lparr>gl_tab := t\<rparr>) pos count (i + 1) }
      else Some l)"
  by pat_completeness auto
termination
  by (relation "measure (\<lambda>(l, pos, count, i). nat (gl_len l - count - pos - i))") auto

declare delete_shift.simps [simp del]

definition delete_items_from_list :: "'a gwlist \<Rightarrow> int \<Rightarrow> int \<Rightarrow> 'a gwlist option" where
  "delete_items_from_list l pos count = do {
     gw_assert (pos \<ge> 0);
     gw_assert (pos < gl_len l);
     gw_assert (count \<ge> 0);
     gw_assert (pos + count \<le> gl_len l);
     if pos = 0 then
       Some (l\<lparr>gl_start := crem (gl_start l + count) (gl_tab_size l), gl_len := gl_len l - count\<rparr>)
     else if pos + count = gl_len l then
       Some (l\<lparr>gl_len := gl_len l - count\<rparr>)
     else if gl_start l + gl_len l < gl_tab_size l then do {
       tab \<leftarrow> memmove (gl_tab l) (gl_start l + pos) (gl_start l + pos + count)
                (gl_len l - pos - count);
       Some (l\<lparr>gl_tab := tab, gl_len := gl_len l - count\<rparr>) }
     else do {
       l \<leftarrow> delete_shift l pos count 0;
       Some (l\<lparr>gl_len := gl_len l - count\<rparr>) } }"

section \<open>Adding and inserting\<close>

definition gwlist_append :: "'a gwlist \<Rightarrow> 'a \<Rightarrow> 'a gwlist option" where
  "gwlist_append l item = do {
     l \<leftarrow> make_bigger l 1;
     l \<leftarrow> PUT l (gl_len l) item;
     Some (l\<lparr>gl_len := gl_len l + 1\<rparr>) }"

text \<open>
  The scan \<open>for (i = 0; i < list->len; ++i) if (cmp(GET(list, i), pattern)) break;\<close> that
  the search functions share: the first matching index, or \<open>len\<close>.
\<close>

function scan_from :: "'a gwlist \<Rightarrow> ('a \<Rightarrow> bool) \<Rightarrow> int \<Rightarrow> int option" where
  "scan_from l p i =
     (if i < gl_len l then do {
        it \<leftarrow> GET l i;
        if p it then Some i else scan_from l p (i + 1) }
      else Some i)"
  by pat_completeness auto
termination
  by (relation "measure (\<lambda>(l, p, i). nat (gl_len l - i))") auto

declare scan_from.simps [simp del]

definition gwlist_append_unique :: "'a gwlist \<Rightarrow> 'a \<Rightarrow> ('a \<Rightarrow> 'a \<Rightarrow> bool) \<Rightarrow> 'a gwlist option" where
  "gwlist_append_unique l item cmp = do {
     i \<leftarrow> scan_from l (\<lambda>it. cmp it item) 0;
     if i = gl_len l then do {
       l \<leftarrow> make_bigger l 1;
       l \<leftarrow> PUT l (gl_len l) item;
       Some (l\<lparr>gl_len := gl_len l + 1\<rparr>) }
     else Some l }"

function insert_shift :: "'a gwlist \<Rightarrow> int \<Rightarrow> int \<Rightarrow> 'a gwlist option" where
  "insert_shift l pos i =
     (if i > pos then do {
        v \<leftarrow> GET l (i - 1);
        l \<leftarrow> PUT l i v;
        insert_shift l pos (i - 1) }
      else Some l)"
  by pat_completeness auto
termination
  by (relation "measure (\<lambda>(l, pos, i). nat (i - pos))") auto

declare insert_shift.simps [simp del]

definition gwlist_insert :: "'a gwlist \<Rightarrow> int \<Rightarrow> 'a \<Rightarrow> 'a gwlist option" where
  "gwlist_insert l pos item = do {
     gw_assert (pos \<ge> 0);
     gw_assert (pos \<le> gl_len l);
     l \<leftarrow> make_bigger l 1;
     l \<leftarrow> insert_shift l pos (gl_len l);
     l \<leftarrow> PUT l pos item;
     Some (l\<lparr>gl_len := gl_len l + 1\<rparr>) }"

section \<open>Deleting and extracting\<close>

definition gwlist_delete :: "'a gwlist \<Rightarrow> int \<Rightarrow> int \<Rightarrow> 'a gwlist option" where
  "gwlist_delete l pos count = delete_items_from_list l pos count"

partial_function (option) delete_matching_loop ::
    "('a \<Rightarrow> bool) \<Rightarrow> 'a gwlist \<Rightarrow> int \<Rightarrow> int \<Rightarrow> ('a gwlist \<times> int) option" where
  "delete_matching_loop p l i count =
     (if i < gl_len l then do {
        it \<leftarrow> GET l i;
        if p it then do {
          l \<leftarrow> delete_items_from_list l i 1;
          delete_matching_loop p l i (count + 1) }
        else delete_matching_loop p l (i + 1) count }
      else Some (l, count))"

definition gwlist_delete_matching ::
    "'a gwlist \<Rightarrow> 'p \<Rightarrow> ('a \<Rightarrow> 'p \<Rightarrow> bool) \<Rightarrow> ('a gwlist \<times> int) option" where
  "gwlist_delete_matching l pat matches = delete_matching_loop (\<lambda>it. matches it pat) l 0 0"

definition gwlist_delete_equal :: "'a gwlist \<Rightarrow> 'a \<Rightarrow> ('a gwlist \<times> int) option" where
  "gwlist_delete_equal l item = delete_matching_loop (\<lambda>it. it = item) l 0 0"

definition gwlist_get :: "'a gwlist \<Rightarrow> int \<Rightarrow> 'a option" where
  "gwlist_get l pos = do {
     gw_assert (pos \<ge> 0);
     gw_assert (pos < gl_len l);
     GET l pos }"

text \<open>The item of \<open>gwlist_extract_first\<close> is NULL, here \<open>None\<close>, when the list is empty.\<close>

definition gwlist_extract_first :: "'a gwlist \<Rightarrow> ('a option \<times> 'a gwlist) option" where
  "gwlist_extract_first l =
     (if gl_len l = 0 then Some (None, l)
      else do {
        item \<leftarrow> GET l 0;
        l \<leftarrow> delete_items_from_list l 0 1;
        Some (Some item, l) })"

partial_function (option) extract_matching_loop ::
    "('a \<Rightarrow> bool) \<Rightarrow> 'a gwlist \<Rightarrow> 'a gwlist \<Rightarrow> int \<Rightarrow> ('a gwlist \<times> 'a gwlist) option" where
  "extract_matching_loop p new_list l i =
     (if i < gl_len l then do {
        it \<leftarrow> GET l i;
        if p it then do {
          new_list \<leftarrow> gwlist_append new_list it;
          l \<leftarrow> delete_items_from_list l i 1;
          extract_matching_loop p new_list l i }
        else extract_matching_loop p new_list l (i + 1) }
      else Some (new_list, l))"

definition gwlist_extract_matching ::
    "'a gwlist \<Rightarrow> 'p \<Rightarrow> ('a \<Rightarrow> 'p \<Rightarrow> bool) \<Rightarrow> ('a gwlist option \<times> 'a gwlist) option" where
  "gwlist_extract_matching l pat cmp = do {
     (new_list, l) \<leftarrow> extract_matching_loop (\<lambda>it. cmp it pat) gwlist_create l 0;
     Some (if gwlist_len (Some new_list) = 0 then None else Some new_list, l) }"

section \<open>Searching\<close>

definition gwlist_search :: "'a gwlist \<Rightarrow> 'p \<Rightarrow> ('a \<Rightarrow> 'p \<Rightarrow> bool) \<Rightarrow> 'a option option" where
  "gwlist_search l pattern cmp = do {
     i \<leftarrow> scan_from l (\<lambda>it. cmp it pattern) 0;
     if i = gl_len l then Some None
     else do { item \<leftarrow> GET l i; Some (Some item) } }"

function search_all_loop :: "'a gwlist \<Rightarrow> ('a \<Rightarrow> bool) \<Rightarrow> 'a gwlist \<Rightarrow> int \<Rightarrow> 'a gwlist option" where
  "search_all_loop l p new_list i =
     (if i < gl_len l then do {
        it \<leftarrow> GET l i;
        new_list \<leftarrow> (if p it then gwlist_append new_list it else Some new_list);
        search_all_loop l p new_list (i + 1) }
      else Some new_list)"
  by pat_completeness auto
termination
  by (relation "measure (\<lambda>(l, p, n, i). nat (gl_len l - i))") auto

declare search_all_loop.simps [simp del]

definition gwlist_search_all ::
    "'a gwlist \<Rightarrow> 'p \<Rightarrow> ('a \<Rightarrow> 'p \<Rightarrow> bool) \<Rightarrow> 'a gwlist option option" where
  "gwlist_search_all l pattern cmp = do {
     new_list \<leftarrow> search_all_loop l (\<lambda>it. cmp it pattern) gwlist_create 0;
     Some (if gwlist_len (Some new_list) = 0 then None else Some new_list) }"

definition gwlist_search_equal :: "'a gwlist \<Rightarrow> 'a \<Rightarrow> int option" where
  "gwlist_search_equal l item = do {
     i \<leftarrow> scan_from l (\<lambda>it. it = item) 0;
     Some (if i = gl_len l then -1 else i) }"

section \<open>Invariant and abstraction\<close>

text \<open>
  \<open>cell l k\<close> is the array cell of item \<open>k\<close>. \<open>gwlist_ok\<close> is the invariant between
  operations, \<open>items\<close> the list that a well-formed structure represents, and \<open>rep l xs\<close>
  says both at once.
\<close>

definition cell :: "'a gwlist \<Rightarrow> nat \<Rightarrow> 'a option" where
  "cell l k = gl_tab l ! ((nat (gl_start l) + k) mod length (gl_tab l))"

definition gwlist_ok :: "'a gwlist \<Rightarrow> bool" where
  "gwlist_ok l \<longleftrightarrow>
     gl_tab_size l = int (length (gl_tab l)) \<and> 0 \<le> gl_start l \<and> 0 \<le> gl_len l \<and>
     gl_len l \<le> gl_tab_size l \<and>
     (gl_start l < gl_tab_size l \<or> gl_start l = 0 \<and> gl_tab_size l = 0) \<and>
     (\<forall>k \<in> {0..<nat (gl_len l)}. cell l k \<noteq> None)"

lemma gwlist_ok_code [code]:
  "gwlist_ok l \<longleftrightarrow>
     gl_tab_size l = int (length (gl_tab l)) \<and> 0 \<le> gl_start l \<and> 0 \<le> gl_len l \<and>
     gl_len l \<le> gl_tab_size l \<and>
     (gl_start l < gl_tab_size l \<or> gl_start l = 0 \<and> gl_tab_size l = 0) \<and>
     list_all (\<lambda>k. \<not> Option.is_none (cell l k)) [0..<nat (gl_len l)]"
  by (simp add: gwlist_ok_def list_all_iff Option.is_none_def)

definition items :: "'a gwlist \<Rightarrow> 'a list" where
  "items l = map (\<lambda>k. the (cell l k)) [0..<nat (gl_len l)]"

definition same_parties :: "'a gwlist \<Rightarrow> 'b gwlist \<Rightarrow> bool" where
  "same_parties l l' \<longleftrightarrow>
     gl_num_producers l' = gl_num_producers l \<and> gl_num_consumers l' = gl_num_consumers l"

definition rep :: "'a gwlist \<Rightarrow> 'a list \<Rightarrow> bool" where
  "rep l xs \<longleftrightarrow>
     gl_tab_size l = int (length (gl_tab l)) \<and> 0 \<le> gl_start l \<and> gl_len l = int (length xs) \<and>
     length xs \<le> length (gl_tab l) \<and>
     (gl_start l < gl_tab_size l \<or> gl_start l = 0 \<and> gl_tab_size l = 0) \<and>
     (\<forall>k < length xs. cell l k = Some (xs ! k))"

lemma rep_iff: "rep l xs \<longleftrightarrow> gwlist_ok l \<and> items l = xs"
proof
  assume r: "rep l xs"
  then have "items l = xs"
    by (auto simp: rep_def items_def intro!: nth_equalityI)
  with r show "gwlist_ok l \<and> items l = xs"
    by (auto simp: rep_def gwlist_ok_def)
next
  assume "gwlist_ok l \<and> items l = xs"
  then show "rep l xs"
    by (auto simp: rep_def items_def gwlist_ok_def)
qed

lemma repD_len: "rep l xs \<Longrightarrow> gl_len l = int (length xs)"
  by (simp add: rep_def)

lemma repD_size: "rep l xs \<Longrightarrow> gl_tab_size l = int (length (gl_tab l))"
  by (simp add: rep_def)

lemma repD_fits: "rep l xs \<Longrightarrow> length xs \<le> length (gl_tab l)"
  by (simp add: rep_def)

lemma repD_cell: "rep l xs \<Longrightarrow> k < length xs \<Longrightarrow> cell l k = Some (xs ! k)"
  by (simp add: rep_def)

lemma repD_start: "rep l xs \<Longrightarrow> 0 \<le> gl_start l"
  by (simp add: rep_def)

lemma same_parties_refl [simp]: "same_parties l l"
  by (simp add: same_parties_def)

lemma same_parties_trans: "same_parties a b \<Longrightarrow> same_parties b c \<Longrightarrow> same_parties a c"
  by (simp add: same_parties_def)

lemma same_parties_upd [simp]:
  "same_parties l (l'\<lparr>gl_tab := t\<rparr>) = same_parties l l'"
  "same_parties l (l'\<lparr>gl_len := n\<rparr>) = same_parties l l'"
  "same_parties l (l'\<lparr>gl_start := m\<rparr>) = same_parties l l'"
  "same_parties l (l'\<lparr>gl_tab_size := m\<rparr>) = same_parties l l'"
  by (simp_all add: same_parties_def)

lemma wrap_mod: "n \<le> a \<Longrightarrow> a < n + n \<Longrightarrow> a mod n = a - (n::nat)"
  by (simp add: le_mod_geq)

lemma ring_less: "k < n \<Longrightarrow> a mod n < (n::nat)"
  by (cases n) simp_all

lemma ring_inj_le:
  assumes "(s + i) mod n = (s + j) mod n" "i \<le> j" "j < (n::nat)"
  shows "i = j"
proof -
  from assms(1) have "n dvd (s + j) - (s + i)"
    using assms(2) by (metis add_le_cancel_left mod_eq_dvd_iff_nat)
  with assms show ?thesis by (auto dest: dvd_imp_le)
qed

lemma ring_inj: "i < n \<Longrightarrow> j < n \<Longrightarrow> (s + i) mod n = (s + j) mod n \<longleftrightarrow> i = (j::nat)"
  by (metis nat_le_linear ring_inj_le)

lemma INDEX_nat:
  assumes "gl_tab_size l = int (length (gl_tab l))" "0 \<le> gl_start l"
  shows "INDEX l (int k) = int ((nat (gl_start l) + k) mod length (gl_tab l))"
  using assms by (simp add: INDEX_def zmod_int)

lemma INDEX_less:
  assumes "gl_tab_size l = int (length (gl_tab l))" "0 \<le> gl_start l" "gl_tab l \<noteq> []"
  shows "0 \<le> INDEX l (int k) \<and> INDEX l (int k) < int (length (gl_tab l))"
  using assms by (simp add: INDEX_nat)

lemma GET_nat:
  assumes "gl_tab_size l = int (length (gl_tab l))" "0 \<le> gl_start l" "gl_tab l \<noteq> []"
  shows "GET l (int k) = cell l k"
  using assms by (simp add: GET_def INDEX_nat rd_def cell_def)

lemma GET_rep: "rep l xs \<Longrightarrow> k < length xs \<Longrightarrow> GET l (int k) = Some (xs ! k)"
  by (subst GET_nat) (auto simp: rep_def)

lemma cell_set_tab:
  assumes "k < length (gl_tab l)" "j < length (gl_tab l)"
    "t = (gl_tab l)[(nat (gl_start l) + k) mod length (gl_tab l) := v]"
  shows "cell (l\<lparr>gl_tab := t\<rparr>) j = (if j = k then v else cell l j)"
  using assms ring_inj [of k "length (gl_tab l)" j "nat (gl_start l)"]
  by (auto simp: cell_def nth_list_update ring_less)

lemma PUT_nat:
  assumes "gl_tab_size l = int (length (gl_tab l))" "0 \<le> gl_start l" "k < length (gl_tab l)"
  shows "PUT l (int k) v =
    Some (l\<lparr>gl_tab := (gl_tab l)[(nat (gl_start l) + k) mod length (gl_tab l) := Some v]\<rparr>)"
  using assms by (simp add: PUT_def INDEX_nat wr_def ring_less)

section \<open>Growing the array keeps the items\<close>

text \<open>
  Cases 2 and 3 of \<open>make_bigger\<close>: the \<open>b\<close> items wrapped to the front of the array are moved
  behind the old end, and what does not fit there to the new front.
\<close>

lemma make_bigger_case2:
  assumes "length tab = n + m" "b \<le> s" "s < n" "b \<le> m"
  shows "runs (memmove tab (int n) 0 (int b)) (\<lambda>t. length t = n + m \<and>
    (\<forall>i. s \<le> i \<and> i < n \<longrightarrow> t ! i = tab ! i) \<and> (\<forall>j < b. t ! ((n + j) mod (n + m)) = tab ! j))"
proof -
  obtain t where t: "memmove tab (int n) 0 (int b) = Some t"
    using assms by (simp add: memmove_def)
  note nth = memmove_nth [OF t]
  have "t ! ((n + j) mod (n + m)) = tab ! j" if "j < b" for j
    using nth [of "n + j"] that assms by simp
  moreover have "t ! i = tab ! i" if "i < n" for i
    using nth [of i] that assms by simp
  ultimately show ?thesis
    using t memmove_length [OF t] assms by simp
qed

lemma make_bigger_case3:
  assumes "length tab = n + m" "b \<le> s" "s < n" "m < b" "0 < m"
  shows "runs (do { t \<leftarrow> memmove tab (int n) 0 (int m); memmove t 0 (int m) (int (b - m)) })
    (\<lambda>t. length t = n + m \<and>
    (\<forall>i. s \<le> i \<and> i < n \<longrightarrow> t ! i = tab ! i) \<and> (\<forall>j < b. t ! ((n + j) mod (n + m)) = tab ! j))"
proof -
  obtain d where b: "b = m + d" using assms(4) less_imp_add_positive by blast
  obtain t1 where t1: "memmove tab (int n) 0 (int m) = Some t1"
    using assms by (simp add: memmove_def)
  have l1: "length t1 = n + m" using memmove_length [OF t1] assms by simp
  obtain t2 where t2: "memmove t1 0 (int m) (int d) = Some t2"
    using l1 assms b by (simp add: memmove_def)
  note nth1 = memmove_nth [OF t1] and nth2 = memmove_nth [OF t2]
  have "t2 ! i = tab ! i" if "s \<le> i" "i < n" for i
    using nth1 [of i] nth2 [of i] that assms b l1 by simp
  moreover have "t2 ! ((n + j) mod (n + m)) = tab ! j" if "j < b" for j
  proof (cases "j < m")
    case True
    then show ?thesis using nth1 [of "n + j"] nth2 [of "n + j"] assms b l1 by simp
  next
    case False
    then obtain i where i: "j = m + i" by (metis le_Suc_ex linorder_not_less)
    with that b have "i < d" by simp
    moreover have "(n + j) mod (n + m) = i"
      using \<open>i < d\<close> b assms i by (simp add: add.assoc [symmetric])
    ultimately show ?thesis
      using nth1 [of j] nth2 [of i] assms b l1 i by (simp add: nat_add_distrib add.commute)
  qed
  ultimately show ?thesis
    using t1 t2 l1 memmove_length [OF t2] b by simp
qed

lemma make_bigger_rep:
  assumes r: "rep l xs" and m: "0 < m"
  shows "runs (make_bigger l (int m)) (\<lambda>l'. rep l' xs \<and> length xs + m \<le> length (gl_tab l') \<and>
    same_parties l l')"
proof (cases "gl_len l + int m \<le> gl_tab_size l")
  case True
  then show ?thesis using r by (auto simp: make_bigger_def rep_def)
next
  case False
  define n s b where "n = length (gl_tab l)" and "s = nat (gl_start l)" and "b = s + length xs - n"
  have sz: "gl_tab_size l = int n" "gl_start l = int s" "gl_len l = int (length xs)"
    and fits: "length xs \<le> n" and st: "s < n \<or> s = 0 \<and> n = 0"
    and cells: "\<And>k. k < length xs \<Longrightarrow> gl_tab l ! ((s + k) mod n) = Some (xs ! k)"
    using r by (auto simp: rep_def n_def s_def cell_def)
  define tab where "tab = gl_tab l @ replicate m None"
  have tab: "gw_realloc (gl_tab l) (int n + int m) = Some tab" "length tab = n + m"
    "\<And>i. i < n \<Longrightarrow> tab ! i = gl_tab l ! i"
    using m by (auto simp: gw_realloc_def tab_def n_def nth_append)
  let ?l' = "\<lambda>t. l\<lparr>gl_tab := t, gl_tab_size := int n + int m\<rparr>"
  have room: "length xs + m \<le> n + m" using fits by simp
  have done_if: "rep (?l' t) xs \<and> length xs + m \<le> length (gl_tab (?l' t)) \<and> same_parties l (?l' t)"
    if "length t = n + m" "\<forall>k < length xs. t ! ((s + k) mod (n + m)) = gl_tab l ! ((s + k) mod n)" for t
    using that sz fits st cells room m by (auto simp: rep_def cell_def)
  show ?thesis
  proof (cases "s + length xs \<le> n")
    case True
    have "tab ! ((s + k) mod (n + m)) = gl_tab l ! ((s + k) mod n)" if "k < length xs" for k
      using that True tab(3) [of "s + k"] by simp
    with True False show ?thesis
      using done_if [of tab] tab sz st by (simp add: make_bigger_def)
  next
    case wrap: False
    then have b: "s + length xs = n + b" "b \<le> s" "s < n" "0 < b"
      using fits st by (auto simp: b_def)
    have moved: "rep (?l' t) xs \<and> length xs + m \<le> length (gl_tab (?l' t)) \<and> same_parties l (?l' t)"
      if t: "length t = n + m" "\<forall>i. s \<le> i \<and> i < n \<longrightarrow> t ! i = tab ! i"
        "\<forall>j < b. t ! ((n + j) mod (n + m)) = tab ! j" for t
    proof (rule done_if [OF t(1)], intro allI impI)
      fix k assume k: "k < length xs"
      show "t ! ((s + k) mod (n + m)) = gl_tab l ! ((s + k) mod n)"
      proof (cases "s + k < n")
        case True
        then show ?thesis using t(2) tab(3) [of "s + k"] by simp
      next
        case False
        then obtain j where j: "s + k = n + j" by (metis le_Suc_ex linorder_not_less)
        with k b have "j < b" "j < n" by linarith+
        then show ?thesis using t(3) tab(3) [of j] by (simp add: j)
      qed
    qed
    have lb: "int (length xs) - (int n - int s) = int b" using b by linarith
    show ?thesis
    proof (cases "b \<le> m")
      case True
      have "runs (memmove tab (int n) 0 (int b)) (\<lambda>t. rep (?l' t) xs \<and>
          length xs + m \<le> length (gl_tab (?l' t)) \<and> same_parties l (?l' t))"
        by (rule runs_mono [OF make_bigger_case2 [OF tab(2) b(2,3) True]]) (use moved in blast)
      with True False wrap show ?thesis
        using tab sz st b lb by (simp add: make_bigger_def runs_bind Let_def)
    next
      case f: False
      have "int b - int m = int (b - m)" using f by simp
      moreover have "runs (do { t \<leftarrow> memmove tab (int n) 0 (int m); memmove t 0 (int m) (int (b - m)) })
        (\<lambda>t. rep (?l' t) xs \<and> length xs + m \<le> length (gl_tab (?l' t)) \<and> same_parties l (?l' t))"
        by (rule runs_mono [OF make_bigger_case3 [OF tab(2) b(2,3)]]) (use moved f m in auto)
      ultimately show ?thesis
        using f False wrap tab sz st b lb by (simp add: make_bigger_def runs_bind Let_def del: of_nat_diff)
    qed
  qed
qed


section \<open>Adding and inserting\<close>

text \<open>\<open>part\<close> describes the array while items are moved: \<open>f k\<close> is the cell of position \<open>k\<close>.\<close>

definition part :: "'a gwlist \<Rightarrow> nat \<Rightarrow> (nat \<Rightarrow> 'a option) \<Rightarrow> bool" where
  "part l n f \<longleftrightarrow>
     gl_tab_size l = int (length (gl_tab l)) \<and> 0 \<le> gl_start l \<and> gl_len l = int n \<and>
     gl_start l < gl_tab_size l \<and> (\<forall>k < length (gl_tab l). cell l k = f k)"

lemma part_PUT:
  assumes "part l n f" "k < length (gl_tab l)"
  shows "runs (PUT l (int k) v) (\<lambda>l'. part l' n (f(k := Some v)) \<and>
    length (gl_tab l') = length (gl_tab l) \<and> same_parties l l')"
proof -
  let ?t = "(gl_tab l)[(nat (gl_start l) + k) mod length (gl_tab l) := Some v]"
  have "PUT l (int k) v = Some (l\<lparr>gl_tab := ?t\<rparr>)"
    using assms by (intro PUT_nat) (auto simp: part_def)
  moreover have "part (l\<lparr>gl_tab := ?t\<rparr>) n (f(k := Some v))"
    using assms by (auto simp: part_def cell_set_tab [OF assms(2) _ refl])
  ultimately show ?thesis by simp
qed

lemma part_GET: "part l n f \<Longrightarrow> k < length (gl_tab l) \<Longrightarrow> GET l (int k) = f k"
  by (subst GET_nat) (auto simp: part_def)

lemma rep_part: "rep l xs \<Longrightarrow> gl_tab l \<noteq> [] \<Longrightarrow> part l (length xs) (cell l)"
  by (auto simp: rep_def part_def)

lemma part_rep:
  "part l n f \<Longrightarrow> length xs \<le> length (gl_tab l) \<Longrightarrow> (\<And>k. k < length xs \<Longrightarrow> f k = Some (xs ! k)) \<Longrightarrow>
   rep (l\<lparr>gl_len := int (length xs)\<rparr>) xs"
  by (auto simp: rep_def part_def cell_def)

lemma add_at_end:
  assumes "rep l xs" "length xs < length (gl_tab l)"
  shows "runs (do { l \<leftarrow> PUT l (gl_len l) x; Some (l\<lparr>gl_len := gl_len l + 1\<rparr>) })
    (\<lambda>l'. rep l' (xs @ [x]) \<and> same_parties l l')"
proof -
  have "part l (length xs) (cell l)" using assms by (intro rep_part) auto
  from part_PUT [OF this assms(2), of x] obtain l' where
    l': "PUT l (int (length xs)) x = Some l'" "part l' (length xs) ((cell l)(length xs := Some x))"
      "length (gl_tab l') = length (gl_tab l)" "same_parties l l'"
    by (rule runsE) auto
  have "rep (l'\<lparr>gl_len := int (length (xs @ [x]))\<rparr>) (xs @ [x])"
    by (rule part_rep [OF l'(2)]) (use assms l'(3) in \<open>auto simp: nth_append repD_cell less_Suc_eq\<close>)
  moreover have "gl_len l' = int (length xs)" using l'(2) by (simp add: part_def)
  ultimately show ?thesis using l' assms by (simp add: repD_len [OF assms(1)] add.commute)
qed

lemma gwlist_append_rep:
  assumes "rep l xs"
  shows "runs (gwlist_append l x) (\<lambda>l'. rep l' (xs @ [x]) \<and> same_parties l l')"
proof -
  have "runs (make_bigger l 1) (\<lambda>l'. rep l' xs \<and> length xs + 1 \<le> length (gl_tab l') \<and> same_parties l l')"
    using make_bigger_rep [OF assms, of 1] by simp
  then show ?thesis
    unfolding gwlist_append_def
    by (rule runs_bindI) (auto intro!: runs_mono [OF add_at_end] elim: same_parties_trans)
qed

lemma gwlist_create_rep: "rep gwlist_create []"
  by (simp add: rep_def gwlist_create_def)

lemma scan_from_rep:
  assumes "rep l xs" "i \<le> length xs"
  shows "scan_from l p (int i) =
    Some (int (i + length (takeWhile (\<lambda>x. \<not> p x) (drop i xs))))"
  using assms(2)
proof (induction "length xs - i" arbitrary: i)
  case 0
  then show ?case using assms(1) by (simp add: scan_from.simps repD_len)
next
  case (Suc d)
  then have i: "i < length xs" by simp
  have step: "scan_from l p (int i + 1) =
      Some (int (Suc i + length (takeWhile (\<lambda>x. \<not> p x) (drop (Suc i) xs))))"
    using Suc.hyps(1) [of "Suc i"] Suc.hyps(2) i by (simp add: add.commute)
  have "drop i xs = xs ! i # drop (Suc i) xs" using i by (simp add: Cons_nth_drop_Suc)
  then show ?case
    using i step by (subst scan_from.simps) (simp add: repD_len [OF assms(1)] GET_rep [OF assms(1)])
qed

lemma takeWhile_full: "length (takeWhile P xs) = length xs \<longleftrightarrow> list_all P xs"
  by (induction xs) auto

lemma gwlist_append_unique_rep:
  assumes "rep l xs"
  shows "runs (gwlist_append_unique l x cmp)
    (\<lambda>l'. rep l' (if \<exists>y \<in> set xs. cmp y x then xs else xs @ [x]) \<and> same_parties l l')"
proof (cases "\<exists>y \<in> set xs. cmp y x")
  case True
  then have "length (takeWhile (\<lambda>y. \<not> cmp y x) xs) \<noteq> length xs"
    by (simp add: takeWhile_full list_all_iff)
  then show ?thesis
    using True assms scan_from_rep [OF assms, of 0 "\<lambda>y. cmp y x"]
    by (simp add: gwlist_append_unique_def repD_len)
next
  case False
  then have "length (takeWhile (\<lambda>y. \<not> cmp y x) xs) = length xs"
    by (simp add: takeWhile_full list_all_iff)
  then have "gwlist_append_unique l x cmp = gwlist_append l x"
    using scan_from_rep [OF assms, of 0 "\<lambda>y. cmp y x"]
    by (simp add: gwlist_append_unique_def gwlist_append_def repD_len [OF assms])
  then show ?thesis using False gwlist_append_rep [OF assms, of x] by simp
qed

lemma insert_shift_part:
  assumes "part l n f" "pos \<le> i" "i < length (gl_tab l)" "\<And>k. pos \<le> k \<Longrightarrow> k < i \<Longrightarrow> f k \<noteq> None"
  shows "runs (insert_shift l (int pos) (int i)) (\<lambda>l'.
    part l' n (\<lambda>k. if pos < k \<and> k \<le> i then f (k - 1) else f k) \<and>
    length (gl_tab l') = length (gl_tab l) \<and> same_parties l l')"
  using assms
proof (induction "i - pos" arbitrary: i l f)
  case 0
  then have "insert_shift l (int pos) (int i) = Some l" by (simp add: insert_shift.simps)
  moreover have "(\<lambda>k. if pos < k \<and> k \<le> i then f (k - 1) else f k) = f"
    using 0 by (auto simp: fun_eq_iff)
  ultimately show ?case using 0 by simp
next
  case (Suc d)
  then obtain j where j: "i = Suc j" "pos \<le> j" by (cases i) auto
  obtain v where v: "f j = Some v" using Suc.prems(4) [of j] j by auto
  have g: "GET l (int j) = Some v" using part_GET [OF Suc.prems(1), of j] Suc.prems(3) j v by simp
  have put: "runs (PUT l (int i) v) (\<lambda>l'. part l' n (f(i := Some v)) \<and>
    length (gl_tab l') = length (gl_tab l) \<and> same_parties l l')"
    by (rule part_PUT [OF Suc.prems(1,3)])
  have "runs (do { l \<leftarrow> PUT l (int i) v; insert_shift l (int pos) (int j) }) (\<lambda>l'.
    part l' n (\<lambda>k. if pos < k \<and> k \<le> i then f (k - 1) else f k) \<and>
    length (gl_tab l') = length (gl_tab l) \<and> same_parties l l')"
  proof (rule runs_bindI [OF put], elim conjE)
    fix l1 assume l1: "part l1 n (f(i := Some v))" "length (gl_tab l1) = length (gl_tab l)" "same_parties l l1"
    have "runs (insert_shift l1 (int pos) (int j)) (\<lambda>l'.
        part l' n (\<lambda>k. if pos < k \<and> k \<le> j then (f(i := Some v)) (k - 1) else (f(i := Some v)) k) \<and>
        length (gl_tab l') = length (gl_tab l1) \<and> same_parties l1 l')"
      by (rule Suc.hyps(1) [OF _ l1(1)]) (use Suc.hyps(2) Suc.prems j l1(2) in auto)
    moreover have "(\<lambda>k. if pos < k \<and> k \<le> j then (f(i := Some v)) (k - 1) else (f(i := Some v)) k) =
        (\<lambda>k. if pos < k \<and> k \<le> i then f (k - 1) else f k)"
      using j v by (auto simp: fun_eq_iff le_Suc_eq)
    ultimately show "runs (insert_shift l1 (int pos) (int j)) (\<lambda>l'.
        part l' n (\<lambda>k. if pos < k \<and> k \<le> i then f (k - 1) else f k) \<and>
        length (gl_tab l') = length (gl_tab l) \<and> same_parties l l')"
      using l1 by (auto elim!: runs_mono elim: same_parties_trans)
  qed
  then show ?case
    using g j by (subst insert_shift.simps) simp
qed

lemma gwlist_insert_rep:
  assumes r: "rep l xs" and p: "pos \<le> length xs"
  shows "runs (gwlist_insert l (int pos) x)
    (\<lambda>l'. rep l' (take pos xs @ x # drop pos xs) \<and> same_parties l l')"
proof -
  let ?f = "\<lambda>l1. (\<lambda>k. if pos < k \<and> k \<le> length xs then cell l1 (k - 1) else cell l1 k)"
  let ?ys = "take pos xs @ x # drop pos xs"
  have mb: "runs (make_bigger l 1) (\<lambda>l'. rep l' xs \<and> length xs + 1 \<le> length (gl_tab l') \<and> same_parties l l')"
    using make_bigger_rep [OF r, of 1] by simp
  have "runs (do { l \<leftarrow> insert_shift l1 (int pos) (gl_len l1); l \<leftarrow> PUT l (int pos) x;
      Some (l\<lparr>gl_len := gl_len l + 1\<rparr>) }) (\<lambda>l'. rep l' ?ys \<and> same_parties l l')"
    if l1: "rep l1 xs \<and> length xs + 1 \<le> length (gl_tab l1) \<and> same_parties l l1" for l1
  proof -
    have "part l1 (length xs) (cell l1)" using l1 by (intro rep_part) auto
    then obtain l2 where l2: "insert_shift l1 (int pos) (int (length xs)) = Some l2"
      "part l2 (length xs) (?f l1)" "length (gl_tab l2) = length (gl_tab l1)" "same_parties l1 l2"
      using insert_shift_part [of l1 "length xs" "cell l1" pos "length xs"] p l1
      by (auto simp: repD_cell elim!: runsE)
    obtain l3 where l3: "PUT l2 (int pos) x = Some l3"
      "part l3 (length xs) ((?f l1)(pos := Some x))" "length (gl_tab l3) = length (gl_tab l2)" "same_parties l2 l3"
      using part_PUT [OF l2(2), of pos x] p l1 l2(3) by (auto elim!: runsE)
    have "rep (l3\<lparr>gl_len := int (length ?ys)\<rparr>) ?ys"
      by (rule part_rep [OF l3(2)])
        (use p l1 l2(3) l3(3) in \<open>auto simp: nth_append nth_Cons' repD_cell min_def\<close>)
    moreover have "gl_len l3 = int (length xs)" using l3(2) by (simp add: part_def)
    moreover have "same_parties l l3"
      using l1 l2(4) l3(4) by (metis same_parties_trans)
    ultimately show ?thesis
      using l1 l2 l3 p by (auto simp: repD_len add.commute)
  qed
  then show ?thesis
    using mb p by (auto simp: gwlist_insert_def repD_len [OF r] runs_bind elim!: runs_mono)
qed


lemma PUT_rep:
  assumes "rep l xs" "k < length xs"
  shows "runs (PUT l (int k) v) (\<lambda>l'. rep l' (xs[k := v]) \<and> same_parties l l')"
proof -
  have ne: "gl_tab l \<noteq> []" "k < length (gl_tab l)" using assms repD_fits [OF assms(1)] by auto
  obtain l' where l': "PUT l (int k) v = Some l'" "part l' (length xs) ((cell l)(k := Some v))"
    "length (gl_tab l') = length (gl_tab l)" "same_parties l l'"
    using part_PUT [OF rep_part [OF assms(1) ne(1)] ne(2), of v] by (auto elim!: runsE)
  have "rep (l'\<lparr>gl_len := int (length (xs[k := v]))\<rparr>) (xs[k := v])"
    by (rule part_rep [OF l'(2)])
      (use assms l'(3) repD_fits [OF assms(1)] in \<open>auto simp: repD_cell nth_list_update\<close>)
  moreover have "l'\<lparr>gl_len := int (length (xs[k := v]))\<rparr> = l'" using l'(2) by (simp add: part_def)
  ultimately show ?thesis using l' by simp
qed

section \<open>Deleting\<close>

lemma delete_shift_part:
  assumes "part l n f" "pos + i + count \<le> n" "n \<le> length (gl_tab l)"
    "\<And>k. pos + i + count \<le> k \<Longrightarrow> k < n \<Longrightarrow> f k \<noteq> None"
  shows "runs (delete_shift l (int pos) (int count) (int i)) (\<lambda>l'.
    part l' n (\<lambda>k. if pos + i \<le> k \<and> k < n - count then f (k + count) else f k) \<and>
    length (gl_tab l') = length (gl_tab l) \<and> same_parties l l')"
  using assms
proof (induction "n - count - pos - i" arbitrary: i l f)
  case 0
  then have "delete_shift l (int pos) (int count) (int i) = Some l"
    by (subst delete_shift.simps) (simp add: part_def)
  moreover have "(\<lambda>k. if pos + i \<le> k \<and> k < n - count then f (k + count) else f k) = f"
    using 0 by (auto simp: fun_eq_iff)
  ultimately show ?case using 0 by simp
next
  case (Suc d)
  then have lt: "pos + i + count < n" by linarith
  obtain v where v: "f (pos + i + count) = Some v" using Suc.prems(4) [of "pos + i + count"] lt by auto
  have g: "GET l (int (pos + i + count)) = Some v"
    using part_GET [OF Suc.prems(1), of "pos + i + count"] Suc.prems(3) lt v by simp
  have put: "runs (PUT l (int (pos + i)) v) (\<lambda>l'. part l' n (f(pos + i := Some v)) \<and>
    length (gl_tab l') = length (gl_tab l) \<and> same_parties l l')"
    by (rule part_PUT [OF Suc.prems(1)]) (use lt Suc.prems(3) in linarith)
  have "runs (do { l \<leftarrow> PUT l (int (pos + i)) v; delete_shift l (int pos) (int count) (int (Suc i)) }) (\<lambda>l'.
    part l' n (\<lambda>k. if pos + i \<le> k \<and> k < n - count then f (k + count) else f k) \<and>
    length (gl_tab l') = length (gl_tab l) \<and> same_parties l l')"
  proof (rule runs_bindI [OF put], elim conjE)
    fix l1 assume l1: "part l1 n (f(pos + i := Some v))" "length (gl_tab l1) = length (gl_tab l)" "same_parties l l1"
    have "runs (delete_shift l1 (int pos) (int count) (int (Suc i))) (\<lambda>l'.
        part l' n (\<lambda>k. if pos + Suc i \<le> k \<and> k < n - count then (f(pos + i := Some v)) (k + count)
          else (f(pos + i := Some v)) k) \<and>
        length (gl_tab l') = length (gl_tab l1) \<and> same_parties l1 l')"
      by (rule Suc.hyps(1) [OF _ l1(1)]) (use Suc.hyps(2) Suc.prems l1(2) lt in auto)
    moreover have "(\<lambda>k. if pos + Suc i \<le> k \<and> k < n - count then (f(pos + i := Some v)) (k + count)
          else (f(pos + i := Some v)) k) =
        (\<lambda>k. if pos + i \<le> k \<and> k < n - count then f (k + count) else f k)"
    proof
      fix k
      show "(if pos + Suc i \<le> k \<and> k < n - count then (f(pos + i := Some v)) (k + count)
          else (f(pos + i := Some v)) k) =
        (if pos + i \<le> k \<and> k < n - count then f (k + count) else f k)"
        using lt v by (cases "k = pos + i") (auto simp: less_diff_conv)
    qed
    ultimately show "runs (delete_shift l1 (int pos) (int count) (int (Suc i))) (\<lambda>l'.
        part l' n (\<lambda>k. if pos + i \<le> k \<and> k < n - count then f (k + count) else f k) \<and>
        length (gl_tab l') = length (gl_tab l) \<and> same_parties l l')"
      using l1 by (auto elim!: runs_mono elim: same_parties_trans)
  qed
  moreover have "int i < gl_len l - int count - int pos" using Suc.prems(1) lt by (simp add: part_def)
  ultimately show ?case
    using g by (subst delete_shift.simps) (simp add: PUT_def algebra_simps runs_bind)
qed

lemma delete_items_rep:
  assumes r: "rep l xs" and p: "pos < length xs" "pos + count \<le> length xs"
  shows "runs (delete_items_from_list l (int pos) (int count))
    (\<lambda>l'. rep l' (take pos xs @ drop (pos + count) xs) \<and> same_parties l l')"
proof -
  define n s where "n = length (gl_tab l)" and "s = nat (gl_start l)"
  have sz: "gl_tab_size l = int n" "gl_start l = int s" "gl_len l = int (length xs)"
    and fits: "length xs \<le> n" and st: "s < n"
    and cells: "\<And>k. k < length xs \<Longrightarrow> gl_tab l ! ((s + k) mod n) = Some (xs ! k)"
    using r p by (auto simp: rep_def n_def s_def cell_def)
  let ?ys = "take pos xs @ drop (pos + count) xs"
  have ys: "length ?ys = length xs - count" "int (length ?ys) = int (length xs) - int count"
    "\<And>k. k < length ?ys \<Longrightarrow> ?ys ! k = xs ! (if k < pos then k else k + count)"
    using p by (auto simp: nth_append add.commute)
  consider "pos = 0" | "pos > 0" "pos + count = length xs"
    | "pos > 0" "pos + count < length xs" "s + length xs < n"
    | "pos > 0" "pos + count < length xs" "n \<le> s + length xs"
    using p by linarith
  then show ?thesis
  proof cases
    case 1
    let ?l' = "l\<lparr>gl_start := (int s + int count) mod int n, gl_len := int (length xs) - int count\<rparr>"
    have "nat ((int s + int count) mod int n) = (s + count) mod n"
      by (simp add: nat_mod_as_int)
    then have "cell ?l' k = Some (drop count xs ! k)" if "k < length xs - count" for k
      using cells [of "count + k"] that p 1 by (simp add: cell_def n_def mod_add_left_eq add.assoc)
    moreover have "0 \<le> (int s + int count) mod int n \<and> (int s + int count) mod int n < int n"
      using st by simp
    ultimately have "rep ?l' ?ys"
      using 1 p fits sz ys(1,2) by (simp add: rep_def n_def)
    then show ?thesis using 1 p sz st by (simp add: delete_items_from_list_def)
  next
    case 2
    then have "rep (l\<lparr>gl_len := int (length xs) - int count\<rparr>) ?ys"
      using r p by (auto simp: rep_def cell_def)
    then show ?thesis using 2 p sz by (simp add: delete_items_from_list_def)
  next
    case 3
    obtain t where t: "memmove (gl_tab l) (int s + int pos) (int s + int pos + int count)
        (int (length xs) - int pos - int count) = Some t"
      using 3 by (auto simp: memmove_def n_def)
    have "t ! (s + k) = Some (?ys ! k)" if k: "k < length ?ys" for k
    proof (cases "k < pos")
      case True
      have "s + k < length (gl_tab l)" using k ys(1) 3(3) by (simp add: n_def)
      then show ?thesis using memmove_nth [OF t, of "s + k"] True cells [of k] ys(3) [OF k] 3 p by simp
    next
      case False
      have "s + k < length (gl_tab l)" using k ys(1) 3(3) by (simp add: n_def)
      moreover have "nat (int (s + k) - (int s + int pos) + (int s + int pos + int count)) = s + (k + count)"
        by linarith
      ultimately show ?thesis
        using memmove_nth [OF t, of "s + k"] False cells [of "k + count"] ys(3) [OF k] ys(1) k 3 p by auto
    qed
    then have "rep (l\<lparr>gl_tab := t, gl_len := int (length xs) - int count\<rparr>) ?ys"
      using sz st fits ys(1,2) memmove_length [OF t] 3 by (auto simp: rep_def cell_def n_def)
    then show ?thesis using 3 p sz t by (simp add: delete_items_from_list_def)
  next
    case 4
    have "part l (length xs) (cell l)" using r st by (intro rep_part) (auto simp: n_def)
    then obtain l' where l': "delete_shift l (int pos) (int count) 0 = Some l'"
      "part l' (length xs) (\<lambda>k. if pos \<le> k \<and> k < length xs - count then cell l (k + count) else cell l k)"
      "length (gl_tab l') = n" "same_parties l l'"
      using delete_shift_part [of l "length xs" "cell l" pos 0 count] p fits r
      by (auto simp: repD_cell n_def elim!: runsE)
    have "rep (l'\<lparr>gl_len := int (length ?ys)\<rparr>) ?ys"
      by (rule part_rep [OF l'(2)])
        (use ys fits p l'(3) cells in \<open>auto simp: cell_def n_def s_def\<close>)
    moreover have "gl_len l' = int (length xs)" using l'(2) by (simp add: part_def)
    ultimately show ?thesis
      using 4 p sz l' ys(2) by (simp add: delete_items_from_list_def)
  qed
qed

lemma delete_one:
  assumes "rep l xs" "i < length xs"
  shows "runs (delete_items_from_list l (int i) 1)
    (\<lambda>l'. rep l' (take i xs @ drop (Suc i) xs) \<and> same_parties l l')"
  using delete_items_rep [OF assms(1), of i 1] assms(2) by simp

lemma delete_matching_loop_rep:
  assumes "rep l xs" "i \<le> length xs"
  shows "runs (delete_matching_loop p l (int i) c) (\<lambda>(l', c').
    rep l' (take i xs @ filter (\<lambda>x. \<not> p x) (drop i xs)) \<and>
    c' = c + int (length (filter p (drop i xs))) \<and> same_parties l l')"
  using assms
proof (induction "length xs - i" arbitrary: i l xs c)
  case 0
  then show ?case by (subst delete_matching_loop.simps) (simp add: repD_len)
next
  case (Suc d)
  then have i: "i < length xs" by simp
  have dr: "drop i xs = xs ! i # drop (Suc i) xs" using i by (simp add: Cons_nth_drop_Suc)
  show ?case
  proof (cases "p (xs ! i)")
    case True
    let ?ys = "take i xs @ drop (Suc i) xs"
    have "runs (delete_matching_loop p l1 (int i) (c + 1)) (\<lambda>(l', c').
        rep l' (take i xs @ filter (\<lambda>x. \<not> p x) (drop i xs)) \<and>
        c' = c + int (length (filter p (drop i xs))) \<and> same_parties l l')"
      if l1: "rep l1 ?ys \<and> same_parties l l1" for l1
      by (rule runs_mono [OF Suc.hyps(1) [of ?ys i l1]])
        (use Suc.hyps(2) l1 i True dr in \<open>auto simp: min_def elim: same_parties_trans\<close>)
    then show ?thesis
      using i True by (subst delete_matching_loop.simps)
        (simp add: repD_len [OF Suc.prems(1)] GET_rep [OF Suc.prems(1)] runs_bindI [OF delete_one [OF Suc.prems(1)]])
  next
    case False
    have "runs (delete_matching_loop p l (int (Suc i)) c) (\<lambda>(l', c').
        rep l' (take i xs @ filter (\<lambda>x. \<not> p x) (drop i xs)) \<and>
        c' = c + int (length (filter p (drop i xs))) \<and> same_parties l l')"
      by (rule runs_mono [OF Suc.hyps(1) [of xs "Suc i" l]])
        (use Suc.hyps(2) Suc.prems i False dr in \<open>auto simp: take_Suc_conv_app_nth\<close>)
    then show ?thesis
      using i False by (subst delete_matching_loop.simps)
        (simp add: repD_len [OF Suc.prems(1)] GET_rep [OF Suc.prems(1)] add.commute)
  qed
qed

lemma gwlist_delete_matching_rep:
  assumes "rep l xs"
  shows "runs (gwlist_delete_matching l pat matches) (\<lambda>(l', c).
    rep l' (filter (\<lambda>x. \<not> matches x pat) xs) \<and> c = int (length (filter (\<lambda>x. matches x pat) xs)) \<and>
    same_parties l l')"
  using delete_matching_loop_rep [OF assms, of 0 "\<lambda>x. matches x pat" 0]
  by (simp add: gwlist_delete_matching_def)

lemma gwlist_delete_equal_rep:
  assumes "rep l xs"
  shows "runs (gwlist_delete_equal l x) (\<lambda>(l', c).
    rep l' (filter (\<lambda>y. y \<noteq> x) xs) \<and> c = int (count_list xs x) \<and> same_parties l l')"
proof -
  have "length (filter (\<lambda>y. y = x) xs) = count_list xs x"
    by (induction xs) auto
  then show ?thesis
    using delete_matching_loop_rep [OF assms, of 0 "\<lambda>y. y = x" 0] by (simp add: gwlist_delete_equal_def)
qed

lemma gwlist_get_rep: "rep l xs \<Longrightarrow> k < length xs \<Longrightarrow> gwlist_get l (int k) = Some (xs ! k)"
  by (simp add: gwlist_get_def repD_len GET_rep)

lemma gwlist_get_out: "rep l xs \<Longrightarrow> pos < 0 \<or> int (length xs) \<le> pos \<Longrightarrow> gwlist_get l pos = None"
  by (auto simp: gwlist_get_def repD_len gw_assert_def)

lemma gwlist_extract_first_rep:
  assumes "rep l xs"
  shows "runs (gwlist_extract_first l) (\<lambda>(x, l').
    x = (if xs = [] then None else Some (hd xs)) \<and> rep l' (tl xs) \<and> same_parties l l')"
proof (cases xs)
  case Nil
  then show ?thesis using assms by (simp add: gwlist_extract_first_def repD_len)
next
  case (Cons y ys)
  then show ?thesis
    using assms delete_one [OF assms, of 0] GET_rep [OF assms, of 0]
    by (auto simp: gwlist_extract_first_def repD_len runs_bind elim!: runs_mono)
qed

lemma extract_matching_loop_rep:
  assumes "rep l xs" "i \<le> length xs" "rep new ns"
  shows "runs (extract_matching_loop p new l (int i)) (\<lambda>(new', l').
    rep new' (ns @ filter p (drop i xs)) \<and>
    rep l' (take i xs @ filter (\<lambda>x. \<not> p x) (drop i xs)) \<and> same_parties l l')"
  using assms
proof (induction "length xs - i" arbitrary: i l xs new ns)
  case 0
  then show ?case by (subst extract_matching_loop.simps) (simp add: repD_len)
next
  case (Suc d)
  then have i: "i < length xs" by simp
  have dr: "drop i xs = xs ! i # drop (Suc i) xs" using i by (simp add: Cons_nth_drop_Suc)
  show ?case
  proof (cases "p (xs ! i)")
    case True
    let ?ys = "take i xs @ drop (Suc i) xs"
    have "runs (extract_matching_loop p new1 l1 (int i)) (\<lambda>(new', l').
        rep new' (ns @ filter p (drop i xs)) \<and>
        rep l' (take i xs @ filter (\<lambda>x. \<not> p x) (drop i xs)) \<and> same_parties l l')"
      if "rep l1 ?ys \<and> same_parties l l1" "rep new1 (ns @ [xs ! i]) \<and> same_parties new new1" for l1 new1
      by (rule runs_mono [OF Suc.hyps(1) [of ?ys i l1 new1 "ns @ [xs ! i]"]])
        (use Suc.hyps(2) that i True dr in \<open>auto simp: min_def elim: same_parties_trans\<close>)
    then have "runs (do { new_list \<leftarrow> gwlist_append new (xs ! i); l \<leftarrow> delete_items_from_list l (int i) 1;
        extract_matching_loop p new_list l (int i) }) (\<lambda>(new', l').
        rep new' (ns @ filter p (drop i xs)) \<and>
        rep l' (take i xs @ filter (\<lambda>x. \<not> p x) (drop i xs)) \<and> same_parties l l')"
      by (intro runs_bindI [OF gwlist_append_rep [OF Suc.prems(3)]] runs_bindI [OF delete_one [OF Suc.prems(1) i]])
        blast
    then show ?thesis
      using i True by (subst extract_matching_loop.simps)
        (simp add: repD_len [OF Suc.prems(1)] GET_rep [OF Suc.prems(1)])
  next
    case False
    have "runs (extract_matching_loop p new l (int (Suc i))) (\<lambda>(new', l').
        rep new' (ns @ filter p (drop i xs)) \<and>
        rep l' (take i xs @ filter (\<lambda>x. \<not> p x) (drop i xs)) \<and> same_parties l l')"
      by (rule runs_mono [OF Suc.hyps(1) [of xs "Suc i" l new ns]])
        (use Suc.hyps(2) Suc.prems i False dr in \<open>auto simp: take_Suc_conv_app_nth\<close>)
    then show ?thesis
      using i False by (subst extract_matching_loop.simps)
        (simp add: repD_len [OF Suc.prems(1)] GET_rep [OF Suc.prems(1)] add.commute)
  qed
qed

lemma gwlist_extract_matching_rep:
  assumes "rep l xs"
  shows "runs (gwlist_extract_matching l pat cmp) (\<lambda>(r, l').
    (case r of None \<Rightarrow> filter (\<lambda>x. cmp x pat) xs = []
      | Some new \<Rightarrow> filter (\<lambda>x. cmp x pat) xs \<noteq> [] \<and> rep new (filter (\<lambda>x. cmp x pat) xs)) \<and>
    rep l' (filter (\<lambda>x. \<not> cmp x pat) xs) \<and> same_parties l l')"
  unfolding gwlist_extract_matching_def
  by (rule runs_bindI [OF extract_matching_loop_rep [OF assms _ gwlist_create_rep, of 0, simplified]])
    (auto simp: gwlist_len_def repD_len)

section \<open>Searching\<close>

lemma takeWhile_hit:
  "\<exists>x \<in> set xs. p x \<Longrightarrow> length (takeWhile (\<lambda>x. \<not> p x) xs) < length xs \<and>
   xs ! length (takeWhile (\<lambda>x. \<not> p x) xs) = the (find p xs)"
  by (induction xs) auto

lemma find_None_takeWhile: "find p xs = None \<longleftrightarrow> length (takeWhile (\<lambda>x. \<not> p x) xs) = length xs"
  by (induction xs) auto

lemma gwlist_search_rep:
  assumes "rep l xs"
  shows "gwlist_search l pat cmp = Some (find (\<lambda>x. cmp x pat) xs)"
proof (cases "find (\<lambda>x. cmp x pat) xs")
  case None
  then show ?thesis
    using scan_from_rep [OF assms, of 0 "\<lambda>x. cmp x pat"] repD_len [OF assms]
    by (simp add: gwlist_search_def None find_None_takeWhile [THEN iffD1])
next
  case (Some y)
  then have "\<exists>x \<in> set xs. cmp x pat" by (auto simp: find_Some_iff)
  from takeWhile_hit [OF this] Some show ?thesis
    using scan_from_rep [OF assms, of 0 "\<lambda>x. cmp x pat"] repD_len [OF assms]
      GET_rep [OF assms, of "length (takeWhile (\<lambda>x. \<not> cmp x pat) xs)"]
    by (simp add: gwlist_search_def)
qed

lemma search_all_loop_rep:
  assumes "rep l xs" "i \<le> length xs" "rep new ns"
  shows "runs (search_all_loop l p new (int i)) (\<lambda>new'. rep new' (ns @ filter p (drop i xs)))"
  using assms(2,3)
proof (induction "length xs - i" arbitrary: i new ns)
  case 0
  then show ?case using assms(1) by (subst search_all_loop.simps) (simp add: repD_len)
next
  case (Suc d)
  then have i: "i < length xs" by simp
  have dr: "drop i xs = xs ! i # drop (Suc i) xs" using i by (simp add: Cons_nth_drop_Suc)
  have sd: "d = length xs - Suc i" using Suc.hyps(2) by simp
  have step: "runs (search_all_loop l p new1 (int i + 1)) (\<lambda>new'. rep new' (ns @ filter p (drop i xs)))"
    if "rep new1 (if p (xs ! i) then ns @ [xs ! i] else ns)" for new1
    using Suc.hyps(1) [OF sd _ that] i dr by (simp add: add.commute split: if_splits)
  have "runs (if p (xs ! i) then gwlist_append new (xs ! i) else Some new)
      (\<lambda>new1. rep new1 (if p (xs ! i) then ns @ [xs ! i] else ns))"
    using Suc.prems(2) gwlist_append_rep [OF Suc.prems(2), of "xs ! i"] by (auto elim!: runs_mono)
  from runs_bindI [OF this step] show ?case
    using i by (subst search_all_loop.simps) (simp add: repD_len [OF assms(1)] GET_rep [OF assms(1)])
qed

lemma gwlist_search_all_rep:
  assumes "rep l xs"
  shows "runs (gwlist_search_all l pat cmp) (\<lambda>r.
    case r of None \<Rightarrow> filter (\<lambda>x. cmp x pat) xs = []
      | Some new \<Rightarrow> filter (\<lambda>x. cmp x pat) xs \<noteq> [] \<and> rep new (filter (\<lambda>x. cmp x pat) xs))"
  unfolding gwlist_search_all_def
  by (rule runs_bindI [OF search_all_loop_rep [OF assms _ gwlist_create_rep, of 0, simplified]])
    (auto simp: gwlist_len_def repD_len)

lemma gwlist_search_equal_rep:
  assumes "rep l xs"
  shows "runs (gwlist_search_equal l x) (\<lambda>i.
    (i = -1 \<and> x \<notin> set xs) \<or> (0 \<le> i \<and> i < int (length xs) \<and> xs ! nat i = x \<and> x \<notin> set (take (nat i) xs)))"
proof -
  let ?k = "length (takeWhile (\<lambda>y. y \<noteq> x) xs)"
  have "x \<notin> set (take ?k xs)"
    by (auto simp: takeWhile_eq_take [symmetric] dest: set_takeWhileD)
  moreover have "?k = length xs \<longleftrightarrow> x \<notin> set xs"
    by (auto simp: takeWhile_full list_all_iff)
  moreover have "x \<in> set xs \<Longrightarrow> ?k < length xs \<and> xs ! ?k = x"
    using nth_length_takeWhile [of "\<lambda>y. y \<noteq> x" xs] length_takeWhile_le [of "\<lambda>y. y \<noteq> x" xs]
    by (metis calculation(2) le_neq_implies_less)
  ultimately show ?thesis
    using scan_from_rep [OF assms, of 0 "\<lambda>y. y = x"] repD_len [OF assms]
    by (auto simp: gwlist_search_equal_def)
qed

end
