(* ===== verification/Gwlist_Sort.thy ===== *)
theory Gwlist_Sort
  imports Gwlist "HOL-Library.Multiset"
begin

text \<open>
  \<open>gwlist_sort\<close> of \<open>gwlib/list.c\<close>: the in-place quicksort over the circular buffer. The
  loops have no termination argument of their own (for an arbitrary comparison function they
  run out of the array), so they are partial functions; for a comparison function that is a
  total preorder (locale \<open>comparison\<close>) the sort returns, and returns a sorted permutation.
\<close>

section \<open>The sorting routine\<close>

partial_function (option) scan_left :: "('a \<Rightarrow> 'a \<Rightarrow> int) \<Rightarrow> 'a \<Rightarrow> 'a gwlist \<Rightarrow> int \<Rightarrow> int option" where
  "scan_left cmp pivot list l = do {
     v \<leftarrow> GET list l;
     if cmp v pivot < 0 then scan_left cmp pivot list (l + 1) else Some l }"

partial_function (option) scan_right :: "('a \<Rightarrow> 'a \<Rightarrow> int) \<Rightarrow> 'a \<Rightarrow> 'a gwlist \<Rightarrow> int \<Rightarrow> int option" where
  "scan_right cmp pivot list r = do {
     v \<leftarrow> GET list r;
     if cmp v pivot > 0 then scan_right cmp pivot list (r - 1) else Some r }"

text \<open>One run of the body of the \<open>do\<close> loop: the two scans and the exchange.\<close>

definition partition_body ::
    "('a \<Rightarrow> 'a \<Rightarrow> int) \<Rightarrow> 'a \<Rightarrow> 'a gwlist \<Rightarrow> int \<Rightarrow> int \<Rightarrow> ('a gwlist \<times> int \<times> int) option" where
  "partition_body cmp pivot list l r = do {
     l \<leftarrow> scan_left cmp pivot list l;
     r \<leftarrow> scan_right cmp pivot list r;
     if l \<le> r then do {
       swap \<leftarrow> GET list l;
       v \<leftarrow> GET list r;
       list \<leftarrow> PUT list l v;
       list \<leftarrow> PUT list r swap;
       Some (list, l + 1, r - 1) }
     else Some (list, l, r) }"

partial_function (option) partition_loop ::
    "('a \<Rightarrow> 'a \<Rightarrow> int) \<Rightarrow> 'a \<Rightarrow> 'a gwlist \<Rightarrow> int \<Rightarrow> int \<Rightarrow> ('a gwlist \<times> int \<times> int) option" where
  "partition_loop cmp pivot list l r = do {
     (list, l, r) \<leftarrow> partition_body cmp pivot list l r;
     if l \<le> r then partition_loop cmp pivot list l r else Some (list, l, r) }"

partial_function (option) quicksort ::
    "('a \<Rightarrow> 'a \<Rightarrow> int) \<Rightarrow> 'a gwlist \<Rightarrow> int \<Rightarrow> int \<Rightarrow> 'a gwlist option" where
  "quicksort cmp list left right =
     (if left < right then do {
        pivot \<leftarrow> GET list right;
        (list, l, r) \<leftarrow> partition_loop cmp pivot list left right;
        list \<leftarrow> quicksort cmp list left r;
        quicksort cmp list l right }
      else Some list)"

definition gwlist_sort :: "'a gwlist \<Rightarrow> ('a \<Rightarrow> 'a \<Rightarrow> int) \<Rightarrow> 'a gwlist option" where
  "gwlist_sort list cmp =
     (if gl_len list = 0 then Some list
      else quicksort cmp list 0 (gl_len list - 1))"

section \<open>Permutations of a segment\<close>

definition perm_on :: "nat \<Rightarrow> nat \<Rightarrow> 'a list \<Rightarrow> 'a list \<Rightarrow> bool" where
  "perm_on a b xs ys \<longleftrightarrow> mset ys = mset xs \<and>
     (\<forall>k < length xs. \<not> (a \<le> k \<and> k < b) \<longrightarrow> ys ! k = xs ! k)"

lemma perm_on_refl [simp]: "perm_on a b xs xs"
  by (simp add: perm_on_def)

lemma perm_on_length: "perm_on a b xs ys \<Longrightarrow> length ys = length xs"
  by (metis perm_on_def size_mset)

lemma perm_on_trans: "perm_on a b xs ys \<Longrightarrow> perm_on a b ys zs \<Longrightarrow> perm_on a b xs zs"
  using perm_on_length [of a b xs ys] by (simp add: perm_on_def)

lemma perm_on_widen: "perm_on a b xs ys \<Longrightarrow> c \<le> a \<Longrightarrow> b \<le> d \<Longrightarrow> perm_on c d xs ys"
  by (auto simp: perm_on_def)

lemma perm_on_swap:
  "a \<le> i \<Longrightarrow> i < b \<Longrightarrow> a \<le> j \<Longrightarrow> j < b \<Longrightarrow> b \<le> length xs \<Longrightarrow> perm_on a b xs (xs[i := xs ! j, j := xs ! i])"
  by (auto simp: perm_on_def mset_swap)

lemma perm_on_seg:
  assumes "perm_on a b xs ys" "a \<le> b" "b \<le> length xs"
  shows "mset (take (b - a) (drop a ys)) = mset (take (b - a) (drop a xs))"
proof -
  have len: "length ys = length xs" using assms(1) by (rule perm_on_length)
  have split: "mset zs = mset (take a zs) + mset (take (b - a) (drop a zs)) + mset (drop b zs)"
    if "length zs = length xs" for zs :: "'a list"
  proof -
    have "zs = take a zs @ take (b - a) (drop a zs) @ drop b zs"
      using assms(2) by (metis append_take_drop_id drop_drop le_add_diff_inverse2)
    then show ?thesis by (metis mset_append add.assoc)
  qed
  have "take a ys = take a xs" "drop b ys = drop b xs"
    using assms len by (auto simp: perm_on_def intro!: nth_equalityI)
  then show ?thesis
    using split [OF len] split [OF refl] assms(1) by (simp add: perm_on_def)
qed

lemma perm_on_all:
  assumes "perm_on a b xs ys" "b \<le> length xs" "\<forall>k. a \<le> k \<and> k < b \<longrightarrow> P (xs ! k)"
  shows "\<forall>k. a \<le> k \<and> k < b \<longrightarrow> P (ys ! k)"
proof (intro allI impI)
  fix k assume k: "a \<le> k \<and> k < b"
  have len: "length ys = length xs" using assms(1) by (rule perm_on_length)
  have "ys ! k = take (b - a) (drop a ys) ! (k - a)" "k - a < length (take (b - a) (drop a ys))"
    using k assms(2) len by auto
  then have "ys ! k \<in># mset (take (b - a) (drop a ys))" by (metis nth_mem set_mset_mset)
  then have "ys ! k \<in> set (take (b - a) (drop a xs))"
    using perm_on_seg [OF assms(1) _ assms(2)] k by auto
  then obtain i where "i < b - a" "ys ! k = xs ! (a + i)"
    using assms(2) by (auto simp: in_set_conv_nth)
  then show "P (ys ! k)" using assms(3) by simp
qed


text \<open>
  The invariant of the partitioning loop, with \<open>l = i\<close>, \<open>r = j - 1\<close> on the segment from
  \<open>a\<close> to \<open>b - 1\<close>; \<open>sentinels\<close> is what keeps the two scans inside the segment.
\<close>

definition part_inv :: "('a \<Rightarrow> 'a \<Rightarrow> int) \<Rightarrow> 'a \<Rightarrow> nat \<Rightarrow> nat \<Rightarrow> 'a list \<Rightarrow> nat \<Rightarrow> nat \<Rightarrow> bool" where
  "part_inv cmp p a b xs i j \<longleftrightarrow> a \<le> i \<and> i \<le> b \<and> a \<le> j \<and> j \<le> b \<and> b \<le> length xs \<and>
     (\<forall>k. a \<le> k \<and> k < i \<longrightarrow> cmp (xs ! k) p \<le> 0) \<and> (\<forall>k. j \<le> k \<and> k < b \<longrightarrow> cmp (xs ! k) p \<ge> 0)"

definition sentinels :: "('a \<Rightarrow> 'a \<Rightarrow> int) \<Rightarrow> 'a \<Rightarrow> nat \<Rightarrow> nat \<Rightarrow> 'a list \<Rightarrow> nat \<Rightarrow> nat \<Rightarrow> bool" where
  "sentinels cmp p a b xs i j \<longleftrightarrow>
     (\<exists>s. i \<le> s \<and> s < b \<and> cmp (xs ! s) p \<ge> 0) \<and> (\<exists>s. a \<le> s \<and> s < j \<and> cmp (xs ! s) p \<le> 0)"

section \<open>Comparison functions\<close>

text \<open>
  What \<open>gwlist_sort\<close> and the priority queue ask of the comparison function: the sign is
  antisymmetric and "not greater" is transitive.
\<close>

locale comparison =
  fixes cmp :: "'a \<Rightarrow> 'a \<Rightarrow> int"
  assumes cmp_sym: "cmp x y < 0 \<longleftrightarrow> cmp y x > 0"
    and cmp_trans: "cmp x y \<le> 0 \<Longrightarrow> cmp y z \<le> 0 \<Longrightarrow> cmp x z \<le> 0"
begin

lemma cmp_refl: "cmp x x = 0"
  using cmp_sym [of x x] by linarith

lemma cmp_flip: "cmp x y \<le> 0 \<longleftrightarrow> cmp y x \<ge> 0"
  using cmp_sym [of y x] by linarith

lemma cmp_total: "cmp x y \<le> 0 \<or> cmp y x \<le> 0"
  using cmp_sym [of y x] by linarith

lemma cmp_trans_ge: "cmp x y \<ge> 0 \<Longrightarrow> cmp y z \<ge> 0 \<Longrightarrow> cmp x z \<ge> 0"
  using cmp_trans [of z y x] cmp_flip by blast

lemma scan_left_stops:
  assumes "rep l xs" "i \<le> j" "j < length xs" "cmp (xs ! j) pivot \<ge> 0"
  shows "runs (scan_left cmp pivot l (int i)) (\<lambda>r. \<exists>i'. r = int i' \<and> i \<le> i' \<and> i' \<le> j \<and>
    (\<forall>k. i \<le> k \<and> k < i' \<longrightarrow> cmp (xs ! k) pivot < 0) \<and> cmp (xs ! i') pivot \<ge> 0)"
  using assms(2)
proof (induction "j - i" arbitrary: i)
  case 0
  then show ?case
    using assms by (subst scan_left.simps) (auto simp: GET_rep [OF assms(1)] intro!: exI [of _ j])
next
  case (Suc d)
  then have i: "i < length xs" "Suc i \<le> j" using assms(3) by linarith+
  show ?case
  proof (cases "cmp (xs ! i) pivot < 0")
    case True
    have "runs (scan_left cmp pivot l (int (Suc i))) (\<lambda>r. \<exists>i'. r = int i' \<and> i \<le> i' \<and> i' \<le> j \<and>
        (\<forall>k. i \<le> k \<and> k < i' \<longrightarrow> cmp (xs ! k) pivot < 0) \<and> cmp (xs ! i') pivot \<ge> 0)"
    proof (rule runs_mono [OF Suc.hyps(1) [OF _ i(2)]])
      show "d = j - Suc i" using Suc.hyps(2) by simp
      fix x
      assume "\<exists>i'. x = int i' \<and> Suc i \<le> i' \<and> i' \<le> j \<and>
        (\<forall>k. Suc i \<le> k \<and> k < i' \<longrightarrow> cmp (xs ! k) pivot < 0) \<and> cmp (xs ! i') pivot \<ge> 0"
      then show "\<exists>i'. x = int i' \<and> i \<le> i' \<and> i' \<le> j \<and>
        (\<forall>k. i \<le> k \<and> k < i' \<longrightarrow> cmp (xs ! k) pivot < 0) \<and> cmp (xs ! i') pivot \<ge> 0"
        using True by (metis Suc_leD Suc_leI le_neq_implies_less)
    qed
    then show ?thesis
      using True i by (subst scan_left.simps) (simp add: GET_rep [OF assms(1)] add.commute)
  next
    case False
    then show ?thesis
      using i by (subst scan_left.simps) (auto simp: GET_rep [OF assms(1)] intro!: exI [of _ i])
  qed
qed

lemma scan_right_stops:
  assumes "rep l xs" "j \<le> i" "i < length xs" "cmp (xs ! j) pivot \<le> 0"
  shows "runs (scan_right cmp pivot l (int i)) (\<lambda>r. \<exists>i'. r = int i' \<and> j \<le> i' \<and> i' \<le> i \<and>
    (\<forall>k. i' < k \<and> k \<le> i \<longrightarrow> cmp (xs ! k) pivot > 0) \<and> cmp (xs ! i') pivot \<le> 0)"
  using assms(2,3)
proof (induction "i - j" arbitrary: i)
  case 0
  then show ?case
    using assms by (subst scan_right.simps) (auto simp: GET_rep [OF assms(1)] intro!: exI [of _ j])
next
  case (Suc d)
  then obtain h where h: "i = Suc h" "j \<le> h" "h < length xs" by (cases i) auto
  show ?case
  proof (cases "cmp (xs ! i) pivot > 0")
    case True
    have "runs (scan_right cmp pivot l (int h)) (\<lambda>r. \<exists>i'. r = int i' \<and> j \<le> i' \<and> i' \<le> i \<and>
        (\<forall>k. i' < k \<and> k \<le> i \<longrightarrow> cmp (xs ! k) pivot > 0) \<and> cmp (xs ! i') pivot \<le> 0)"
    proof (rule runs_mono [OF Suc.hyps(1) [OF _ h(2,3)]])
      show "d = h - j" using Suc.hyps(2) h by simp
      fix x
      assume "\<exists>i'. x = int i' \<and> j \<le> i' \<and> i' \<le> h \<and>
        (\<forall>k. i' < k \<and> k \<le> h \<longrightarrow> cmp (xs ! k) pivot > 0) \<and> cmp (xs ! i') pivot \<le> 0"
      then show "\<exists>i'. x = int i' \<and> j \<le> i' \<and> i' \<le> i \<and>
        (\<forall>k. i' < k \<and> k \<le> i \<longrightarrow> cmp (xs ! k) pivot > 0) \<and> cmp (xs ! i') pivot \<le> 0"
        using True h by (metis le_SucE le_SucI)
    qed
    moreover have "int i - 1 = int h" using h(1) by simp
    ultimately show ?thesis
      using True Suc.prems by (subst scan_right.simps) (simp add: GET_rep [OF assms(1)])
  next
    case False
    then show ?thesis
      using Suc.prems by (subst scan_right.simps) (auto simp: GET_rep [OF assms(1)] intro!: exI [of _ i])
  qed
qed

lemma swap_rep:
  assumes "rep l xs" "i < length xs" "j < length xs"
  shows "runs (do { l \<leftarrow> PUT l (int i) (xs ! j); PUT l (int j) (xs ! i) })
    (\<lambda>l'. rep l' (xs[i := xs ! j, j := xs ! i]) \<and> same_parties l l')"
proof (rule runs_bindI [OF PUT_rep [OF assms(1,2)]])
  fix l1 assume l1: "rep l1 (xs[i := xs ! j]) \<and> same_parties l l1"
  then have "runs (PUT l1 (int j) (xs ! i)) (\<lambda>l'. rep l' (xs[i := xs ! j, j := xs ! i]) \<and> same_parties l1 l')"
    using PUT_rep [of l1 "xs[i := xs ! j]" j "xs ! i"] assms(3) by simp
  then show "runs (PUT l1 (int j) (xs ! i)) (\<lambda>l'. rep l' (xs[i := xs ! j, j := xs ! i]) \<and> same_parties l l')"
    by (rule runs_mono) (use l1 same_parties_trans in blast)
qed

lemma partition_body_step:
  assumes r: "rep l xs" and inv: "part_inv cmp p a b xs i (Suc m)" and sen: "sentinels cmp p a b xs i (Suc m)"
    and im: "i \<le> m"
  shows "runs (partition_body cmp p l (int i) (int m)) (\<lambda>(l', c, d). \<exists>ys i' j'.
    c = int i' \<and> d = int j' - 1 \<and> rep l' ys \<and> same_parties l l' \<and> perm_on a b xs ys \<and>
    part_inv cmp p a b ys i' j' \<and> i \<le> i' \<and> j' \<le> Suc m \<and>
    (i' < j' \<longrightarrow> sentinels cmp p a b ys i' j' \<and> j' - i' < Suc m - i) \<and>
    (cmp (xs ! m) p = 0 \<longrightarrow> i < i' \<and> j' \<le> m))"
proof -
  have b: "b \<le> length xs" "a \<le> i" "Suc m \<le> b" using inv by (auto simp: part_inv_def)
  obtain s where s: "i \<le> s" "s < b" "cmp (xs ! s) p \<ge> 0" "cmp (xs ! m) p = 0 \<longrightarrow> s \<le> m"
  proof (cases "cmp (xs ! m) p = 0")
    case True
    then show ?thesis using that [of m] b im by simp
  next
    case False
    then show ?thesis using that sen by (auto simp: sentinels_def)
  qed
  obtain t where t: "a \<le> t" "t \<le> m" "cmp (xs ! t) p \<le> 0"
    using sen by (auto simp: sentinels_def)
  obtain l1 where l1: "scan_left cmp p l (int i) = Some (int l1)" "i \<le> l1" "l1 \<le> s"
    "\<forall>k. i \<le> k \<and> k < l1 \<longrightarrow> cmp (xs ! k) p < 0" "cmp (xs ! l1) p \<ge> 0"
    using scan_left_stops [OF r s(1) _ s(3)] s(2) b by (auto elim!: runsE)
  obtain r1 where r1: "scan_right cmp p l (int m) = Some (int r1)" "t \<le> r1" "r1 \<le> m"
    "\<forall>k. r1 < k \<and> k \<le> m \<longrightarrow> cmp (xs ! k) p > 0" "cmp (xs ! r1) p \<le> 0"
    using scan_right_stops [OF r t(2) _ t(3)] b by (auto elim!: runsE)
  have low: "cmp (xs ! k) p \<le> 0" if "a \<le> k" "k < l1" for k
    using that inv l1(4) by (cases "k < i") (auto simp: part_inv_def intro: less_imp_le)
  have high: "cmp (xs ! k) p \<ge> 0" if "r1 < k" "k < b" for k
    using that inv r1(4) by (cases "k \<le> m") (auto simp: part_inv_def intro: less_imp_le)
  have lb: "l1 < b" "r1 < b" "a \<le> r1" using l1 s r1 t b by linarith+
  have len: "l1 < length xs" "r1 < length xs" using lb b by linarith+
  show ?thesis
  proof (cases "l1 \<le> r1")
    case True
    define ys where "ys = xs[l1 := xs ! r1, r1 := xs ! l1]"
    have perm: "perm_on a b xs ys" unfolding ys_def by (rule perm_on_swap) (use lb b l1 in linarith)+
    have lowy: "cmp (ys ! k) p \<le> 0" if "a \<le> k" "k < Suc l1" for k
      using that low [of k] r1(5) True len l1(5) unfolding ys_def
      by (cases "k = l1"; cases "l1 = r1") (auto simp: nth_list_update)
    have highy: "cmp (ys ! k) p \<ge> 0" if "r1 \<le> k" "k < b" for k
      using that high [of k] l1(5) True len r1(5) unfolding ys_def
      by (cases "k = r1"; cases "l1 = r1") (auto simp: nth_list_update)
    have pinv: "part_inv cmp p a b ys (Suc l1) r1"
      using lb b l1(2) lowy highy perm_on_length [OF perm] by (auto simp: part_inv_def)
    have psen: "sentinels cmp p a b ys (Suc l1) r1" if "Suc l1 < r1"
      unfolding sentinels_def
      using that lowy [of l1] highy [of r1] lb b l1(2) by (intro conjI exI [of _ r1] exI [of _ l1]) auto
    have "partition_body cmp p l (int i) (int m) =
        do { l \<leftarrow> do { l \<leftarrow> PUT l (int l1) (xs ! r1); PUT l (int r1) (xs ! l1) };
             Some (l, int (Suc l1), int r1 - 1) }"
      using True l1(1) r1(1) GET_rep [OF r len(1)] GET_rep [OF r len(2)]
      by (simp add: partition_body_def add.commute)
    then show ?thesis
      by (simp only:) (rule runs_bindI [OF swap_rep [OF r len]], unfold runs_Some prod.case,
        rule exI [of _ ys], rule exI [of _ "Suc l1"], rule exI [of _ r1],
        use perm pinv psen l1(2) r1(3) im in \<open>auto simp: ys_def [symmetric]\<close>)
  next
    case False
    have "part_inv cmp p a b xs l1 (Suc r1)"
      using lb b l1(2) low high by (auto simp: part_inv_def)
    moreover have "cmp (xs ! m) p \<noteq> 0"
    proof
      assume z: "cmp (xs ! m) p = 0"
      then have "r1 = m" using r1(3,4) by (metis le_neq_implies_less less_irrefl order_refl)
      then show False using z s(4) l1(3) False by simp
    qed
    moreover have "partition_body cmp p l (int i) (int m) = Some (l, int l1, int r1)"
      using False l1(1) r1(1) by (simp add: partition_body_def)
    ultimately show ?thesis
      using False l1(2) r1(3) r perm_on_refl
      by (simp only: runs_Some prod.case)
        (rule exI [of _ xs], rule exI [of _ l1], rule exI [of _ "Suc r1"], simp)
  qed
qed

lemma partition_loop_rep:
  assumes "rep l xs" "part_inv cmp p a b xs i (Suc m)" "sentinels cmp p a b xs i (Suc m)" "i \<le> m"
  shows "runs (partition_loop cmp p l (int i) (int m)) (\<lambda>(l', c, d). \<exists>ys i' j'.
    c = int i' \<and> d = int j' - 1 \<and> rep l' ys \<and> same_parties l l' \<and> perm_on a b xs ys \<and>
    part_inv cmp p a b ys i' j' \<and> j' \<le> i' \<and> i \<le> i' \<and> j' \<le> Suc m \<and>
    (cmp (xs ! m) p = 0 \<longrightarrow> i < i' \<and> j' \<le> m))"
  using assms
proof (induction "Suc m - i" arbitrary: i m l xs rule: less_induct)
  case less
  from partition_body_step [OF less.prems] obtain l1 ys i' j' where
    eq: "partition_body cmp p l (int i) (int m) = Some (l1, int i', int j' - 1)" and
    *: "rep l1 ys" "same_parties l l1" "perm_on a b xs ys" "part_inv cmp p a b ys i' j'"
      "i \<le> i'" "j' \<le> Suc m"
      "i' < j' \<longrightarrow> sentinels cmp p a b ys i' j' \<and> j' - i' < Suc m - i"
      "cmp (xs ! m) p = 0 \<longrightarrow> i < i' \<and> j' \<le> m"
    by (auto elim!: runsE)
    let ?P = "\<lambda>(l', c, d). \<exists>ys i' j'.
      c = int i' \<and> d = int j' - 1 \<and> rep l' ys \<and> same_parties l l' \<and> perm_on a b xs ys \<and>
      part_inv cmp p a b ys i' j' \<and> j' \<le> i' \<and> i \<le> i' \<and> j' \<le> Suc m \<and>
      (cmp (xs ! m) p = 0 \<longrightarrow> i < i' \<and> j' \<le> m)"
    have more: "runs (partition_loop cmp p l1 (int i') (int j' - 1)) ?P" if lt: "i' < j'"
    proof -
      obtain m' where m': "j' = Suc m'" "i' \<le> m'" using lt by (cases j') auto
      then have "int j' - 1 = int m'" by simp
      moreover have "runs (partition_loop cmp p l1 (int i') (int m')) ?P"
      proof (rule runs_mono [OF less.hyps [of m' i' l1 ys]])
        show "Suc m' - i' < Suc m - i" "sentinels cmp p a b ys i' (Suc m')"
          using *(7) lt m' by auto
        show "rep l1 ys" "part_inv cmp p a b ys i' (Suc m')" "i' \<le> m'" using * m' by auto
        fix x
        assume x: "case x of (l', c, d) \<Rightarrow> \<exists>zs i'' j''. c = int i'' \<and> d = int j'' - 1 \<and> rep l' zs \<and>
          same_parties l1 l' \<and> perm_on a b ys zs \<and> part_inv cmp p a b zs i'' j'' \<and> j'' \<le> i'' \<and> i' \<le> i'' \<and>
          j'' \<le> Suc m' \<and> (cmp (ys ! m') p = 0 \<longrightarrow> i' < i'' \<and> j'' \<le> m')"
        obtain l' c d where [simp]: "x = (l', c, d)" by (cases x)
        from x obtain zs i'' j'' where z: "c = int i''" "d = int j'' - 1" "rep l' zs" "same_parties l1 l'"
          "perm_on a b ys zs" "part_inv cmp p a b zs i'' j''" "j'' \<le> i''" "i' \<le> i''" "j'' \<le> Suc m'"
          by auto
        show "?P x"
          unfolding \<open>x = _\<close> prod.case
          by (rule exI [of _ zs], rule exI [of _ i''], rule exI [of _ j''])
            (use z * m' perm_on_trans [OF *(3) z(5)] same_parties_trans [OF *(2) z(4)] in auto)
      qed
      ultimately show ?thesis by simp
    qed
    have stop: "?P (l1, int i', int j' - 1)" if "\<not> i' < j'"
      unfolding prod.case
      by (rule exI [of _ ys], rule exI [of _ i'], rule exI [of _ j']) (use that * in auto)
    show ?case
      using more stop by (subst partition_loop.simps) (auto simp: eq)
qed

lemma quicksort_rep:
  assumes "rep l xs" "a \<le> b" "b \<le> length xs"
  shows "runs (quicksort cmp l (int a) (int b - 1)) (\<lambda>l'. \<exists>ys. rep l' ys \<and> same_parties l l' \<and>
    perm_on a b xs ys \<and> (\<forall>i j. a \<le> i \<and> i < j \<and> j < b \<longrightarrow> cmp (ys ! i) (ys ! j) \<le> 0))"
  using assms
proof (induction "b - a" arbitrary: a b l xs rule: less_induct)
  case less
  show ?case
  proof (cases "Suc a < b")
    case False
    then show ?thesis
      using less.prems by (subst quicksort.simps) (auto intro!: exI [of _ xs])
  next
    case True
    then obtain m where m: "b = Suc m" "a < m" by (cases b) auto
    let ?p = "xs ! m"
    have pl: "runs (partition_loop cmp ?p l (int a) (int m)) (\<lambda>(l', c, d). \<exists>ys i' j'.
      c = int i' \<and> d = int j' - 1 \<and> rep l' ys \<and> same_parties l l' \<and> perm_on a b xs ys \<and>
      part_inv cmp ?p a b ys i' j' \<and> j' \<le> i' \<and> a \<le> i' \<and> j' \<le> Suc m \<and>
      (cmp (xs ! m) ?p = 0 \<longrightarrow> a < i' \<and> j' \<le> m))"
      by (rule partition_loop_rep [OF less.prems(1)])
        (use m less.prems cmp_refl in \<open>auto simp: part_inv_def sentinels_def intro!: exI [of _ m]\<close>)
    let ?Q = "\<lambda>l'. \<exists>ys. rep l' ys \<and> same_parties l l' \<and>
      perm_on a b xs ys \<and> (\<forall>i j. a \<le> i \<and> i < j \<and> j < b \<longrightarrow> cmp (ys ! i) (ys ! j) \<le> 0)"
    have "runs (do { l \<leftarrow> quicksort cmp l1 (int a) (int j' - 1); quicksort cmp l (int i') (int m) }) ?Q"
      if *: "rep l1 ys" "same_parties l l1" "perm_on a b xs ys" "part_inv cmp ?p a b ys i' j'" "j' \<le> i'"
        "a < i'" "j' \<le> m" for l1 ys i' j'
    proof -
      have len: "length ys = length xs" using *(3) by (rule perm_on_length)
      have bounds: "a \<le> j'" "i' \<le> b" "b \<le> length ys" using *(4) less.prems(3) len by (auto simp: part_inv_def)
      have lt: "j' - a < b - a" "j' \<le> length ys" "b - i' < b - a" using *(6,7) m bounds by linarith+
      obtain l2 ys1 where y1: "quicksort cmp l1 (int a) (int j' - 1) = Some l2" "rep l2 ys1" "same_parties l1 l2"
        "perm_on a j' ys ys1" "\<forall>i j. a \<le> i \<and> i < j \<and> j < j' \<longrightarrow> cmp (ys1 ! i) (ys1 ! j) \<le> 0"
        using less.hyps [OF lt(1) *(1) bounds(1)] lt(2) by (auto elim!: runsE)
      have len1: "length ys1 = length ys" using y1(4) by (rule perm_on_length)
      obtain l3 zs where z: "quicksort cmp l2 (int i') (int m) = Some l3" "rep l3 zs" "same_parties l2 l3"
        "perm_on i' b ys1 zs" "\<forall>i j. i' \<le> i \<and> i < j \<and> j < b \<longrightarrow> cmp (zs ! i) (zs ! j) \<le> 0"
        using less.hyps [OF lt(3) y1(2) bounds(2)] len1 bounds(3) m(1) by (auto elim!: runsE)
      have "perm_on a b ys ys1" "perm_on a b ys1 zs"
        using y1(4) z(4) bounds *(5) by (auto elim!: perm_on_widen)
      then have perm: "perm_on a b xs zs" using *(3) by (blast intro: perm_on_trans)
      have eq1: "ys1 ! k = ys ! k" if "j' \<le> k" "k < b" for k
        using y1(4) that bounds by (simp add: perm_on_def)
      have eq2: "zs ! k = ys1 ! k" if "k < i'" for k
        using z(4) that bounds len1 by (simp add: perm_on_def)
      have "\<forall>k. a \<le> k \<and> k < j' \<longrightarrow> cmp (ys1 ! k) ?p \<le> 0"
        by (rule perm_on_all [OF y1(4)]) (use *(4,5) bounds in \<open>auto simp: part_inv_def\<close>)
      then have low: "cmp (zs ! k) ?p \<le> 0" if "a \<le> k" "k < i'" for k
        using that eq1 [of k] eq2 [of k] *(4) bounds by (cases "k < j'") (auto simp: part_inv_def)
      have "\<forall>k. i' \<le> k \<and> k < b \<longrightarrow> cmp (ys1 ! k) ?p \<ge> 0"
        using eq1 *(4,5) by (auto simp: part_inv_def)
      then have "\<forall>k. i' \<le> k \<and> k < b \<longrightarrow> cmp (zs ! k) ?p \<ge> 0"
        by (rule perm_on_all [OF z(4), rotated]) (use bounds len1 in simp)
      then have high: "cmp (zs ! k) ?p \<ge> 0" if "j' \<le> k" "k < b" for k
        using that eq1 [of k] eq2 [of k] *(4) by (cases "k < i'") (auto simp: part_inv_def)
      have "cmp (zs ! i) (zs ! j) \<le> 0" if "a \<le> i" "i < j" "j < b" for i j
      proof -
        consider "j < j'" | "i' \<le> i" | "i < i'" "j' \<le> j" by linarith
        then show ?thesis
        proof cases
          case 1
          then show ?thesis using that y1(5) eq2 [of i] eq2 [of j] *(5) by simp
        next
          case 2
          then show ?thesis using that z(5) by simp
        next
          case 3
          then show ?thesis using low [of i] high [of j] that cmp_trans [of "zs ! i" ?p "zs ! j"] cmp_flip by blast
        qed
      qed
      then show ?thesis
        using y1(1,3) z(1-3) perm *(2) by (auto intro!: exI [of _ zs] intro: same_parties_trans)
    qed
    then have "runs (do { (l, c, d) \<leftarrow> partition_loop cmp ?p l (int a) (int m);
        l \<leftarrow> quicksort cmp l (int a) d; quicksort cmp l c (int m) }) ?Q"
      using pl cmp_refl by (auto simp: runs_bind elim!: runs_mono)
    then show ?thesis
      using m less.prems by (subst quicksort.simps) (simp add: GET_rep)
  qed
qed

lemma gwlist_sort_rep:
  assumes "rep l xs"
  shows "runs (gwlist_sort l cmp) (\<lambda>l'. \<exists>ys. rep l' ys \<and> mset ys = mset xs \<and>
    sorted_wrt (\<lambda>x y. cmp x y \<le> 0) ys \<and> same_parties l l')"
proof (cases xs)
  case Nil
  then show ?thesis using assms by (auto simp: gwlist_sort_def repD_len intro!: exI [of _ "[]"])
next
  case (Cons x ws)
  have "runs (quicksort cmp l (int 0) (int (length xs) - 1)) (\<lambda>l'. \<exists>ys. rep l' ys \<and> same_parties l l' \<and>
    perm_on 0 (length xs) xs ys \<and> (\<forall>i j. 0 \<le> i \<and> i < j \<and> j < length xs \<longrightarrow> cmp (ys ! i) (ys ! j) \<le> 0))"
    by (rule quicksort_rep [OF assms]) simp_all
  then have "runs (quicksort cmp l (int 0) (int (length xs) - 1)) (\<lambda>l'. \<exists>ys. rep l' ys \<and> mset ys = mset xs \<and>
    sorted_wrt (\<lambda>x y. cmp x y \<le> 0) ys \<and> same_parties l l')"
  proof (rule runs_mono)
    fix l'
    assume "\<exists>ys. rep l' ys \<and> same_parties l l' \<and> perm_on 0 (length xs) xs ys \<and>
      (\<forall>i j. 0 \<le> i \<and> i < j \<and> j < length xs \<longrightarrow> cmp (ys ! i) (ys ! j) \<le> 0)"
    then obtain ys where ys: "rep l' ys" "same_parties l l'" "perm_on 0 (length xs) xs ys"
      "\<forall>i j. 0 \<le> i \<and> i < j \<and> j < length xs \<longrightarrow> cmp (ys ! i) (ys ! j) \<le> 0" by blast
    then have "sorted_wrt (\<lambda>x y. cmp x y \<le> 0) ys"
      by (simp add: sorted_wrt_iff_nth_less perm_on_length)
    with ys show "\<exists>ys. rep l' ys \<and> mset ys = mset xs \<and>
      sorted_wrt (\<lambda>x y. cmp x y \<le> 0) ys \<and> same_parties l l'"
      by (auto simp: perm_on_def)
  qed
  then show ?thesis using Cons by (simp add: gwlist_sort_def repD_len [OF assms])
qed

end

end
