(* ===== verification/Prioqueue.thy ===== *)
theory Prioqueue
  imports Gwlist_Sort
begin

text \<open>
  The priority queue of \<open>gwlib/gw-prioqueue.c\<close>: a binary heap in an array whose cell 0 holds a
  marker with a NULL item. Elements carry a sequence number, so that items of equal priority
  leave in the order they came. Sizes count pointers where the C code counts octets. The mutex
  makes every operation atomic; \<open>gw_prioqueue_consume\<close> is the part after its wait.
\<close>

section \<open>State\<close>

record 'a element =
  el_item :: "'a option"
  el_seq :: int

record 'a prioqueue =
  pq_tab :: "'a element cells"
  pq_size :: int
  pq_len :: int
  pq_producers :: int
  pq_seq :: int
  pq_cmp :: "'a \<Rightarrow> 'a \<Rightarrow> int"

section \<open>Operations\<close>

definition pq_make_bigger :: "'a prioqueue \<Rightarrow> int \<Rightarrow> 'a prioqueue option" where
  "pq_make_bigger queue n = do {
     let size = pq_size queue;
     let new_size = pq_len queue + n;
     if size \<ge> new_size then Some queue
     else do {
       tab \<leftarrow> gw_realloc (pq_tab queue) new_size;
       Some (queue\<lparr>pq_tab := tab, pq_size := new_size\<rparr>) } }"

text \<open>The comparison function must not be given the NULL item of the marker.\<close>

definition pq_compare :: "'a element \<Rightarrow> 'a element \<Rightarrow> ('a \<Rightarrow> 'a \<Rightarrow> int) \<Rightarrow> int option" where
  "pq_compare a b cmp = do {
     x \<leftarrow> el_item a;
     y \<leftarrow> el_item b;
     let rc = cmp x y;
     Some (if rc = 0 then if el_seq a < el_seq b then 1 else if el_seq a > el_seq b then -1 else rc
           else rc) }"

partial_function (option) upheap_loop ::
    "('a \<Rightarrow> 'a \<Rightarrow> int) \<Rightarrow> 'a element \<Rightarrow> 'a element cells \<Rightarrow> int \<Rightarrow> ('a element cells \<times> int) option" where
  "upheap_loop cmp v tab index = do {
     p \<leftarrow> rd tab (cdiv index 2);
     if el_item p \<noteq> None then do {
       c \<leftarrow> pq_compare p v cmp;
       if c < 0 then do {
         tab \<leftarrow> wr tab index p;
         upheap_loop cmp v tab (cdiv index 2) }
       else Some (tab, index) }
     else Some (tab, index) }"

definition upheap :: "'a prioqueue \<Rightarrow> int \<Rightarrow> 'a prioqueue option" where
  "upheap queue index = do {
     v \<leftarrow> rd (pq_tab queue) index;
     (tab, index) \<leftarrow> upheap_loop (pq_cmp queue) v (pq_tab queue) index;
     tab \<leftarrow> wr tab index v;
     Some (queue\<lparr>pq_tab := tab\<rparr>) }"

definition biggest_child :: "('a \<Rightarrow> 'a \<Rightarrow> int) \<Rightarrow> int \<Rightarrow> 'a element cells \<Rightarrow> int \<Rightarrow> int option" where
  "biggest_child cmp len tab j =
     (if j < len then do {
        a \<leftarrow> rd tab j;
        b \<leftarrow> rd tab (j + 1);
        c \<leftarrow> pq_compare a b cmp;
        Some (if c < 0 then j + 1 else j) }
      else Some j)"

partial_function (option) downheap_loop ::
    "('a \<Rightarrow> 'a \<Rightarrow> int) \<Rightarrow> int \<Rightarrow> 'a element \<Rightarrow> 'a element cells \<Rightarrow> int \<Rightarrow> ('a element cells \<times> int) option" where
  "downheap_loop cmp len v tab index =
     (if index \<le> cdiv len 2 then do {
        j \<leftarrow> biggest_child cmp len tab (2 * index);
        w \<leftarrow> rd tab j;
        c \<leftarrow> pq_compare v w cmp;
        if c \<ge> 0 then Some (tab, index)
        else do {
          tab \<leftarrow> wr tab index w;
          downheap_loop cmp len v tab j } }
      else Some (tab, index))"

definition downheap :: "'a prioqueue \<Rightarrow> int \<Rightarrow> 'a prioqueue option" where
  "downheap queue index = do {
     v \<leftarrow> rd (pq_tab queue) index;
     (tab, index) \<leftarrow> downheap_loop (pq_cmp queue) (pq_len queue) v (pq_tab queue) index;
     tab \<leftarrow> wr tab index v;
     Some (queue\<lparr>pq_tab := tab\<rparr>) }"

definition gw_prioqueue_create :: "('a \<Rightarrow> 'a \<Rightarrow> int) \<Rightarrow> 'a prioqueue option" where
  "gw_prioqueue_create cmp = do {
     queue \<leftarrow> pq_make_bigger \<lparr>pq_tab = [], pq_size = 0, pq_len = 0, pq_producers = 0, pq_seq = 0, pq_cmp = cmp\<rparr> 1;
     tab \<leftarrow> wr (pq_tab queue) 0 \<lparr>el_item = None, el_seq = pq_seq queue\<rparr>;
     Some (queue\<lparr>pq_tab := tab, pq_seq := pq_seq queue + 1, pq_len := pq_len queue + 1\<rparr>) }"

definition gw_prioqueue_len :: "'a prioqueue option \<Rightarrow> int" where
  "gw_prioqueue_len q = (case q of None \<Rightarrow> 0 | Some queue \<Rightarrow> pq_len queue - 1)"

definition gw_prioqueue_insert :: "'a prioqueue \<Rightarrow> 'a option \<Rightarrow> 'a prioqueue option" where
  "gw_prioqueue_insert queue item = do {
     gw_assert (item \<noteq> None);
     queue \<leftarrow> pq_make_bigger queue 1;
     tab \<leftarrow> wr (pq_tab queue) (pq_len queue) \<lparr>el_item = item, el_seq = pq_seq queue\<rparr>;
     queue \<leftarrow> upheap (queue\<lparr>pq_tab := tab, pq_seq := pq_seq queue + 1\<rparr>) (pq_len queue);
     Some (queue\<lparr>pq_len := pq_len queue + 1\<rparr>) }"

function foreach_loop :: "('a option \<Rightarrow> int \<Rightarrow> 's \<Rightarrow> 's) \<Rightarrow> 'a prioqueue \<Rightarrow> int \<Rightarrow> 's \<Rightarrow> 's option" where
  "foreach_loop fn queue i s =
     (if i < pq_len queue then do {
        e \<leftarrow> rd (pq_tab queue) i;
        foreach_loop fn queue (i + 1) (fn (el_item e) (i - 1) s) }
      else Some s)"
  by pat_completeness auto
termination
  by (relation "measure (\<lambda>(fn, queue, i, s). nat (pq_len queue - i))") auto

declare foreach_loop.simps [simp del]

definition gw_prioqueue_foreach :: "'a prioqueue \<Rightarrow> ('a option \<Rightarrow> int \<Rightarrow> 's \<Rightarrow> 's) \<Rightarrow> 's \<Rightarrow> 's option" where
  "gw_prioqueue_foreach queue fn s = foreach_loop fn queue 1 s"

text \<open>The common part of \<open>gw_prioqueue_remove\<close> and \<open>gw_prioqueue_consume\<close>.\<close>

definition take_root :: "'a prioqueue \<Rightarrow> ('a option \<times> 'a prioqueue) option" where
  "take_root queue = do {
     e \<leftarrow> rd (pq_tab queue) 1;
     let ret = el_item e;
     let len = pq_len queue - 1;
     last \<leftarrow> rd (pq_tab queue) len;
     tab \<leftarrow> wr (pq_tab queue) 1 last;
     queue \<leftarrow> downheap (queue\<lparr>pq_tab := tab, pq_len := len\<rparr>) 1;
     Some (ret, queue) }"

definition gw_prioqueue_remove :: "'a prioqueue \<Rightarrow> ('a option \<times> 'a prioqueue) option" where
  "gw_prioqueue_remove queue = (if pq_len queue \<le> 1 then Some (None, queue) else take_root queue)"

definition gw_prioqueue_get :: "'a prioqueue \<Rightarrow> 'a option option" where
  "gw_prioqueue_get queue =
     (if pq_len queue > 1 then do { e \<leftarrow> rd (pq_tab queue) 1; Some (el_item e) } else Some None)"

definition pq_must_wait :: "'a prioqueue \<Rightarrow> bool" where
  "pq_must_wait queue \<longleftrightarrow> pq_len queue = 1 \<and> pq_producers queue > 0"

text \<open>A thread that runs alone does not return while it would have to wait.\<close>

definition gw_prioqueue_consume :: "'a prioqueue \<Rightarrow> ('a option \<times> 'a prioqueue) option" where
  "gw_prioqueue_consume queue =
     (if pq_must_wait queue then None
      else if pq_len queue > 1 then take_root queue
      else Some (None, queue))"

definition gw_prioqueue_add_producer :: "'a prioqueue \<Rightarrow> 'a prioqueue" where
  "gw_prioqueue_add_producer queue = queue\<lparr>pq_producers := pq_producers queue + 1\<rparr>"

definition gw_prioqueue_remove_producer :: "'a prioqueue \<Rightarrow> 'a prioqueue option" where
  "gw_prioqueue_remove_producer queue = do {
     gw_assert (pq_producers queue > 0);
     Some (queue\<lparr>pq_producers := pq_producers queue - 1\<rparr>) }"

definition gw_prioqueue_producer_count :: "'a prioqueue \<Rightarrow> int" where
  "gw_prioqueue_producer_count queue = pq_producers queue"

text \<open>The items passed to \<open>item_destroy\<close>, if there is one.\<close>

function pq_destroy_loop :: "'a prioqueue \<Rightarrow> bool \<Rightarrow> int \<Rightarrow> 'a list \<Rightarrow> 'a list option" where
  "pq_destroy_loop queue destroys i ds =
     (if i < pq_len queue then do {
        e \<leftarrow> rd (pq_tab queue) i;
        pq_destroy_loop queue destroys (i + 1)
          (case el_item e of Some x \<Rightarrow> if destroys then ds @ [x] else ds | None \<Rightarrow> ds) }
      else Some ds)"
  by pat_completeness auto
termination
  by (relation "measure (\<lambda>(queue, destroys, i, ds). nat (pq_len queue - i))") auto

declare pq_destroy_loop.simps [simp del]

definition gw_prioqueue_destroy :: "'a prioqueue option \<Rightarrow> bool \<Rightarrow> 'a list option" where
  "gw_prioqueue_destroy q destroys = (case q of None \<Rightarrow> Some [] | Some queue \<Rightarrow> pq_destroy_loop queue destroys 0 [])"

section \<open>Heaps in arrays\<close>

text \<open>
  The two loops on plain lists, for any comparison; cell 0 is not part of the heap.
  \<open>sift_down\<close> has the C code's habit of looking one cell beyond the heap, which then holds the
  element being moved.
\<close>

fun sift_up :: "('e \<Rightarrow> 'e \<Rightarrow> int) \<Rightarrow> 'e \<Rightarrow> 'e list \<Rightarrow> nat \<Rightarrow> 'e list" where
  "sift_up cmp v a i =
     (if i > 1 \<and> cmp (a ! (i div 2)) v < 0 then sift_up cmp v (a[i := a ! (i div 2)]) (i div 2) else a[i := v])"

declare sift_up.simps [simp del]

definition larger_child :: "('e \<Rightarrow> 'e \<Rightarrow> int) \<Rightarrow> 'e \<Rightarrow> 'e list \<Rightarrow> nat \<Rightarrow> nat" where
  "larger_child cmp v a i =
     (if 2 * i < length a \<and> cmp (a ! (2 * i)) ((a @ [v]) ! (2 * i + 1)) < 0 then 2 * i + 1 else 2 * i)"

function sift_down :: "('e \<Rightarrow> 'e \<Rightarrow> int) \<Rightarrow> 'e \<Rightarrow> 'e list \<Rightarrow> nat \<Rightarrow> 'e list" where
  "sift_down cmp v a i =
     (if 0 < i \<and> i \<le> length a div 2 \<and> cmp v ((a @ [v]) ! larger_child cmp v a i) < 0
      then sift_down cmp v (a[i := (a @ [v]) ! larger_child cmp v a i]) (larger_child cmp v a i)
      else a[i := v])"
  by pat_completeness auto
termination
  by (relation "measure (\<lambda>(cmp, v, a, i). Suc (length a) - i)") (auto simp: larger_child_def)

declare sift_down.simps [simp del]


definition heap :: "('e \<Rightarrow> 'e \<Rightarrow> int) \<Rightarrow> 'e list \<Rightarrow> bool" where
  "heap cmp a \<longleftrightarrow> (\<forall>c. 2 \<le> c \<and> c < length a \<longrightarrow> cmp (a ! (c div 2)) (a ! c) \<ge> 0)"

text \<open>Heaps but for one place, to be filled with \<open>v\<close>, which may be too large or too small for it.\<close>

definition up_hole :: "('e \<Rightarrow> 'e \<Rightarrow> int) \<Rightarrow> 'e \<Rightarrow> 'e list \<Rightarrow> nat \<Rightarrow> bool" where
  "up_hole cmp v a i \<longleftrightarrow>
     (\<forall>c. 2 \<le> c \<and> c < length a \<and> c \<noteq> i \<longrightarrow> cmp (a[i := v] ! (c div 2)) (a[i := v] ! c) \<ge> 0) \<and>
     (\<forall>c. 2 \<le> i \<and> c < length a \<and> c div 2 = i \<longrightarrow> cmp (a ! (i div 2)) (a ! c) \<ge> 0)"

definition down_hole :: "('e \<Rightarrow> 'e \<Rightarrow> int) \<Rightarrow> 'e \<Rightarrow> 'e list \<Rightarrow> nat \<Rightarrow> bool" where
  "down_hole cmp v a i \<longleftrightarrow>
     (\<forall>c. 2 \<le> c \<and> c < length a \<and> c div 2 \<noteq> i \<longrightarrow> cmp (a[i := v] ! (c div 2)) (a[i := v] ! c) \<ge> 0) \<and>
     (\<forall>c. 2 \<le> i \<and> c < length a \<and> c div 2 = i \<longrightarrow> cmp (a ! (i div 2)) (a ! c) \<ge> 0)"

lemma mset_move:
  "i < length a \<Longrightarrow> j < length a \<Longrightarrow> mset (a[i := a ! j, j := v]) = mset (a[i := v])"
  using mset_swap [of i "a[i := v]" j]
  by (cases "i = j") (simp_all, metis list_update_overwrite list_update_swap)

lemma hd_list_update: "0 < i \<Longrightarrow> hd (a[i := v]) = hd a"
  by (cases a; cases i) auto

lemma mset_tl: "a \<noteq> [] \<Longrightarrow> mset (tl a) = mset a - {#hd a#}"
  by (cases a) auto

lemma sift_up_length: "length (sift_up cmp v a i) = length a"
  by (induction cmp v a i rule: sift_up.induct) (subst sift_up.simps, auto)

lemma sift_up_mset: "i < length a \<Longrightarrow> mset (sift_up cmp v a i) = mset (a[i := v])"
proof (induction cmp v a i rule: sift_up.induct)
  case (1 cmp v a i)
  then have "i div 2 < length a" by simp
  with 1 show ?case by (subst sift_up.simps) (auto simp: mset_move)
qed

lemma sift_up_hd: "0 < i \<Longrightarrow> hd (sift_up cmp v a i) = hd a"
proof (induction cmp v a i rule: sift_up.induct)
  case (1 cmp v a i)
  then show ?case by (subst sift_up.simps) (auto simp: hd_list_update div_greater_zero_iff)
qed

lemma half_cases: "c div 2 = i \<Longrightarrow> (c :: nat) = 2 * i \<or> c = 2 * i + 1"
  by presburger

lemma larger_child_bounds: "larger_child cmp v a i div 2 = i" "2 * i \<le> larger_child cmp v a i"
  "i \<le> length a div 2 \<Longrightarrow> larger_child cmp v a i \<le> length a"
  by (auto simp: larger_child_def)

text \<open>A step down stays inside the heap, because the cell beyond it holds \<open>v\<close> itself.\<close>

lemma sift_down_inside:
  fixes cmp :: "'e \<Rightarrow> 'e \<Rightarrow> int"
  assumes "cmp v v = 0" "cmp v ((a @ [v]) ! j) < 0" "j \<le> length a"
  shows "j < length a" "(a @ [v]) ! j = a ! j"
  using assms by (auto simp: nth_append le_less)

lemma sift_down_length: "length (sift_down cmp v a i) = length a"
  by (induction cmp v a i rule: sift_down.induct) (subst sift_down.simps, auto)

lemma sift_down_mset: "cmp v v = 0 \<Longrightarrow> i < length a \<Longrightarrow> mset (sift_down cmp v a i) = mset (a[i := v])"
proof (induction cmp v a i rule: sift_down.induct)
  case (1 cmp v a i)
  let ?j = "larger_child cmp v a i"
  show ?case
  proof (cases "0 < i \<and> i \<le> length a div 2 \<and> cmp v ((a @ [v]) ! ?j) < 0")
    case True
    then have "?j \<le> length a" by (intro larger_child_bounds) simp
    with True 1 sift_down_inside [of cmp v a ?j] show ?thesis
      by (subst sift_down.simps) (simp add: mset_move)
  next
    case False
    then show ?thesis by (subst sift_down.simps) (simp only: if_False)
  qed
qed

lemma sift_down_hd: "0 < i \<Longrightarrow> hd (sift_down cmp v a i) = hd a"
proof (induction cmp v a i rule: sift_down.induct)
  case (1 cmp v a i)
  then show ?case
    using larger_child_bounds(2) [where cmp = cmp and v = v and a = a and i = i]
    by (subst sift_down.simps) (auto simp: hd_list_update)
qed

context comparison
begin

lemma up_hole_step:
  assumes h: "up_hole cmp v a i" and i: "1 < i" "i < length a" and lt: "cmp (a ! (i div 2)) v < 0"
  shows "up_hole cmp v (a[i := a ! (i div 2)]) (i div 2)"
proof -
  let ?p = "i div 2" and ?a = "a[i := a ! (i div 2)]"
  from i have p: "?p < i" "0 < ?p" by (auto simp: div_greater_zero_iff)
  have e: "cmp (a[i := v] ! (c div 2)) (a[i := v] ! c) \<ge> 0" if "2 \<le> c" "c < length a" "c \<noteq> i" for c
    using h that by (auto simp: up_hole_def)
  have k: "cmp (a ! ?p) (a ! c) \<ge> 0" if "c < length a" "c div 2 = i" for c
    using h that i by (auto simp: up_hole_def)
  have v: "cmp v (a ! ?p) \<ge> 0" using lt cmp_sym [of "a ! ?p" v] by simp
  have "cmp (?a[?p := v] ! (c div 2)) (?a[?p := v] ! c) \<ge> 0" if c: "2 \<le> c" "c < length a" "c \<noteq> ?p" for c
  proof (cases "c = i")
    case True
    with v i p show ?thesis by (simp add: nth_list_update)
  next
    case False
    consider "c div 2 = i" | "c div 2 = ?p" | "c div 2 \<noteq> i" "c div 2 \<noteq> ?p" by blast
    then show ?thesis
    proof cases
      case 1
      with False k [OF c(2)] i p c show ?thesis by (simp add: nth_list_update)
    next
      case 2
      with False e [OF c(1,2) False] i p c have "cmp (a ! ?p) (a ! c) \<ge> 0" by (simp add: nth_list_update)
      with cmp_trans_ge [OF v this] 2 False i p c show ?thesis by (simp add: nth_list_update)
    next
      case 3
      with False e [OF c(1,2) False] i p c show ?thesis by (simp add: nth_list_update)
    qed
  qed
  moreover have "cmp (?a ! (?p div 2)) (?a ! c) \<ge> 0" if c: "2 \<le> ?p" "c < length a" "c div 2 = ?p" for c
  proof -
    have g: "cmp (a ! (?p div 2)) (a ! ?p) \<ge> 0" using e [of ?p] c p i by (auto simp: nth_list_update)
    show ?thesis
    proof (cases "c = i")
      case True
      with g p i show ?thesis by (simp add: nth_list_update)
    next
      case False
      with e [of c] c p i have "cmp (a ! ?p) (a ! c) \<ge> 0" by (simp add: nth_list_update)
      from cmp_trans_ge [OF g this] False c p i show ?thesis by (simp add: nth_list_update)
    qed
  qed
  ultimately show ?thesis unfolding up_hole_def length_list_update by blast
qed

lemma up_hole_stop:
  assumes h: "up_hole cmp v a i" and i: "0 < i" "i < length a" and ge: "1 < i \<Longrightarrow> cmp (a ! (i div 2)) v \<ge> 0"
  shows "heap cmp (a[i := v])"
proof -
  have "cmp (a[i := v] ! (c div 2)) (a[i := v] ! c) \<ge> 0" if c: "2 \<le> c" "c < length a" for c
  proof (cases "c = i")
    case True
    with i c ge show ?thesis by (simp add: nth_list_update)
  next
    case False
    with h c show ?thesis unfolding up_hole_def by blast
  qed
  then show ?thesis by (simp add: heap_def)
qed

lemma sift_up_heap: "up_hole cmp v a i \<Longrightarrow> 0 < i \<Longrightarrow> i < length a \<Longrightarrow> heap cmp (sift_up cmp v a i)"
proof (induction i arbitrary: a rule: less_induct)
  case (less i)
  show ?case
  proof (cases "1 < i \<and> cmp (a ! (i div 2)) v < 0")
    case True
    with less.prems have "heap cmp (sift_up cmp v (a[i := a ! (i div 2)]) (i div 2))"
      by (intro less.IH up_hole_step) auto
    with True show ?thesis by (subst sift_up.simps) simp
  next
    case False
    with less.prems have "heap cmp (a[i := v])" by (intro up_hole_stop) auto
    with False show ?thesis by (subst sift_up.simps) auto
  qed
qed

lemma larger_child_largest:
  assumes "c div 2 = i" "c < length a" "0 < i"
  shows "larger_child cmp v a i < length a \<Longrightarrow> cmp (a ! larger_child cmp v a i) (a ! c) \<ge> 0"
    and "larger_child cmp v a i = length a \<Longrightarrow> cmp v (a ! c) \<ge> 0"
  using assms half_cases [OF assms(1)] cmp_sym [of "a ! (2 * i)" "(a @ [v]) ! (2 * i + 1)"] cmp_refl [of "a ! (2 * i)"]
    cmp_refl [of "a ! (2 * i + 1)"]
  by (auto simp: larger_child_def nth_append split: if_splits)

lemma down_hole_step:
  assumes h: "down_hole cmp v a i" and i: "0 < i" "i < length a" and j: "j = larger_child cmp v a i" "j < length a"
    and lt: "cmp v (a ! j) < 0"
  shows "down_hole cmp v (a[i := a ! j]) j"
proof -
  let ?a = "a[i := a ! j]"
  from i j(1) larger_child_bounds(1,2) [where cmp = cmp and v = v and a = a and i = i] have ij: "j div 2 = i" "i < j" "2 \<le> j" by auto
  have e: "cmp (a[i := v] ! (c div 2)) (a[i := v] ! c) \<ge> 0" if "2 \<le> c" "c < length a" "c div 2 \<noteq> i" for c
    using h that unfolding down_hole_def by blast
  have k: "cmp (a ! (i div 2)) (a ! c) \<ge> 0" if "2 \<le> i" "c < length a" "c div 2 = i" for c
    using h that unfolding down_hole_def by blast
  have "cmp (?a[j := v] ! (c div 2)) (?a[j := v] ! c) \<ge> 0" if c: "2 \<le> c" "c < length a" "c div 2 \<noteq> j" for c
  proof (cases "c div 2 = i")
    case True
    with c i j ij lt larger_child_largest(1) [OF True c(2) i(1), of v] cmp_sym [of v "a ! j"] show ?thesis
      by (cases "c = j") (auto simp: nth_list_update)
  next
    case False
    with c i j ij e [OF c(1,2) False] k [of j] show ?thesis
      by (cases "c = i") (auto simp: nth_list_update)
  qed
  moreover have "cmp (?a ! (j div 2)) (?a ! c) \<ge> 0" if c: "c < length a" "c div 2 = j" for c
    using e [of c] c i j ij by (auto simp: nth_list_update)
  ultimately show ?thesis unfolding down_hole_def length_list_update by blast
qed

lemma down_hole_stop:
  assumes h: "down_hole cmp v a i" and i: "0 < i" "i < length a"
    and ge: "\<And>c. c div 2 = i \<Longrightarrow> c < length a \<Longrightarrow> cmp v (a ! c) \<ge> 0"
  shows "heap cmp (a[i := v])"
proof -
  have "cmp (a[i := v] ! (c div 2)) (a[i := v] ! c) \<ge> 0" if c: "2 \<le> c" "c < length a" for c
  proof (cases "c div 2 = i")
    case True
    with i c ge [OF True] show ?thesis by (auto simp: nth_list_update)
  next
    case False
    with h c show ?thesis unfolding down_hole_def by blast
  qed
  then show ?thesis by (simp add: heap_def)
qed

lemma sift_down_heap: "down_hole cmp v a i \<Longrightarrow> 0 < i \<Longrightarrow> i < length a \<Longrightarrow> heap cmp (sift_down cmp v a i)"
proof (induction "length a - i" arbitrary: a i rule: less_induct)
  case less
  let ?j = "larger_child cmp v a i"
  note j = larger_child_bounds [where cmp = cmp and v = v and a = a and i = i]
  show ?case
  proof (cases "i \<le> length a div 2 \<and> cmp v ((a @ [v]) ! ?j) < 0")
    case True
    with j(3) sift_down_inside [of cmp v a ?j] have n: "?j < length a" "(a @ [v]) ! ?j = a ! ?j" by (simp_all add: cmp_refl)
    with True less.prems j(2) have "heap cmp (sift_down cmp v (a[i := a ! ?j]) ?j)"
      by (intro less.hyps down_hole_step) auto
    with True n less.prems show ?thesis by (subst sift_down.simps) simp
  next
    case False
    have "cmp v (a ! c) \<ge> 0" if c: "c div 2 = i" "c < length a" for c
    proof -
      from c False have ge: "cmp v ((a @ [v]) ! ?j) \<ge> 0" by auto
      from c j(3) have "?j \<le> length a" by auto
      then consider "?j < length a" | "?j = length a" by linarith
      then show ?thesis
        using ge larger_child_largest [OF c less.prems(2), of v] cmp_trans_ge [of v "a ! ?j" "a ! c"]
        by cases (simp_all add: nth_append)
    qed
    with less.prems have "heap cmp (a[i := v])" by (intro down_hole_stop)
    with False show ?thesis by (subst sift_down.simps) auto
  qed
qed

lemma heap_root: "heap cmp a \<Longrightarrow> 0 < c \<Longrightarrow> c < length a \<Longrightarrow> cmp (a ! 1) (a ! c) \<ge> 0"
proof (induction c rule: less_induct)
  case (less c)
  show ?case
  proof (cases "c = 1")
    case True
    then show ?thesis by (simp add: cmp_refl)
  next
    case False
    with less.prems have "2 \<le> c" "cmp (a ! (c div 2)) (a ! c) \<ge> 0" unfolding heap_def by simp_all
    moreover from this less.prems have "cmp (a ! 1) (a ! (c div 2)) \<ge> 0" by (intro less.IH) simp_all
    ultimately show ?thesis using cmp_trans_ge by blast
  qed
qed

end

section \<open>The loops of the code are the loops on lists\<close>

text \<open>Priority first, then age: the order of the elements.\<close>

definition el_cmp :: "('a \<Rightarrow> 'a \<Rightarrow> int) \<Rightarrow> 'a element \<Rightarrow> 'a element \<Rightarrow> int" where
  "el_cmp cmp a b =
     (let rc = cmp (the (el_item a)) (the (el_item b))
      in if rc = 0 then if el_seq a < el_seq b then 1 else if el_seq a > el_seq b then -1 else 0 else rc)"

lemma pq_compare_eq: "el_item a \<noteq> None \<Longrightarrow> el_item b \<noteq> None \<Longrightarrow> pq_compare a b cmp = Some (el_cmp cmp a b)"
  by (auto simp: pq_compare_def el_cmp_def Let_def)

context comparison
begin

lemma cmp_zero_trans: "cmp x y = 0 \<Longrightarrow> cmp y z = 0 \<Longrightarrow> cmp x z = 0"
  using cmp_trans [of x y z] cmp_trans_ge [of x y z] by simp

lemma cmp_zero_sym: "cmp x y = 0 \<Longrightarrow> cmp y x = 0"
  using cmp_sym [of x y] cmp_sym [of y x] by linarith

lemma el_cmp_sym: "el_cmp cmp x y < 0 \<longleftrightarrow> el_cmp cmp y x > 0"
  using cmp_sym [of "the (el_item x)" "the (el_item y)"] cmp_zero_sym [of "the (el_item x)" "the (el_item y)"]
    cmp_zero_sym [of "the (el_item y)" "the (el_item x)"]
  by (simp add: el_cmp_def Let_def)

lemma el_cmp_le:
  "el_cmp cmp x y \<le> 0 \<longleftrightarrow> cmp (the (el_item x)) (the (el_item y)) < 0 \<or>
     cmp (the (el_item x)) (the (el_item y)) = 0 \<and> el_seq y \<le> el_seq x"
  by (auto simp: el_cmp_def Let_def)

lemma el_cmp_trans: "el_cmp cmp x y \<le> 0 \<Longrightarrow> el_cmp cmp y z \<le> 0 \<Longrightarrow> el_cmp cmp x z \<le> 0"
  unfolding el_cmp_le
  using cmp_trans [of "the (el_item x)" "the (el_item y)" "the (el_item z)"]
    cmp_trans [of "the (el_item z)" "the (el_item x)" "the (el_item y)"]
    cmp_trans [of "the (el_item y)" "the (el_item z)" "the (el_item x)"]
    cmp_sym [of "the (el_item x)" "the (el_item z)"] cmp_zero_sym [of "the (el_item x)" "the (el_item z)"]
    cmp_flip [of "the (el_item y)" "the (el_item x)"] cmp_flip [of "the (el_item z)" "the (el_item y)"]
  by linarith

lemma el_comparison: "comparison (el_cmp cmp)"
  by unfold_locales (rule el_cmp_sym, rule el_cmp_trans)

end

definition tail_ok :: "'a element list \<Rightarrow> bool" where
  "tail_ok a \<longleftrightarrow> a \<noteq> [] \<and> el_item (a ! 0) = None \<and> (\<forall>i. 0 < i \<and> i < length a \<longrightarrow> el_item (a ! i) \<noteq> None)"

lemma tail_ok_update: "tail_ok a \<Longrightarrow> 0 < i \<Longrightarrow> el_item v \<noteq> None \<Longrightarrow> tail_ok (a[i := v])"
  unfolding tail_ok_def by (cases "i < length a") (auto simp: nth_list_update)

lemma cdiv_int_nat: "cdiv (int i) 2 = int (i div 2)"
  by (auto simp: cdiv_def zdiv_int)

lemma upheap_loop_sift:
  assumes "tail_ok a" "0 < i" "i < length a" "el_item v \<noteq> None"
  shows "do { (tab, j) \<leftarrow> upheap_loop cmp v (map Some a @ rest) (int i); wr tab j v } =
    Some (map Some (sift_up (el_cmp cmp) v a i) @ rest)"
  using assms
proof (induction i arbitrary: a rule: less_induct)
  case (less i)
  let ?p = "a ! (i div 2)"
  have rd: "rd (map Some a @ rest) (cdiv (int i) 2) = Some ?p"
    using less.prems div_le_dividend [of i 2] by (simp add: cdiv_int_nat rd_nat nth_append del: div_le_dividend)
  show ?case
  proof (cases "i = 1")
    case True
    with rd less.prems show ?thesis
      by (subst upheap_loop.simps, subst sift_up.simps)
         (simp add: tail_ok_def wr_def list_update_append map_update)
  next
    case False
    with less.prems have p: "el_item ?p \<noteq> None" "0 < i div 2" "i div 2 < i" "1 < i"
      by (auto simp: tail_ok_def div_greater_zero_iff)
    have wr: "wr (map Some a @ rest) (int i) x = Some (map Some (a[i := x]) @ rest)" for x
      using less.prems by (simp add: wr_nat list_update_append map_update)
    from less.IH [OF p(3) tail_ok_update [OF less.prems(1,2) p(1)] p(2)] p less.prems
    have "do { (tab, j) \<leftarrow> upheap_loop cmp v (map Some (a[i := ?p]) @ rest) (int (i div 2)); wr tab j v } =
      Some (map Some (sift_up (el_cmp cmp) v (a[i := ?p]) (i div 2)) @ rest)" by simp
    with rd p less.prems(4) wr show ?thesis
      by (subst upheap_loop.simps, subst sift_up.simps) (simp add: pq_compare_eq cdiv_int_nat)
  qed
qed

lemma downheap_loop_sift:
  assumes "tail_ok a" "0 < i" "i < length a" "el_item v \<noteq> None" "comparison cmp"
  shows "do { (tab, j) \<leftarrow> downheap_loop cmp (int (length a)) v (map Some a @ Some v # rest) (int i); wr tab j v } =
    Some (map Some (sift_down (el_cmp cmp) v a i) @ Some v # rest)"
  using assms(1-3)
proof (induction "length a - i" arbitrary: a i rule: less_induct)
  case less
  let ?tab = "map Some a @ Some v # rest" and ?j = "larger_child (el_cmp cmp) v a i"
  note j = larger_child_bounds [where cmp = "el_cmp cmp" and v = v and a = a and i = i]
  have rd: "rd ?tab (int k) = Some ((a @ [v]) ! k)" if "k \<le> length a" for k
    using that by (cases "k = length a") (simp_all add: rd_nat nth_append)
  have item: "el_item ((a @ [v]) ! k) \<noteq> None" if "0 < k" "k \<le> length a" for k
    using that less.prems assms(4) by (auto simp: nth_append tail_ok_def)
  have wr: "wr ?tab (int i) x = Some (map Some (a[i := x]) @ Some v # rest)" for x
    using less.prems by (simp add: wr_nat list_update_append map_update)
  have vv: "el_cmp cmp v v = 0" by (simp add: el_cmp_def comparison.cmp_refl [OF assms(5)])
  show ?case
  proof (cases "i \<le> length a div 2")
    case False
    then show ?thesis
      using wr by (subst downheap_loop.simps, subst sift_down.simps) (simp add: cdiv_int_nat)
  next
    case True
    with less.prems j have jn: "?j \<le> length a" "0 < ?j" "i < ?j" by auto
    have r2: "rd ?tab (2 * int i) = Some ((a @ [v]) ! (2 * i))" "2 * i < length a \<Longrightarrow> rd ?tab (2 * int i + 1) = Some ((a @ [v]) ! (2 * i + 1))"
      using rd [of "2 * i"] rd [of "2 * i + 1"] True by (simp_all add: add.commute)
    have pick: "biggest_child cmp (int (length a)) ?tab (2 * int i) = Some (int ?j)"
      using r2 item [of "2 * i"] item [of "2 * i + 1"] less.prems
      by (auto simp: biggest_child_def larger_child_def pq_compare_eq nth_append)
    show ?thesis
    proof (cases "el_cmp cmp v ((a @ [v]) ! ?j) < 0")
      case c: False
      with True pick jn rd item assms(4) wr show ?thesis
        by (subst downheap_loop.simps, subst sift_down.simps) (simp add: pq_compare_eq cdiv_int_nat)
    next
      case c: True
      have n: "?j < length a" "(a @ [v]) ! ?j = a ! ?j"
        using sift_down_inside [of "el_cmp cmp", OF vv, of a ?j] c jn by simp_all
      from n item [OF jn(2,1)] jn less.prems
      have "do { (tab, j) \<leftarrow> downheap_loop cmp (int (length a)) v (map Some (a[i := a ! ?j]) @ Some v # rest) (int ?j); wr tab j v } =
        Some (map Some (sift_down (el_cmp cmp) v (a[i := a ! ?j]) ?j) @ Some v # rest)"
        using less.hyps [of "a[i := a ! ?j]" ?j] by (simp add: tail_ok_update)
      with True c n pick jn rd [OF jn(1)] item [OF jn(2,1)] assms(4) wr less.prems show ?thesis
        by (subst downheap_loop.simps, subst sift_down.simps) (simp add: pq_compare_eq cdiv_int_nat)
    qed
  qed
qed

end
