(* ===== verification/Prioqueue_Spec.thy ===== *)
theory Prioqueue_Spec
  imports Prioqueue
begin

text \<open>
  What the priority queue promises: on the items in the order of their arrival, \<open>insert\<close> appends
  and \<open>remove\<close>, \<open>get\<close> and \<open>consume\<close> take the oldest of the items of highest priority.
\<close>

section \<open>Valid queues\<close>

definition pq_arr :: "'a prioqueue \<Rightarrow> 'a element list \<Rightarrow> bool" where
  "pq_arr q a \<longleftrightarrow> (\<exists>rest. pq_tab q = map Some a @ rest) \<and> pq_size q = int (length (pq_tab q)) \<and>
     pq_len q = int (length a) \<and> tail_ok a \<and> heap (el_cmp (pq_cmp q)) a"

text \<open>\<open>es\<close> is the queue's elements in the order of their arrival.\<close>

definition pq_rep :: "'a prioqueue \<Rightarrow> 'a element list \<Rightarrow> bool" where
  "pq_rep q es \<longleftrightarrow> (\<exists>a. pq_arr q a \<and> mset (tl a) = mset es) \<and> sorted_wrt (<) (map el_seq es) \<and>
     (\<forall>e \<in> set es. el_seq e < pq_seq q)"

lemma pq_make_bigger_arr:
  assumes "pq_arr q a"
  shows "runs (pq_make_bigger q 1) (\<lambda>q'. pq_arr q' a \<and> length (pq_tab q') > length a \<and>
    pq_cmp q' = pq_cmp q \<and> pq_seq q' = pq_seq q \<and> pq_producers q' = pq_producers q)"
  using assms
  by (auto simp: pq_arr_def pq_make_bigger_def gw_realloc_grow Let_def)

lemma tail_ok_snoc: "tail_ok a \<Longrightarrow> el_item e \<noteq> None \<Longrightarrow> tail_ok (a @ [e])"
  unfolding tail_ok_def by (simp add: nth_append)

lemma up_hole_snoc: "heap cmp a \<Longrightarrow> a \<noteq> [] \<Longrightarrow> up_hole cmp e (a @ [e]) (length a)"
  unfolding heap_def up_hole_def by (auto simp: nth_append nth_list_update less_Suc_eq)

lemma tail_ok_iff: "tail_ok a \<longleftrightarrow> a \<noteq> [] \<and> el_item (hd a) = None \<and> (\<forall>e \<in> set (tl a). el_item e \<noteq> None)"
proof (cases a)
  case (Cons b bs)
  have "(\<forall>i. 0 < i \<and> i < length a \<longrightarrow> el_item (a ! i) \<noteq> None) \<longleftrightarrow> (\<forall>i < length bs. el_item (bs ! i) \<noteq> None)"
    unfolding Cons by (auto simp: gr0_conv_Suc)
  then show ?thesis using Cons by (simp add: tail_ok_def all_set_conv_all_nth)
qed (simp add: tail_ok_def)

lemma tail_ok_permuted:
  assumes "tail_ok a" "mset b = mset a" "hd b = hd a"
  shows "tail_ok b" "mset (tl b) = mset (tl a)"
proof -
  have "b \<noteq> []" "a \<noteq> []" using assms by (auto simp: tail_ok_def)
  then show t: "mset (tl b) = mset (tl a)" using assms by (simp add: mset_tl)
  then show "tail_ok b" using assms \<open>b \<noteq> []\<close> by (auto simp: tail_ok_iff dest: mset_eq_setD)
qed

lemma upheap_arr:
  assumes tab: "pq_tab q = map Some (a @ [e]) @ rest" and a: "tail_ok a" "heap (el_cmp (pq_cmp q)) a"
    and e: "el_item e \<noteq> None" and c: "comparison (pq_cmp q)"
  shows "\<exists>b. upheap q (int (length a)) = Some (q\<lparr>pq_tab := map Some b @ rest\<rparr>) \<and> tail_ok b \<and>
    heap (el_cmp (pq_cmp q)) b \<and> length b = Suc (length a) \<and> mset (tl b) = add_mset e (mset (tl a))"
proof -
  let ?b = "sift_up (el_cmp (pq_cmp q)) e (a @ [e]) (length a)"
  have ne: "a \<noteq> []" using a(1) by (simp add: tail_ok_def)
  have t: "tail_ok (a @ [e])" by (rule tail_ok_snoc [OF a(1) e])
  have "do { (tab, j) \<leftarrow> upheap_loop (pq_cmp q) e (pq_tab q) (int (length a)); wr tab j e } = Some (map Some ?b @ rest)"
    unfolding tab by (rule upheap_loop_sift [OF t _ _ e]) (use ne in simp_all)
  moreover have "rd (pq_tab q) (int (length a)) = Some e" by (simp add: tab rd_nat nth_append)
  ultimately have "upheap q (int (length a)) = Some (q\<lparr>pq_tab := map Some ?b @ rest\<rparr>)"
    by (auto simp: upheap_def bind_eq_Some_conv split_beta)
  moreover have "heap (el_cmp (pq_cmp q)) ?b"
    using ne by (intro comparison.sift_up_heap comparison.el_comparison c up_hole_snoc a(2)) simp_all
  moreover have "mset ?b = mset (a @ [e])" "hd ?b = hd (a @ [e])"
    using ne by (simp_all add: sift_up_mset sift_up_hd)
  note tail_ok_permuted [OF t this]
  ultimately show ?thesis using ne by (intro exI [of _ ?b]) (simp add: sift_up_length)
qed

lemma gw_prioqueue_insert_rep:
  assumes q: "pq_rep q es" and c: "comparison (pq_cmp q)"
  shows "runs (gw_prioqueue_insert q (Some x)) (\<lambda>q'. pq_rep q' (es @ [\<lparr>el_item = Some x, el_seq = pq_seq q\<rparr>]) \<and>
    pq_cmp q' = pq_cmp q \<and> pq_producers q' = pq_producers q)"
proof -
  let ?e = "\<lparr>el_item = Some x, el_seq = pq_seq q\<rparr>"
  from q obtain a where a: "pq_arr q a" "mset (tl a) = mset es" by (auto simp: pq_rep_def)
  from pq_make_bigger_arr [OF a(1)] obtain p where p: "pq_make_bigger q 1 = Some p" "pq_arr p a"
    "length (pq_tab p) > length a" "pq_cmp p = pq_cmp q" "pq_seq p = pq_seq q" "pq_producers p = pq_producers q"
    by (auto elim: runsE)
  from p(2,3) obtain y rest where tab: "pq_tab p = map Some a @ y # rest"
    by (auto simp: pq_arr_def neq_Nil_conv)
  let ?p = "p\<lparr>pq_tab := map Some (a @ [?e]) @ rest, pq_seq := pq_seq q + 1\<rparr>"
  have len: "pq_len p = int (length a)" and size: "pq_size p = int (length (pq_tab p))" using p(2) by (simp_all add: pq_arr_def)
  have wr: "wr (pq_tab p) (pq_len p) ?e = Some (map Some (a @ [?e]) @ rest)"
    by (simp add: tab len wr_nat list_update_append)
  have "\<exists>b. upheap ?p (int (length a)) = Some (?p\<lparr>pq_tab := map Some b @ rest\<rparr>) \<and> tail_ok b \<and>
    heap (el_cmp (pq_cmp ?p)) b \<and> length b = Suc (length a) \<and> mset (tl b) = add_mset ?e (mset (tl a))"
    by (rule upheap_arr) (use p(2,4) c in \<open>simp_all add: pq_arr_def\<close>)
  then obtain b where b: "upheap ?p (int (length a)) = Some (?p\<lparr>pq_tab := map Some b @ rest\<rparr>)" "tail_ok b"
    "heap (el_cmp (pq_cmp p)) b" "length b = Suc (length a)" "mset (tl b) = add_mset ?e (mset es)"
    using a(2) by auto
  show ?thesis
    using p b wr len size tab q
    by (auto simp: gw_prioqueue_insert_def pq_rep_def pq_arr_def sorted_wrt_append intro!: exI [of _ b])
qed

lemma down_hole_root:
  assumes "heap cmp (s # r # ws @ [v])"
  shows "down_hole cmp v (s # v # ws) 1"
proof -
  have eq: "(s # r # ws @ [v]) ! i = (s # v # ws) ! i" if "2 \<le> i" "i < length ws + 2" for i
    using that by (cases i; cases "i - 1") (auto simp: nth_append)
  have "cmp ((s # v # ws) ! (c div 2)) ((s # v # ws) ! c) \<ge> 0" if c: "2 \<le> c" "c < length (s # v # ws)" "c div 2 \<noteq> 1" for c
  proof -
    from c have "2 \<le> c div 2" by presburger
    with assms c eq [of c] eq [of "c div 2"] show ?thesis unfolding heap_def by (auto dest!: spec [of _ c])
  qed
  then show ?thesis by (auto simp: down_hole_def)
qed

lemma take_root_single:
  assumes q: "pq_arr q [s, r]"
  shows "\<exists>q'. take_root q = Some (el_item r, q') \<and> pq_arr q' [s] \<and>
    pq_cmp q' = pq_cmp q \<and> pq_seq q' = pq_seq q \<and> pq_producers q' = pq_producers q"
proof -
  from q obtain rest where tab: "pq_tab q = Some s # Some r # rest" and len: "pq_len q = 2" by (auto simp: pq_arr_def)
  have "take_root q = Some (el_item r, q\<lparr>pq_tab := Some s # Some r # rest, pq_len := 1\<rparr>)"
    by (simp add: take_root_def tab len rd_def wr_def downheap_def downheap_loop.simps [of _ 1] cdiv_def)
  with q show ?thesis by (auto simp: pq_arr_def tab tail_ok_def heap_def)
qed

lemma take_root_many:
  assumes q: "pq_arr q (s # r # ws @ [v])" and c: "comparison (pq_cmp q)"
  shows "\<exists>q' b. take_root q = Some (el_item r, q') \<and> pq_arr q' b \<and> mset (tl b) = mset (v # ws) \<and>
    pq_cmp q' = pq_cmp q \<and> pq_seq q' = pq_seq q \<and> pq_producers q' = pq_producers q"
proof -
  let ?c = "el_cmp (pq_cmp q)" and ?a = "s # v # ws"
  let ?b = "sift_down ?c v ?a 1"
  from q obtain rest where tab: "pq_tab q = Some s # Some r # map Some ws @ Some v # rest"
    and len: "pq_len q = int (length ws) + 3" and t: "tail_ok (s # r # ws @ [v])" and h: "heap ?c (s # r # ws @ [v])"
    by (auto simp: pq_arr_def)
  let ?q = "q\<lparr>pq_tab := map Some ?a @ Some v # rest, pq_len := int (length ?a)\<rparr>"
  have v: "el_item v \<noteq> None" and t1: "tail_ok ?a" using t by (simp_all add: tail_ok_iff)
  have rds: "rd (pq_tab q) 1 = Some r" "rd (pq_tab q) (int (length ws) + 2) = Some v" "rd (pq_tab ?q) 1 = Some v"
    by (simp_all add: tab rd_def nat_add_distrib nth_append)
  have "do { (tab, j) \<leftarrow> downheap_loop (pq_cmp q) (int (length ?a)) v (map Some ?a @ Some v # rest) (int 1); wr tab j v } =
    Some (map Some ?b @ Some v # rest)"
    by (rule downheap_loop_sift [OF t1 _ _ v c]) simp_all
  with rds have "downheap ?q 1 = Some (?q\<lparr>pq_tab := map Some ?b @ Some v # rest\<rparr>)"
    by (auto simp: downheap_def bind_eq_Some_conv split_beta)
  moreover have "wr (pq_tab q) 1 v = Some (map Some ?a @ Some v # rest)" by (simp add: tab wr_def)
  ultimately have "take_root q = Some (el_item r, ?q\<lparr>pq_tab := map Some ?b @ Some v # rest\<rparr>)"
    using rds len by (simp add: take_root_def Let_def add.commute)
  moreover have "heap ?c ?b"
    by (rule comparison.sift_down_heap [OF comparison.el_comparison [OF c] down_hole_root [OF h]]) simp_all
  moreover have "mset ?b = mset ?a" "hd ?b = hd ?a"
    by (simp_all add: sift_down_mset sift_down_hd comparison.cmp_refl [OF comparison.el_comparison [OF c]])
  note tail_ok_permuted [OF t1 this]
  ultimately show ?thesis using q
    by (intro exI [of _ "?q\<lparr>pq_tab := map Some ?b @ Some v # rest\<rparr>"] exI [of _ ?b]) (auto simp: pq_arr_def sift_down_length tab)
qed

lemma take_root_arr:
  assumes q: "pq_arr q a" and c: "comparison (pq_cmp q)" and n: "pq_len q > 1"
  shows "\<exists>q' b. take_root q = Some (el_item (a ! 1), q') \<and> pq_arr q' b \<and> add_mset (a ! 1) (mset (tl b)) = mset (tl a) \<and>
    pq_cmp q' = pq_cmp q \<and> pq_seq q' = pq_seq q \<and> pq_producers q' = pq_producers q"
proof -
  from q n have "1 < length a" by (auto simp: pq_arr_def)
  then obtain s r us where a: "a = s # r # us" by (cases a; cases "tl a") auto
  show ?thesis
  proof (cases us rule: rev_cases)
    case Nil
    with a q take_root_single show ?thesis by fastforce
  next
    case (snoc ws v)
    with a take_root_many [of q s r ws v] q c show ?thesis by fastforce
  qed
qed

section \<open>The oldest item of highest priority\<close>

definition best :: "('a \<Rightarrow> 'a \<Rightarrow> int) \<Rightarrow> 'a list \<Rightarrow> nat" where
  "best cmp xs = length (takeWhile (\<lambda>x. \<not> list_all (\<lambda>y. cmp x y \<ge> 0) xs) xs)"

abbreviation it :: "'a element \<Rightarrow> 'a" where
  "it e \<equiv> the (el_item e)"

context comparison
begin

lemma el_cmp_ge:
  "el_cmp cmp x y \<ge> 0 \<longleftrightarrow> cmp (it x) (it y) > 0 \<or> cmp (it x) (it y) = 0 \<and> el_seq x \<le> el_seq y"
  by (auto simp: el_cmp_def Let_def)

lemma best_split:
  assumes top: "\<And>d. d \<in> set (us @ e # vs) \<Longrightarrow> el_cmp cmp e d \<ge> 0" and "sorted_wrt (<) (map el_seq (us @ e # vs))"
  shows "best cmp (map it (us @ e # vs)) = length us"
proof -
  let ?xs = "map it (us @ e # vs)" and ?P = "\<lambda>x. \<not> list_all (\<lambda>y. cmp x y \<ge> 0) (map it (us @ e # vs))"
  have "cmp (it u) (it e) < 0" if "u \<in> set us" for u
    using top [of u] that assms(2) cmp_sym [of "it u" "it e"] by (auto simp: el_cmp_ge sorted_wrt_append)
  then have "?P (it u)" if "u \<in> set us" for u using that by (auto simp: list_all_iff not_le)
  moreover have "\<not> ?P (it e)" using top by (fastforce simp: list_all_iff el_cmp_ge)
  ultimately have "takeWhile ?P ?xs = map it us" by (simp add: takeWhile_append)
  then show ?thesis by (simp only: best_def length_map)
qed

end

text \<open>The root of the heap is that item, and the others keep their order.\<close>

lemma root_is_best:
  assumes "pq_arr q a" "comparison (pq_cmp q)" "pq_len q > 1" "mset (tl a) = mset es" "sorted_wrt (<) (map el_seq es)"
  obtains us vs where "es = us @ a ! 1 # vs" "best (pq_cmp q) (map it es) = length us" "el_item (a ! 1) \<noteq> None"
proof -
  have h: "heap (el_cmp (pq_cmp q)) a" and n: "1 < length a" and t: "tail_ok a" using assms(1,3) by (auto simp: pq_arr_def)
  have st: "set (tl a) = set es" using assms(4) by (rule mset_eq_setD)
  have "a ! 1 \<in> set (tl a)" using n by (metis One_nat_def length_tl nth_mem nth_tl zero_less_diff)
  then obtain us vs where es: "es = us @ a ! 1 # vs" using st split_list by metis
  have "el_cmp (pq_cmp q) (a ! 1) d \<ge> 0" if "d \<in> set es" for d
  proof -
    from that st obtain i where "i < length (tl a)" "tl a ! i = d" by (metis in_set_conv_nth)
    then have "a ! Suc i = d" "Suc i < length a" by (auto simp: nth_tl)
    with comparison.heap_root [OF comparison.el_comparison [OF assms(2)] h, of "Suc i"] show ?thesis by auto
  qed
  then have "best (pq_cmp q) (map it (us @ a ! 1 # vs)) = length us"
    using assms(2,5) unfolding es by (intro comparison.best_split)
  moreover have "el_item (a ! 1) \<noteq> None" using t n unfolding tail_ok_def by simp
  ultimately show ?thesis using es that by simp
qed

lemma take_root_rep:
  assumes q: "pq_rep q es" and c: "comparison (pq_cmp q)" and n: "pq_len q > 1"
  shows "\<exists>q' es'. take_root q = Some (Some (map it es ! best (pq_cmp q) (map it es)), q') \<and> pq_rep q' es' \<and>
    map it es' = take (best (pq_cmp q) (map it es)) (map it es) @ drop (Suc (best (pq_cmp q) (map it es))) (map it es) \<and>
    pq_cmp q' = pq_cmp q \<and> pq_producers q' = pq_producers q"
proof -
  from q obtain a where a: "pq_arr q a" "mset (tl a) = mset es" and s: "sorted_wrt (<) (map el_seq es)"
    by (auto simp: pq_rep_def)
  from root_is_best [OF a(1) c n a(2) s] obtain us vs where
    es: "es = us @ a ! 1 # vs" "best (pq_cmp q) (map it es) = length us" "el_item (a ! 1) \<noteq> None" by metis
  from take_root_arr [OF a(1) c n] obtain q' b where q': "take_root q = Some (el_item (a ! 1), q')" "pq_arr q' b"
    "add_mset (a ! 1) (mset (tl b)) = mset (tl a)" "pq_cmp q' = pq_cmp q" "pq_seq q' = pq_seq q" "pq_producers q' = pq_producers q"
    by blast
  have "mset (tl b) = mset (us @ vs)" using q'(3) a(2) es(1) by simp
  moreover have "sorted_wrt (<) (map el_seq (us @ vs))" using s unfolding es(1) by (auto simp: sorted_wrt_append)
  ultimately have "pq_rep q' (us @ vs)" using q q'(2,5) es(1) by (auto simp: pq_rep_def)
  with q' es show ?thesis by (intro exI [of _ q'] exI [of _ "us @ vs"]) (auto simp: nth_append)
qed

lemma pq_len_rep: "pq_rep q es \<Longrightarrow> pq_len q = int (length es) + 1"
  by (auto simp: pq_rep_def pq_arr_def tail_ok_def neq_Nil_conv dest!: mset_eq_length)

lemma gw_prioqueue_get_rep:
  assumes q: "pq_rep q es" and c: "comparison (pq_cmp q)"
  shows "gw_prioqueue_get q = Some (if es = [] then None else Some (map it es ! best (pq_cmp q) (map it es)))"
proof (cases "es = []")
  case False
  with q have n: "pq_len q > 1" by (simp add: pq_len_rep)
  from q obtain a where a: "pq_arr q a" "mset (tl a) = mset es" and s: "sorted_wrt (<) (map el_seq es)"
    by (auto simp: pq_rep_def)
  from root_is_best [OF a(1) c n a(2) s] obtain us vs where
    es: "es = us @ a ! 1 # vs" "best (pq_cmp q) (map it es) = length us" "el_item (a ! 1) \<noteq> None" by metis
  have "rd (pq_tab q) 1 = Some (a ! 1)"
    using a(1) n rd_nat [of 1 "pq_tab q"] by (auto simp: pq_arr_def nth_append)
  with n es show ?thesis by (auto simp: gw_prioqueue_get_def nth_append)
qed (use pq_len_rep [OF q] in \<open>simp add: gw_prioqueue_get_def\<close>)

lemma gw_prioqueue_create_rep:
  "runs (gw_prioqueue_create cmp) (\<lambda>q. pq_rep q [] \<and> pq_cmp q = cmp \<and> pq_producers q = 0)"
  by (auto simp: gw_prioqueue_create_def pq_make_bigger_def gw_realloc_grow wr_def pq_rep_def pq_arr_def
      tail_ok_def heap_def intro!: exI [of _ "[\<lparr>el_item = None, el_seq = 0\<rparr>]"])

section \<open>The contract\<close>

datatype 'a pq_op = PInsert "'a option" | PRemove | PGet | PConsume | PLen | PAddProducer | PRemoveProducer | PProducers

datatype 'a pq_result = PItem "'a option" | PNum int | PDone

fun pq_call :: "'a pq_op \<Rightarrow> 'a prioqueue \<Rightarrow> ('a pq_result \<times> 'a prioqueue) option" where
  "pq_call (PInsert x) q = do { q \<leftarrow> gw_prioqueue_insert q x; Some (PDone, q) }"
| "pq_call PRemove q = do { (x, q) \<leftarrow> gw_prioqueue_remove q; Some (PItem x, q) }"
| "pq_call PGet q = do { x \<leftarrow> gw_prioqueue_get q; Some (PItem x, q) }"
| "pq_call PConsume q = do { (x, q) \<leftarrow> gw_prioqueue_consume q; Some (PItem x, q) }"
| "pq_call PLen q = Some (PNum (gw_prioqueue_len (Some q)), q)"
| "pq_call PAddProducer q = Some (PDone, gw_prioqueue_add_producer q)"
| "pq_call PRemoveProducer q = do { q \<leftarrow> gw_prioqueue_remove_producer q; Some (PDone, q) }"
| "pq_call PProducers q = Some (PNum (gw_prioqueue_producer_count q), q)"

definition pop_best :: "('a \<Rightarrow> 'a \<Rightarrow> int) \<Rightarrow> 'a list \<Rightarrow> 'a option \<times> 'a list" where
  "pop_best cmp xs =
     (if xs = [] then (None, []) else (Some (xs ! best cmp xs), take (best cmp xs) xs @ drop (Suc (best cmp xs)) xs))"

fun pq_spec :: "('a \<Rightarrow> 'a \<Rightarrow> int) \<Rightarrow> 'a pq_op \<Rightarrow> 'a list \<times> int \<Rightarrow> ('a pq_result \<times> 'a list \<times> int) option" where
  "pq_spec cmp (PInsert x) (xs, n) = (case x of None \<Rightarrow> None | Some x \<Rightarrow> Some (PDone, xs @ [x], n))"
| "pq_spec cmp PRemove (xs, n) = Some (PItem (fst (pop_best cmp xs)), snd (pop_best cmp xs), n)"
| "pq_spec cmp PGet (xs, n) = Some (PItem (fst (pop_best cmp xs)), xs, n)"
| "pq_spec cmp PConsume (xs, n) =
     (if xs = [] \<and> n > 0 then None else Some (PItem (fst (pop_best cmp xs)), snd (pop_best cmp xs), n))"
| "pq_spec cmp PLen (xs, n) = Some (PNum (int (length xs)), xs, n)"
| "pq_spec cmp PAddProducer (xs, n) = Some (PDone, xs, n + 1)"
| "pq_spec cmp PRemoveProducer (xs, n) = (if n > 0 then Some (PDone, xs, n - 1) else None)"
| "pq_spec cmp PProducers (xs, n) = Some (PNum n, xs, n)"

definition pq_rel :: "('a \<Rightarrow> 'a \<Rightarrow> int) \<Rightarrow> 'a prioqueue \<Rightarrow> 'a list \<times> int \<Rightarrow> bool" where
  "pq_rel cmp q s \<longleftrightarrow> comparison cmp \<and> pq_cmp q = cmp \<and> pq_producers q = snd s \<and> (\<exists>es. pq_rep q es \<and> map it es = fst s)"

lemma pq_rep_update: "pq_rep (q\<lparr>pq_producers := n\<rparr>) es \<longleftrightarrow> pq_rep q es"
  by (simp add: pq_rep_def pq_arr_def)

lemma take_root_rel:
  assumes "pq_rel cmp q (xs, n)" "xs \<noteq> []"
  shows "\<exists>q'. take_root q = Some (fst (pop_best cmp xs), q') \<and> pq_rel cmp q' (snd (pop_best cmp xs), n)"
proof -
  from assms obtain es where es: "comparison cmp" "pq_cmp q = cmp" "pq_producers q = n" "pq_rep q es" "map it es = xs"
    by (auto simp: pq_rel_def)
  with assms(2) have "pq_len q > 1" by (auto simp: pq_len_rep)
  with take_root_rep [OF es(4)] es assms(2) show ?thesis by (auto simp: pop_best_def pq_rel_def)
qed

lemma pq_call_refines:
  assumes r: "pq_rel cmp q s"
  shows "case pq_spec cmp c s of None \<Rightarrow> pq_call c q = None | Some (x, s') \<Rightarrow> \<exists>q'. pq_call c q = Some (x, q') \<and> pq_rel cmp q' s'"
proof -
  obtain xs n where s: "s = (xs, n)" by fastforce
  from r obtain es where es: "comparison (pq_cmp q)" "pq_cmp q = cmp" "pq_producers q = n" "pq_rep q es" "map it es = xs"
    by (auto simp: pq_rel_def s)
  have len: "pq_len q = int (length xs) + 1" using pq_len_rep [OF es(4)] es(5) by auto
  have self: "pq_rel cmp q (xs, n)" using r s by simp
  show ?thesis
  proof (cases c)
    case (PInsert x)
    show ?thesis
    proof (cases x)
      case None
      with PInsert s show ?thesis by (simp add: gw_prioqueue_insert_def)
    next
      case (Some y)
      from gw_prioqueue_insert_rep [OF es(4,1), of y] obtain q' where
        "gw_prioqueue_insert q (Some y) = Some q'" "pq_rep q' (es @ [\<lparr>el_item = Some y, el_seq = pq_seq q\<rparr>])"
        "pq_cmp q' = pq_cmp q" "pq_producers q' = pq_producers q" by (auto elim: runsE)
      with Some PInsert es s show ?thesis
        by (auto simp: pq_rel_def intro!: exI [of _ "es @ [\<lparr>el_item = Some y, el_seq = pq_seq q\<rparr>]"])
    qed
  next
    case PRemove
    then show ?thesis using take_root_rel [OF self] self len s
      by (cases "xs = []") (auto simp: gw_prioqueue_remove_def pop_best_def)
  next
    case PGet
    then show ?thesis using gw_prioqueue_get_rep [OF es(4,1)] es self s by (auto simp: pop_best_def)
  next
    case PConsume
    then show ?thesis using take_root_rel [OF self] self len s es(3)
      by (cases "xs = []") (auto simp: gw_prioqueue_consume_def pq_must_wait_def pop_best_def)
  next
    case PLen
    then show ?thesis using len self s by (simp add: gw_prioqueue_len_def)
  qed (use es s in \<open>auto simp: gw_prioqueue_add_producer_def gw_prioqueue_remove_producer_def
        gw_prioqueue_producer_count_def pq_rel_def pq_rep_update\<close>)
qed

interpretation pqu: refines "pq_rel cmp" pq_call "pq_spec cmp" for cmp
proof
  fix s :: "'a prioqueue" and a :: "'a list \<times> int" and x r a'
  assume R: "pq_rel cmp s a"
  show "\<exists>s'. pq_call x s = Some (r, s') \<and> pq_rel cmp s' a'" if "pq_spec cmp x a = Some (r, a')"
    using pq_call_refines [OF R, of x] that by simp
  show "pq_call x s = None" if "pq_spec cmp x a = None"
    using pq_call_refines [OF R, of x] that by simp
qed

section \<open>Visiting the items\<close>

lemma rd_arr: "pq_arr q a \<Longrightarrow> k < length a \<Longrightarrow> rd (pq_tab q) (int k) = Some (a ! k)"
  by (auto simp: pq_arr_def rd_nat nth_append)

lemma foreach_loop_arr:
  "pq_arr q a \<Longrightarrow> 0 < k \<Longrightarrow> k \<le> length a \<Longrightarrow>
   foreach_loop fn q (int k) s = Some (fold (\<lambda>(i, e). fn (el_item e) (int i)) (enumerate (k - 1) (drop k a)) s)"
proof (induction "length a - k" arbitrary: k s)
  case 0
  then show ?case by (subst foreach_loop.simps) (simp add: pq_arr_def)
next
  case (Suc n)
  then have k: "k < length a" "int k < pq_len q" by (auto simp: pq_arr_def)
  with Suc.hyps(1) [of "Suc k"] Suc.hyps(2) Suc.prems rd_arr [OF Suc.prems(1) k(1)] show ?case
    by (subst foreach_loop.simps) (simp add: Cons_nth_drop_Suc [symmetric] add.commute of_nat_diff)
qed

lemma pq_destroy_loop_arr:
  "pq_arr q a \<Longrightarrow> k \<le> length a \<Longrightarrow>
   pq_destroy_loop q del (int k) ds = Some (ds @ (if del then List.map_filter el_item (drop k a) else []))"
proof (induction "length a - k" arbitrary: k ds)
  case 0
  then show ?case by (subst pq_destroy_loop.simps) (simp add: pq_arr_def List.map_filter_simps)
next
  case (Suc n)
  then have k: "k < length a" "int k < pq_len q" by (auto simp: pq_arr_def)
  with Suc.hyps(1) [of "Suc k"] Suc.hyps(2) Suc.prems rd_arr [OF Suc.prems(1) k(1)] show ?case
    by (subst pq_destroy_loop.simps)
       (simp add: Cons_nth_drop_Suc [symmetric] add.commute List.map_filter_simps split: option.splits)
qed

lemma fold_enumerate_map: "fold g (enumerate k (map f xs)) s = fold (\<lambda>(i, x). g (i, f x)) (enumerate k xs) s"
  by (induction xs arbitrary: k s) simp_all

text \<open>The items in the order of the heap.\<close>

lemma heap_items:
  assumes "pq_rep q es"
  obtains a where "pq_arr q a" "mset (map it (tl a)) = mset (map it es)" "map el_item (drop 1 a) = map (Some \<circ> it) (tl a)"
    "List.map_filter el_item a = map it (tl a)"
proof -
  from assms obtain a where a: "pq_arr q a" "mset (tl a) = mset es" by (auto simp: pq_rep_def)
  then obtain b bs where b: "a = b # bs" "el_item b = None" "\<forall>e \<in> set bs. el_item e \<noteq> None"
    by (cases a) (auto simp: pq_arr_def tail_ok_iff)
  have "List.map_filter el_item bs = map it bs" using b(3) by (induction bs) (auto simp: List.map_filter_simps)
  with a b show ?thesis by (intro that [of a]) (auto simp: List.map_filter_simps)
qed

lemma pq_run:
  assumes "comparison cmp"
  shows "\<exists>q0. gw_prioqueue_create cmp = Some q0 \<and> (case run_ops (pq_spec cmp) cs ([], 0) of
    None \<Rightarrow> run_ops pq_call cs q0 = None
  | Some (rs, s) \<Rightarrow> \<exists>q. run_ops pq_call cs q0 = Some (rs, q) \<and> pq_rel cmp q s)"
proof -
  from gw_prioqueue_create_rep obtain q0 where q0: "gw_prioqueue_create cmp = Some q0" "pq_rep q0 []" "pq_cmp q0 = cmp" "pq_producers q0 = 0"
    by (rule runsE) blast
  then have R: "pq_rel cmp q0 ([], 0)" using assms by (simp add: pq_rel_def)
  show ?thesis
    using q0(1) pqu.run_Some [OF R, of cs] pqu.run_None [OF R, of cs] by (auto split: option.splits)
qed

lemma int_comparison: "comparison (\<lambda>x y :: int. x - y)"
  by unfold_locales auto

section \<open>Properties\<close>

text \<open>
  \<^bold>\<open>C4\<close> For every comparison that is a total preorder, any sequence of calls on a new priority
  queue answers as on the list of items in arrival order, where taking an item takes the oldest
  of those with the highest priority. The calls abort or wait forever exactly where the list
  says so: inserting NULL, removing a producer that is not there, consuming from an empty queue
  that still has producers.
\<close>

theorem prioqueue_refines:
  assumes "comparison cmp"
  shows "\<exists>q0. gw_prioqueue_create cmp = Some q0 \<and> (case run_ops (pq_spec cmp) cs ([], 0) of
    None \<Rightarrow> run_ops pq_call cs q0 = None
  | Some (rs, s) \<Rightarrow> \<exists>q. run_ops pq_call cs q0 = Some (rs, q) \<and> pq_rel cmp q s)"
  by (rule pq_run [OF assms])

theorem prioqueue_refines_witness:
  "\<exists>q0 q. gw_prioqueue_create (\<lambda>x y :: nat \<times> nat. int (fst x) - int (fst y)) = Some q0 \<and>
     run_ops pq_call [PInsert (Some (1, 0)), PInsert (Some (7, 1)), PInsert (Some (7, 2)), PRemove, PRemove, PRemove, PRemove] q0 =
       Some ([PDone, PDone, PDone, PItem (Some (7, 1)), PItem (Some (7, 2)), PItem (Some (1, 0)), PItem None], q)"
proof -
  have "comparison (\<lambda>x y :: nat \<times> nat. int (fst x) - int (fst y))" by unfold_locales auto
  from prioqueue_refines [OF this, of "[PInsert (Some (1, 0)), PInsert (Some (7, 1)), PInsert (Some (7, 2)), PRemove, PRemove, PRemove, PRemove]"]
  show ?thesis by (auto simp: pop_best_def best_def)
qed

text \<open>
  \<^bold>\<open>C27\<close> \<open>gw_prioqueue_foreach\<close> calls its function once for every item in the queue, with the
  numbers from 0, and \<open>gw_prioqueue_destroy\<close> calls the destructor once for every item, in the
  same order.
\<close>

theorem prioqueue_visits_all:
  assumes "pq_rel cmp q (xs, n)"
  shows "\<exists>ys. mset ys = mset xs \<and>
    gw_prioqueue_foreach q fn s = Some (fold (\<lambda>(i, x). fn (Some x) (int i)) (enumerate 0 ys) s) \<and>
    gw_prioqueue_destroy (Some q) del = Some (if del then ys else [])"
proof -
  from assms obtain es where es: "pq_rep q es" "map it es = xs" by (auto simp: pq_rel_def)
  from heap_items [OF es(1)] obtain a where a: "pq_arr q a" "mset (map it (tl a)) = mset (map it es)"
    "map el_item (drop 1 a) = map (Some \<circ> it) (tl a)" "List.map_filter el_item a = map it (tl a)" by blast
  have n: "1 \<le> length a" using a(1) by (auto simp: pq_arr_def tail_ok_def Suc_le_eq)
  have "fold (\<lambda>(i, e). fn (el_item e) (int i)) (enumerate 0 (drop 1 a)) s =
    fold (\<lambda>(i, x). fn x (int i)) (enumerate 0 (map el_item (drop 1 a))) s"
    by (simp add: fold_enumerate_map)
  also have "\<dots> = fold (\<lambda>(i, x). fn (Some x) (int i)) (enumerate 0 (map it (tl a))) s"
    unfolding a(3) by (simp add: fold_enumerate_map)
  finally show ?thesis
    using foreach_loop_arr [OF a(1) _ n, of fn s] pq_destroy_loop_arr [OF a(1), of 0 del "[]"] a(2,4) es(2)
    by (intro exI [of _ "map it (tl a)"]) (simp add: gw_prioqueue_foreach_def gw_prioqueue_destroy_def)
qed

theorem prioqueue_visits_all_witness:
  "\<exists>q ys. pq_rel (\<lambda>x y :: int. x - y) q ([1, 5, 5], 0) \<and> mset ys = {#1, 5, 5#} \<and>
     gw_prioqueue_destroy (Some q) True = Some ys"
proof -
  from pq_run [OF int_comparison, of "[PInsert (Some 1), PInsert (Some 5), PInsert (Some 5)]"]
  obtain q where "pq_rel (\<lambda>x y :: int. x - y) q ([1, 5, 5], 0)" by auto
  with prioqueue_visits_all [OF this, of "\<lambda>x i s. s" "()" True] show ?thesis by auto
qed

end
