(* ===== verification/Ctype.thy ===== *)
theory Ctype
  imports Prelude
begin

text \<open>
  Octets, C strings and the character classes of \<open>ctype.h\<close> in the C locale, which the string
  components use. A class takes the \<open>int\<close> the C function takes: the value of an unsigned
  octet, or \<open>-1\<close> (\<open>EOF\<close>), which belongs to no class.
\<close>

type_synonym byte = "8 word"

definition isspace :: "int \<Rightarrow> bool" where
  "isspace c \<longleftrightarrow> c = 32 \<or> 9 \<le> c \<and> c \<le> 13"

definition isdigit :: "int \<Rightarrow> bool" where
  "isdigit c \<longleftrightarrow> 48 \<le> c \<and> c \<le> 57"

definition isupper :: "int \<Rightarrow> bool" where
  "isupper c \<longleftrightarrow> 65 \<le> c \<and> c \<le> 90"

definition islower :: "int \<Rightarrow> bool" where
  "islower c \<longleftrightarrow> 97 \<le> c \<and> c \<le> 122"

definition isalpha :: "int \<Rightarrow> bool" where
  "isalpha c \<longleftrightarrow> isupper c \<or> islower c"

definition isalnum :: "int \<Rightarrow> bool" where
  "isalnum c \<longleftrightarrow> isalpha c \<or> isdigit c"

definition isprint :: "int \<Rightarrow> bool" where
  "isprint c \<longleftrightarrow> 32 \<le> c \<and> c \<le> 126"

definition toupper :: "int \<Rightarrow> int" where
  "toupper c = (if islower c then c - 32 else c)"

definition tolower :: "int \<Rightarrow> int" where
  "tolower c = (if isupper c then c + 32 else c)"

definition isxdigit :: "int \<Rightarrow> bool" where
  "isxdigit c \<longleftrightarrow> isdigit c \<or> 97 \<le> c \<and> c \<le> 102 \<or> 65 \<le> c \<and> c \<le> 70"

text \<open>The wrappers of \<open>gwlib/utils.c\<close> that can be passed as function pointers.\<close>

definition gw_isdigit :: "int \<Rightarrow> bool" where
  "gw_isdigit c = isdigit c"

definition gw_isxdigit :: "int \<Rightarrow> bool" where
  "gw_isxdigit c = isxdigit c"

text \<open>
  A C string is given by the octets at its address up to the end of the area it lies in;
  \<open>strlen\<close> stops at the first NUL, and the area is taken to be NUL-terminated.
\<close>

definition cstr :: "string \<Rightarrow> byte list" where
  "cstr s = map of_char s"

definition strlen :: "byte list \<Rightarrow> int" where
  "strlen s = int (length (takeWhile (\<lambda>b. b \<noteq> 0) s))"

lemma strlen_no_nul: "0 \<notin> set s \<Longrightarrow> strlen s = int (length s)"
  by (induction s) (auto simp: strlen_def)

lemma strlen_bounds: "0 \<le> strlen s" "strlen s \<le> int (length s)"
  by (auto simp: strlen_def length_takeWhile_le)

text \<open>\<open>unsigned char\<close> values as \<open>int\<close>.\<close>

lemma uint_byte_bounds: "0 \<le> uint (b::byte)" "uint (b::byte) < 256" "uint (b::byte) \<le> 255"
  using uint_lt2p [of b] by simp_all

lemma uint_byte_eq_iff: "uint (a::byte) = uint b \<longleftrightarrow> a = b"
  by (simp add: word_uint_eq_iff)

lemma word_of_int_uint_byte [simp]: "(word_of_int (uint (b::byte)) :: byte) = b"
  by simp

lemma uint_word_of_int_byte: "0 \<le> c \<Longrightarrow> c < 256 \<Longrightarrow> uint (word_of_int c :: byte) = c"
  by (simp add: uint_word_of_int)

text \<open>A \<open>char\<close> is signed.\<close>

lemma sint_byte: "sint (b::byte) = (if uint b < 128 then uint b else uint b - 256)"
proof -
  have "uint b div 128 = (if 128 \<le> uint b then 1 else 0)"
    using uint_byte_bounds [of b] by (auto simp: div_pos_geq)
  then have "bit (uint b) 7 \<longleftrightarrow> 128 \<le> uint b" by (simp add: bit_iff_odd)
  moreover have "take_bit 8 (uint b) = uint b"
    using uint_byte_bounds [of b] by (intro take_bit_int_eq_self) simp_all
  ultimately show ?thesis
    by (auto simp: sint_uint signed_take_bit_eq_take_bit_minus)
qed

lemma toupper_idem [simp]: "toupper (toupper c) = toupper c"
  by (simp add: toupper_def islower_def)

lemma tolower_idem [simp]: "tolower (tolower c) = tolower c"
  by (simp add: tolower_def isupper_def)

lemma toupper_byte: "0 \<le> c \<Longrightarrow> c \<le> 255 \<Longrightarrow> 0 \<le> toupper c \<and> toupper c \<le> 255"
  by (simp add: toupper_def islower_def)

end
