(* ===== verification/Octstr.thy ===== *)
theory Octstr
  imports Ctype
begin

text \<open>
  The octet strings of \<open>gwlib/octstr.c\<close>: a growable array of octets with an invisible
  terminating NUL. The first part translates the structure, its run-time check
  \<open>seems_valid\<close> and the operations that create, read and edit a string. The second part
  gives the representation relation \<open>orep\<close> to lists of octets and shows what every
  operation does under it, and that none of them leaves its allocated area.

  The data area is a list of cells; \<open>data == NULL\<close> is the empty list of cells. A pointer
  argument into an area is the area and an offset. \<open>gw_assert(immutables_init)\<close> and the checks
  of the allocator are not repeated: the model has no uninitialised module and no freed string.
\<close>

section \<open>The data structure\<close>

record octstr =
  os_data :: "byte cells"
  os_len :: int
  os_size :: int
  os_immutable :: bool

definition seems_valid :: "octstr \<Rightarrow> unit option" where
  "seems_valid ostr = do {
     gw_assert (os_len ostr \<ge> 0);
     gw_assert (os_size ostr \<ge> 0);
     if os_size ostr = 0 then do {
       gw_assert (os_len ostr = 0);
       gw_assert (os_data ostr = []) }
     else do {
       gw_assert (os_len ostr + 1 \<le> os_size ostr);
       gw_assert (os_data ostr \<noteq> []);
       c \<leftarrow> rd (os_data ostr) (os_len ostr);
       gw_assert (c = 0) } }"

definition octstr_grow :: "octstr \<Rightarrow> int \<Rightarrow> octstr option" where
  "octstr_grow ostr size0 = do {
     gw_assert (\<not> os_immutable ostr);
     seems_valid ostr;
     gw_assert (size0 \<ge> 0);
     let size = size0 + 1 in
     if size > os_size ostr then
       let size = size + (1024 - crem size 1024) in do {
         data \<leftarrow> gw_realloc (os_data ostr) size;
         Some (ostr\<lparr>os_data := data, os_size := size\<rparr>) }
     else Some ostr }"

section \<open>Creation\<close>

definition octstr_create_from_data :: "byte cells \<Rightarrow> int \<Rightarrow> int \<Rightarrow> octstr option" where
  "octstr_create_from_data data off len = do {
     gw_assert (len \<ge> 0);
     gw_assert (data \<noteq> [] \<or> len = 0);
     ostr \<leftarrow> (if len = 0 then
         Some \<lparr>os_data = [], os_len = 0, os_size = 0, os_immutable = False\<rparr>
       else do {
         d \<leftarrow> gw_malloc (len + 1);
         d \<leftarrow> memcpy d 0 data off len;
         d \<leftarrow> wr d len 0;
         Some \<lparr>os_data = d, os_len = len, os_size = len + 1, os_immutable = False\<rparr> });
     seems_valid ostr;
     Some ostr }"

definition octstr_create :: "byte list \<Rightarrow> octstr option" where
  "octstr_create s = octstr_create_from_data (map Some s @ [Some 0]) 0 (strlen s)"

text \<open>
  The string object \<open>octstr_imm\<close> makes for a C string literal. The table that finds the object
  of a literal seen before is not modelled: the object is the same either way.
\<close>

definition octstr_imm :: "byte list \<Rightarrow> octstr" where
  "octstr_imm s = \<lparr>os_data = map Some s @ [Some 0], os_len = strlen s, os_size = strlen s + 1,
     os_immutable = True\<rparr>"

definition octstr_len :: "octstr option \<Rightarrow> int option" where
  "octstr_len os = (case os of None \<Rightarrow> Some 0
     | Some ostr \<Rightarrow> do { seems_valid ostr; Some (os_len ostr) })"

definition octstr_copy :: "octstr option \<Rightarrow> int \<Rightarrow> int \<Rightarrow> octstr option" where
  "octstr_copy os from len = (case os of None \<Rightarrow> octstr_create []
     | Some ostr \<Rightarrow> do {
         seems_valid ostr;
         gw_assert (from \<ge> 0);
         gw_assert (len \<ge> 0);
         if from \<ge> os_len ostr then octstr_create []
         else
           let len = (if len > os_len ostr - from then os_len ostr - from else len) in
           octstr_create_from_data (os_data ostr) from len })"

text \<open>The outer \<open>option\<close> is the abort, the inner one the NULL pointer.\<close>

definition octstr_duplicate :: "octstr option \<Rightarrow> octstr option option" where
  "octstr_duplicate os = (case os of None \<Rightarrow> Some None
     | Some ostr \<Rightarrow> do {
         seems_valid ostr;
         new \<leftarrow> octstr_create_from_data (os_data ostr) 0 (os_len ostr);
         Some (Some new) })"

definition octstr_cat :: "octstr \<Rightarrow> octstr \<Rightarrow> octstr option" where
  "octstr_cat ostr1 ostr2 = do {
     seems_valid ostr1;
     seems_valid ostr2;
     ostr \<leftarrow> octstr_create [];
     let len = os_len ostr1 + os_len ostr2 in do {
       d \<leftarrow> gw_malloc (len + 1);
       d \<leftarrow> (if os_len ostr1 > 0 then memcpy d 0 (os_data ostr1) 0 (os_len ostr1) else Some d);
       d \<leftarrow> (if os_len ostr2 > 0
             then memcpy d (os_len ostr1) (os_data ostr2) 0 (os_len ostr2) else Some d);
       d \<leftarrow> wr d len 0;
       let ostr = ostr\<lparr>os_data := d, os_len := len, os_size := len + 1\<rparr> in do {
         seems_valid ostr;
         Some ostr } } }"

section \<open>Single octets\<close>

definition octstr_get_char :: "octstr \<Rightarrow> int \<Rightarrow> int option" where
  "octstr_get_char ostr pos = do {
     seems_valid ostr;
     if pos \<ge> os_len ostr \<or> pos < 0 then Some (-1)
     else do { c \<leftarrow> rd (os_data ostr) pos; Some (uint c) } }"

definition octstr_set_char :: "octstr \<Rightarrow> int \<Rightarrow> int \<Rightarrow> octstr option" where
  "octstr_set_char ostr pos ch = do {
     seems_valid ostr;
     gw_assert (\<not> os_immutable ostr);
     ostr \<leftarrow> (if pos < os_len ostr then do {
         d \<leftarrow> wr (os_data ostr) pos (word_of_int ch);
         Some (ostr\<lparr>os_data := d\<rparr>) }
       else Some ostr);
     seems_valid ostr;
     Some ostr }"

text \<open>\<open>buf\<close> is the caller's buffer; the function writes it from its start.\<close>

definition octstr_get_many_chars :: "byte cells \<Rightarrow> octstr \<Rightarrow> int \<Rightarrow> int \<Rightarrow> byte cells option" where
  "octstr_get_many_chars buf ostr pos len = do {
     seems_valid ostr;
     if pos \<ge> os_len ostr then Some buf
     else
       let len = (if pos + len > os_len ostr then os_len ostr - pos else len) in
       if len > 0 then memcpy buf 0 (os_data ostr) pos len else Some buf }"

text \<open>The octets a caller sees at the returned address, up to and including the NUL.\<close>

definition octstr_get_cstr :: "octstr option \<Rightarrow> byte cells option" where
  "octstr_get_cstr os = (case os of None \<Rightarrow> Some (map Some (cstr ''(null)'' @ [0]))
     | Some ostr \<Rightarrow> do {
         seems_valid ostr;
         if os_len ostr = 0 then Some [Some 0] else Some (os_data ostr) })"

section \<open>Insertion and deletion\<close>

definition octstr_insert :: "octstr \<Rightarrow> octstr option \<Rightarrow> int \<Rightarrow> octstr option" where
  "octstr_insert ostr1 os2 pos = (case os2 of None \<Rightarrow> Some ostr1
     | Some ostr2 \<Rightarrow> do {
         seems_valid ostr1;
         seems_valid ostr2;
         gw_assert (pos \<le> os_len ostr1);
         gw_assert (\<not> os_immutable ostr1);
         if os_len ostr2 = 0 then Some ostr1
         else do {
           ostr1 \<leftarrow> octstr_grow ostr1 (os_len ostr1 + os_len ostr2);
           d \<leftarrow> memmove (os_data ostr1) (pos + os_len ostr2) pos (os_len ostr1 - pos);
           d \<leftarrow> memcpy d pos (os_data ostr2) 0 (os_len ostr2);
           let len = os_len ostr1 + os_len ostr2 in do {
             d \<leftarrow> wr d len 0;
             let ostr1 = ostr1\<lparr>os_data := d, os_len := len\<rparr> in do {
               seems_valid ostr1;
               Some ostr1 } } } })"

definition octstr_insert_data :: "octstr \<Rightarrow> int \<Rightarrow> byte cells \<Rightarrow> int \<Rightarrow> octstr option" where
  "octstr_insert_data ostr pos data len = do {
     seems_valid ostr;
     gw_assert (\<not> os_immutable ostr);
     gw_assert (pos \<le> os_len ostr);
     if len = 0 then Some ostr
     else do {
       ostr \<leftarrow> octstr_grow ostr (os_len ostr + len);
       d \<leftarrow> (if os_len ostr > pos
             then memmove (os_data ostr) (pos + len) pos (os_len ostr - pos)
             else Some (os_data ostr));
       d \<leftarrow> memcpy d pos data 0 len;
       d \<leftarrow> wr d (os_len ostr + len) 0;
       let ostr = ostr\<lparr>os_data := d, os_len := os_len ostr + len\<rparr> in do {
         seems_valid ostr;
         Some ostr } } }"

definition octstr_insert_char :: "octstr \<Rightarrow> int \<Rightarrow> byte \<Rightarrow> octstr option" where
  "octstr_insert_char ostr pos c = do {
     seems_valid ostr;
     gw_assert (\<not> os_immutable ostr);
     gw_assert (pos \<le> os_len ostr);
     ostr \<leftarrow> octstr_grow ostr (os_len ostr + 1);
     d \<leftarrow> (if os_len ostr > pos
           then memmove (os_data ostr) (pos + 1) pos (os_len ostr - pos)
           else Some (os_data ostr));
     d \<leftarrow> memcpy d pos [Some c] 0 1;
     d \<leftarrow> wr d (os_len ostr + 1) 0;
     let ostr = ostr\<lparr>os_data := d, os_len := os_len ostr + 1\<rparr> in do {
       seems_valid ostr;
       Some ostr } }"

definition octstr_append_data :: "octstr \<Rightarrow> byte cells \<Rightarrow> int \<Rightarrow> octstr option" where
  "octstr_append_data ostr data len = octstr_insert_data ostr (os_len ostr) data len"

definition octstr_append :: "octstr \<Rightarrow> octstr option \<Rightarrow> octstr option" where
  "octstr_append ostr1 os2 = octstr_insert ostr1 os2 (os_len ostr1)"

definition octstr_append_cstr :: "octstr \<Rightarrow> byte list \<Rightarrow> octstr option" where
  "octstr_append_cstr ostr s =
     octstr_insert_data ostr (os_len ostr) (map Some s @ [Some 0]) (strlen s)"

definition octstr_append_char :: "octstr \<Rightarrow> int \<Rightarrow> octstr option" where
  "octstr_append_char ostr ch = do {
     gw_assert (ch \<ge> 0);
     gw_assert (ch \<le> 255);
     octstr_insert_data ostr (os_len ostr) [Some (word_of_int ch)] 1 }"

definition octstr_truncate :: "octstr option \<Rightarrow> int \<Rightarrow> octstr option option" where
  "octstr_truncate os new_len = (case os of None \<Rightarrow> Some None
     | Some ostr \<Rightarrow> do {
         seems_valid ostr;
         gw_assert (\<not> os_immutable ostr);
         gw_assert (new_len \<ge> 0);
         if new_len \<ge> os_len ostr then Some (Some ostr)
         else do {
           d \<leftarrow> wr (os_data ostr) new_len 0;
           let ostr = ostr\<lparr>os_data := d, os_len := new_len\<rparr> in do {
             seems_valid ostr;
             Some (Some ostr) } } })"

definition octstr_delete :: "octstr \<Rightarrow> int \<Rightarrow> int \<Rightarrow> octstr option" where
  "octstr_delete ostr1 pos0 len0 = do {
     seems_valid ostr1;
     gw_assert (\<not> os_immutable ostr1);
     let pos = (if pos0 > os_len ostr1 then os_len ostr1 else pos0);
         len = (if pos + len0 > os_len ostr1 then os_len ostr1 - pos else len0) in do {
       ostr1 \<leftarrow> (if len > 0 then do {
           d \<leftarrow> memmove (os_data ostr1) pos (pos + len) (os_len ostr1 - pos - len);
           d \<leftarrow> wr d (os_len ostr1 - len) 0;
           Some (ostr1\<lparr>os_data := d, os_len := os_len ostr1 - len\<rparr>) }
         else Some ostr1);
       seems_valid ostr1;
       Some ostr1 } }"

section \<open>Representation of octet lists\<close>

text \<open>
  \<open>octstr_ok\<close> is the invariant that \<open>seems_valid\<close> checks, with the two facts it cannot check:
  \<open>size\<close> is the size of the allocated area and the octets below \<open>len\<close> have been written.
  \<open>bytes\<close> is the abstraction. \<open>orep os bs\<close> says both at once, \<open>mrep\<close> adds that the string
  is mutable, and \<open>filled\<close> describes a string while an operation is rewriting its area.
\<close>

definition octstr_ok :: "octstr \<Rightarrow> bool" where
  "octstr_ok os \<longleftrightarrow> 0 \<le> os_len os \<and> os_size os = int (length (os_data os)) \<and>
     (os_data os = [] \<and> os_len os = 0 \<or>
      os_len os < os_size os \<and> list_all (\<lambda>c. c \<noteq> None) (take (nat (os_len os)) (os_data os)) \<and>
      os_data os ! nat (os_len os) = Some 0)"

definition bytes :: "octstr \<Rightarrow> byte list" where
  "bytes os = map the (take (nat (os_len os)) (os_data os))"

definition orep :: "octstr \<Rightarrow> byte list \<Rightarrow> bool" where
  "orep os bs \<longleftrightarrow> os_len os = int (length bs) \<and> os_size os = int (length (os_data os)) \<and>
     (os_data os = [] \<and> bs = [] \<or> (\<exists>rest. os_data os = map Some bs @ Some 0 # rest))"

definition mrep :: "octstr \<Rightarrow> byte list \<Rightarrow> bool" where
  "mrep os bs \<longleftrightarrow> orep os bs \<and> \<not> os_immutable os"

definition filled :: "octstr \<Rightarrow> byte list \<Rightarrow> byte cells \<Rightarrow> bool" where
  "filled os bs rest \<longleftrightarrow> os_len os = int (length bs) \<and> os_size os = int (length (os_data os)) \<and>
     \<not> os_immutable os \<and> os_data os = map Some bs @ rest"

lemma map_Some_the: "list_all (\<lambda>c. c \<noteq> None) cs \<Longrightarrow> map Some (map the cs) = cs"
  by (induction cs) auto

lemma orep_iff: "orep os bs \<longleftrightarrow> octstr_ok os \<and> bytes os = bs"
proof
  assume "orep os bs"
  then show "octstr_ok os \<and> bytes os = bs"
    by (auto simp: orep_def octstr_ok_def bytes_def list_all_iff nth_append comp_def)
next
  assume ok: "octstr_ok os \<and> bytes os = bs"
  then show "orep os bs"
  proof (cases "os_data os = []")
    case True
    then show ?thesis using ok by (auto simp: orep_def octstr_ok_def bytes_def)
  next
    case False
    define n where "n = nat (os_len os)"
    have n: "n < length (os_data os)" "os_len os = int n" "os_data os ! n = Some 0"
      and l: "list_all (\<lambda>c. c \<noteq> None) (take n (os_data os))" "bs = map the (take n (os_data os))"
      and s: "os_size os = int (length (os_data os))"
      using ok False by (auto simp: octstr_ok_def bytes_def n_def)
    have "os_data os = take n (os_data os) @ os_data os ! n # drop (Suc n) (os_data os)"
      using n(1) by (simp add: id_take_nth_drop)
    then have "os_data os = map Some bs @ Some 0 # drop (Suc n) (os_data os)"
      using map_Some_the [OF l(1)] l(2) n(3) by simp
    moreover have "length bs = n" using n(1) by (simp add: l(2))
    ultimately show ?thesis using n(2) s by (auto simp: orep_def)
  qed
qed

lemma orep_len: "orep os bs \<Longrightarrow> os_len os = int (length bs)"
  by (simp add: orep_def)

lemma mrep_len: "mrep os bs \<Longrightarrow> os_len os = int (length bs)"
  by (simp add: mrep_def orep_def)

lemma mrep_orep: "mrep os bs \<Longrightarrow> orep os bs"
  by (simp add: mrep_def)

lemma mrep_mutable: "mrep os bs \<Longrightarrow> \<not> os_immutable os"
  by (simp add: mrep_def)

lemma orep_det: "orep os xs \<Longrightarrow> orep os ys \<Longrightarrow> xs = ys"
  by (simp add: orep_iff)

lemma orep_data:
  assumes "orep os bs" and "bs \<noteq> []"
  obtains rest where "os_data os = map Some bs @ Some 0 # rest"
  using assms by (auto simp: orep_def)

lemma orep_rd:
  assumes "orep os bs" and "0 \<le> i" and "i < int (length bs)"
  shows "rd (os_data os) i = Some (bs ! nat i)"
proof -
  have "bs \<noteq> []" using assms by auto
  then obtain rest where "os_data os = map Some bs @ Some 0 # rest" using orep_data [OF assms(1)] by blast
  then show ?thesis using assms by (simp add: rd_def nth_append nat_less_iff)
qed

lemma seems_valid_rep: "orep os bs \<Longrightarrow> seems_valid os = Some ()"
  by (auto simp: seems_valid_def orep_def rd_def nth_append)

lemma filled_mrep: "filled os bs (Some 0 # rest) \<Longrightarrow> mrep os bs"
  by (auto simp: filled_def mrep_def orep_def)

lemma octstr_grow_rep:
  assumes "mrep os bs" and "0 \<le> n"
  obtains os' rest where "octstr_grow os n = Some os'" "filled os' bs rest" "n < int (length bs + length rest)"
    "bs \<noteq> [] \<longrightarrow> (\<exists>r. rest = Some 0 # r)"
proof (cases "n + 1 > os_size os")
  case False
  have d: "os_data os \<noteq> []" using False assms by (auto simp: mrep_def orep_def)
  then obtain rest where r: "os_data os = map Some bs @ Some 0 # rest"
    using assms(1) by (auto simp: mrep_def orep_def)
  have "octstr_grow os n = Some os"
    using assms False by (simp add: octstr_grow_def mrep_mutable seems_valid_rep [OF mrep_orep])
  moreover have "filled os bs (Some 0 # rest)"
    using assms(1) r by (simp add: filled_def mrep_def orep_def)
  moreover have "n < int (length bs + length (Some 0 # rest))"
    using False assms(1) r by (simp add: mrep_def orep_def)
  ultimately show ?thesis using that by blast
next
  case True
  define m where "m = n + 1 + (1024 - crem (n + 1) 1024)"
  have c: "crem (n + 1) 1024 < 1024" using assms(2) by simp
  have m: "n + 1 < m" using c by (simp add: m_def)
  have l: "int (length (os_data os)) < m" using True m assms(1) by (simp add: mrep_def orep_def)
  define k where "k = nat m - length (os_data os)"
  have k: "0 < k" "nat m = length (os_data os) + k" using l m assms(2) by (auto simp: k_def)
  let ?os = "os\<lparr>os_data := os_data os @ replicate k None, os_size := m\<rparr>"
  have "octstr_grow os n = Some ?os"
    using assms True l m c
    by (simp add: octstr_grow_def mrep_mutable seems_valid_rep [OF mrep_orep] gw_realloc_grow
        k_def m_def Let_def del: crem_nonneg)
  moreover obtain rest where r: "os_data os @ replicate k None = map Some bs @ rest"
      "bs \<noteq> [] \<longrightarrow> (\<exists>r. rest = Some 0 # r)"
    using assms(1) by (fastforce simp: mrep_def orep_def)
  moreover have lm: "int (length bs + length rest) = m"
    using arg_cong [OF r(1), of length] k m assms(2) by simp
  moreover have "filled ?os bs rest"
    using assms(1) r(1) lm by (simp add: filled_def mrep_def orep_def)
  ultimately show ?thesis using that [of ?os rest] m assms(2) by simp
qed

section \<open>Block moves on split areas\<close>

lemma memmove_right:
  assumes "k \<le> length r"
  shows "memmove (a @ m @ r) (int (length a) + int k) (int (length a)) (int (length m)) =
    Some (a @ take k (m @ r) @ m @ drop k r)"
proof -
  have 1: "nat (int (length a) + int k) = length a + k"
    "nat (int (length a) + int k + int (length m)) = length a + (length m + k)" by simp_all
  have 2: "length a + (length m + k) \<le> length (a @ m @ r)" using assms by simp
  show ?thesis using assms unfolding memmove_def 1 by simp
qed

lemma memmove_left:
  "memmove (a @ x @ m @ r) (int (length a)) (int (length a) + int (length x)) (int (length m)) =
    Some (a @ m @ drop (length m) (x @ m) @ r)"
proof -
  have 1: "nat (int (length a) + int (length x)) = length a + length x"
    "nat (int (length a) + int (length m)) = length a + length m" by simp_all
  show ?thesis unfolding memmove_def 1 by simp
qed

lemma memcpy_at:
  assumes "length x = length y"
  shows "memcpy (a @ x @ r) (int (length a)) (p @ y @ q) (int (length p)) (int (length y)) = Some (a @ y @ r)"
proof -
  have 1: "nat (int (length a) + int (length y)) = length a + length y" by simp
  show ?thesis using assms unfolding memcpy_def 1 by simp
qed

lemma wr_at: "wr (a @ x # r) (int (length a)) v = Some (a @ Some v # r)"
  by (simp add: wr_def)

lemma insert_block:
  assumes "p \<le> length bs" and "length ys < length rest"
  obtains d1 d2 rest' where
    "memmove (map Some bs @ rest) (int p + int (length ys)) (int p) (int (length bs) - int p) = Some d1"
    "memcpy d1 (int p) (map Some ys @ q) 0 (int (length ys)) = Some d2"
    "wr d2 (int (length bs) + int (length ys)) 0 =
       Some (map Some (take p bs @ ys @ drop p bs) @ Some 0 # rest')"
    "length rest = length ys + length (Some 0 # rest')"
proof -
  let ?a = "map Some (take p bs)" and ?m = "map Some (drop p bs)" and ?k = "length ys"
  let ?d1 = "?a @ take ?k (?m @ rest) @ ?m @ drop ?k rest"
  have a: "int p = int (length ?a)" "int (length bs) - int p = int (length ?m)"
    "map Some bs @ rest = ?a @ ?m @ rest"
    using assms(1) by (simp_all add: of_nat_diff flip: append_assoc map_append)
  have 1: "memmove (map Some bs @ rest) (int p + int ?k) (int p) (int (length bs) - int p) = Some ?d1"
    using memmove_right [OF less_imp_le [OF assms(2)], of ?a ?m]
    by (simp only: a(1) [symmetric] a(2) [symmetric] a(3) [symmetric])
  have 2: "memcpy ?d1 (int p) (map Some ys @ q) 0 (int ?k) = Some (?a @ map Some ys @ ?m @ drop ?k rest)"
    using memcpy_at [of "take ?k (?m @ rest)" "map Some ys" ?a "?m @ drop ?k rest" "[]" q] assms(2) a(1) by simp
  obtain x rest' where x: "drop ?k rest = x # rest'" using assms(2) by (cases "drop ?k rest") auto
  have "length (drop ?k rest) = length (x # rest')" using x by simp
  then have len: "length rest = ?k + length (Some 0 # rest')" using assms(2) by simp
  have "wr ((?a @ map Some ys @ ?m) @ x # rest') (int (length (?a @ map Some ys @ ?m))) 0 =
      Some ((?a @ map Some ys @ ?m) @ Some 0 # rest')" by (rule wr_at)
  then have "wr (?a @ map Some ys @ ?m @ drop ?k rest) (int (length bs) + int ?k) 0 =
      Some (map Some (take p bs @ ys @ drop p bs) @ Some 0 # rest')"
    using assms(1) x by (simp add: of_nat_diff algebra_simps)
  then show ?thesis using 1 2 len that by blast
qed

lemma filled_insert:
  assumes "filled os bs rest" and "p \<le> length bs" and "length rest = length ys + length (Some 0 # rest')"
  shows "mrep (os\<lparr>os_data := map Some (take p bs @ ys @ drop p bs) @ Some 0 # rest',
    os_len := int (length bs) + int (length ys)\<rparr>) (take p bs @ ys @ drop p bs)"
  using assms by (auto simp: filled_def mrep_def orep_def min_def)

section \<open>What the operations do\<close>

lemma octstr_create_from_data_rep:
  assumes "0 \<le> n" and "off \<ge> 0" and "take (nat n) (drop (nat off) data) = map Some bs" and "length bs = nat n"
  shows "runs (octstr_create_from_data data off n) (\<lambda>os. mrep os bs)"
proof (cases "n = 0")
  case True
  then show ?thesis using assms by (simp add: octstr_create_from_data_def seems_valid_def mrep_def orep_def)
next
  case False
  have len: "nat n \<le> length data - nat off" using arg_cong [OF assms(3), of length] assms(4) by simp
  have d: "data \<noteq> []" using len False assms(1) by auto
  have sum: "off + n \<le> int (length data)" using len False assms by linarith
  have n1: "nat (n + 1) = Suc (nat n)" using assms(1) by simp
  have m: "memcpy (replicate (nat (n + 1)) None) 0 data off n = Some (map Some bs @ [None])"
    using assms sum unfolding n1
    by (simp add: memcpy_def replicate_Suc [of 0, unfolded replicate_0] del: replicate_Suc)
  have "wr (map Some bs @ [None]) n 0 = Some (map Some bs @ [Some 0])"
    using wr_at [of "map Some bs" None "[]" 0] assms by simp
  moreover have "rd (map Some bs @ [Some 0]) n = Some (0::byte)"
    using assms by (simp add: rd_def nth_append)
  ultimately show ?thesis using assms False d m
    by (simp add: octstr_create_from_data_def gw_malloc_def seems_valid_def mrep_def orep_def)
qed

lemma octstr_create_rep: "runs (octstr_create s) (\<lambda>os. mrep os (takeWhile (\<lambda>b. b \<noteq> 0) s))"
  unfolding octstr_create_def
proof (rule octstr_create_from_data_rep)
  have "take (length (takeWhile (\<lambda>b. b \<noteq> 0) s)) s = takeWhile (\<lambda>b. b \<noteq> 0) s"
    by (metis takeWhile_eq_take)
  then show "take (nat (strlen s)) (drop (nat 0) (map Some s @ [Some 0])) = map Some (takeWhile (\<lambda>b. b \<noteq> 0) s)"
    by (simp add: strlen_def take_map length_takeWhile_le)
qed (simp_all add: strlen_def)

lemma octstr_create_empty [simp]:
  "octstr_create [] = Some \<lparr>os_data = [], os_len = 0, os_size = 0, os_immutable = False\<rparr>"
  by (simp add: octstr_create_def strlen_def octstr_create_from_data_def seems_valid_def)

lemma mrep_empty: "mrep \<lparr>os_data = [], os_len = 0, os_size = 0, os_immutable = False\<rparr> []"
  by (simp add: mrep_def orep_def)

lemma octstr_imm_rep: "0 \<notin> set s \<Longrightarrow> orep (octstr_imm s) s"
  by (simp add: octstr_imm_def orep_def strlen_no_nul)

lemma octstr_len_rep: "orep os bs \<Longrightarrow> octstr_len (Some os) = Some (int (length bs))"
  by (simp add: octstr_len_def seems_valid_rep orep_len)

lemma octstr_copy_rep:
  assumes "orep os bs" and "0 \<le> from" and "0 \<le> len"
  shows "runs (octstr_copy (Some os) from len) (\<lambda>r. mrep r (take (nat len) (drop (nat from) bs)))"
proof (cases "from \<ge> os_len os")
  case True
  then show ?thesis using assms
    by (simp add: octstr_copy_def seems_valid_rep mrep_empty orep_len)
next
  case False
  define n where "n = (if len > os_len os - from then os_len os - from else len)"
  have "bs \<noteq> []" using False assms by (auto simp: orep_len)
  then obtain rest where d: "os_data os = map Some bs @ Some 0 # rest" using orep_data [OF assms(1)] by blast
  have fr: "nat from < length bs" using False assms by (simp add: orep_len nat_less_iff)
  have n: "nat n = min (nat len) (length bs - nat from)" "0 \<le> n" "nat n \<le> length bs - nat from"
    using False assms orep_len [OF assms(1)] by (auto simp: n_def min_def)
  have "runs (octstr_create_from_data (os_data os) from n) (\<lambda>r. mrep r (take (nat n) (drop (nat from) bs)))"
    by (rule octstr_create_from_data_rep) (use n fr assms in \<open>simp_all add: d drop_map take_map\<close>)
  moreover have "take (nat n) (drop (nat from) bs) = take (nat len) (drop (nat from) bs)"
    unfolding n(1) by (simp add: min_def)
  ultimately show ?thesis using False assms by (simp add: octstr_copy_def seems_valid_rep n_def Let_def)
qed

lemma octstr_duplicate_rep:
  assumes "orep os bs"
  shows "\<exists>new. octstr_duplicate (Some os) = Some (Some new) \<and> mrep new bs"
proof -
  have "runs (octstr_create_from_data (os_data os) 0 (os_len os)) (\<lambda>r. mrep r bs)"
    by (rule octstr_create_from_data_rep) (use assms in \<open>auto simp: orep_def\<close>)
  then show ?thesis using assms by (auto simp: octstr_duplicate_def seems_valid_rep elim!: runsE)
qed

lemma octstr_get_char_rep:
  assumes "orep os bs"
  shows "octstr_get_char os pos =
    Some (if 0 \<le> pos \<and> pos < int (length bs) then uint (bs ! nat pos) else -1)"
  using assms by (auto simp: octstr_get_char_def seems_valid_rep orep_len orep_rd)

lemma octstr_set_char_rep:
  assumes "mrep os bs" and "0 \<le> pos"
  shows "runs (octstr_set_char os pos ch)
    (\<lambda>r. mrep r (if pos < int (length bs) then bs[nat pos := word_of_int ch] else bs))"
proof (cases "pos < int (length bs)")
  case True
  then have "bs \<noteq> []" using assms(2) by auto
  then obtain rest where d: "os_data os = map Some bs @ Some 0 # rest"
    using orep_data [OF mrep_orep [OF assms(1)]] by blast
  have p: "nat pos < length bs" using True assms(2) by (simp add: nat_less_iff)
  have "wr (os_data os) pos (word_of_int ch) = Some (map Some (bs[nat pos := word_of_int ch]) @ Some 0 # rest)"
    using True assms(2) p unfolding d by (simp add: wr_def list_update_append map_update)
  moreover have r: "mrep (os\<lparr>os_data := map Some (bs[nat pos := word_of_int ch]) @ Some 0 # rest\<rparr>)
      (bs[nat pos := word_of_int ch])"
    using assms(1) d by (auto simp: mrep_def orep_def)
  ultimately show ?thesis using assms True
    by (simp add: octstr_set_char_def seems_valid_rep [OF mrep_orep] mrep_len mrep_mutable)
next
  case False
  then show ?thesis using assms
    by (simp add: octstr_set_char_def seems_valid_rep [OF mrep_orep] mrep_len mrep_mutable)
qed

lemma octstr_set_char_negative:
  "orep os bs \<Longrightarrow> pos < 0 \<Longrightarrow> octstr_set_char os pos ch = None"
  by (cases "os_immutable os") (simp_all add: octstr_set_char_def seems_valid_rep orep_len wr_def)

lemma octstr_insert_data_rep:
  assumes "mrep os bs" and "p \<le> length bs"
  shows "runs (octstr_insert_data os (int p) (map Some ys @ q) (int (length ys)))
    (\<lambda>r. mrep r (take p bs @ ys @ drop p bs))"
proof (cases "ys = []")
  case True
  then show ?thesis using assms
    by (simp add: octstr_insert_data_def seems_valid_rep [OF mrep_orep] mrep_len mrep_mutable)
next
  case False
  have len: "os_len os = int (length bs)" by (rule mrep_len [OF assms(1)])
  obtain o1 rest where g: "octstr_grow os (int (length bs) + int (length ys)) = Some o1" "filled o1 bs rest"
      "int (length bs) + int (length ys) < int (length bs + length rest)"
    using octstr_grow_rep [OF assms(1), of "int (length bs) + int (length ys)"]
    by (metis add_nonneg_nonneg of_nat_0_le_iff)
  then have lr: "length ys < length rest" by simp
  obtain d1 d2 rest' where
    d: "memmove (map Some bs @ rest) (int p + int (length ys)) (int p) (int (length bs) - int p) = Some d1"
      "memcpy d1 (int p) (map Some ys @ q) 0 (int (length ys)) = Some d2"
      "wr d2 (int (length bs) + int (length ys)) 0 =
        Some (map Some (take p bs @ ys @ drop p bs) @ Some 0 # rest')"
      "length rest = length ys + length (Some 0 # rest')"
    using insert_block [OF assms(2) lr] by blast
  have o1: "os_len o1 = int (length bs)" "os_data o1 = map Some bs @ rest"
    using g(2) by (simp_all add: filled_def)
  have m: "(if int p < int (length bs) then memmove (map Some bs @ rest) (int p + int (length ys)) (int p)
      (int (length bs) - int p) else Some (map Some bs @ rest)) = Some d1"
    using d(1) assms(2) lr by (cases "p = length bs") auto
  note r = filled_insert [OF g(2) assms(2) d(4)]
  show ?thesis
    using assms False g(1) m d(2,3) r seems_valid_rep [OF mrep_orep [OF r]]
    by (cases "p < length bs")
      (simp_all add: octstr_insert_data_def seems_valid_rep [OF mrep_orep] len mrep_mutable o1 Let_def
        del: map_append)
qed

lemma octstr_append_data_rep:
  "mrep os bs \<Longrightarrow> runs (octstr_append_data os (map Some ys @ q) (int (length ys))) (\<lambda>r. mrep r (bs @ ys))"
  using octstr_insert_data_rep [of os bs "length bs" ys q] by (simp add: octstr_append_data_def mrep_len)

lemma octstr_append_cstr_rep:
  assumes "mrep os bs" and "0 \<notin> set s"
  shows "runs (octstr_append_cstr os s) (\<lambda>r. mrep r (bs @ s))"
  using octstr_insert_data_rep [OF assms(1), of "length bs" s "[Some 0]"] assms
  by (simp add: octstr_append_cstr_def strlen_no_nul mrep_len)

lemma octstr_append_char_rep:
  assumes "mrep os bs" and "0 \<le> ch" and "ch \<le> 255"
  shows "runs (octstr_append_char os ch) (\<lambda>r. mrep r (bs @ [word_of_int ch]))"
  using octstr_insert_data_rep [OF assms(1), of "length bs" "[word_of_int ch]" "[]"] assms
  by (simp add: octstr_append_char_def mrep_len)

lemma octstr_insert_char_rep:
  assumes "mrep os bs" and "p \<le> length bs"
  shows "runs (octstr_insert_char os (int p) c) (\<lambda>r. mrep r (take p bs @ c # drop p bs))"
proof -
  have "octstr_insert_char os (int p) c = octstr_insert_data os (int p) [Some c] 1"
    by (simp add: octstr_insert_char_def octstr_insert_data_def)
  then show ?thesis using octstr_insert_data_rep [OF assms, of "[c]" "[]"] by simp
qed

lemma octstr_insert_rep:
  assumes "mrep os bs" and "orep os2 ys" and "p \<le> length bs"
  shows "runs (octstr_insert os (Some os2) (int p)) (\<lambda>r. mrep r (take p bs @ ys @ drop p bs))"
proof (cases "ys = []")
  case True
  then show ?thesis using assms
    by (simp add: octstr_insert_def seems_valid_rep [OF mrep_orep] seems_valid_rep mrep_len orep_len mrep_mutable)
next
  case False
  then obtain q where src: "os_data os2 = map Some ys @ Some 0 # q" using orep_data [OF assms(2)] by blast
  obtain o1 rest where g: "octstr_grow os (int (length bs) + int (length ys)) = Some o1" "filled o1 bs rest"
      "int (length bs) + int (length ys) < int (length bs + length rest)"
    using octstr_grow_rep [OF assms(1), of "int (length bs) + int (length ys)"]
    by (metis add_nonneg_nonneg of_nat_0_le_iff)
  then have lr: "length ys < length rest" by simp
  obtain d1 d2 rest' where
    d: "memmove (map Some bs @ rest) (int p + int (length ys)) (int p) (int (length bs) - int p) = Some d1"
      "memcpy d1 (int p) (map Some ys @ Some 0 # q) 0 (int (length ys)) = Some d2"
      "wr d2 (int (length bs) + int (length ys)) 0 =
        Some (map Some (take p bs @ ys @ drop p bs) @ Some 0 # rest')"
      "length rest = length ys + length (Some 0 # rest')"
    using insert_block [OF assms(3) lr] by blast
  have o1: "os_len o1 = int (length bs)" "os_data o1 = map Some bs @ rest"
    using g(2) by (simp_all add: filled_def)
  note r = filled_insert [OF g(2) assms(3) d(4)]
  show ?thesis
    using assms False g(1) d(1-3) r seems_valid_rep [OF mrep_orep [OF r]]
    by (simp add: octstr_insert_def seems_valid_rep [OF mrep_orep] seems_valid_rep mrep_len orep_len
        mrep_mutable o1 src Let_def del: map_append)
qed

lemma octstr_append_rep:
  "mrep os bs \<Longrightarrow> orep os2 ys \<Longrightarrow> runs (octstr_append os (Some os2)) (\<lambda>r. mrep r (bs @ ys))"
  using octstr_insert_rep [of os bs os2 ys "length bs"] by (simp add: octstr_append_def mrep_len)

lemma octstr_cat_rep:
  assumes "orep os xs" and "orep os2 ys"
  shows "runs (octstr_cat os os2) (\<lambda>r. mrep r (xs @ ys))"
proof -
  have pos: "(int (length xs) + int (length ys) + 1 > 0) = True" by simp
  have r: "replicate (nat (int (length xs) + int (length ys) + 1)) None =
      replicate (length xs) (None :: byte option) @ replicate (length ys) None @ [None]"
    by (simp add: nat_add_distrib replicate_add replicate_append_same)
  have 1: "(if 0 < os_len os then memcpy (replicate (length xs) None @ replicate (length ys) None @ [None]) 0
      (os_data os) 0 (os_len os) else Some (replicate (length xs) None @ replicate (length ys) None @ [None]))
    = Some (map Some xs @ replicate (length ys) None @ [None])"
  proof (cases "xs = []")
    case False
    then obtain q where "os_data os = map Some xs @ Some 0 # q" using orep_data [OF assms(1)] by blast
    then show ?thesis using False orep_len [OF assms(1)]
      memcpy_at [of "replicate (length xs) None" "map Some xs" "[]" "replicate (length ys) None @ [None]" "[]" "Some 0 # q"]
      by simp
  qed (use orep_len [OF assms(1)] in simp)
  have 2: "(if 0 < os_len os2 then memcpy (map Some xs @ replicate (length ys) None @ [None]) (int (length xs))
      (os_data os2) 0 (os_len os2) else Some (map Some xs @ replicate (length ys) None @ [None]))
    = Some (map Some xs @ map Some ys @ [None])"
  proof (cases "ys = []")
    case False
    then obtain q where "os_data os2 = map Some ys @ Some 0 # q" using orep_data [OF assms(2)] by blast
    then show ?thesis using False orep_len [OF assms(2)]
      memcpy_at [of "replicate (length ys) None" "map Some ys" "map Some xs" "[None]" "[]" "Some 0 # q"]
      by simp
  qed (use orep_len [OF assms(2)] in simp)
  have 3: "wr (map Some xs @ map Some ys @ [None]) (int (length xs) + int (length ys)) 0 =
      Some (map Some (xs @ ys) @ [Some 0])"
    using wr_at [of "map Some xs @ map Some ys" None "[]" 0] by simp
  have 4: "mrep \<lparr>os_data = map Some (xs @ ys) @ [Some 0], os_len = int (length xs) + int (length ys),
      os_size = int (length xs) + int (length ys) + 1, os_immutable = False\<rparr> (xs @ ys)"
    by (simp add: mrep_def orep_def)
  show ?thesis
    using 4 unfolding octstr_cat_def seems_valid_rep [OF assms(1)] seems_valid_rep [OF assms(2)]
      octstr_create_empty Let_def gw_malloc_def
    by (simp only: Option.bind.bind_lunit gw_assert_True r 1 [unfolded orep_len [OF assms(1)]]
        2 [unfolded orep_len [OF assms(2)]] 3 seems_valid_rep [OF mrep_orep [OF 4]] runs_Some
        orep_len [OF assms(1)] orep_len [OF assms(2)] pos octstr.simps)
qed

lemma octstr_truncate_rep:
  assumes "mrep os bs" and "0 \<le> n"
  shows "\<exists>r. octstr_truncate (Some os) n = Some (Some r) \<and> mrep r (take (nat n) bs)"
proof (cases "n \<ge> int (length bs)")
  case True
  then show ?thesis using assms
    by (simp add: octstr_truncate_def seems_valid_rep [OF mrep_orep] mrep_len mrep_mutable)
next
  case False
  then have "bs \<noteq> []" using assms(2) by auto
  then obtain rest where d: "os_data os = map Some bs @ Some 0 # rest"
    using orep_data [OF mrep_orep [OF assms(1)]] by blast
  have n: "nat n < length bs" "int (nat n) = n" using False assms(2) by (auto simp: nat_less_iff)
  have "wr (map Some (take (nat n) bs) @ Some (bs ! nat n) # map Some (drop (Suc (nat n)) bs) @ Some 0 # rest)
      (int (length (map Some (take (nat n) bs)))) 0 =
    Some (map Some (take (nat n) bs) @ Some 0 # map Some (drop (Suc (nat n)) bs) @ Some 0 # rest)"
    by (rule wr_at)
  moreover have "os_data os =
      map Some (take (nat n) bs) @ Some (bs ! nat n) # map Some (drop (Suc (nat n)) bs) @ Some 0 # rest"
    unfolding d by (subst id_take_nth_drop [OF n(1)]) simp
  ultimately have w: "wr (os_data os) n 0 =
      Some (map Some (take (nat n) bs) @ Some 0 # map Some (drop (Suc (nat n)) bs) @ Some 0 # rest)"
    using n by simp
  let ?r = "os\<lparr>os_data := map Some (take (nat n) bs) @ Some 0 # map Some (drop (Suc (nat n)) bs) @ Some 0 # rest,
    os_len := n\<rparr>"
  have r: "mrep ?r (take (nat n) bs)"
    using assms d n by (auto simp: mrep_def orep_def)
  show ?thesis using assms False w r seems_valid_rep [OF mrep_orep [OF r]]
    by (simp add: octstr_truncate_def seems_valid_rep [OF mrep_orep] mrep_len mrep_mutable)
qed

lemma octstr_delete_rep:
  assumes "mrep os bs" and "0 \<le> pos" and "0 \<le> len"
  shows "runs (octstr_delete os pos len) (\<lambda>r. mrep r (take (nat pos) bs @ drop (nat pos + nat len) bs))"
proof -
  define p where "p = (if pos > os_len os then os_len os else pos)"
  define n where "n = (if p + len > os_len os then os_len os - p else len)"
  define a where "a = map Some (take (nat p) bs)"
  define x where "x = map Some (take (nat n) (drop (nat p) bs))"
  define m where "m = map Some (drop (nat p + nat n) bs)"
  note ln = mrep_len [OF assms(1)]
  have b: "0 \<le> p" "0 \<le> n" "p + n \<le> int (length bs)" using assms ln by (auto simp: p_def n_def)
  then have pn: "nat p + nat n \<le> length bs" by linarith
  have l: "int (length a) = p" "int (length x) = n" "int (length m) = int (length bs) - p - n"
    using b pn by (simp_all add: a_def x_def m_def)
  have "map Some bs = a @ x @ m"
    by (simp add: a_def x_def m_def add.commute [of "nat p"] flip: map_append drop_drop)
  have e: "take (nat pos) bs @ drop (nat pos + nat len) bs = take (nat p) bs @ drop (nat p + nat n) bs"
  proof (cases "pos > int (length bs)")
    case True
    then have "p = int (length bs)" "n = 0" using ln assms by (auto simp: p_def n_def)
    then show ?thesis using True by simp
  next
    case False
    then have "p = pos" using ln by (simp add: p_def)
    then show ?thesis using b ln by (auto simp: n_def)
  qed
  have 1: "octstr_delete os pos len = do {
      ostr1 \<leftarrow> (if n > 0 then do {
         d \<leftarrow> memmove (os_data os) p (p + n) (os_len os - p - n);
         d \<leftarrow> wr d (os_len os - n) 0;
         Some (os\<lparr>os_data := d, os_len := os_len os - n\<rparr>) }
       else Some os);
      seems_valid ostr1; Some ostr1 }"
    using assms by (simp add: octstr_delete_def seems_valid_rep [OF mrep_orep] mrep_mutable p_def n_def Let_def)
  show ?thesis
  proof (cases "n = 0")
    case True
    then show ?thesis using assms b unfolding 1 e by (simp add: seems_valid_rep [OF mrep_orep])
  next
    case False
    then have "bs \<noteq> []" using b by auto
    then obtain rest where d: "os_data os = map Some bs @ Some 0 # rest"
      using orep_data [OF mrep_orep [OF assms(1)]] by blast
    define z where "z = drop (length m) (x @ m)"
    have lz: "length z = length x" by (simp add: z_def)
    have mm: "memmove (os_data os) p (p + n) (os_len os - p - n) = Some (a @ m @ z @ Some 0 # rest)"
      using memmove_left [of a x m "Some 0 # rest"] l ln \<open>map Some bs = a @ x @ m\<close> d by (simp add: z_def)
    obtain y ys where y: "z = y # ys" "length (y # ys) = length x"
      using False l lz by (cases z) auto
    have w: "wr (a @ m @ z @ Some 0 # rest) (os_len os - n) 0 =
        Some (map Some (take (nat p) bs @ drop (nat p + nat n) bs) @ Some 0 # ys @ Some 0 # rest)"
      using wr_at [of "a @ m" y "ys @ Some 0 # rest" 0] l ln y(1) by (simp add: a_def m_def)
    let ?r = "os\<lparr>os_data := map Some (take (nat p) bs @ drop (nat p + nat n) bs) @ Some 0 # ys @ Some 0 # rest,
      os_len := os_len os - n\<rparr>"
    have "length (os_data os) = length (os_data ?r)"
      using arg_cong [OF \<open>map Some bs = a @ x @ m\<close>, of length] y(2) d by (simp add: a_def m_def)
    then have r: "mrep ?r (take (nat p) bs @ drop (nat p + nat n) bs)"
      using assms(1) ln b pn by (simp add: mrep_def orep_def)
    show ?thesis using False b mm w r seems_valid_rep [OF mrep_orep [OF r]] unfolding 1 e by simp
  qed
qed

end
