(* ===== verification/Octstr_Hex.thy ===== *)
theory Octstr_Hex
  imports Octstr
begin

text \<open>
  Range checks and conversions of \<open>gwlib/octstr.c\<close>, and its hexadecimal codec, which works in
  place: \<open>octstr_binary_to_hex\<close> from the back, \<open>octstr_hex_to_binary\<close> from the front. The
  loops are shown to compute the list functions \<open>hex_encode\<close> and \<open>hex_decode\<close>, which are
  inverse to each other.
\<close>

unbundle bit_operations_syntax

section \<open>Ranges\<close>

function check_loop :: "byte cells \<Rightarrow> int \<Rightarrow> int \<Rightarrow> (int \<Rightarrow> bool) \<Rightarrow> bool option" where
  "check_loop data pos end flt =
     (if pos < end then do {
        c \<leftarrow> rd data pos;
        if \<not> flt (uint c) then Some False else check_loop data (pos + 1) end flt }
      else Some True)"
  by pat_completeness auto
termination
  by (relation "measure (\<lambda>(data, pos, end, flt). nat (end - pos))") auto

declare check_loop.simps [simp del]

definition octstr_check_range :: "octstr \<Rightarrow> int \<Rightarrow> int \<Rightarrow> (int \<Rightarrow> bool) \<Rightarrow> bool option" where
  "octstr_check_range ostr pos len flt = do {
     seems_valid ostr;
     gw_assert (len \<ge> 0);
     let end = pos + len in
     if pos \<ge> os_len ostr then Some True
     else
       let end = (if end > os_len ostr then os_len ostr else end) in
       check_loop (os_data ostr) pos end flt }"

function convert_loop :: "byte cells \<Rightarrow> int \<Rightarrow> int \<Rightarrow> (int \<Rightarrow> int) \<Rightarrow> byte cells option" where
  "convert_loop data pos end mp =
     (if pos < end then do {
        c \<leftarrow> rd data pos;
        data \<leftarrow> wr data pos (word_of_int (mp (uint c)));
        convert_loop data (pos + 1) end mp }
      else Some data)"
  by pat_completeness auto
termination
  by (relation "measure (\<lambda>(data, pos, end, mp). nat (end - pos))") auto

declare convert_loop.simps [simp del]

definition octstr_convert_range :: "octstr \<Rightarrow> int \<Rightarrow> int \<Rightarrow> (int \<Rightarrow> int) \<Rightarrow> octstr option" where
  "octstr_convert_range ostr pos len mp = do {
     seems_valid ostr;
     gw_assert (\<not> os_immutable ostr);
     gw_assert (len \<ge> 0);
     let end = pos + len in
     if pos \<ge> os_len ostr then Some ostr
     else
       let end = (if end > os_len ostr then os_len ostr else end) in do {
         d \<leftarrow> convert_loop (os_data ostr) pos end mp;
         let ostr = ostr\<lparr>os_data := d\<rparr> in do {
           seems_valid ostr;
           Some ostr } } }"

definition make_printable :: "int \<Rightarrow> int" where
  "make_printable c = (if isprint c then c else 46)"

definition octstr_convert_printable :: "octstr \<Rightarrow> octstr option" where
  "octstr_convert_printable ostr = octstr_convert_range ostr 0 (os_len ostr) make_printable"

function all_hex_loop :: "octstr \<Rightarrow> int \<Rightarrow> int \<Rightarrow> bool option" where
  "all_hex_loop os i len =
     (if i < len then do {
        ch \<leftarrow> octstr_get_char os i;
        if \<not> gw_isxdigit ch then Some False else all_hex_loop os (i + 1) len }
      else Some True)"
  by pat_completeness auto
termination
  by (relation "measure (\<lambda>(os, i, len). nat (len - i))") auto

declare all_hex_loop.simps [simp del]

definition octstr_is_all_hex :: "octstr \<Rightarrow> bool option" where
  "octstr_is_all_hex os = do {
     seems_valid os;
     len \<leftarrow> octstr_len (Some os);
     all_hex_loop os 0 len }"

section \<open>Hexadecimal\<close>

definition hexits :: "bool \<Rightarrow> byte list" where
  "hexits uppercase = cstr (if uppercase then ''0123456789ABCDEF'' else ''0123456789abcdef'')"

function hex_loop :: "byte list \<Rightarrow> byte cells \<Rightarrow> int \<Rightarrow> byte cells option" where
  "hex_loop h data i =
     (if i \<ge> 0 then
        let tmp = i * 2 in do {
          c \<leftarrow> rd data i;
          data \<leftarrow> wr data (tmp + 1) (h ! unat (c AND 0xF));
          c \<leftarrow> rd data i;
          data \<leftarrow> wr data tmp (h ! unat (drop_bit 4 c));
          hex_loop h data (i - 1) }
      else Some data)"
  by pat_completeness auto
termination
  by (relation "measure (\<lambda>(h, data, i). nat (i + 1))") auto

declare hex_loop.simps [simp del]

definition octstr_binary_to_hex :: "octstr \<Rightarrow> bool \<Rightarrow> octstr option" where
  "octstr_binary_to_hex ostr uppercase = do {
     seems_valid ostr;
     gw_assert (\<not> os_immutable ostr);
     if os_len ostr = 0 then Some ostr
     else do {
       ostr \<leftarrow> octstr_grow ostr (os_len ostr * 2);
       d \<leftarrow> hex_loop (hexits uppercase) (os_data ostr) (os_len ostr - 1);
       let len = os_len ostr * 2 in do {
         d \<leftarrow> wr d len 0;
         let ostr = ostr\<lparr>os_data := d, os_len := len\<rparr> in do {
           seems_valid ostr;
           Some ostr } } } }"

text \<open>The value of a digit; \<open>None\<close> is the \<open>gw_assert(0)\<close> of the last branch.\<close>

definition hex_value :: "byte \<Rightarrow> byte option" where
  "hex_value p =
     (if 0x30 \<le> p \<and> p \<le> 0x39 then Some (p - 0x30)
      else if 0x61 \<le> p \<and> p \<le> 0x66 then Some (p - 0x61 + 10)
      else if 0x41 \<le> p \<and> p \<le> 0x46 then Some (p - 0x41 + 10)
      else None)"

function unhex_loop :: "byte cells \<Rightarrow> int \<Rightarrow> int \<Rightarrow> byte cells option" where
  "unhex_loop data i len =
     (if i < len then do {
        p \<leftarrow> rd data i;
        v \<leftarrow> hex_value p;
        data \<leftarrow> wr data i v;
        unhex_loop data (i + 1) len }
      else Some data)"
  by pat_completeness auto
termination
  by (relation "measure (\<lambda>(data, i, len). nat (len - i))") auto

declare unhex_loop.simps [simp del]

function pack_loop :: "byte cells \<Rightarrow> int \<Rightarrow> int \<Rightarrow> byte cells option" where
  "pack_loop data i len =
     (if i < len then do {
        hi \<leftarrow> rd data (i * 2);
        lo \<leftarrow> rd data (i * 2 + 1);
        data \<leftarrow> wr data i (hi * 16 OR lo);
        pack_loop data (i + 1) len }
      else Some data)"
  by pat_completeness auto
termination
  by (relation "measure (\<lambda>(data, i, len). nat (len - i))") auto

declare pack_loop.simps [simp del]

text \<open>The result is the return code and the string.\<close>

definition octstr_hex_to_binary :: "octstr \<Rightarrow> (int \<times> octstr) option" where
  "octstr_hex_to_binary ostr = do {
     seems_valid ostr;
     gw_assert (\<not> os_immutable ostr);
     if os_len ostr = 0 then Some (0, ostr)
     else do {
       ok \<leftarrow> octstr_check_range ostr 0 (os_len ostr) gw_isxdigit;
       if \<not> ok then Some (-1, ostr)
       else do {
         d \<leftarrow> unhex_loop (os_data ostr) 0 (os_len ostr);
         let len = cdiv (os_len ostr) 2 in do {
           d \<leftarrow> pack_loop d 0 len;
           d \<leftarrow> wr d len 0;
           let ostr = ostr\<lparr>os_data := d, os_len := len\<rparr> in do {
             seems_valid ostr;
             Some (0, ostr) } } } } }"

definition octstr_append_from_hex :: "octstr \<Rightarrow> byte list \<Rightarrow> octstr option" where
  "octstr_append_from_hex ostr hex = do {
     seems_valid ostr;
     gw_assert (\<not> os_immutable ostr);
     out \<leftarrow> octstr_create hex;
     (r, out) \<leftarrow> octstr_hex_to_binary out;
     octstr_append ostr (Some out) }"

section \<open>Reference functions\<close>

definition hex_encode :: "bool \<Rightarrow> byte list \<Rightarrow> byte list" where
  "hex_encode up bs = concat (map (\<lambda>b. [hexits up ! unat (drop_bit 4 b), hexits up ! unat (b AND 0xF)]) bs)"

fun hex_decode :: "byte list \<Rightarrow> byte list" where
  "hex_decode (a # b # bs) = (the (hex_value a) * 16 OR the (hex_value b)) # hex_decode bs"
| "hex_decode _ = []"

lemma hex_encode_Nil [simp]: "hex_encode up [] = []"
  by (simp add: hex_encode_def)

lemma hex_encode_append [simp]: "hex_encode up (xs @ ys) = hex_encode up xs @ hex_encode up ys"
  by (simp add: hex_encode_def)

lemma length_hex_encode [simp]: "length (hex_encode up bs) = 2 * length bs"
  by (induction bs) (simp_all add: hex_encode_def)

lemma length_hex_decode: "length (hex_decode bs) = length bs div 2"
  by (induction bs rule: hex_decode.induct) auto

section \<open>Range operations\<close>

lemma check_loop_list:
  "check_loop (map Some xs @ map Some ys @ r) (int (length xs)) (int (length xs + length ys)) f =
     Some (list_all (\<lambda>b. f (uint b)) ys)"
proof (induction ys arbitrary: xs)
  case Nil
  then show ?case by (simp add: check_loop.simps)
next
  case (Cons b ys)
  have "rd (map Some xs @ map Some (b # ys) @ r) (int (length xs)) = Some b" by (simp add: rd_def nth_append)
  then show ?case using Cons [of "xs @ [b]"]
    by (subst check_loop.simps) (simp add: algebra_simps)
qed

lemma range_split:
  assumes "orep os bs" and "0 \<le> pos" and "0 \<le> len" and "pos < int (length bs)"
  obtains xs ys zs rest where "bs = xs @ ys @ zs" "int (length xs) = pos"
    "ys = take (nat len) (drop (nat pos) bs)" "xs = take (nat pos) bs" "zs = drop (nat pos + nat len) bs"
    "(if pos + len > os_len os then os_len os else pos + len) = int (length xs + length ys)"
    "os_data os = map Some xs @ map Some ys @ map Some zs @ Some 0 # rest"
proof -
  obtain rest where d: "os_data os = map Some bs @ Some 0 # rest"
    using orep_data [OF assms(1)] assms(2,4) by fastforce
  define xs where "xs = take (nat pos) bs"
  define ys where "ys = take (nat len) (drop (nat pos) bs)"
  define zs where "zs = drop (nat pos + nat len) bs"
  have "zs = drop (nat len) (drop (nat pos) bs)" by (simp add: zs_def add.commute)
  then have b: "bs = xs @ ys @ zs" by (simp add: xs_def ys_def del: drop_drop)
  have "(if pos + len > os_len os then os_len os else pos + len) = int (length xs + length ys)"
    using assms orep_len [OF assms(1)] by (auto simp: xs_def ys_def min_def)
  moreover have "int (length xs) = pos" using assms by (simp add: xs_def)
  moreover have "os_data os = map Some xs @ map Some ys @ map Some zs @ Some 0 # rest"
    using d by (subst (asm) b) simp
  ultimately show ?thesis using that b xs_def ys_def zs_def by blast
qed

lemma octstr_check_range_rep:
  assumes "orep os bs" and "0 \<le> pos" and "0 \<le> len"
  shows "octstr_check_range os pos len f = Some (list_all (\<lambda>b. f (uint b)) (take (nat len) (drop (nat pos) bs)))"
proof (cases "pos < int (length bs)")
  case True
  obtain xs ys zs rest where "int (length xs) = pos" "ys = take (nat len) (drop (nat pos) bs)"
    "(if pos + len > os_len os then os_len os else pos + len) = int (length xs + length ys)"
    "os_data os = map Some xs @ map Some ys @ map Some zs @ Some 0 # rest"
    using range_split [OF assms True] by metis
  then show ?thesis
    using check_loop_list [of xs ys "map Some zs @ Some 0 # rest" f] assms True
    by (simp add: octstr_check_range_def seems_valid_rep orep_len [OF assms(1)] Let_def del: of_nat_add)
next
  case False
  then show ?thesis using assms by (simp add: octstr_check_range_def seems_valid_rep orep_len)
qed

lemma convert_loop_list:
  "convert_loop (map Some xs @ map Some ys @ r) (int (length xs)) (int (length xs + length ys)) f =
     Some (map Some xs @ map Some (map (\<lambda>b. word_of_int (f (uint b))) ys) @ r)"
proof (induction ys arbitrary: xs)
  case Nil
  then show ?case by (simp add: convert_loop.simps)
next
  case (Cons b ys)
  have "rd (map Some xs @ map Some (b # ys) @ r) (int (length xs)) = Some b" by (simp add: rd_def nth_append)
  moreover have "wr (map Some xs @ map Some (b # ys) @ r) (int (length xs)) v =
      Some (map Some (xs @ [v]) @ map Some ys @ r)" for v
    using wr_at [of "map Some xs" "Some b" "map Some ys @ r" v] by simp
  ultimately show ?case using Cons [of "xs @ [word_of_int (f (uint b))]"]
    by (subst convert_loop.simps) (simp add: algebra_simps)
qed

lemma octstr_convert_range_rep:
  assumes "mrep os bs" and "0 \<le> pos" and "0 \<le> len"
  shows "runs (octstr_convert_range os pos len f) (\<lambda>r. mrep r (take (nat pos) bs @
    map (\<lambda>b. word_of_int (f (uint b))) (take (nat len) (drop (nat pos) bs)) @ drop (nat pos + nat len) bs))"
proof (cases "pos < int (length bs)")
  case True
  obtain xs ys zs rest where s: "bs = xs @ ys @ zs" "int (length xs) = pos"
    "ys = take (nat len) (drop (nat pos) bs)" "xs = take (nat pos) bs" "zs = drop (nat pos + nat len) bs"
    "(if pos + len > os_len os then os_len os else pos + len) = int (length xs + length ys)"
    "os_data os = map Some xs @ map Some ys @ map Some zs @ Some 0 # rest"
    using range_split [OF mrep_orep [OF assms(1)] assms(2,3) True] by metis
  let ?ys = "map (\<lambda>b. word_of_int (f (uint b)) :: byte) ys"
  let ?r = "os\<lparr>os_data := map Some xs @ map Some ?ys @ map Some zs @ Some 0 # rest\<rparr>"
  have len: "length bs = length xs + length ys + length zs" by (simp add: s(1))
  have r: "mrep ?r (xs @ ?ys @ zs)"
    using assms(1) s(7) len by (auto simp: mrep_def orep_def)
  show ?thesis
    using assms True r s(2,6,7) convert_loop_list [of xs ys "map Some zs @ Some 0 # rest" f]
      seems_valid_rep [OF mrep_orep [OF r]]
    by (simp add: octstr_convert_range_def seems_valid_rep [OF mrep_orep] mrep_mutable mrep_len [OF assms(1)]
        Let_def del: of_nat_add map_map flip: s(3-5))
next
  case False
  then show ?thesis using assms
    by (simp add: octstr_convert_range_def seems_valid_rep [OF mrep_orep] mrep_mutable mrep_len)
qed

lemma all_hex_loop_list:
  assumes "orep os (xs @ ys)"
  shows "all_hex_loop os (int (length xs)) (int (length xs + length ys)) =
    Some (list_all (\<lambda>b. gw_isxdigit (uint b)) ys)"
  using assms
proof (induction ys arbitrary: xs)
  case Nil
  then show ?case by (simp add: all_hex_loop.simps)
next
  case (Cons b ys)
  have "octstr_get_char os (int (length xs)) = Some (uint b)"
    by (simp add: octstr_get_char_rep [OF Cons.prems] nth_append)
  then show ?case using Cons.IH [of "xs @ [b]"] Cons.prems
    by (subst all_hex_loop.simps) (simp add: algebra_simps)
qed

lemma octstr_is_all_hex_rep:
  "orep os bs \<Longrightarrow> octstr_is_all_hex os = Some (list_all (\<lambda>b. gw_isxdigit (uint b)) bs)"
  using all_hex_loop_list [of os "[]" bs]
  by (simp add: octstr_is_all_hex_def seems_valid_rep octstr_len_rep)

section \<open>The hexadecimal loops\<close>

lemma hex_loop_list:
  "length x = length bs \<Longrightarrow>
   hex_loop (hexits up) (map Some bs @ x @ r) (int (length bs) - 1) = Some (map Some (hex_encode up bs) @ r)"
proof (induction bs arbitrary: x r rule: rev_induct)
  case Nil
  then show ?case by (simp add: hex_loop.simps)
next
  case (snoc b bs)
  let ?n = "length bs"
  let ?hi = "hexits up ! unat (drop_bit 4 b)" and ?lo = "hexits up ! unat (b AND 0xF)"
  obtain x' z where x: "x = x' @ [z]" "length x' = ?n" using snoc.prems by (cases x rule: rev_cases) auto
  obtain y w where y: "Some b # x' = y @ [w]" by (cases "Some b # x'" rule: rev_cases) auto
  have ly: "length y = ?n" using arg_cong [OF y, of length] x(2) by simp
  have r1: "rd (map Some (bs @ [b]) @ x @ r) (int ?n) = Some b" by (simp add: rd_def nth_append)
  have w1: "wr (map Some (bs @ [b]) @ x @ r) (int ?n * 2 + 1) ?lo = Some (map Some (bs @ [b]) @ x' @ Some ?lo # r)"
    using wr_at [of "map Some (bs @ [b]) @ x'" z r ?lo] x by (simp add: algebra_simps)
  have r2: "rd (map Some (bs @ [b]) @ x' @ Some ?lo # r) (int ?n) = Some b" by (simp add: rd_def nth_append)
  have "map Some (bs @ [b]) @ x' @ Some ?lo # r = map Some bs @ (Some b # x') @ Some ?lo # r"
    by simp
  also have "\<dots> = (map Some bs @ y) @ w # Some ?lo # r" unfolding y by simp
  finally have w2: "wr (map Some (bs @ [b]) @ x' @ Some ?lo # r) (int ?n * 2) ?hi =
      Some (map Some bs @ y @ Some ?hi # Some ?lo # r)"
    using wr_at [of "map Some bs @ y" w "Some ?lo # r" ?hi] ly by (simp only:) (simp add: algebra_simps)
  show ?case
    using snoc.IH [OF ly, of "Some ?hi # Some ?lo # r"] r1 w1 r2 w2
    by (subst hex_loop.simps) (simp add: hex_encode_def)
qed

lemma octstr_binary_to_hex_rep:
  assumes "mrep os bs"
  shows "runs (octstr_binary_to_hex os up) (\<lambda>r. mrep r (hex_encode up bs))"
proof (cases "bs = []")
  case True
  then show ?thesis using assms
    by (simp add: octstr_binary_to_hex_def seems_valid_rep [OF mrep_orep] mrep_mutable mrep_len)
next
  case False
  obtain o1 rest where g: "octstr_grow os (int (length bs) * 2) = Some o1" "filled o1 bs rest"
      "int (length bs) * 2 < int (length bs + length rest)"
    using octstr_grow_rep [OF assms, of "int (length bs) * 2"] by (metis of_nat_0_le_iff zero_le_mult_iff zero_le_numeral)
  obtain x z r where x: "rest = x @ z # r" "length x = length bs"
    using g(3) id_take_nth_drop [of "length bs" rest] by fastforce
  have o1: "os_len o1 = int (length bs)" "os_data o1 = map Some bs @ x @ z # r"
    "os_size o1 = int (length (os_data o1))" "\<not> os_immutable o1"
    using g(2) x by (simp_all add: filled_def)
  have w: "wr (map Some (hex_encode up bs) @ z # r) (int (length bs) * 2) 0 =
      Some (map Some (hex_encode up bs) @ Some 0 # r)"
    using wr_at [of "map Some (hex_encode up bs)" z r 0] by (simp add: algebra_simps)
  let ?r = "o1\<lparr>os_data := map Some (hex_encode up bs) @ Some 0 # r, os_len := int (length bs) * 2\<rparr>"
  have r: "mrep ?r (hex_encode up bs)" using o1 x(2) by (simp add: mrep_def orep_def)
  show ?thesis
    using assms False g(1) o1 w r seems_valid_rep [OF mrep_orep [OF r]] hex_loop_list [OF x(2), of up "z # r"]
    by (simp add: octstr_binary_to_hex_def seems_valid_rep [OF mrep_orep] mrep_mutable mrep_len)
qed

lemma hex_value_iff: "hex_value b \<noteq> None \<longleftrightarrow> gw_isxdigit (uint b)"
  by (auto simp: hex_value_def gw_isxdigit_def isxdigit_def isdigit_def word_le_def)

lemma unhex_loop_list:
  "list_all (\<lambda>b. hex_value b \<noteq> None) ys \<Longrightarrow>
   unhex_loop (map Some xs @ map Some ys @ r) (int (length xs)) (int (length xs + length ys)) =
     Some (map Some xs @ map Some (map (\<lambda>b. the (hex_value b)) ys) @ r)"
proof (induction ys arbitrary: xs)
  case Nil
  then show ?case by (simp add: unhex_loop.simps)
next
  case (Cons b ys)
  then obtain v where v: "hex_value b = Some v" by auto
  have "rd (map Some xs @ map Some (b # ys) @ r) (int (length xs)) = Some b" by (simp add: rd_def nth_append)
  moreover have "wr (map Some xs @ map Some (b # ys) @ r) (int (length xs)) v =
      Some (map Some (xs @ [v]) @ map Some ys @ r)"
    using wr_at [of "map Some xs" "Some b" "map Some ys @ r" v] by simp
  ultimately show ?case using Cons.IH [of "xs @ [v]"] Cons.prems v
    by (subst unhex_loop.simps) (simp add: algebra_simps)
qed

text \<open>
  A write at the front of the unread part of an area, when the front has not overtaken the
  reader: \<open>x\<close> is the part that was read already, and the cell read last joins it.
\<close>

lemma wr_behind:
  obtains x' where "length x' = length x" "wr (map Some out @ x @ c # r) (int (length out)) v =
    Some (map Some (out @ [v]) @ x' @ r)"
proof -
  obtain y ys where y: "x @ [c] = y # ys" by (cases "x @ [c]") auto
  have "length ys = length x" using arg_cong [OF y, of length] by simp
  moreover have e: "map Some out @ x @ c # r = map Some out @ y # ys @ r"
    using y by (metis append_Cons append_Nil append_assoc)
  have "wr (map Some out @ x @ c # r) (int (length out)) v = Some (map Some (out @ [v]) @ ys @ r)"
    unfolding e using wr_at [of "map Some out" y "ys @ r" v] by simp
  ultimately show ?thesis using that by blast
qed

fun pack :: "byte list \<Rightarrow> byte list" where
  "pack (a # b # vs) = (a * 16 OR b) # pack vs"
| "pack _ = []"

lemma pack_hex: "pack (map (\<lambda>b. the (hex_value b)) bs) = hex_decode bs"
  by (induction bs rule: hex_decode.induct) auto

lemma length_pack: "length (pack vs) = length vs div 2"
  by (induction vs rule: pack.induct) auto

lemma pack_loop_list:
  "length x = length out \<Longrightarrow>
   \<exists>j. pack_loop (map Some out @ x @ map Some vs @ r) (int (length out)) (int (length out + length vs div 2)) =
     Some (map Some (out @ pack vs) @ j) \<and> length x + length vs + length r = length (pack vs) + length j"
proof (induction vs arbitrary: out x rule: pack.induct)
  case (1 a b vs)
  have ra: "rd (map Some out @ x @ map Some (a # b # vs) @ r) (int (length out) * 2) = Some a"
    and rb: "rd (map Some out @ x @ map Some (a # b # vs) @ r) (int (length out) * 2 + 1) = Some b"
    using 1 by (simp_all add: rd_def nth_append nat_add_distrib nat_mult_distrib)
  obtain x' where x': "length x' = length x" "wr (map Some out @ x @ Some a # Some b # map Some vs @ r)
      (int (length out)) (a * 16 OR b) = Some (map Some (out @ [a * 16 OR b]) @ x' @ Some b # map Some vs @ r)"
    by (rule wr_behind)
  have "length (x' @ [Some b]) = length (out @ [a * 16 OR b])" using x'(1) 1 by simp
  from "1.IH" [OF this] obtain j where j:
    "pack_loop (map Some (out @ [a * 16 OR b]) @ (x' @ [Some b]) @ map Some vs @ r)
      (int (length (out @ [a * 16 OR b]))) (int (length (out @ [a * 16 OR b]) + length vs div 2)) =
     Some (map Some ((out @ [a * 16 OR b]) @ pack vs) @ j)"
    "length (x' @ [Some b]) + length vs + length r = length (pack vs) + length j" by blast
  then show ?case using ra rb x'
    by (intro exI [of _ j], subst pack_loop.simps) (simp add: algebra_simps)
qed (auto simp: pack_loop.simps)

lemma octstr_hex_to_binary_rep:
  assumes "mrep os bs"
  shows "if list_all (\<lambda>b. gw_isxdigit (uint b)) bs
    then \<exists>r. octstr_hex_to_binary os = Some (0, r) \<and> mrep r (hex_decode bs)
    else octstr_hex_to_binary os = Some (-1, os)"
proof (cases "bs = []")
  case True
  then show ?thesis using assms
    by (simp add: octstr_hex_to_binary_def seems_valid_rep [OF mrep_orep] mrep_mutable mrep_len)
next
  case ne: False
  note chk = octstr_check_range_rep [OF mrep_orep [OF assms], of 0 "int (length bs)" gw_isxdigit, simplified]
  show ?thesis
  proof (cases "list_all (\<lambda>b. gw_isxdigit (uint b)) bs")
    case False
    then show ?thesis using assms ne chk
      by (simp add: octstr_hex_to_binary_def seems_valid_rep [OF mrep_orep] mrep_mutable mrep_len)
  next
    case True
    obtain rest where d: "os_data os = map Some bs @ Some 0 # rest"
      using orep_data [OF mrep_orep [OF assms] ne] by blast
    let ?vs = "map (\<lambda>b. the (hex_value b)) bs"
    have u: "unhex_loop (os_data os) 0 (int (length bs)) = Some (map Some ?vs @ Some 0 # rest)"
      using unhex_loop_list [OF True [folded hex_value_iff], of "[]" "Some 0 # rest"] by (simp add: d)
    obtain j where j: "pack_loop (map Some ?vs @ Some 0 # rest) 0 (int (length bs div 2)) =
        Some (map Some (hex_decode bs) @ j)" "length bs + Suc (length rest) = length (hex_decode bs) + length j"
      using pack_loop_list [of "[]" "[]" ?vs "Some 0 # rest"] by (auto simp: pack_hex)
    have "j \<noteq> []" using j(2) length_hex_decode [of bs] by (cases j) auto
    then obtain y ys where y: "j = y # ys" by (cases j) auto
    have w: "wr (map Some (hex_decode bs) @ j) (int (length bs div 2)) 0 = Some (map Some (hex_decode bs) @ Some 0 # ys)"
      using wr_at [of "map Some (hex_decode bs)" y ys 0] y by (simp add: length_hex_decode)
    let ?r = "os\<lparr>os_data := map Some (hex_decode bs) @ Some 0 # ys, os_len := int (length bs div 2)\<rparr>"
    have r: "mrep ?r (hex_decode bs)"
      using assms j(2) y d by (auto simp: mrep_def orep_def length_hex_decode)
    show ?thesis using True assms ne chk u j(1) w r seems_valid_rep [OF mrep_orep [OF r]]
      by (simp add: octstr_hex_to_binary_def seems_valid_rep [OF mrep_orep] mrep_mutable mrep_len zdiv_int)
  qed
qed

section \<open>The codec is a bijection\<close>

lemma hex_digits:
  assumes "k < 16"
  shows "hex_value (hexits up ! k) = Some (of_nat k)"
proof -
  have "list_all (\<lambda>k. hex_value (hexits True ! k) = Some (of_nat k)) [0..<16]" by code_simp
  moreover have "list_all (\<lambda>k. hex_value (hexits False ! k) = Some (of_nat k)) [0..<16]" by code_simp
  ultimately show ?thesis using assms by (cases up) (auto simp: list_all_iff)
qed

lemma nibbles: "drop_bit 4 b * 16 OR b AND 0xF = (b :: byte)"
proof -
  have "drop_bit 4 b * 16 = push_bit 4 (drop_bit 4 b)" by (simp add: push_bit_eq_mult)
  moreover have "b AND 0xF = take_bit 4 b" by (simp add: take_bit_eq_mask mask_numeral)
  ultimately show ?thesis
    by (simp only:) (auto intro!: bit_word_eqI simp: bit_simps)
qed

lemma nibble_bounds: "unat (drop_bit 4 (b::byte)) < 16" "unat (b AND 0xF :: byte) < 16"
proof -
  have "unat b < 256" using uint_byte_bounds(2) [of b] by (simp flip: nat_uint_eq)
  then show "unat (drop_bit 4 b) < 16"
    by (simp only: unsigned_drop_bit_eq) (simp add: drop_bit_eq_div take_bit_eq_mod)
  have "b AND 0xF = take_bit 4 b" by (simp add: take_bit_eq_mask mask_numeral)
  then show "unat (b AND 0xF) < 16" by (simp only: unsigned_take_bit_eq) (simp add: take_bit_eq_mod)
qed

lemma hex_decode_encode: "hex_decode (hex_encode up bs) = bs"
  by (induction bs) (simp_all add: hex_encode_def hex_digits nibble_bounds nibbles)

lemma hex_encode_hex: "list_all (\<lambda>b. gw_isxdigit (uint b)) (hex_encode up bs)"
  by (induction bs) (simp_all add: hex_encode_def hex_digits nibble_bounds flip: hex_value_iff)

end
