(* ===== verification/Octstr_Url.thy ===== *)
theory Octstr_Url
  imports Octstr_Hex
begin

text \<open>
  The URL codec and the shell quoting of \<open>gwlib/octstr.c\<close>. \<open>octstr_url_encode\<close> writes either
  in place or into a new area of exactly the right size; \<open>octstr_url_decode\<close> shrinks the
  string in place and stops at the NUL that ends the area. Both are shown to compute list
  functions, which form a codec: decoding an encoded string gives it back, whatever octets it
  holds.
\<close>

unbundle bit_operations_syntax

section \<open>URL encoding\<close>

definition safe_chars :: "byte list" where
  "safe_chars = cstr '' ABCDEFGHIJKLMNOPQRSTUVWXYZabcdefghijklmnopqrstuvwxyz0123456789-_.~''"

text \<open>The table \<open>is_safe\<close> as \<open>urlcode_init\<close> leaves it.\<close>

definition urlcode_init :: "bool list" where
  "urlcode_init = fold (\<lambda>c t. t[unat c := True]) safe_chars (replicate 256 False)"

definition is_safe :: "byte \<Rightarrow> bool" where
  "is_safe c = urlcode_init ! unat c"

text \<open>A sequence of \<open>*p++ = v\<close>.\<close>

fun put_bytes :: "byte cells \<Rightarrow> int \<Rightarrow> byte list \<Rightarrow> (byte cells \<times> int) option" where
  "put_bytes d k [] = Some (d, k)"
| "put_bytes d k (v # vs) = do { d \<leftarrow> wr d k v; put_bytes d (k + 1) vs }"

function url_count_loop :: "byte cells \<Rightarrow> int \<Rightarrow> int \<Rightarrow> int \<Rightarrow> bool \<Rightarrow> (int \<times> bool) option" where
  "url_count_loop data i len n all_safe =
     (if i < len then do {
        c \<leftarrow> rd data i;
        if c = 0x20 then url_count_loop data (i + 1) len n False
        else if \<not> is_safe c then url_count_loop data (i + 1) len (n + 1) False
        else url_count_loop data (i + 1) len n all_safe }
      else Some (n, all_safe))"
  by pat_completeness auto
termination
  by (relation "measure (\<lambda>(data, i, len, n, s). nat (len - i))") auto

declare url_count_loop.simps [simp del]

definition url_char :: "byte \<Rightarrow> byte list" where
  "url_char c =
     (if c = 0x20 then [0x2B]
      else if \<not> is_safe c then
        [0x25, hexits True ! unat (drop_bit 4 c AND 0xF), hexits True ! unat (c AND 0xF)]
      else [c])"

text \<open>
  \<open>inplace\<close> says that the output pointer started at the string's own data, so that the loop
  reads what it has written.
\<close>

function url_loop :: "bool \<Rightarrow> byte cells \<Rightarrow> byte cells \<Rightarrow> int \<Rightarrow> int \<Rightarrow> int \<Rightarrow> (byte cells \<times> int) option" where
  "url_loop inplace src dst i len k =
     (if i < len then do {
        c \<leftarrow> rd (if inplace then dst else src) i;
        (dst, k) \<leftarrow> put_bytes dst k (url_char c);
        url_loop inplace src dst (i + 1) len k }
      else Some (dst, k))"
  by pat_completeness auto
termination
  by (relation "measure (\<lambda>(inplace, src, dst, i, len, k). nat (len - i))") auto

declare url_loop.simps [simp del]

definition octstr_url_encode :: "octstr option \<Rightarrow> octstr option option" where
  "octstr_url_encode os = (case os of None \<Rightarrow> Some None
     | Some ostr \<Rightarrow> do {
         seems_valid ostr;
         gw_assert (\<not> os_immutable ostr);
         if os_len ostr = 0 then Some (Some ostr)
         else do {
           (n, all_safe) \<leftarrow> url_count_loop (os_data ostr) 0 (os_len ostr) 0 True;
           if all_safe then Some (Some ostr)
           else do {
             let len = os_len ostr + 2 * n + 1;
             ostr \<leftarrow> (if n \<noteq> 0 then do {
                 res \<leftarrow> gw_malloc len;
                 (res, k) \<leftarrow> url_loop False (os_data ostr) res 0 (os_len ostr) 0;
                 res \<leftarrow> wr res k 0;
                 Some (ostr\<lparr>os_data := res, os_size := len, os_len := len - 1\<rparr>) }
               else do {
                 (d, k) \<leftarrow> url_loop True (os_data ostr) (os_data ostr) 0 (os_len ostr) 0;
                 d \<leftarrow> wr d k 0;
                 Some (ostr\<lparr>os_data := d\<rparr>) });
             seems_valid ostr;
             Some (Some ostr) } } })"

section \<open>URL decoding\<close>

text \<open>The macro \<open>H2B\<close>.\<close>

definition H2B :: "byte \<Rightarrow> int" where
  "H2B a =
     (if 0x30 \<le> a \<and> a \<le> 0x39 then uint a - 0x30
      else if 0x61 \<le> a \<and> a \<le> 0x66 then uint a - 0x61 + 10
      else if 0x41 \<le> a \<and> a \<le> 0x46 then uint a - 0x41 + 10
      else -1)"

text \<open>
  One pass of the \<open>do ... while (*string)\<close> loop, with \<open>s\<close> the index of \<open>string\<close> and \<open>k\<close>
  that of \<open>dptr\<close>; the test at its end decides about the next pass.
\<close>

function url_decode_loop :: "byte cells \<Rightarrow> int \<Rightarrow> int \<Rightarrow> int \<Rightarrow> (byte cells \<times> int \<times> int) option" where
  "url_decode_loop d s k ret = do {
     c \<leftarrow> rd d s;
     if c = 0x25 then do {
       c1 \<leftarrow> rd d (s + 1);
       if c1 = 0 then Some (d, k, -1)
       else do {
         c2 \<leftarrow> rd d (s + 2);
         if c2 = 0 then Some (d, k, -1)
         else if H2B c1 = -1 \<or> H2B c2 = -1 then do {
           d1 \<leftarrow> wr d k c;
           c' \<leftarrow> rd d1 (s + 1);
           d2 \<leftarrow> wr d1 (k + 1) c';
           c'' \<leftarrow> rd d2 (s + 2);
           d3 \<leftarrow> wr d2 (k + 2) c'';
           t \<leftarrow> rd d3 (s + 3);
           if t \<noteq> 0 then url_decode_loop d3 (s + 3) (k + 3) (-1) else Some (d3, k + 3, -1) }
         else do {
           d1 \<leftarrow> wr d k (word_of_int (H2B c1 * 16 OR H2B c2));
           t \<leftarrow> rd d1 (s + 3);
           if t \<noteq> 0 then url_decode_loop d1 (s + 3) (k + 1) ret else Some (d1, k + 1, ret) } } }
     else do {
       d1 \<leftarrow> wr d k (if c = 0x2B then 0x20 else c);
       t \<leftarrow> rd d1 (s + 1);
       if t \<noteq> 0 then url_decode_loop d1 (s + 1) (k + 1) ret else Some (d1, k + 1, ret) } }"
  by pat_completeness auto
termination
  by (relation "measure (\<lambda>(d, s, k, ret). nat (int (length d) - s))")
    (auto dest!: rd_Some_bounds wr_length)

declare url_decode_loop.simps [simp del]

definition octstr_url_decode :: "octstr option \<Rightarrow> (int \<times> octstr option) option" where
  "octstr_url_decode os = (case os of None \<Rightarrow> Some (0, None)
     | Some ostr \<Rightarrow> do {
         seems_valid ostr;
         gw_assert (\<not> os_immutable ostr);
         if os_len ostr = 0 then Some (0, Some ostr)
         else do {
           (d, k, ret) \<leftarrow> url_decode_loop (os_data ostr) 0 0 0;
           d \<leftarrow> wr d k 0;
           let ostr = ostr\<lparr>os_data := d, os_len := k\<rparr> in do {
             seems_valid ostr;
             Some (ret, Some ostr) } } })"

section \<open>Shell quoting\<close>

function quote_count_loop :: "byte cells \<Rightarrow> int \<Rightarrow> int \<Rightarrow> int \<Rightarrow> int option" where
  "quote_count_loop data i len n =
     (if i < len then do {
        c \<leftarrow> rd data i;
        quote_count_loop data (i + 1) len (if c = 0x27 then n + 1 else n) }
      else Some n)"
  by pat_completeness auto
termination
  by (relation "measure (\<lambda>(data, i, len, n). nat (len - i))") auto

declare quote_count_loop.simps [simp del]

definition quote_char :: "byte \<Rightarrow> byte list" where
  "quote_char c = (if c = 0x27 then [0x27, 0x5C, 0x27, 0x27] else [c])"

function quote_loop :: "byte cells \<Rightarrow> byte cells \<Rightarrow> int \<Rightarrow> int \<Rightarrow> int \<Rightarrow> (byte cells \<times> int) option" where
  "quote_loop src dst i len k =
     (if i < len then do {
        c \<leftarrow> rd src i;
        (dst, k) \<leftarrow> put_bytes dst k (quote_char c);
        quote_loop src dst (i + 1) len k }
      else Some (dst, k))"
  by pat_completeness auto
termination
  by (relation "measure (\<lambda>(src, dst, i, len, k). nat (len - i))") auto

declare quote_loop.simps [simp del]

definition octstr_shell_escape :: "octstr option \<Rightarrow> octstr option option" where
  "octstr_shell_escape os = (case os of None \<Rightarrow> Some None
     | Some ostr \<Rightarrow> do {
         seems_valid ostr;
         gw_assert (\<not> os_immutable ostr);
         if os_len ostr = 0 then do {
           ostr \<leftarrow> octstr_insert_data ostr 0 (map Some (cstr [CHR 0x27, CHR 0x27]) @ [Some 0]) 2;
           Some (Some ostr) }
         else do {
           n \<leftarrow> quote_count_loop (os_data ostr) 0 (os_len ostr) 0;
           let len = os_len ostr + 2 + 3 * n + 1;
           res \<leftarrow> gw_malloc len;
           (res, k) \<leftarrow> put_bytes res 0 [0x27];
           (res, k) \<leftarrow> quote_loop (os_data ostr) res 0 (os_len ostr) k;
           (res, k) \<leftarrow> put_bytes res k [0x27];
           res \<leftarrow> wr res k 0;
           let ostr = ostr\<lparr>os_data := res, os_size := len, os_len := len - 1\<rparr>;
           seems_valid ostr;
           Some (Some ostr) } })"

section \<open>Reference functions\<close>

definition url_encoded :: "byte list \<Rightarrow> byte list" where
  "url_encoded bs = concat (map url_char bs)"

text \<open>
  The decoder on the octets before the final NUL, with the return code. \<open>first\<close> marks the
  first pass of the loop, which does not look for a NUL.
\<close>

fun url_decoded :: "bool \<Rightarrow> byte list \<Rightarrow> byte list \<times> int" where
  "url_decoded first [] = ([], 0)"
| "url_decoded first (c # cs) =
     (if c = 0 \<and> \<not> first then ([], 0)
      else if c = 0x25 then
        (case cs of
           c1 # c2 # cs' \<Rightarrow>
             if c1 = 0 \<or> c2 = 0 then ([], -1)
             else if H2B c1 = -1 \<or> H2B c2 = -1 then (c # c1 # c2 # fst (url_decoded False cs'), -1)
             else
               (word_of_int (H2B c1 * 16 OR H2B c2) # fst (url_decoded False cs'), snd (url_decoded False cs'))
         | _ \<Rightarrow> ([], -1))
      else
        ((if c = 0x2B then 0x20 else c) # fst (url_decoded False cs), snd (url_decoded False cs)))"

definition shell_quoted :: "byte list \<Rightarrow> byte list" where
  "shell_quoted bs = [0x27] @ concat (map quote_char bs) @ [0x27]"

section \<open>Encoding\<close>

lemma put_bytes_list:
  "length x = length vs \<Longrightarrow>
   put_bytes (map Some out @ x @ r) (int (length out)) vs =
     Some (map Some (out @ vs) @ r, int (length out) + int (length vs))"
proof (induction vs arbitrary: out x)
  case Nil
  then show ?case by simp
next
  case (Cons v vs)
  then obtain y x' where x: "x = y # x'" "length x' = length vs" by (cases x) auto
  have "wr (map Some out @ x @ r) (int (length out)) v = Some (map Some (out @ [v]) @ x' @ r)"
    using wr_at [of "map Some out" y "x' @ r" v] x by simp
  then show ?case using Cons.IH [OF x(2), of "out @ [v]"] by (simp add: algebra_simps)
qed

lemma url_count_list:
  "url_count_loop (map Some xs @ map Some ys @ r) (int (length xs)) (int (length xs + length ys)) n s =
     Some (n + int (length (filter (\<lambda>c. c \<noteq> 0x20 \<and> \<not> is_safe c) ys)),
       s \<and> list_all (\<lambda>c. c \<noteq> 0x20 \<and> is_safe c) ys)"
proof (induction ys arbitrary: xs n s)
  case Nil
  then show ?case by (simp add: url_count_loop.simps)
next
  case (Cons b ys)
  have "rd (map Some xs @ map Some (b # ys) @ r) (int (length xs)) = Some b" by (simp add: rd_def nth_append)
  then show ?case using Cons [of "xs @ [b]"]
    by (subst url_count_loop.simps) (auto simp: algebra_simps)
qed

lemma length_url_encoded:
  "length (url_encoded bs) = length bs + 2 * length (filter (\<lambda>c. c \<noteq> 0x20 \<and> \<not> is_safe c) bs)"
  by (induction bs) (auto simp: url_encoded_def url_char_def)

lemma url_encoded_Cons [simp]: "url_encoded (b # bs) = url_char b @ url_encoded bs"
  by (simp add: url_encoded_def)

lemma url_encoded_Nil [simp]: "url_encoded [] = []"
  by (simp add: url_encoded_def)

lemma url_loop_copy:
  "length z = length (url_encoded ys) \<Longrightarrow>
   url_loop False (map Some xs @ map Some ys @ r) (map Some out @ z @ t)
     (int (length xs)) (int (length xs + length ys)) (int (length out)) =
   Some (map Some (out @ url_encoded ys) @ t, int (length out + length (url_encoded ys)))"
proof (induction ys arbitrary: xs out z)
  case Nil
  then show ?case by (simp add: url_loop.simps)
next
  case (Cons b ys)
  define x where "x = take (length (url_char b)) z"
  define z' where "z' = drop (length (url_char b)) z"
  have z: "z = x @ z'" "length x = length (url_char b)" "length z' = length (url_encoded ys)"
    using Cons.prems by (simp_all add: x_def z'_def)
  have "rd (map Some xs @ map Some (b # ys) @ r) (int (length xs)) = Some b" by (simp add: rd_def nth_append)
  moreover have "put_bytes (map Some out @ z @ t) (int (length out)) (url_char b) =
      Some (map Some (out @ url_char b) @ z' @ t, int (length (out @ url_char b)))"
    using put_bytes_list [OF z(2), of out "z' @ t"] z(1) by simp
  ultimately show ?case using Cons.IH [OF z(3), of "xs @ [b]" "out @ url_char b"]
    by (subst url_loop.simps) (simp add: algebra_simps)
qed

lemma url_loop_inplace:
  "list_all (\<lambda>c. c = 0x20 \<or> is_safe c) ys \<Longrightarrow>
   url_loop True src (map Some out @ map Some ys @ r)
     (int (length out)) (int (length out + length ys)) (int (length out)) =
   Some (map Some (out @ url_encoded ys) @ r, int (length out + length ys))"
proof (induction ys arbitrary: out)
  case Nil
  then show ?case by (simp add: url_loop.simps)
next
  case (Cons b ys)
  have one: "length [Some b] = length (url_char b)" using Cons.prems by (auto simp: url_char_def)
  then obtain v where v: "url_char b = [v]" by (cases "url_char b") auto
  have "rd (map Some out @ map Some (b # ys) @ r) (int (length out)) = Some b" by (simp add: rd_def nth_append)
  moreover have "put_bytes (map Some out @ map Some (b # ys) @ r) (int (length out)) (url_char b) =
      Some (map Some (out @ url_char b) @ map Some ys @ r, int (length (out @ url_char b)))"
    using put_bytes_list [OF one, of out "map Some ys @ r"] by simp
  ultimately show ?case using Cons.IH [of "out @ url_char b"] Cons.prems v
    by (subst url_loop.simps) (simp add: algebra_simps)
qed

lemma url_encoded_safe: "list_all (\<lambda>c. c \<noteq> 0x20 \<and> is_safe c) bs \<Longrightarrow> url_encoded bs = bs"
  by (induction bs) (auto simp: url_char_def)

lemma octstr_url_encode_rep:
  assumes "mrep os bs"
  shows "\<exists>r. octstr_url_encode (Some os) = Some (Some r) \<and> mrep r (url_encoded bs)"
proof (cases "bs = []")
  case True
  then show ?thesis using assms
    by (simp add: octstr_url_encode_def seems_valid_rep [OF mrep_orep] mrep_mutable mrep_len)
next
  case ne: False
  obtain rest where d: "os_data os = map Some bs @ Some 0 # rest"
    using orep_data [OF mrep_orep [OF assms] ne] by blast
  let ?n = "length (filter (\<lambda>c. c \<noteq> 0x20 \<and> \<not> is_safe c) bs)"
  let ?all = "list_all (\<lambda>c. c \<noteq> 0x20 \<and> is_safe c) bs"
  note lenE = length_url_encoded [of bs]
  have cnt: "url_count_loop (os_data os) 0 (int (length bs)) 0 True = Some (int ?n, ?all)"
    using url_count_list [of "[]" bs "Some 0 # rest" 0 True] by (simp add: d)
  note simps = octstr_url_encode_def seems_valid_rep [OF mrep_orep [OF assms]] mrep_mutable [OF assms]
    mrep_len [OF assms] cnt
  consider (all) ?all | (inplace) "\<not> ?all" "?n = 0" | (copy) "\<not> ?all" "?n \<noteq> 0" by blast
  then show ?thesis
  proof cases
    case all
    then show ?thesis using assms ne by (simp add: simps url_encoded_safe)
  next
    case inplace
    then have s: "list_all (\<lambda>c. c = 0x20 \<or> is_safe c) bs"
      by (auto simp: list_all_iff filter_empty_conv)
    have l: "url_loop True (os_data os) (os_data os) 0 (int (length bs)) 0 =
        Some (map Some (url_encoded bs) @ Some 0 # rest, int (length bs))"
      using url_loop_inplace [OF s, of "os_data os" "[]" "Some 0 # rest"] by (simp add: d)
    have w: "wr (map Some (url_encoded bs) @ Some 0 # rest) (int (length bs)) 0 =
        Some (map Some (url_encoded bs) @ Some 0 # rest)"
      using wr_at [of "map Some (url_encoded bs)" "Some 0" rest 0] lenE inplace by simp
    let ?r = "os\<lparr>os_data := map Some (url_encoded bs) @ Some 0 # rest\<rparr>"
    have r: "mrep ?r (url_encoded bs)"
      using assms d lenE inplace by (auto simp: mrep_def orep_def)
    show ?thesis using inplace ne l w r seems_valid_rep [OF mrep_orep [OF r]] by (simp add: simps)
  next
    case copy
    let ?len = "int (length bs) + 2 * int ?n + 1"
    have len: "nat ?len = length (url_encoded bs) + 1" using lenE by simp
    have m: "gw_malloc ?len = Some (replicate (length (url_encoded bs)) (None :: byte option) @ [None])"
      using len by (simp add: gw_malloc_def replicate_append_same)
    have l: "url_loop False (os_data os) (replicate (length (url_encoded bs)) None @ [None]) 0 (int (length bs)) 0 =
        Some (map Some (url_encoded bs) @ [None], int (length (url_encoded bs)))"
      using url_loop_copy [of "replicate (length (url_encoded bs)) None" bs "[]" "Some 0 # rest" "[]" "[None]"]
      by (simp add: d)
    have w: "wr (map Some (url_encoded bs) @ [None]) (int (length (url_encoded bs))) 0 =
        Some (map Some (url_encoded bs) @ [Some 0])"
      using wr_at [of "map Some (url_encoded bs)" None "[]" 0] by simp
    let ?r = "os\<lparr>os_data := map Some (url_encoded bs) @ [Some 0], os_size := ?len, os_len := ?len - 1\<rparr>"
    have r: "mrep ?r (url_encoded bs)"
      using assms lenE by (simp add: mrep_def orep_def)
    show ?thesis using copy ne m l w r seems_valid_rep [OF mrep_orep [OF r]] by (simp add: simps)
  qed
qed

section \<open>Decoding\<close>

lemma rd_at: "rd (a @ c # r) (int (length a)) = c"
  by (simp add: rd_def nth_append)

text \<open>
  While the loop runs, the area holds the output, \<open>x\<close> (what was read already), the octets
  still to be read and the final NUL. \<open>url_post\<close> is what holds when it stops.
\<close>

definition url_area :: "byte list \<Rightarrow> byte cells \<Rightarrow> byte list \<Rightarrow> byte cells \<Rightarrow> byte cells" where
  "url_area out x cs r = map Some out @ x @ map Some cs @ Some 0 # r"

definition url_post :: "byte list \<Rightarrow> byte list \<times> int \<Rightarrow> int \<Rightarrow> nat \<Rightarrow> byte cells \<times> int \<times> int \<Rightarrow> bool" where
  "url_post out res ret n = (\<lambda>(d, k, ret'). \<exists>j. j \<noteq> [] \<and> d = map Some (out @ fst res) @ j \<and>
     k = int (length out + length (fst res)) \<and> ret' = (if snd res = 0 then ret else -1) \<and> length d = n)"

definition url_spec :: "byte cells \<Rightarrow> byte list \<Rightarrow> bool" where
  "url_spec r cs \<longleftrightarrow> (\<forall>out x first ret s. cs \<noteq> [] \<longrightarrow> first \<or> hd cs \<noteq> 0 \<longrightarrow> s = int (length out) + int (length x) \<longrightarrow>
     runs (url_decode_loop (url_area out x cs r) s (int (length out)) ret)
       (url_post out (url_decoded first cs) ret (length (url_area out x cs r))))"

lemma url_specI:
  "(\<And>out x first ret. cs \<noteq> [] \<Longrightarrow> first \<or> hd cs \<noteq> 0 \<Longrightarrow>
     runs (url_decode_loop (url_area out x cs r) (int (length out) + int (length x)) (int (length out)) ret)
       (url_post out (url_decoded first cs) ret (length (url_area out x cs r)))) \<Longrightarrow> url_spec r cs"
  unfolding url_spec_def by blast

lemma url_specD:
  "url_spec r cs \<Longrightarrow> cs \<noteq> [] \<Longrightarrow> runs (url_decode_loop (url_area [] [] cs r) 0 0 ret)
     (url_post [] (url_decoded True cs) ret (length (url_area [] [] cs r)))"
  unfolding url_spec_def by (drule spec [of _ "[]"], drule spec [of _ "[]"], drule spec [of _ True]) simp

lemma runs_url_post:
  "runs c (url_post (out @ vs) res ret n) \<Longrightarrow> runs c (url_post out (vs @ fst res, snd res) ret n)"
  by (erule runs_mono) (auto simp: url_post_def)

lemma runs_url_post_error:
  "runs c (url_post (out @ vs) res (-1) n) \<Longrightarrow> runs c (url_post out (vs @ fst res, -1) ret n)"
  by (erule runs_mono) (auto simp: url_post_def)

lemma rd_area: "rd (url_area out x (cs @ c # cs') r) (int (length out) + int (length x) + int (length cs)) = Some c"
  using rd_at [of "map Some out @ x @ map Some cs" "Some c"] by (simp add: url_area_def add.assoc)

lemma rd_area_end: "rd (url_area out x cs r) (int (length out) + int (length x) + int (length cs)) = Some 0"
  using rd_at [of "map Some out @ x @ map Some cs" "Some 0"] by (simp add: url_area_def add.assoc)

lemma wr_area:
  obtains x' where "length x' = length x"
    "wr (url_area out x (c # cs) r) (int (length out)) v = Some (url_area (out @ [v]) x' cs r)"
  using wr_behind [of x out "Some c" "map Some cs @ Some 0 # r" v] by (auto simp: url_area_def)

lemma url_area_skip: "url_area out x (cs @ cs') r = url_area out (x @ map Some cs) cs' r"
  by (simp add: url_area_def)

lemma url_next_pass:
  assumes "url_spec r ts" and "s = int (length out) + int (length x)" and "k = int (length out)"
  shows "runs (do { t \<leftarrow> rd (url_area out x ts r) s;
       if t \<noteq> 0 then url_decode_loop (url_area out x ts r) s k ret else Some (url_area out x ts r, k, ret) })
    (url_post out (url_decoded False ts) ret (length (url_area out x ts r)))"
proof (cases "ts = [] \<or> hd ts = 0")
  case True
  then have "rd (url_area out x ts r) s = Some 0"
    using assms(2) rd_area [of out x "[]" 0 "tl ts" r] rd_area_end [of out x "[]" r] by (cases ts) auto
  moreover have "url_decoded False ts = ([], 0)" using True by (cases ts) auto
  ultimately show ?thesis using assms(3)
    by (auto simp: url_post_def url_area_def intro!: exI [of _ "x @ map Some ts @ Some 0 # r"])
next
  case False
  have "rd (url_area out x ts r) s = Some (hd ts)"
    using False assms(2) rd_area [of out x "[]" "hd ts" "tl ts" r] by (cases ts) auto
  then show ?thesis using assms False unfolding url_spec_def by auto
qed

text \<open>One pass of the loop, by the three kinds of input.\<close>

lemma url_pass_plain:
  assumes "c \<noteq> 0x25" and "first \<or> c \<noteq> 0" and "url_spec r cs"
  shows "runs (url_decode_loop (url_area out x (c # cs) r) (int (length out) + int (length x)) (int (length out)) ret)
    (url_post out (url_decoded first (c # cs)) ret (length (url_area out x (c # cs) r)))"
proof -
  let ?v = "if c = 0x2B then 0x20 else c"
  have rc: "rd (url_area out x (c # cs) r) (int (length out) + int (length x)) = Some c"
    using rd_area [of out x "[]" c cs r] by simp
  obtain x' where x': "length x' = length x"
    "wr (url_area out x (c # cs) r) (int (length out)) ?v = Some (url_area (out @ [?v]) x' cs r)"
    by (rule wr_area)
  have l: "length (url_area (out @ [?v]) x' cs r) = length (url_area out x (c # cs) r)"
    using x'(1) by (simp add: url_area_def)
  have "runs (url_decode_loop (url_area out x (c # cs) r) (int (length out) + int (length x)) (int (length out)) ret)
    (url_post (out @ [?v]) (url_decoded False cs) ret (length (url_area (out @ [?v]) x' cs r)))"
    using url_next_pass [OF assms(3), of "int (length out) + int (length x) + 1" "out @ [?v]" x' "int (length out) + 1" ret]
      assms(1) rc x' by (subst url_decode_loop.simps) simp
  moreover have "url_decoded first (c # cs) = ([?v] @ fst (url_decoded False cs), snd (url_decoded False cs))"
    using assms(1,2) by auto
  ultimately show ?thesis unfolding l by (simp only: runs_url_post)
qed

lemma url_pass_short:
  assumes "cs = [] \<or> cs = [c1] \<or> cs = c1 # c2 # cs' \<and> (c1 = 0 \<or> c2 = 0)"
  shows "runs (url_decode_loop (url_area out x (0x25 # cs) r) (int (length out) + int (length x)) (int (length out)) ret)
    (url_post out (url_decoded first (0x25 # cs)) ret (length (url_area out x (0x25 # cs) r)))"
proof -
  let ?s = "int (length out) + int (length x)" and ?a = "url_area out x (0x25 # cs) r"
  have rc: "rd ?a ?s = Some 0x25" using rd_area [of out x "[]" "0x25" cs r] by simp
  have "rd ?a (?s + 1) = Some 0 \<or> (\<exists>c1. rd ?a (?s + 1) = Some c1 \<and> c1 \<noteq> 0 \<and> rd ?a (?s + 2) = Some 0)"
    using assms rd_area [of out x "[0x25]" c1 "tl cs" r] rd_area [of out x "[0x25, c1]" c2 cs' r]
      rd_area_end [of out x "0x25 # cs" r]
    by (cases "c1 = 0") auto
  then have "url_decode_loop ?a ?s (int (length out)) ret = Some (?a, int (length out), -1)"
    using rc by (subst url_decode_loop.simps) auto
  moreover have "url_decoded first (0x25 # cs) = ([], -1)" using assms by auto
  ultimately show ?thesis
    by (auto simp: url_post_def url_area_def intro!: exI [of _ "x @ map Some (0x25 # cs) @ Some 0 # r"])
qed

lemma url_pass_hex:
  assumes "c1 \<noteq> 0" and "c2 \<noteq> 0" and "H2B c1 \<noteq> -1" and "H2B c2 \<noteq> -1" and "url_spec r cs"
  shows "runs (url_decode_loop (url_area out x (0x25 # c1 # c2 # cs) r) (int (length out) + int (length x)) (int (length out)) ret)
    (url_post out (url_decoded first (0x25 # c1 # c2 # cs)) ret (length (url_area out x (0x25 # c1 # c2 # cs) r)))"
proof -
  let ?v = "word_of_int (H2B c1 * 16 OR H2B c2) :: byte"
  let ?s = "int (length out) + int (length x)" and ?a = "url_area out x (0x25 # c1 # c2 # cs) r"
  have rc: "rd ?a ?s = Some 0x25" "rd ?a (?s + 1) = Some c1" "rd ?a (?s + 2) = Some c2"
    using rd_area [of out x "[]" "0x25" "c1 # c2 # cs" r] rd_area [of out x "[0x25]" c1 "c2 # cs" r]
      rd_area [of out x "[0x25, c1]" c2 cs r] by simp_all
  obtain x' where x': "length x' = length x"
    "wr ?a (int (length out)) ?v = Some (url_area (out @ [?v]) x' (c1 # c2 # cs) r)"
    by (rule wr_area)
  have skip: "url_area (out @ [?v]) x' (c1 # c2 # cs) r = url_area (out @ [?v]) (x' @ [Some c1, Some c2]) cs r"
    using url_area_skip [of _ _ "[c1, c2]" cs] by simp
  have l: "length (url_area (out @ [?v]) (x' @ [Some c1, Some c2]) cs r) = length ?a"
    using x'(1) by (simp add: url_area_def)
  have "runs (url_decode_loop ?a ?s (int (length out)) ret) (url_post (out @ [?v]) (url_decoded False cs) ret (length ?a))"
    using url_next_pass [OF assms(5), of "?s + 3" "out @ [?v]" "x' @ [Some c1, Some c2]" "int (length out) + 1" ret]
      assms rc x' l by (subst url_decode_loop.simps) (simp add: skip)
  moreover have "url_decoded first (0x25 # c1 # c2 # cs) = ([?v] @ fst (url_decoded False cs), snd (url_decoded False cs))"
    using assms by simp
  ultimately show ?thesis by (simp only: runs_url_post)
qed

lemma url_pass_garbage:
  assumes "c1 \<noteq> 0" and "c2 \<noteq> 0" and "H2B c1 = -1 \<or> H2B c2 = -1" and "url_spec r cs"
  shows "runs (url_decode_loop (url_area out x (0x25 # c1 # c2 # cs) r) (int (length out) + int (length x)) (int (length out)) ret)
    (url_post out (url_decoded first (0x25 # c1 # c2 # cs)) ret (length (url_area out x (0x25 # c1 # c2 # cs) r)))"
proof -
  let ?s = "int (length out) + int (length x)" and ?a = "url_area out x (0x25 # c1 # c2 # cs) r"
  have rc: "rd ?a ?s = Some 0x25" "rd ?a (?s + 1) = Some c1" "rd ?a (?s + 2) = Some c2"
    using rd_area [of out x "[]" "0x25" "c1 # c2 # cs" r] rd_area [of out x "[0x25]" c1 "c2 # cs" r]
      rd_area [of out x "[0x25, c1]" c2 cs r] by simp_all
  obtain x1 where x1: "length x1 = length x"
    "wr ?a (int (length out)) 0x25 = Some (url_area (out @ [0x25]) x1 (c1 # c2 # cs) r)"
    by (rule wr_area)
  have r1: "rd (url_area (out @ [0x25]) x1 (c1 # c2 # cs) r) (?s + 1) = Some c1"
    using rd_area [of "out @ [0x25]" x1 "[]" c1 "c2 # cs" r] x1(1) by (simp add: algebra_simps)
  obtain x2 where x2: "length x2 = length x"
    "wr (url_area (out @ [0x25]) x1 (c1 # c2 # cs) r) (int (length out) + 1) c1 =
      Some (url_area (out @ [0x25, c1]) x2 (c2 # cs) r)"
    using wr_area [of x1 "out @ [0x25]" c1 "c2 # cs" r c1] x1(1) by (auto simp: algebra_simps)
  have r2: "rd (url_area (out @ [0x25, c1]) x2 (c2 # cs) r) (?s + 2) = Some c2"
    using rd_area [of "out @ [0x25, c1]" x2 "[]" c2 cs r] x2(1) by (simp add: algebra_simps)
  obtain x3 where x3: "length x3 = length x"
    "wr (url_area (out @ [0x25, c1]) x2 (c2 # cs) r) (int (length out) + 2) c2 =
      Some (url_area (out @ [0x25, c1, c2]) x3 cs r)"
    using wr_area [of x2 "out @ [0x25, c1]" c2 cs r c2] x2(1) by (auto simp: algebra_simps)
  have l: "length (url_area (out @ [0x25, c1, c2]) x3 cs r) = length ?a"
    using x3(1) by (simp add: url_area_def)
  have "runs (url_decode_loop ?a ?s (int (length out)) ret)
      (url_post (out @ [0x25, c1, c2]) (url_decoded False cs) (-1) (length ?a))"
    using url_next_pass [OF assms(4), of "?s + 3" "out @ [0x25, c1, c2]" x3 "int (length out) + 3" "-1"]
      assms(1-3) rc x1 r1 x2 r2 x3 l by (subst url_decode_loop.simps) simp
  moreover have "url_decoded first (0x25 # c1 # c2 # cs) = ([0x25, c1, c2] @ fst (url_decoded False cs), -1)"
    using assms by simp
  ultimately show ?thesis by (simp only: runs_url_post_error)
qed

lemma url_spec_all: "url_spec r cs"
proof (induction "length cs" arbitrary: cs rule: less_induct)
  case less
  show ?case
  proof (cases cs)
    case Nil
    then show ?thesis by (simp add: url_spec_def)
  next
    case (Cons c ts)
    have ts: "url_spec r ts" using less Cons by simp
    consider (plain) "c \<noteq> 0x25" | (short) "c = 0x25" "\<not> (\<exists>c1 c2 us. ts = c1 # c2 # us \<and> c1 \<noteq> 0 \<and> c2 \<noteq> 0)"
      | (pct) c1 c2 us where "c = 0x25" "ts = c1 # c2 # us" "c1 \<noteq> 0" "c2 \<noteq> 0" by blast
    then show ?thesis
    proof cases
      case plain
      then show ?thesis using url_pass_plain [OF plain _ ts] Cons by (simp add: url_spec_def)
    next
      case short
      then obtain c1 c2 us where "ts = [] \<or> ts = [c1] \<or> ts = c1 # c2 # us \<and> (c1 = 0 \<or> c2 = 0)"
        by (metis neq_Nil_conv)
      then show ?thesis using url_pass_short Cons short(1) by (simp add: url_spec_def)
    next
      case pct
      have us: "url_spec r us" using less Cons pct by simp
      have cs: "cs = 0x25 # c1 # c2 # us" using Cons pct by simp
      show ?thesis unfolding cs
        using url_pass_hex [OF pct(3,4) _ _ us] url_pass_garbage [OF pct(3,4) _ us]
        by (intro url_specI, cases "H2B c1 = -1 \<or> H2B c2 = -1") blast+
    qed
  qed
qed

lemma octstr_url_decode_rep:
  assumes "mrep os bs"
  shows "\<exists>r. octstr_url_decode (Some os) = Some (snd (url_decoded True bs), Some r) \<and> mrep r (fst (url_decoded True bs))"
proof (cases "bs = []")
  case True
  then show ?thesis using assms
    by (simp add: octstr_url_decode_def seems_valid_rep [OF mrep_orep] mrep_mutable mrep_len)
next
  case False
  obtain rest where d: "os_data os = map Some bs @ Some 0 # rest"
    using orep_data [OF mrep_orep [OF assms] False] by blast
  have codes: "snd (url_decoded f cs) = 0 \<or> snd (url_decoded f cs) = -1" for f cs
    by (induction f cs rule: url_decoded.induct) (auto split: list.splits)
  let ?out = "fst (url_decoded True bs)"
  have "runs (url_decode_loop (url_area [] [] bs rest) 0 0 0)
      (url_post [] (url_decoded True bs) 0 (length (url_area [] [] bs rest)))"
    by (rule url_specD [OF url_spec_all False])
  then obtain j where j: "url_decode_loop (os_data os) 0 0 0 =
        Some (map Some ?out @ j, int (length ?out), snd (url_decoded True bs))"
      "j \<noteq> []" "length ?out + length j = length (os_data os)"
    using codes [of True bs] by (auto simp: url_post_def url_area_def d elim!: runsE)
  then obtain y ys where y: "j = y # ys" by (cases j) auto
  have w: "wr (map Some ?out @ j) (int (length ?out)) 0 = Some (map Some ?out @ Some 0 # ys)"
    using wr_at [of "map Some ?out" y ys 0] y by simp
  let ?r = "os\<lparr>os_data := map Some ?out @ Some 0 # ys, os_len := int (length ?out)\<rparr>"
  have r: "mrep ?r ?out" using assms j(3) y by (simp add: mrep_def orep_def)
  show ?thesis using assms False j(1) w r seems_valid_rep [OF mrep_orep [OF r]]
    by (simp add: octstr_url_decode_def seems_valid_rep [OF mrep_orep] mrep_mutable mrep_len)
qed

section \<open>Round trip\<close>

lemma fold_mark:
  "length t = 256 \<Longrightarrow> fold (\<lambda>c t. t[unat c := True]) cs t ! unat (b::byte) \<longleftrightarrow> b \<in> set cs \<or> t ! unat b"
proof (induction cs arbitrary: t)
  case Nil
  then show ?case by simp
next
  case (Cons c cs)
  have "unat c < 256" using uint_byte_bounds(2) [of c] by (simp flip: nat_uint_eq)
  then show ?case using Cons by (auto simp: nth_list_update word_unat_eq_iff)
qed

lemma is_safe_iff: "is_safe b \<longleftrightarrow> b \<in> set safe_chars"
proof -
  have "unat b < 256" using uint_byte_bounds(2) [of b] by (simp flip: nat_uint_eq)
  then show ?thesis by (simp add: is_safe_def urlcode_init_def fold_mark)
qed

lemma unsafe_marks: "\<not> is_safe 0x25" "\<not> is_safe 0x2B" "\<not> is_safe 0"
proof -
  have "list_all (\<lambda>b. b \<noteq> 0x25 \<and> b \<noteq> 0x2B \<and> b \<noteq> 0) safe_chars" by code_simp
  then show "\<not> is_safe 0x25" "\<not> is_safe 0x2B" "\<not> is_safe 0"
    by (auto simp: is_safe_iff list_all_iff)
qed

lemma H2B_hexits:
  assumes "k < 16"
  shows "H2B (hexits True ! k) = int k" and "hexits True ! k \<noteq> 0"
proof -
  have "list_all (\<lambda>k. H2B (hexits True ! k) = int k \<and> hexits True ! k \<noteq> 0) [0..<16]" by code_simp
  then show "H2B (hexits True ! k) = int k" "hexits True ! k \<noteq> 0"
    using assms by (auto simp: list_all_iff)
qed

lemma uint_shift_nibble:
  assumes "unat (h :: byte) < 16"
  shows "uint (h * 16) = uint h * 16"
proof -
  have "uint h < 16" using assms by (simp flip: nat_uint_eq)
  then have "uint h * uint (16 :: byte) < 2 ^ LENGTH(8)" by simp
  then have "uint (h * 16) = uint h * uint (16 :: byte)" by (simp only: uint_mult_lem)
  then show ?thesis by simp
qed

lemma nibbles_int: "word_of_int (uint (drop_bit 4 b) * 16 OR uint (b AND 0xF)) = (b :: byte)"
  using nibbles [of b]
  by (simp only: uint_shift_nibble [OF nibble_bounds(1), symmetric] unsigned_or_eq [symmetric] word_of_int_uint)

lemma high_nibble: "drop_bit 4 (b::byte) AND 0xF = drop_bit 4 b"
proof -
  have "drop_bit 4 b AND 0xF = take_bit 4 (drop_bit 4 b)" by (simp add: take_bit_eq_mask mask_numeral)
  also have "\<dots> = drop_bit 4 b"
  proof (rule bit_word_eqI)
    fix n
    show "bit (take_bit 4 (drop_bit 4 b)) n \<longleftrightarrow> bit (drop_bit 4 b) n"
      using bit_imp_le_length [of b "4 + n"] by (auto simp: bit_simps)
  qed
  finally show ?thesis .
qed

lemma url_decoded_char:
  "url_decoded f (url_char b @ cs) = (b # fst (url_decoded False cs), snd (url_decoded False cs))"
proof -
  consider "b = 0x20" | "b \<noteq> 0x20" "is_safe b" | "b \<noteq> 0x20" "\<not> is_safe b" by blast
  then show ?thesis
  proof cases
    case 1
    then show ?thesis by (simp add: url_char_def)
  next
    case 2
    then have "b \<noteq> 0x25" "b \<noteq> 0x2B" "b \<noteq> 0" using unsafe_marks by auto
    then show ?thesis using 2 by (simp add: url_char_def)
  next
    case 3
    have ne: "uint w \<noteq> -1" for w :: byte using uint_byte_bounds(1) [of w] by linarith
    show ?thesis using 3 ne
      using H2B_hexits [OF nibble_bounds(1) [of b]] H2B_hexits [OF nibble_bounds(2) [of b]]
      by (simp add: url_char_def high_nibble nibbles_int)
  qed
qed

lemma url_decoded_encoded: "url_decoded f (url_encoded bs) = (bs, 0)"
  by (induction bs arbitrary: f) (simp_all only: url_encoded_Cons url_encoded_Nil url_decoded_char url_decoded.simps(1) fst_conv snd_conv)

section \<open>Shell quoting\<close>

lemma quote_count_list:
  "quote_count_loop (map Some xs @ map Some ys @ r) (int (length xs)) (int (length xs + length ys)) n =
     Some (n + int (length (filter (\<lambda>c. c = 0x27) ys)))"
proof (induction ys arbitrary: xs n)
  case Nil
  then show ?case by (simp add: quote_count_loop.simps)
next
  case (Cons b ys)
  have "rd (map Some xs @ map Some (b # ys) @ r) (int (length xs)) = Some b" by (simp add: rd_def nth_append)
  then show ?case using Cons [of "xs @ [b]"]
    by (subst quote_count_loop.simps) (auto simp: algebra_simps)
qed

lemma length_quoted:
  "length (concat (map quote_char bs)) = length bs + 3 * length (filter (\<lambda>c. c = 0x27) bs)"
  by (induction bs) (auto simp: quote_char_def)

lemma quote_loop_list:
  "length z = length (concat (map quote_char ys)) \<Longrightarrow>
   quote_loop (map Some xs @ map Some ys @ r) (map Some out @ z @ t)
     (int (length xs)) (int (length xs + length ys)) (int (length out)) =
   Some (map Some (out @ concat (map quote_char ys)) @ t, int (length out + length (concat (map quote_char ys))))"
proof (induction ys arbitrary: xs out z)
  case Nil
  then show ?case by (simp add: quote_loop.simps)
next
  case (Cons b ys)
  define x where "x = take (length (quote_char b)) z"
  define z' where "z' = drop (length (quote_char b)) z"
  have z: "z = x @ z'" "length x = length (quote_char b)" "length z' = length (concat (map quote_char ys))"
    using Cons.prems by (simp_all add: x_def z'_def)
  have "rd (map Some xs @ map Some (b # ys) @ r) (int (length xs)) = Some b" by (simp add: rd_def nth_append)
  moreover have "put_bytes (map Some out @ z @ t) (int (length out)) (quote_char b) =
      Some (map Some (out @ quote_char b) @ z' @ t, int (length (out @ quote_char b)))"
    using put_bytes_list [OF z(2), of out "z' @ t"] z(1) by simp
  ultimately show ?case using Cons.IH [OF z(3), of "xs @ [b]" "out @ quote_char b"]
    by (subst quote_loop.simps) (simp add: algebra_simps)
qed

lemma octstr_shell_escape_rep:
  assumes "mrep os bs"
  shows "\<exists>r. octstr_shell_escape (Some os) = Some (Some r) \<and> mrep r (shell_quoted bs)"
proof (cases "bs = []")
  case True
  have "runs (octstr_insert_data os (int 0) (map Some [0x27, 0x27] @ [Some 0]) (int (length [0x27, 0x27 :: byte])))
      (\<lambda>r. mrep r (take 0 bs @ [0x27, 0x27] @ drop 0 bs))"
    by (rule octstr_insert_data_rep [OF assms]) simp
  then show ?thesis using assms True
    by (auto simp: octstr_shell_escape_def seems_valid_rep [OF mrep_orep] mrep_mutable mrep_len cstr_def
        shell_quoted_def elim!: runsE)
next
  case ne: False
  obtain rest where d: "os_data os = map Some bs @ Some 0 # rest"
    using orep_data [OF mrep_orep [OF assms] ne] by blast
  let ?n = "length (filter (\<lambda>c. c = 0x27) bs)" and ?q = "concat (map quote_char bs)"
  let ?len = "int (length bs) + 2 + 3 * int ?n + 1"
  have cnt: "quote_count_loop (os_data os) 0 (int (length bs)) 0 = Some (int ?n)"
    using quote_count_list [of "[]" bs "Some 0 # rest" 0] by (simp add: d)
  have len: "nat ?len = 1 + (length ?q + (1 + 1))" using length_quoted [of bs] by simp
  have m: "gw_malloc ?len = Some ([None] @ replicate (length ?q) (None :: byte option) @ [None] @ [None])"
    unfolding gw_malloc_def len replicate_add by simp
  have p1: "put_bytes ([None] @ replicate (length ?q) None @ [None] @ [None]) 0 [0x27] =
      Some (map Some [0x27] @ replicate (length ?q) None @ [None] @ [None], 1)"
    using put_bytes_list [of "[None]" "[0x27]" "[]" "replicate (length ?q) None @ [None] @ [None]"] by simp
  have l: "quote_loop (os_data os) (map Some [0x27] @ replicate (length ?q) None @ [None] @ [None])
      0 (int (length bs)) 1 = Some (map Some ([0x27] @ ?q) @ [None] @ [None], int (1 + length ?q))"
    using quote_loop_list [of "replicate (length ?q) None" bs "[]" "Some 0 # rest" "[0x27]" "[None] @ [None]"]
    by (simp add: d)
  have p2: "put_bytes (map Some ([0x27] @ ?q) @ [None] @ [None]) (int (1 + length ?q)) [0x27] =
      Some (map Some (shell_quoted bs) @ [None], int (length (shell_quoted bs)))"
    using put_bytes_list [of "[None]" "[0x27]" "[0x27] @ ?q" "[None]"] by (simp add: shell_quoted_def)
  have w: "wr (map Some (shell_quoted bs) @ [None]) (int (length (shell_quoted bs))) 0 =
      Some (map Some (shell_quoted bs) @ [Some 0])"
    using wr_at [of "map Some (shell_quoted bs)" None "[]" 0] by simp
  let ?r = "os\<lparr>os_data := map Some (shell_quoted bs) @ [Some 0], os_size := ?len, os_len := ?len - 1\<rparr>"
  have "int (length (shell_quoted bs)) = ?len - 1" using length_quoted [of bs] by (simp add: shell_quoted_def)
  then have r: "mrep ?r (shell_quoted bs)" using assms by (simp add: mrep_def orep_def)
  show ?thesis
    using ne cnt m p1 l p2 w r seems_valid_rep [OF mrep_orep [OF r]] unfolding octstr_shell_escape_def
    by (simp add: seems_valid_rep [OF mrep_orep [OF assms]] mrep_mutable [OF assms] mrep_len [OF assms] Let_def
        del: append_Cons map_append put_bytes.simps)
qed

text \<open>A POSIX shell reads the quoted string back as one word.\<close>

fun sh_word :: "bool \<Rightarrow> byte list \<Rightarrow> byte list option" where
  "sh_word False [] = Some []"
| "sh_word True [] = None"
| "sh_word True (c # cs) =
     (if c = 0x27 then sh_word False cs else map_option ((#) c) (sh_word True cs))"
| "sh_word False (c # cs) =
     (if c = 0x27 then sh_word True cs
      else if c = 0x5C then (case cs of [] \<Rightarrow> None | c' # cs' \<Rightarrow> map_option ((#) c') (sh_word False cs'))
      else None)"

lemma sh_word_quoted: "sh_word True (concat (map quote_char bs) @ [0x27]) = Some bs"
  by (induction bs) (auto simp: quote_char_def)

end
