(* ===== verification/Octstr_Base64.thy ===== *)
theory Octstr_Base64
  imports Octstr_Hex
begin

text \<open>
  The base64 codec of \<open>gwlib/octstr.c\<close>. The encoder expands the string in place from its end,
  three octets into four characters with a line break after every 19 groups; the decoder
  shrinks it in place, skipping what is not a base64 character and stopping at \<open>=\<close>.
\<close>

unbundle bit_operations_syntax

section \<open>Encoder\<close>

definition base64 :: "byte list" where
  "base64 = cstr ''ABCDEFGHIJKLMNOPQRSTUVWXYZabcdefghijklmnopqrstuvwxyz0123456789+/''"

definition b64_char :: "int \<Rightarrow> byte" where
  "b64_char k = base64 ! nat (crem k 64)"

definition whole_triplet :: "byte \<Rightarrow> byte \<Rightarrow> byte \<Rightarrow> int" where
  "whole_triplet a b c = push_bit 16 (uint a) OR push_bit 8 (uint b) OR uint c"

function b64_loop :: "byte cells \<Rightarrow> int \<Rightarrow> int \<Rightarrow> int \<Rightarrow> (byte cells \<times> int \<times> int \<times> int) option" where
  "b64_loop data from to left_on_line =
     (if from \<ge> 0 then do {
        (data, to, left_on_line) \<leftarrow> (if left_on_line = 0 then do {
            let to = to - 2;
            data \<leftarrow> wr data (to + 5) 10;
            data \<leftarrow> wr data (to + 4) 13;
            Some (data, to, 19) }
          else Some (data, to, left_on_line));
        a \<leftarrow> rd data from;
        b \<leftarrow> rd data (from + 1);
        c \<leftarrow> rd data (from + 2);
        let whole = whole_triplet a b c;
        data \<leftarrow> wr data (to + 3) (b64_char whole);
        data \<leftarrow> wr data (to + 2) (b64_char (drop_bit 6 whole));
        data \<leftarrow> wr data (to + 1) (b64_char (drop_bit 12 whole));
        data \<leftarrow> wr data to (b64_char (drop_bit 18 whole));
        b64_loop data (from - 3) (to - 4) (left_on_line - 1) }
      else Some (data, from, to, left_on_line))"
  by pat_completeness auto
termination
  by (relation "measure (\<lambda>(data, from, to, left). nat (from + 1))") auto

declare b64_loop.simps [simp del]

definition octstr_binary_to_base64 :: "octstr \<Rightarrow> octstr option" where
  "octstr_binary_to_base64 ostr = do {
     seems_valid ostr;
     gw_assert (\<not> os_immutable ostr);
     if os_len ostr = 0 then octstr_insert ostr (Some (octstr_imm [13, 10])) 0
     else do {
       let triplets = cdiv (os_len ostr + 2) 3;
       let lines = cdiv (triplets + 18) 19;
       ostr \<leftarrow> octstr_grow ostr (triplets * 4 + lines * 2);
       let orig_len = os_len ostr;
       let len = triplets * 4 + lines * 2;
       data \<leftarrow> wr (os_data ostr) len 0;
       let from = (triplets - 1) * 3;
       let to = (triplets - 1) * 4 + (lines - 1) * 2;
       data \<leftarrow> wr data (to + 5) 10;
       data \<leftarrow> wr data (to + 4) 13;
       let left_on_line = triplets - (lines - 1) * 19;
       data \<leftarrow> (if crem orig_len 3 = 1 then do {
             data \<leftarrow> wr data orig_len 0;
             wr data (orig_len + 1) 0 }
           else if crem orig_len 3 = 2 then wr data (orig_len + 1) 0
           else Some data);
       (data, from, to, left_on_line) \<leftarrow> b64_loop data from to left_on_line;
       gw_assert (left_on_line = 0);
       gw_assert (from = -3);
       gw_assert (to = -4);
       data \<leftarrow> (if crem orig_len 3 = 1 then do {
             p \<leftarrow> rd data (len - 3);
             gw_assert (p = 0x41);
             q \<leftarrow> rd data (len - 4);
             gw_assert (q = 0x41);
             data \<leftarrow> wr data (len - 3) 0x3D;
             wr data (len - 4) 0x3D }
           else if crem orig_len 3 = 2 then do {
             p \<leftarrow> rd data (len - 3);
             gw_assert (p = 0x41);
             wr data (len - 3) 0x3D }
           else Some data);
       let ostr = ostr\<lparr>os_data := data, os_len := len\<rparr>;
       seems_valid ostr;
       Some ostr } }"

section \<open>Decoder\<close>

text \<open>The classes of input characters: a six-bit value, the end mark, or something to skip.\<close>

datatype b64_class = Sixbits int | End | Skip

definition b64_classify :: "int \<Rightarrow> b64_class" where
  "b64_classify c =
     (if 65 \<le> c \<and> c \<le> 90 then Sixbits (c - 65)
      else if 97 \<le> c \<and> c \<le> 122 then Sixbits (26 + c - 97)
      else if 48 \<le> c \<and> c \<le> 57 then Sixbits (52 + c - 48)
      else if c = 43 then Sixbits 62
      else if c = 47 then Sixbits 63
      else if c = 61 then End
      else Skip)"

text \<open>\<open>triplet\<close> is a \<open>long\<close> whose upper bits fill up and are shifted out: a 64-bit word.\<close>

function unb64_loop ::
    "byte cells \<Rightarrow> int \<Rightarrow> int \<Rightarrow> int \<Rightarrow> 64 word \<Rightarrow> int \<Rightarrow> (byte cells \<times> int \<times> 64 word \<times> int) option" where
  "unb64_loop data pos len to triplet quadpos =
     (if pos < len then do {
        c \<leftarrow> rd data pos;
        case b64_classify (uint c) of
          End \<Rightarrow> Some (data, to, triplet, quadpos)
        | Skip \<Rightarrow> unb64_loop data (pos + 1) len to triplet quadpos
        | Sixbits sixbits \<Rightarrow>
            let triplet = push_bit 6 triplet OR word_of_int sixbits; quadpos = quadpos + 1 in
            if quadpos = 4 then do {
              data \<leftarrow> wr data to (ucast (drop_bit 16 triplet AND 0xFF));
              data \<leftarrow> wr data (to + 1) (ucast (drop_bit 8 triplet AND 0xFF));
              data \<leftarrow> wr data (to + 2) (ucast (triplet AND 0xFF));
              unb64_loop data (pos + 1) len (to + 3) triplet 0 }
            else unb64_loop data (pos + 1) len to triplet quadpos }
      else Some (data, to, triplet, quadpos))"
  by pat_completeness auto
termination
  by (relation "measure (\<lambda>(data, pos, len, to, triplet, quadpos). nat (len - pos))") auto

declare unb64_loop.simps [simp del]

definition octstr_base64_to_binary :: "octstr \<Rightarrow> octstr option" where
  "octstr_base64_to_binary ostr = do {
     seems_valid ostr;
     gw_assert (\<not> os_immutable ostr);
     if os_len ostr = 0 then Some ostr
     else do {
       (data, to, triplet, quadpos) \<leftarrow> unb64_loop (os_data ostr) 0 (os_len ostr) 0 0 0;
       (data, to) \<leftarrow>
         (if quadpos = 3 then do {
            data \<leftarrow> wr data to (ucast (drop_bit 10 triplet AND 0xFF));
            data \<leftarrow> wr data (to + 1) (ucast (drop_bit 2 triplet AND 0xFF));
            Some (data, to + 2) }
          else if quadpos = 2 then do {
            data \<leftarrow> wr data to (ucast (drop_bit 4 triplet AND 0xFF));
            Some (data, to + 1) }
          else Some (data, to));
       data \<leftarrow> wr data to 0;
       let ostr = ostr\<lparr>os_data := data, os_len := to\<rparr>;
       seems_valid ostr;
       Some ostr } }"

section \<open>Reference encoder\<close>

definition quad :: "byte \<Rightarrow> byte \<Rightarrow> byte \<Rightarrow> byte list" where
  "quad a b c = (let w = whole_triplet a b c in
     [b64_char (drop_bit 18 w), b64_char (drop_bit 12 w), b64_char (drop_bit 6 w), b64_char w])"

text \<open>Full groups, \<open>k\<close> of them already on the current line.\<close>

fun b64_groups :: "nat \<Rightarrow> byte list \<Rightarrow> byte list" where
  "b64_groups k (a # b # c # xs) =
     quad a b c @ (if k = 18 then [13, 10] @ b64_groups 0 xs else b64_groups (Suc k) xs)"
| "b64_groups k _ = []"

text \<open>The last group is complete or padded; the last line ends with a line break.\<close>

definition b64_last :: "byte list \<Rightarrow> byte list" where
  "b64_last xs = (case xs of
     [a] \<Rightarrow> take 2 (quad a 0 0) @ [0x3D, 0x3D]
   | [a, b] \<Rightarrow> take 3 (quad a b 0) @ [0x3D]
   | [a, b, c] \<Rightarrow> quad a b c
   | _ \<Rightarrow> [])"

definition b64_encode :: "byte list \<Rightarrow> byte list" where
  "b64_encode bs = (let n = (length bs - 1) div 3 * 3 in
     b64_groups 0 (take n bs) @ b64_last (drop n bs) @ [13, 10])"

section \<open>The encoding loop\<close>

lemma length_quad [simp]: "length (quad a b c) = 4"
  by (simp add: quad_def Let_def)

lemma b64_groups_snoc:
  "length ys = 3 * t \<Longrightarrow> k < 19 \<Longrightarrow> b64_groups k (ys @ [a, b, c]) =
     b64_groups k ys @ quad a b c @ (if (k + t) mod 19 = 18 then [13, 10] else [])"
proof (induction k ys arbitrary: t rule: b64_groups.induct)
  case (1 k a' b' c' xs)
  then obtain t' where t: "t = Suc t'" by (cases t) auto
  show ?case
  proof (cases "k = 18")
    case True
    then have "(k + t) mod 19 = t' mod 19" using t by (simp add: mod_add_self1)
    then show ?thesis using 1 t True by simp
  next
    case False
    then show ?thesis using 1 t by (auto simp: less_Suc_eq)
  qed
qed (auto; presburger)+

lemma length_b64_groups:
  "length ys = 3 * t \<Longrightarrow> k < 19 \<Longrightarrow> length (b64_groups k ys) = 4 * t + 2 * ((k + t) div 19)"
proof (induction k ys arbitrary: t rule: b64_groups.induct)
  case (1 k a' b' c' xs)
  then obtain t' where t: "t = Suc t'" by (cases t) auto
  show ?case
  proof (cases "k = 18")
    case True
    then have "(k + t) div 19 = Suc (t' div 19)" using t by (simp add: div_add_self1)
    then show ?thesis using 1 t True by simp
  next
    case False
    then show ?thesis using 1 t by (auto simp: less_Suc_eq)
  qed
qed (auto; presburger)+

text \<open>The reads and writes for one group; the writes may overtake the octets just read.\<close>

definition b64_group :: "byte cells \<Rightarrow> int \<Rightarrow> int \<Rightarrow> byte cells option" where
  "b64_group data from to = do {
     a \<leftarrow> rd data from;
     b \<leftarrow> rd data (from + 1);
     c \<leftarrow> rd data (from + 2);
     let whole = whole_triplet a b c;
     data \<leftarrow> wr data (to + 3) (b64_char whole);
     data \<leftarrow> wr data (to + 2) (b64_char (drop_bit 6 whole));
     data \<leftarrow> wr data (to + 1) (b64_char (drop_bit 12 whole));
     wr data to (b64_char (drop_bit 18 whole)) }"

lemma wr4:
  assumes "n = int (length p)"
  shows "do { d \<leftarrow> wr (p @ [w0, w1, w2, w3] @ r) (n + 3) v3; d \<leftarrow> wr d (n + 2) v2; d \<leftarrow> wr d (n + 1) v1; wr d n v0 } =
    Some (p @ [Some v0, Some v1, Some v2, Some v3] @ r)"
  using wr_at [of "p @ [w0, w1, w2]" w3 r v3] wr_at [of "p @ [w0, w1]" w2 "Some v3 # r" v2]
    wr_at [of "p @ [w0]" w1 "Some v2 # Some v3 # r" v1] wr_at [of p w0 "Some v1 # Some v2 # Some v3 # r" v0]
  by (simp add: assms algebra_simps)

lemma rd_app: "n = int (length p) \<Longrightarrow> rd (p @ c # r) n = c"
  by (simp add: rd_def nth_append)

lemma b64_group_list:
  assumes "x \<noteq> []" and "fm = int (length ys)" and "to + 1 = int (length ys) + int (length x)"
  obtains x' where "length x = Suc (length x')"
    "b64_group (map Some ys @ [Some a, Some b, Some c] @ x @ r) fm to =
     Some (map Some ys @ x' @ map Some (quad a b c) @ r)"
proof -
  let ?d = "map Some ys @ [Some a, Some b, Some c] @ x @ r"
  have "4 \<le> length ([Some a, Some b, Some c] @ x)" using assms(1) by (cases x) auto
  then obtain x' y where z: "[Some a, Some b, Some c] @ x = x' @ y" "length y = 4"
      "length ([Some a, Some b, Some c] @ x) = length x' + 4" by (rule split_end)
  obtain w0 w1 w2 w3 where w: "y = [w0, w1, w2, w3]" using length_4 [OF z(2)] by blast
  have lx: "length x = Suc (length x')" using z(3) by simp
  have d: "?d = (map Some ys @ x') @ [w0, w1, w2, w3] @ r"
    using arg_cong [OF z(1), of "\<lambda>l. map Some ys @ l @ r"] by (simp add: w)
  have rds: "rd ?d fm = Some a" "rd ?d (fm + 1) = Some b" "rd ?d (fm + 2) = Some c"
    using rd_app [of fm "map Some ys" "Some a" "[Some b, Some c] @ x @ r"]
      rd_app [of "fm + 1" "map Some ys @ [Some a]" "Some b" "Some c # x @ r"]
      rd_app [of "fm + 2" "map Some ys @ [Some a, Some b]" "Some c" "x @ r"] assms(2) by simp_all
  have to: "to = int (length (map Some ys @ x'))" using assms(3) lx by simp
  have "b64_group ?d fm to = Some ((map Some ys @ x') @ map Some (quad a b c) @ r)"
    unfolding b64_group_def rds unfolding d
    using wr4 [OF to, of w0 w1 w2 w3 r] by (simp add: quad_def Let_def)
  then show ?thesis using that [of x'] lx by simp
qed

lemma b64_loop_unfold:
  "b64_loop data from to left_on_line =
     (if from \<ge> 0 then do {
        (data, to, left_on_line) \<leftarrow> (if left_on_line = 0 then do {
            data \<leftarrow> wr data (to - 2 + 5) 10;
            data \<leftarrow> wr data (to - 2 + 4) 13;
            Some (data, to - 2, 19) }
          else Some (data, to, left_on_line));
        data \<leftarrow> b64_group data from to;
        b64_loop data (from - 3) (to - 4) (left_on_line - 1) }
      else Some (data, from, to, left_on_line))"
  by (subst b64_loop.simps) (simp add: b64_group_def Let_def)

lemma b64_loop_step:
  "b64_group d fm to = Some d' \<Longrightarrow> 0 \<le> fm \<Longrightarrow> left \<noteq> 0 \<Longrightarrow>
   b64_loop d fm to left = b64_loop d' (fm - 3) (to - 4) (left - 1)"
  by (subst b64_loop_unfold) simp

lemma b64_loop_newline:
  assumes "wr d (to + 3) 10 = Some d1" and "wr d1 (to + 2) 13 = Some d2"
    and "b64_group d2 fm (to - 2) = Some d'" and "0 \<le> fm"
  shows "b64_loop d fm to 0 = b64_loop d' (fm - 3) (to - 6) 18"
proof -
  have "to - 2 + 5 = to + 3" "to - 2 + 4 = to + 2" "to - 2 - 4 = to - 6" "(19::int) - 1 = 18" by simp_all
  then show ?thesis using assms
    by (subst b64_loop_unfold) (simp only: if_True Option.bind.bind_lunit prod.case refl)
qed

lemma b64_loop_list:
  assumes "length xs = 3 * t" and "length x = t + 2 * c" and "19 * c \<le> t" and "t < 19 * c + 19"
  shows "b64_loop (map Some xs @ x @ map Some out @ r) (3 * (int t - 1)) (4 * (int t - 1) + 2 * int c) (int t - 19 * int c) =
    Some (map Some (b64_groups 0 xs @ out) @ r, -3, -4, 0)"
  using assms
proof (induction t arbitrary: xs x c out)
  case 0
  then show ?case by (simp add: b64_loop.simps)
next
  case (Suc t)
  have "3 \<le> length xs" using Suc.prems(1) by simp
  then obtain ys y where y: "xs = ys @ y" "length y = 3" "length xs = length ys + 3" by (rule split_end)
  obtain a b e where "y = [a, b, e]" using length_3 [OF y(2)] by blast
  then have xs: "xs = ys @ [a, b, e]" using y(1) by simp
  have ly: "length ys = 3 * t" using Suc.prems(1) y(3) by simp
  have fr: "3 * (int (Suc t) - 1) = int (length ys)" using ly by simp
  show ?case
  proof (cases "Suc t = 19 * c")
    case False
    then have c: "19 * c \<le> t" "t < 19 * c + 19" using Suc.prems by auto
    have ne: "x \<noteq> []" "4 * (int (Suc t) - 1) + 2 * int c + 1 = int (length ys) + int (length x)"
      using Suc.prems(2) ly by auto
    obtain x' where x': "length x = Suc (length x')"
      "b64_group (map Some ys @ [Some a, Some b, Some e] @ x @ map Some out @ r) (3 * (int (Suc t) - 1))
        (4 * (int (Suc t) - 1) + 2 * int c) = Some (map Some ys @ x' @ map Some (quad a b e) @ map Some out @ r)"
      using b64_group_list [OF ne(1) fr ne(2)] by blast
    have "length x' = t + 2 * c" using x'(1) Suc.prems(2) by simp
    note IH = Suc.IH [OF ly this c, of "quad a b e @ out"]
    obtain k where k: "t = 19 * c + k" using c(1) le_iff_add by blast
    then have m: "t mod 19 \<noteq> 18" using Suc.prems(4) by simp
    have left: "int (Suc t) - 19 * int c \<noteq> 0" using k by simp
    have "map Some xs @ x @ map Some out @ r = map Some ys @ [Some a, Some b, Some e] @ x @ map Some out @ r"
      by (simp add: xs)
    moreover have "b64_groups 0 xs = b64_groups 0 ys @ quad a b e"
      using b64_groups_snoc [OF ly, of 0 a b e] m by (simp add: xs)
    moreover have "3 * (int (Suc t) - 1) - 3 = 3 * (int t - 1)"
      "4 * (int (Suc t) - 1) + 2 * int c - 4 = 4 * (int t - 1) + 2 * int c"
      "int (Suc t) - 19 * int c - 1 = int t - 19 * int c" by simp_all
    moreover have "0 \<le> 3 * (int (Suc t) - 1)" by simp
    ultimately show ?thesis using IH
      by (simp only: b64_loop_step [OF x'(2) _ left] append_assoc map_append)
  next
    case True
    then obtain c1 where c1: "c = Suc c1" by (cases c) auto
    then have c: "19 * c1 \<le> t" "t < 19 * c1 + 19" using True by auto
    have "2 \<le> length x" using Suc.prems(2) c1 by simp
    then obtain y uv where uv: "x = y @ uv" "length uv = 2" by (rule split_end)
    obtain u v where "uv = [u, v]" using length_2 [OF uv(2)] by blast
    then have y: "x = y @ [u, v]" using uv(1) by simp
    have l: "length y = Suc t + 2 * c1" using Suc.prems(2) c1 y by simp
    have ne: "y \<noteq> []" "4 * (int (Suc t) - 1) + 2 * int c1 + 1 = int (length ys) + int (length y)"
      using l ly by auto
    let ?to = "4 * (int (Suc t) - 1) + 2 * int c"
    have to: "?to - 2 = 4 * (int (Suc t) - 1) + 2 * int c1" using c1 by simp
    have w1: "wr (map Some ys @ [Some a, Some b, Some e] @ x @ map Some out @ r) (?to + 3) 10 =
        Some (map Some ys @ [Some a, Some b, Some e] @ y @ u # Some 10 # map Some out @ r)"
      using wr_at [of "map Some ys @ [Some a, Some b, Some e] @ y @ [u]" v "map Some out @ r" 10] ly l c1
      by (simp add: y algebra_simps)
    have w2: "wr (map Some ys @ [Some a, Some b, Some e] @ y @ u # Some 10 # map Some out @ r) (?to + 2) 13 =
        Some (map Some ys @ [Some a, Some b, Some e] @ y @ map Some ([13, 10] @ out) @ r)"
      using wr_at [of "map Some ys @ [Some a, Some b, Some e] @ y" u "Some 10 # map Some out @ r" 13] ly l c1
      by (simp add: algebra_simps)
    obtain x' where x': "length y = Suc (length x')"
      "b64_group (map Some ys @ [Some a, Some b, Some e] @ y @ map Some ([13, 10] @ out) @ r) (3 * (int (Suc t) - 1))
        (?to - 2) = Some (map Some ys @ x' @ map Some (quad a b e) @ map Some ([13, 10] @ out) @ r)"
      using b64_group_list [OF ne(1) fr ne(2)] unfolding to by blast
    have "length x' = t + 2 * c1" using x'(1) l by simp
    note IH = Suc.IH [OF ly this c, of "quad a b e @ [13, 10] @ out"]
    have "t = 18 + 19 * c1" using True c1 by simp
    then have m: "t mod 19 = 18" by simp
    have "map Some xs @ x @ map Some out @ r = map Some ys @ [Some a, Some b, Some e] @ x @ map Some out @ r"
      by (simp add: xs)
    moreover have "b64_groups 0 xs = b64_groups 0 ys @ quad a b e @ [13, 10]"
      using b64_groups_snoc [OF ly, of 0 a b e] m by (simp add: xs)
    moreover have "3 * (int (Suc t) - 1) - 3 = 3 * (int t - 1)" "?to - 6 = 4 * (int t - 1) + 2 * int c1"
      "int (Suc t) - 19 * int c = 0" "18 = int t - 19 * int c1" using True c1 by simp_all
    moreover have "0 \<le> 3 * (int (Suc t) - 1)" by simp
    ultimately show ?thesis using IH
      by (simp only: b64_loop_newline [OF w1 w2 x'(2)] append_assoc map_append)
  qed
qed

lemma b64_loop_start:
  assumes "length ys = 3 * t" and "length x = Suc t + 2 * c" and "19 * c \<le> t" and "t < 19 * c + 19"
  shows "b64_loop (map Some ys @ [Some a, Some b, Some e] @ x @ map Some out @ r)
      (3 * int t) (4 * int t + 2 * int c) (int t + 1 - 19 * int c) =
    Some (map Some (b64_groups 0 ys @ quad a b e @ out) @ r, -3, -4, 0)"
proof -
  have ne: "x \<noteq> []" "3 * int t = int (length ys)" "4 * int t + 2 * int c + 1 = int (length ys) + int (length x)"
    using assms(1,2) by auto
  obtain x' where x': "length x = Suc (length x')"
    "b64_group (map Some ys @ [Some a, Some b, Some e] @ x @ map Some out @ r) (3 * int t) (4 * int t + 2 * int c) =
     Some (map Some ys @ x' @ map Some (quad a b e) @ map Some out @ r)"
    using b64_group_list [OF ne] by blast
  have left: "int t + 1 - 19 * int c \<noteq> 0" using assms(3) by linarith
  have "length x' = t + 2 * c" using x'(1) assms(2) by simp
  note l = b64_loop_list [OF assms(1) this assms(3,4), of "quad a b e @ out" r]
  have "3 * int t - 3 = 3 * (int t - 1)" "4 * int t + 2 * int c - 4 = 4 * (int t - 1) + 2 * int c"
    "int t + 1 - 19 * int c - 1 = int t - 19 * int c" "0 \<le> 3 * int t" by simp_all
  then show ?thesis using l by (simp only: b64_loop_step [OF x'(2) _ left] append_assoc map_append)
qed

section \<open>Padding\<close>

lemma push_bit_or_add: "0 \<le> y \<Longrightarrow> y < 2 ^ n \<Longrightarrow> push_bit n x OR y = push_bit n x + (y :: int)"
proof -
  assume y: "0 \<le> y" "y < 2 ^ n"
  then have t: "take_bit n y = y" by (simp add: take_bit_int_eq_self)
  have "\<not> bit (push_bit n x) k \<or> \<not> bit y k" for k
  proof (cases "k < n")
    case False
    then have "\<not> bit (take_bit n y) k" by (simp add: bit_take_bit_iff)
    then show ?thesis by (simp add: t)
  qed (simp add: bit_push_bit_iff)
  then show ?thesis using disjunctive_add [of "push_bit n x" y] by simp
qed

lemma whole_triplet_eq: "whole_triplet a b c = uint a * 65536 + uint b * 256 + uint c"
proof -
  note ub = uint_byte_bounds
  have 1: "push_bit 8 (uint b) OR uint c = uint b * 256 + uint c"
    using push_bit_or_add [of "uint c" 8 "uint b"] ub [of c] by (simp add: push_bit_eq_mult)
  have "push_bit 16 (uint a) OR (uint b * 256 + uint c) = push_bit 16 (uint a) + (uint b * 256 + uint c)"
    using ub [of b] ub [of c] by (intro push_bit_or_add) auto
  then show ?thesis unfolding whole_triplet_def or.assoc 1 by (simp add: push_bit_eq_mult)
qed

lemma b64_char_0: "k mod 64 = 0 \<Longrightarrow> 0 \<le> k \<Longrightarrow> b64_char k = 0x41"
proof -
  assume "k mod 64 = 0" "0 \<le> k"
  moreover have "base64 ! 0 = 0x41" by code_simp
  ultimately show ?thesis by (simp add: b64_char_def)
qed

lemma quad_pad:
  obtains q0 q1 q2 where "quad a b 0 = [q0, q1, q2, 0x41]" "b = 0 \<Longrightarrow> q2 = 0x41"
proof -
  let ?w = "whole_triplet a b 0"
  have p: "0 \<le> ?w" using uint_byte_bounds [of a] uint_byte_bounds [of b] by (simp add: whole_triplet_eq)
  have "?w mod 64 = 0" by (simp add: whole_triplet_eq mod_eq_0_iff_dvd dvd_add dvd_mult)
  then have 1: "b64_char ?w = 0x41" using p by (rule b64_char_0)
  have 2: "b64_char (drop_bit 6 ?w) = 0x41" if "b = 0"
  proof (rule b64_char_0)
    have "?w = 64 * (16 * 64 * uint a)" using that by (simp add: whole_triplet_eq)
    then have "drop_bit 6 ?w = 64 * (16 * uint a)" by (simp add: drop_bit_eq_div)
    then show "drop_bit 6 ?w mod 64 = 0" by simp
    show "0 \<le> drop_bit 6 ?w" using p by simp
  qed
  show ?thesis
  proof (rule that)
    show "quad a b 0 = [b64_char (drop_bit 18 ?w), b64_char (drop_bit 12 ?w), b64_char (drop_bit 6 ?w), 0x41]"
      by (simp add: quad_def Let_def 1)
  qed (rule 2)
qed

section \<open>The encoder\<close>

text \<open>The area after the line break has been written and the last group padded with zeros.\<close>

lemma b64_prepare:
  assumes "length bs = n" and "n = 3 * t + m" and "m \<in> {1, 2, 3}" and "len = 4 * int t + 2 * int c + 6"
    and "len < int (n + Suc (length r0))"
  obtains a b e x r d1 d2 d3 where
    "wr (map Some bs @ Some 0 # r0) len 0 = Some d1" "wr d1 (len - 1) 10 = Some d2" "wr d2 (len - 2) 13 = Some d3"
    "(if m = 1 then do { d \<leftarrow> wr d3 (int n) 0; wr d (int n + 1) 0 }
      else if m = 2 then wr d3 (int n + 1) 0 else Some d3) =
     Some (map Some (take (3 * t) bs) @ [Some a, Some b, Some e] @ x @ map Some [13, 10] @ Some 0 # r)"
    "length x = Suc t + 2 * c" "b64_last (drop (3 * t) bs) =
      (if m = 1 then take 2 (quad a b e) @ [0x3D, 0x3D] else if m = 2 then take 3 (quad a b e) @ [0x3D] else quad a b e)"
    "m = 1 \<longrightarrow> b = 0" "m < 3 \<longrightarrow> e = 0"
    "int (n + Suc (length r0)) = len + int (Suc (length r))"
proof -
  define k where "k = 4 * t + 2 * c + 3 - n"
  have kn: "int k = len - 3 - int n" "m < 3 \<Longrightarrow> 1 \<le> k" using assms(2-4) by (auto simp: k_def)
  have "k + 3 \<le> length r0" using assms(5) kn(1) by simp
  then obtain r1 uvw r where uvw: "r0 = r1 @ uvw @ r" "length r1 = k" "length uvw = 3"
    by (rule split_mid)
  obtain u v w where "uvw = [u, v, w]" using length_3 [OF uvw(3)] by blast
  then have r0: "r0 = r1 @ u # v # w # r" using uvw(1) by simp
  note y = uvw(2)
  let ?b = "map Some bs @ Some 0 # r1"
  have lb: "int (length ?b) = len - 2" using kn(1) y assms(1) by simp
  then have lb': "len = int (length bs) + int (length r1) + 3" by simp
  have d1: "wr (map Some bs @ Some 0 # r0) len 0 = Some (?b @ [u, v] @ Some 0 # r)"
    using wr_at [of "?b @ [u, v]" w r 0] by (simp add: r0 lb' algebra_simps)
  have d2: "wr (?b @ [u, v] @ Some 0 # r) (len - 1) 10 = Some (?b @ [u, Some 10] @ Some 0 # r)"
    using wr_at [of "?b @ [u]" v "Some 0 # r" 10] by (simp add: lb' algebra_simps)
  have d3: "wr (?b @ [u, Some 10] @ Some 0 # r) (len - 2) 13 = Some (?b @ map Some [13, 10] @ Some 0 # r)"
    using wr_at [of ?b u "Some 10 # Some 0 # r" 13] by (simp add: lb' algebra_simps)
  let ?d3 = "?b @ map Some [13, 10] @ Some 0 # r" and ?ys = "take (3 * t) bs"
  have ly: "length ?ys = 3 * t" using assms(1,2) by simp
  have bs: "bs = ?ys @ drop (3 * t) bs" "length (drop (3 * t) bs) = m" using assms(1,2) by simp_all
  have tot: "int (n + Suc (length r0)) = len + int (Suc (length r))" using kn(1) y by (simp add: r0)
  consider "m = 1" | "m = 2" | "m = 3" using assms(3) by blast
  then show ?thesis
  proof cases
    case 1
    then obtain a where z: "drop (3 * t) bs = [a]" using bs(2) by (cases "drop (3 * t) bs") auto
    obtain y1 r2 where r2: "r1 = y1 # r2" using y kn(2) 1 by (cases r1) auto
    have w1: "wr ?d3 (int n) 0 = Some ?d3"
      using wr_at [of "map Some bs" "Some 0" "r1 @ map Some [13, 10] @ Some 0 # r" 0] assms(1) by simp
    have w2: "wr ?d3 (int n + 1) 0 = Some (map Some bs @ [Some 0, Some 0] @ r2 @ map Some [13, 10] @ Some 0 # r)"
      using wr_at [of "map Some bs @ [Some 0]" y1 "r2 @ map Some [13, 10] @ Some 0 # r" 0] assms(1)
      by (simp add: r2 algebra_simps)
    have "map Some bs = map Some ?ys @ [Some a]" using arg_cong [OF bs(1), of "map Some"] z by simp
    then have "(if m = 1 then do { d \<leftarrow> wr ?d3 (int n) 0; wr d (int n + 1) 0 }
        else if m = 2 then wr ?d3 (int n + 1) 0 else Some ?d3) =
       Some (map Some ?ys @ [Some a, Some 0, Some 0] @ r2 @ map Some [13, 10] @ Some 0 # r)"
      using 1 w1 w2 by simp
    moreover have "length r2 = Suc t + 2 * c" using y r2 1 assms(2) by (simp add: k_def)
    ultimately show ?thesis using that [OF d1 d2 d3, of a 0 0 r2 r] 1 z tot by (simp add: b64_last_def)
  next
    case 2
    then obtain a b where z: "drop (3 * t) bs = [a, b]" using length_2 bs(2) by blast
    obtain y1 r2 where r2: "r1 = y1 # r2" using y kn(2) 2 by (cases r1) auto
    have w2: "wr ?d3 (int n + 1) 0 = Some (map Some bs @ [Some 0, Some 0] @ r2 @ map Some [13, 10] @ Some 0 # r)"
      using wr_at [of "map Some bs @ [Some 0]" y1 "r2 @ map Some [13, 10] @ Some 0 # r" 0] assms(1)
      by (simp add: r2 algebra_simps)
    have "map Some bs = map Some ?ys @ [Some a, Some b]" using arg_cong [OF bs(1), of "map Some"] z by simp
    then have "(if m = 1 then do { d \<leftarrow> wr ?d3 (int n) 0; wr d (int n + 1) 0 }
        else if m = 2 then wr ?d3 (int n + 1) 0 else Some ?d3) =
       Some (map Some ?ys @ [Some a, Some b, Some 0] @ (Some 0 # r2) @ map Some [13, 10] @ Some 0 # r)"
      using 2 w2 by simp
    moreover have "length (Some 0 # r2) = Suc t + 2 * c" using y r2 2 assms(2) by (simp add: k_def)
    ultimately show ?thesis using that [OF d1 d2 d3, of a b 0 "Some 0 # r2" r] 2 z tot by (simp add: b64_last_def)
  next
    case 3
    then obtain a b e where z: "drop (3 * t) bs = [a, b, e]" using length_3 bs(2) by blast
    have "map Some bs = map Some ?ys @ [Some a, Some b, Some e]" using arg_cong [OF bs(1), of "map Some"] z by simp
    then have "(if m = 1 then do { d \<leftarrow> wr ?d3 (int n) 0; wr d (int n + 1) 0 }
        else if m = 2 then wr ?d3 (int n + 1) 0 else Some ?d3) =
       Some (map Some ?ys @ [Some a, Some b, Some e] @ (Some 0 # r1) @ map Some [13, 10] @ Some 0 # r)"
      using 3 by simp
    moreover have "length (Some 0 # r1) = Suc t + 2 * c" using y 3 assms(2) by (simp add: k_def)
    ultimately show ?thesis using that [OF d1 d2 d3, of a b e "Some 0 # r1" r] 3 z tot by (simp add: b64_last_def)
  qed
qed

lemma b64_pad:
  assumes "len = int (length g) + 6" and "m \<in> {1, 2, 3::nat}" and "m = 1 \<longrightarrow> b = 0" and "m < 3 \<longrightarrow> e = 0"
  shows "(if m = 1 then do {
       p \<leftarrow> rd (map Some (g @ quad a b e @ [13, 10]) @ r) (len - 3); gw_assert (p = 0x41);
       q \<leftarrow> rd (map Some (g @ quad a b e @ [13, 10]) @ r) (len - 4); gw_assert (q = 0x41);
       d \<leftarrow> wr (map Some (g @ quad a b e @ [13, 10]) @ r) (len - 3) 0x3D;
       wr d (len - 4) 0x3D }
     else if m = 2 then do {
       p \<leftarrow> rd (map Some (g @ quad a b e @ [13, 10]) @ r) (len - 3); gw_assert (p = 0x41);
       wr (map Some (g @ quad a b e @ [13, 10]) @ r) (len - 3) 0x3D }
     else Some (map Some (g @ quad a b e @ [13, 10]) @ r)) =
    Some (map Some (g @ (if m = 1 then take 2 (quad a b e) @ [0x3D, 0x3D]
      else if m = 2 then take 3 (quad a b e) @ [0x3D] else quad a b e) @ [13, 10]) @ r)"
proof (cases "m = 3")
  case True
  then show ?thesis by simp
next
  case False
  then have e: "e = 0" using assms(2,4) by auto
  obtain q0 q1 q2 where q: "quad a b 0 = [q0, q1, q2, 0x41]" "b = 0 \<Longrightarrow> q2 = 0x41"
    using quad_pad [of a b] by blast
  have len: "len - 3 = int (length (map Some g @ [Some q0, Some q1, Some q2]))"
    "len - 4 = int (length (map Some g @ [Some q0, Some q1]))" using assms(1) by simp_all
  have r1: "rd (map Some g @ Some q0 # Some q1 # Some q2 # Some 0x41 # rest) (len - 3) = Some 0x41" for rest
    using rd_app [OF len(1), of "Some 0x41" rest] by simp
  have r2: "rd (map Some g @ Some q0 # Some q1 # Some q2 # Some 0x41 # rest) (len - 4) = Some q2" for rest
    using rd_app [OF len(2), of "Some q2" "Some 0x41 # rest"] by simp
  have w1: "wr (map Some g @ Some q0 # Some q1 # Some q2 # Some 0x41 # rest) (len - 3) 0x3D =
      Some (map Some g @ Some q0 # Some q1 # Some q2 # Some 0x3D # rest)" for rest
    unfolding len(1) using wr_at [of "map Some g @ [Some q0, Some q1, Some q2]" "Some 0x41" rest "0x3D"] by simp
  have w2: "wr (map Some g @ Some q0 # Some q1 # Some q2 # Some 0x3D # rest) (len - 4) 0x3D =
      Some (map Some g @ Some q0 # Some q1 # Some 0x3D # Some 0x3D # rest)" for rest
    unfolding len(2) using wr_at [of "map Some g @ [Some q0, Some q1]" "Some q2" "Some 0x3D # rest" "0x3D"] by simp
  consider "m = 1" | "m = 2" using False assms(2) by blast
  then show ?thesis
  proof cases
    case 1
    then have b: "b = 0" "q2 = 0x41" using assms(3) q(2) by auto
    then show ?thesis using 1 r1 r2 w1 w2 by (simp add: e q(1) [unfolded b])
  next
    case 2
    then show ?thesis using r1 w1 by (simp add: e q(1))
  qed
qed

lemma b64_numbers:
  assumes "n \<noteq> 0" and "t = (n - 1) div 3" and "c = t div 19" and "m = n - 3 * t"
  shows "n = 3 * t + m" and "m \<in> {1, 2, 3}" and "cdiv (int n + 2) 3 = int t + 1"
    and "cdiv (int t + 1 + 18) 19 = int c + 1" and "(crem (int n) 3 = 1) = (m = 1)" and "(crem (int n) 3 = 2) = (m = 2)"
    and "19 * c \<le> t" and "t < 19 * c + 19"
proof -
  obtain k where k: "n - 1 = 3 * t + k" "k < 3"
    using assms(2) by (metis mod_less_divisor mult_div_mod_eq zero_less_numeral)
  then show n: "n = 3 * t + m" and m: "m \<in> {1, 2, 3}" using assms(1,4) by auto
  have "cdiv (int n + 2) 3 = (int n + 2) div 3" by simp
  also have "\<dots> = int t + 1" using m n by auto
  finally show "cdiv (int n + 2) 3 = int t + 1" .
  have "cdiv (int t + 1 + 18) 19 = (int t + 19) div 19" by simp
  also have "\<dots> = int t div 19 + 1" by simp
  finally show "cdiv (int t + 1 + 18) 19 = int c + 1" by (simp add: assms(3) zdiv_int)
  have "crem (int n) 3 = int n mod 3" by simp
  then show "(crem (int n) 3 = 1) = (m = 1)" "(crem (int n) 3 = 2) = (m = 2)" using m n by auto
  show "19 * c \<le> t" "t < 19 * c + 19" using assms(3) by auto
qed

lemma octstr_binary_to_base64_rep:
  assumes "mrep os bs"
  shows "runs (octstr_binary_to_base64 os) (\<lambda>r. mrep r (if bs = [] then [13, 10] else b64_encode bs))"
proof (cases "bs = []")
  case True
  have "runs (octstr_insert os (Some (octstr_imm [13, 10])) (int 0)) (\<lambda>r. mrep r (take 0 bs @ [13, 10] @ drop 0 bs))"
    by (rule octstr_insert_rep [OF assms octstr_imm_rep]) simp_all
  then show ?thesis using assms True
    by (simp add: octstr_binary_to_base64_def seems_valid_rep [OF mrep_orep] mrep_mutable mrep_len)
next
  case ne: False
  define n t c m where "n = length bs" and "t = (n - 1) div 3" and "c = t div 19" and "m = n - 3 * t"
  have n0: "n \<noteq> 0" using ne by (simp add: n_def)
  note num = b64_numbers [OF n0 t_def c_def m_def]
  define len where "len = 4 * int t + 2 * int c + 6"
  have lens: "(int t + 1) * 4 + (int c + 1) * 2 = len" "4 * int t + 2 * int c + 5 = len - 1"
    "4 * int t + 2 * int c + 4 = len - 2" by (simp_all add: len_def)
  have eqs: "(int t + 1 - 1) * 3 = 3 * int t" "(int t + 1 - 1) * 4 + (int c + 1 - 1) * 2 = 4 * int t + 2 * int c"
    "int t + 1 - (int c + 1 - 1) * 19 = int t + 1 - 19 * int c" by simp_all
  have len0: "0 \<le> len" by (simp add: len_def)
  obtain o1 rest where g: "octstr_grow os len = Some o1" "filled o1 bs rest" "len < int (length bs + length rest)"
      "bs \<noteq> [] \<longrightarrow> (\<exists>r. rest = Some 0 # r)"
    by (rule octstr_grow_rep [OF assms len0])
  then obtain r0 where r0: "rest = Some 0 # r0" using ne by blast
  have o1: "os_len o1 = int n" "os_data o1 = map Some bs @ Some 0 # r0"
    using g(2) by (simp_all add: filled_def n_def r0)
  have "len < int (n + Suc (length r0))" using g(3) by (simp add: n_def r0)
  then obtain a b e x r d1 d2 d3 where
    d: "wr (map Some bs @ Some 0 # r0) len 0 = Some d1" "wr d1 (len - 1) 10 = Some d2" "wr d2 (len - 2) 13 = Some d3"
    "(if m = 1 then do { d \<leftarrow> wr d3 (int n) 0; wr d (int n + 1) 0 }
      else if m = 2 then wr d3 (int n + 1) 0 else Some d3) =
     Some (map Some (take (3 * t) bs) @ [Some a, Some b, Some e] @ x @ map Some [13, 10] @ Some 0 # r)"
    and x: "length x = Suc t + 2 * c" and last: "b64_last (drop (3 * t) bs) =
      (if m = 1 then take 2 (quad a b e) @ [0x3D, 0x3D] else if m = 2 then take 3 (quad a b e) @ [0x3D] else quad a b e)"
    and abe: "m = 1 \<longrightarrow> b = 0" "m < 3 \<longrightarrow> e = 0" and tot: "int (n + Suc (length r0)) = len + int (Suc (length r))"
    by (rule b64_prepare [OF n_def [symmetric] num(1,2) len_def])
  let ?ys = "take (3 * t) bs"
  have ly: "length ?ys = 3 * t" using num(1) by (simp add: n_def)
  note loop = b64_loop_start [OF ly x num(7,8), of a b e "[13, 10]" "Some 0 # r"]
  have lg: "len = int (length (b64_groups 0 ?ys)) + 6"
    using length_b64_groups [OF ly, of 0] by (simp add: len_def c_def)
  note pad = b64_pad [OF lg num(2) abe, of a "Some 0 # r", folded last]
  have enc: "b64_encode bs = b64_groups 0 ?ys @ b64_last (drop (3 * t) bs) @ [13, 10]"
    by (simp add: b64_encode_def t_def n_def mult.commute Let_def)
  have "length (b64_last (drop (3 * t) bs)) = 4" using num(2) by (auto simp: last)
  then have le: "int (length (b64_encode bs)) = len" using lg by (simp add: enc)
  let ?r = "o1\<lparr>os_data := map Some (b64_encode bs) @ Some 0 # r, os_len := len\<rparr>"
  have r: "mrep ?r (b64_encode bs)"
    using g(2) le tot by (simp add: filled_def mrep_def orep_def r0 n_def)
  have ln: "os_len os = int n" using mrep_len [OF assms] by (simp add: n_def)
  have nz: "(int n = 0) = False" "(\<not> os_immutable os) = True" using n0 mrep_mutable [OF assms] by simp_all
  have "octstr_binary_to_base64 os = Some ?r"
    unfolding octstr_binary_to_base64_def seems_valid_rep [OF mrep_orep [OF assms]] ln nz num(3) num(4) Let_def
      Option.bind.bind_lunit gw_assert_True if_False lens(1) g(1) o1 d(1) eqs lens(2) d(2) lens(3) d(3) num(5,6) d(4)
      loop prod.case
    by (simp only: Option.bind.bind_lunit prod.case gw_assert_True simp_thms pad seems_valid_rep [OF mrep_orep [OF r]] flip: enc)
  then show ?thesis using ne r by simp
qed

section \<open>The decoder\<close>

definition b64_shift :: "64 word \<Rightarrow> int \<Rightarrow> 64 word" where
  "b64_shift triplet sixbits = push_bit 6 triplet OR word_of_int sixbits"

definition b64_octet :: "nat \<Rightarrow> 64 word \<Rightarrow> byte" where
  "b64_octet k triplet = ucast (drop_bit k triplet AND 0xFF)"

fun b64_scan :: "byte list \<Rightarrow> 64 word \<Rightarrow> nat \<Rightarrow> byte list \<times> 64 word \<times> nat" where
  "b64_scan [] tr q = ([], tr, q)"
| "b64_scan (c # cs) tr q = (case b64_classify (uint c) of
     End \<Rightarrow> ([], tr, q)
   | Skip \<Rightarrow> b64_scan cs tr q
   | Sixbits s \<Rightarrow>
       (let tr = b64_shift tr s in
        if Suc q = 4 then
          (case b64_scan cs tr 0 of (out, tr', q') \<Rightarrow>
             ([b64_octet 16 tr, b64_octet 8 tr, b64_octet 0 tr] @ out, tr', q'))
        else b64_scan cs tr (Suc q)))"

fun b64_finish :: "byte list \<times> 64 word \<times> nat \<Rightarrow> byte list" where
  "b64_finish (out, tr, q) =
     out @ (if q = 3 then [b64_octet 10 tr, b64_octet 2 tr] else if q = 2 then [b64_octet 4 tr] else [])"

definition b64_decode :: "byte list \<Rightarrow> byte list" where
  "b64_decode bs = b64_finish (b64_scan bs 0 0)"

lemma b64_scan_lt: "q < 4 \<Longrightarrow> b64_scan cs tr q = (out, tr', q') \<Longrightarrow> q' < 4"
  by (induction cs tr q arbitrary: out rule: b64_scan.induct)
    (auto simp: Let_def split: b64_class.splits if_splits prod.splits)

lemma unb64_loop_quad:
  assumes "pos < len" and "rd data pos = Some c" and "b64_classify (uint c) = Sixbits s" and "t = b64_shift tr s"
    and "wr data to (b64_octet 16 t) = Some d1" and "wr d1 (to + 1) (b64_octet 8 t) = Some d2"
    and "wr d2 (to + 2) (b64_octet 0 t) = Some d3"
  shows "unb64_loop data pos len to tr 3 = unb64_loop d3 (pos + 1) len (to + 3) t 0"
  using assms by (subst unb64_loop.simps) (simp add: b64_shift_def b64_octet_def Let_def)

lemma unb64_loop_list:
  assumes "q \<le> length x" and "q < 4" and "b64_scan cs tr q = (o', tr', q')"
  shows "\<exists>j. unb64_loop (map Some out @ x @ map Some cs @ r) (int (length out) + int (length x))
      (int (length out) + int (length x) + int (length cs)) (int (length out)) tr (int q) =
    Some (map Some (out @ o') @ j, int (length out + length o'), tr', int q') \<and>
    length x + length cs + length r = length o' + length j \<and> q' + length r \<le> length j"
  using assms
proof (induction cs arbitrary: out x tr q o')
  case Nil
  then show ?case by (auto simp: unb64_loop.simps intro!: exI [of _ "x @ r"])
next
  case (Cons c cs)
  let ?pos = "int (length out) + int (length x)"
  have rc: "rd (map Some out @ x @ map Some (c # cs) @ r) ?pos = Some c"
    using rd_app [of ?pos "map Some out @ x" "Some c" "map Some cs @ r"] by simp
  have next': "map Some out @ x @ map Some (c # cs) @ r = map Some out @ (x @ [Some c]) @ map Some cs @ r" by simp
  show ?case
  proof (cases "b64_classify (uint c)")
    case End
    then show ?thesis using Cons.prems rc
      by (subst unb64_loop.simps) (auto intro!: exI [of _ "x @ map Some (c # cs) @ r"])
  next
    case Skip
    have "b64_scan cs tr q = (o', tr', q')" using Cons.prems(3) Skip by simp
    from Cons.IH [OF _ Cons.prems(2) this, of "x @ [Some c]" out] Cons.prems(1)
    obtain j where "unb64_loop (map Some out @ x @ map Some (c # cs) @ r) (?pos + 1)
        (?pos + int (length (c # cs))) (int (length out)) tr (int q) =
      Some (map Some (out @ o') @ j, int (length out + length o'), tr', int q')"
      "length x + length (c # cs) + length r = length o' + length j" "q' + length r \<le> length j"
      by (auto simp: algebra_simps)
    then show ?thesis using Skip rc by (intro exI [of _ j], subst unb64_loop.simps) simp
  next
    case (Sixbits s)
    show ?thesis
    proof (cases "Suc q = 4")
      case False
      have "b64_scan cs (b64_shift tr s) (Suc q) = (o', tr', q')" using Cons.prems(3) Sixbits False by (simp add: Let_def)
      from Cons.IH [OF _ _ this, of "x @ [Some c]" out] Cons.prems(1,2) False
      obtain j where "unb64_loop (map Some out @ x @ map Some (c # cs) @ r) (?pos + 1)
          (?pos + int (length (c # cs))) (int (length out)) (b64_shift tr s) (int q + 1) =
        Some (map Some (out @ o') @ j, int (length out + length o'), tr', int q')"
        "length x + length (c # cs) + length r = length o' + length j" "q' + length r \<le> length j"
        by (auto simp: algebra_simps)
      then show ?thesis using Sixbits rc False
        by (intro exI [of _ j], subst unb64_loop.simps) (simp add: b64_shift_def Let_def)
    next
      case True
      define t where "t = b64_shift tr s"
      obtain o2 where o2: "b64_scan cs t 0 = (o2, tr', q')" "o' = [b64_octet 16 t, b64_octet 8 t, b64_octet 0 t] @ o2"
        using Cons.prems(3) Sixbits True by (auto simp: Let_def t_def split: prod.splits)
      have "3 \<le> length x" using Cons.prems(1) True by simp
      then obtain x1 x2 x3 y where x: "x = x1 # x2 # x3 # y"
        by (metis Suc_le_length_iff numeral_3_eq_3)
      let ?out = "out @ [b64_octet 16 t, b64_octet 8 t, b64_octet 0 t]" and ?n = "int (length out)"
      have w1: "wr (map Some out @ x @ map Some (c # cs) @ r) ?n (b64_octet 16 t) =
          Some (map Some out @ Some (b64_octet 16 t) # x2 # x3 # y @ map Some (c # cs) @ r)"
        using wr_at [of "map Some out" x1 "x2 # x3 # y @ map Some (c # cs) @ r"] by (simp add: x)
      have w2: "wr (map Some out @ Some (b64_octet 16 t) # x2 # x3 # y @ map Some (c # cs) @ r) (?n + 1) (b64_octet 8 t) =
          Some (map Some out @ Some (b64_octet 16 t) # Some (b64_octet 8 t) # x3 # y @ map Some (c # cs) @ r)"
        using wr_at [of "map Some out @ [Some (b64_octet 16 t)]" x2 "x3 # y @ map Some (c # cs) @ r"]
        by (simp add: algebra_simps)
      have w3: "wr (map Some out @ Some (b64_octet 16 t) # Some (b64_octet 8 t) # x3 # y @ map Some (c # cs) @ r) (?n + 2)
          (b64_octet 0 t) = Some (map Some ?out @ (y @ [Some c]) @ map Some cs @ r)"
        using wr_at [of "map Some out @ [Some (b64_octet 16 t), Some (b64_octet 8 t)]" x3 "y @ map Some (c # cs) @ r"]
        by (simp add: algebra_simps)
      from Cons.IH [OF _ _ o2(1), of "y @ [Some c]" ?out]
      obtain j where j: "unb64_loop (map Some ?out @ (y @ [Some c]) @ map Some cs @ r) (?pos + 1)
          (?pos + int (length (c # cs))) (?n + 3) t 0 =
        Some (map Some (?out @ o2) @ j, int (length ?out + length o2), tr', int q')"
        "length (y @ [Some c]) + length cs + length r = length o2 + length j" "q' + length r \<le> length j"
        by (auto simp: algebra_simps x)
      have "?pos < ?pos + int (length (c # cs))" by simp
      note step = unb64_loop_quad [OF this rc Sixbits t_def w1 w2 w3]
      have "int q = 3" using True by simp
      then show ?thesis using step j o2(2) x by (intro exI [of _ j]) simp
    qed
  qed
qed

lemma octstr_base64_to_binary_rep:
  assumes "mrep os bs"
  shows "runs (octstr_base64_to_binary os) (\<lambda>r. mrep r (b64_decode bs))"
proof (cases "bs = []")
  case True
  then show ?thesis using assms
    by (simp add: octstr_base64_to_binary_def seems_valid_rep [OF mrep_orep] mrep_mutable mrep_len b64_decode_def)
next
  case False
  obtain rest where d: "os_data os = map Some bs @ Some 0 # rest"
    using orep_data [OF mrep_orep [OF assms] False] by blast
  obtain out tr q where sc: "b64_scan bs 0 0 = (out, tr, q)" by (cases "b64_scan bs 0 0") auto
  obtain j where j: "unb64_loop (os_data os) 0 (int (length bs)) 0 0 0 = Some (map Some out @ j, int (length out), tr, int q)"
    "length bs + Suc (length rest) = length out + length j" "q + Suc (length rest) \<le> length j"
    using unb64_loop_list [OF _ _ sc, of "[]" "[]" "Some 0 # rest"] by (auto simp: d)
  define extra where "extra = (if q = 3 then [b64_octet 10 tr, b64_octet 2 tr] else if q = 2 then [b64_octet 4 tr] else [])"
  have dec: "b64_decode bs = out @ extra" by (simp add: b64_decode_def sc extra_def)
  have "length extra \<le> q" by (auto simp: extra_def)
  then obtain x y ys where x: "j = x @ y # ys" "length x = length extra"
    using j(3) by (metis add_Suc_right le_add1 le_trans less_Suc_eq_le not_less_eq_eq id_take_nth_drop length_take min.absorb2
        less_le_trans order_less_imp_le)
  have fin: "(if int q = 3 then do {
      data \<leftarrow> wr (map Some out @ j) (int (length out)) (b64_octet 10 tr);
      data \<leftarrow> wr data (int (length out) + 1) (b64_octet 2 tr);
      Some (data, int (length out) + 2) }
    else if int q = 2 then do {
      data \<leftarrow> wr (map Some out @ j) (int (length out)) (b64_octet 4 tr);
      Some (data, int (length out) + 1) }
    else Some (map Some out @ j, int (length out))) =
    Some (map Some (out @ extra) @ y # ys, int (length (out @ extra)))"
  proof -
    consider "q = 3" | "q = 2" | "q \<noteq> 3" "q \<noteq> 2" by blast
    then show ?thesis
    proof cases
      case 1
      then have "length x = 2" using x(2) by (simp add: extra_def)
      then obtain u v where u: "x = [u, v]" using length_2 by blast
      show ?thesis using 1 wr_at [of "map Some out" u "v # y # ys" "b64_octet 10 tr"]
          wr_at [of "map Some out @ [Some (b64_octet 10 tr)]" v "y # ys" "b64_octet 2 tr"]
        by (simp add: x(1) u extra_def algebra_simps)
    next
      case 2
      then obtain u where u: "x = [u]" using x(2) by (cases x) (auto simp: extra_def)
      show ?thesis using 2 wr_at [of "map Some out" u "y # ys" "b64_octet 4 tr"]
        by (simp add: x(1) u extra_def)
    next
      case 3
      then show ?thesis using x by (simp add: extra_def)
    qed
  qed
  have w: "wr (map Some (out @ extra) @ y # ys) (int (length (out @ extra))) 0 = Some (map Some (out @ extra) @ Some 0 # ys)"
    using wr_at [of "map Some (out @ extra)" y ys 0] by simp
  let ?r = "os\<lparr>os_data := map Some (out @ extra) @ Some 0 # ys, os_len := int (length (out @ extra))\<rparr>"
  have r: "mrep ?r (out @ extra)"
    using assms j(2) x d by (auto simp: mrep_def orep_def)
  have ln: "os_len os = int (length bs)" by (rule mrep_len [OF assms])
  have nz: "(int (length bs) = 0) = False" "(\<not> os_immutable os) = True" using False mrep_mutable [OF assms] by simp_all
  have "octstr_base64_to_binary os = Some ?r"
    unfolding octstr_base64_to_binary_def seems_valid_rep [OF mrep_orep [OF assms]] ln nz Let_def
      b64_octet_def [symmetric] j(1) Option.bind.bind_lunit gw_assert_True if_False prod.case fin
    by (simp only: Option.bind.bind_lunit prod.case w seems_valid_rep [OF mrep_orep [OF r]])
  then show ?thesis using r by (simp add: dec)
qed

section \<open>Round trip\<close>

lemma classify_b64_char: "0 \<le> k \<Longrightarrow> b64_classify (uint (b64_char k)) = Sixbits (k mod 64)"
proof -
  assume k: "0 \<le> k"
  have "list_all (\<lambda>k. b64_classify (uint (base64 ! k)) = Sixbits (int k)) [0..<64]" by code_simp
  moreover have "nat (k mod 64) \<in> set [0..<64]" by auto
  ultimately have "b64_classify (uint (base64 ! nat (k mod 64))) = Sixbits (int (nat (k mod 64)))"
    by (simp only: list_all_iff)
  then show ?thesis using k by (simp add: b64_char_def)
qed

text \<open>The low \<open>n\<close> bits of the shift register hold the number \<open>v\<close>.\<close>

definition holds :: "64 word \<Rightarrow> nat \<Rightarrow> int \<Rightarrow> bool" where
  "holds t n v \<longleftrightarrow> take_bit n t = word_of_int v \<and> 0 \<le> v \<and> v < 2 ^ n"

lemma holds_0: "holds t 0 0"
  by (simp add: holds_def)

lemma holds_shift:
  assumes "holds t n v" and "0 \<le> s" and "s < 64"
  shows "holds (b64_shift t s) (n + 6) (v * 64 + s)"
proof -
  have ts: "take_bit (n + 6) s = s" using assms(2,3)
    by (intro take_bit_int_eq_self) (auto simp: power_add intro: order.strict_trans2 [of s 64])
  have "take_bit (n + 6) (b64_shift t s) = push_bit 6 (take_bit n t) OR take_bit (n + 6) (word_of_int s)"
    by (simp add: b64_shift_def take_bit_push_bit)
  also have "take_bit (n + 6) (word_of_int s :: 64 word) = word_of_int s"
    by (metis of_int_take_bit ts)
  also have "push_bit 6 (take_bit n t) OR word_of_int s = word_of_int (push_bit 6 v OR s)"
    using assms(1) by (simp add: holds_def push_bit_of_int of_int_or_eq)
  also have "push_bit 6 v OR s = v * 64 + s"
    using push_bit_or_add [of s 6 v] assms(2,3) by (simp add: push_bit_eq_mult)
  finally have "take_bit (n + 6) (b64_shift t s) = word_of_int (v * 64 + s)" .
  moreover have "v * 64 + s < 2 ^ (n + 6)"
  proof -
    have "v + 1 \<le> 2 ^ n" using assms(1) by (simp add: holds_def)
    then have "(v + 1) * 64 \<le> 2 ^ n * 64" by (rule mult_right_mono) simp
    then show ?thesis using assms(3) by (simp add: power_add)
  qed
  ultimately show ?thesis using assms(1,2) by (simp add: holds_def)
qed

lemma holds_octet:
  assumes "holds t n v" and "k + 8 \<le> n" and "n \<le> 24"
  shows "b64_octet k t = word_of_int (drop_bit k v)"
proof (rule bit_word_eqI)
  fix m assume m: "m < LENGTH(8)"
  have "bit (take_bit n t) (k + m) \<longleftrightarrow> bit (word_of_int v :: 64 word) (k + m)"
    using assms(1) by (simp add: holds_def)
  then have "bit t (k + m) \<longleftrightarrow> bit v (k + m)"
    using m assms(2,3) by (simp add: bit_take_bit_iff bit_word_of_int_iff)
  moreover have "drop_bit k t AND 0xFF = take_bit 8 (drop_bit k t)"
    by (simp add: take_bit_eq_mask mask_numeral)
  ultimately show "bit (b64_octet k t) m \<longleftrightarrow> bit (word_of_int (drop_bit k v) :: byte) m"
    using m assms(2,3) by (simp add: b64_octet_def bit_simps)
qed

text \<open>Reading the characters of a group shifts in its digits from the most significant one.\<close>

lemma b64_scan_char:
  assumes "0 \<le> k" and "q \<noteq> 3"
  shows "b64_scan (b64_char k # cs) tr q = b64_scan cs (b64_shift tr (k mod 64)) (Suc q)"
  using assms by (simp add: classify_b64_char Let_def)

lemma b64_scan_char4:
  assumes "0 \<le> k" and "t = b64_shift tr (k mod 64)"
  shows "b64_finish (b64_scan (b64_char k # cs) tr 3) =
    [b64_octet 16 t, b64_octet 8 t, b64_octet 0 t] @ b64_finish (b64_scan cs t 0)"
  using assms by (simp add: classify_b64_char Let_def split: prod.split)

lemma holds_digits:
  fixes tr :: "64 word" and w :: int
  assumes "0 \<le> w" and "w < 2 ^ 24"
  defines "t1 \<equiv> b64_shift tr (drop_bit 18 w mod 64)"
  defines "t2 \<equiv> b64_shift t1 (drop_bit 12 w mod 64)"
  defines "t3 \<equiv> b64_shift t2 (drop_bit 6 w mod 64)"
  defines "t4 \<equiv> b64_shift t3 (w mod 64)"
  shows "holds t2 12 (drop_bit 12 w)" and "holds t3 18 (drop_bit 6 w)" and "holds t4 24 w"
proof -
  have d: "drop_bit 18 w = w div 262144" "drop_bit 12 w = w div 4096" "drop_bit 6 w = w div 64"
    by (simp_all add: drop_bit_eq_div)
  have "holds t1 (0 + 6) (0 * 64 + drop_bit 18 w mod 64)"
    unfolding t1_def by (rule holds_shift [OF holds_0]) simp_all
  moreover have "w div 262144 mod 64 = w div 262144" using assms(1,2) by (intro mod_pos_pos_trivial) auto
  ultimately have 1: "holds t1 6 (w div 262144)" by (simp add: d)
  have "holds t2 (6 + 6) (w div 262144 * 64 + drop_bit 12 w mod 64)"
    unfolding t2_def by (rule holds_shift [OF 1]) simp_all
  moreover have "w div 262144 * 64 + w div 4096 mod 64 = w div 4096"
    using div_mult_mod_eq [of "w div 4096" 64] by (simp add: zdiv_zmult2_eq [symmetric])
  ultimately show 2: "holds t2 12 (drop_bit 12 w)" by (simp add: d)
  have "holds t3 (12 + 6) (drop_bit 12 w * 64 + drop_bit 6 w mod 64)"
    unfolding t3_def by (rule holds_shift [OF 2]) simp_all
  moreover have "w div 4096 * 64 + w div 64 mod 64 = w div 64"
    using div_mult_mod_eq [of "w div 64" 64] by (simp add: zdiv_zmult2_eq [symmetric])
  ultimately show 3: "holds t3 18 (drop_bit 6 w)" by (simp add: d)
  have "holds t4 (18 + 6) (drop_bit 6 w * 64 + w mod 64)"
    unfolding t4_def by (rule holds_shift [OF 3]) simp_all
  then show "holds t4 24 w" by (simp add: d)
qed

lemma whole_triplet_octets:
  "word_of_int (drop_bit 16 (whole_triplet a b c)) = a" "word_of_int (drop_bit 8 (whole_triplet a b c)) = b"
  "word_of_int (whole_triplet a b c) = c" "0 \<le> whole_triplet a b c" "whole_triplet a b c < 2 ^ 24"
proof -
  note ub = uint_byte_bounds [of a] uint_byte_bounds [of b] uint_byte_bounds [of c]
  have m: "word_of_int (x * 256 + y) = (word_of_int y :: byte)" for x y
  proof -
    have z: "(256 :: byte) = 0" by code_simp
    have "(word_of_int (x * 256 + y) :: byte) = word_of_int x * 256 + word_of_int y" by simp
    then show ?thesis by (simp only: z mult_zero_right add_0)
  qed
  have "whole_triplet a b c div 65536 = uint a"
    by (rule int_div_pos_eq [where r = "uint b * 256 + uint c"]) (use ub in \<open>simp_all add: whole_triplet_eq\<close>)
  then show "word_of_int (drop_bit 16 (whole_triplet a b c)) = a" by (simp add: drop_bit_eq_div)
  have "whole_triplet a b c div 256 = uint a * 256 + uint b"
    by (rule int_div_pos_eq [where r = "uint c"]) (use ub in \<open>simp_all add: whole_triplet_eq\<close>)
  then have "word_of_int (drop_bit 8 (whole_triplet a b c)) = (word_of_int (uint a * 256 + uint b) :: byte)"
    by (simp add: drop_bit_eq_div)
  then show "word_of_int (drop_bit 8 (whole_triplet a b c)) = b" by (simp only: m) simp
  have "whole_triplet a b c = (uint a * 256 + uint b) * 256 + uint c" by (simp add: whole_triplet_eq)
  then show "word_of_int (whole_triplet a b c) = c" by (simp only: m) simp
  show "0 \<le> whole_triplet a b c" "whole_triplet a b c < 2 ^ 24" using ub by (simp_all add: whole_triplet_eq)
qed

lemma b64_scan_quad:
  assumes "\<And>tr. b64_finish (b64_scan cs tr 0) = ys"
  shows "b64_finish (b64_scan (quad a b c @ cs) tr 0) = a # b # c # ys"
proof -
  let ?w = "whole_triplet a b c"
  define t1 t2 t3 t4 where "t1 = b64_shift tr (drop_bit 18 ?w mod 64)" and "t2 = b64_shift t1 (drop_bit 12 ?w mod 64)"
    and "t3 = b64_shift t2 (drop_bit 6 ?w mod 64)" and t4: "t4 = b64_shift t3 (?w mod 64)"
  note w = whole_triplet_octets(4,5) [of a b c]
  have h: "holds t4 24 ?w" unfolding t4 t3_def t2_def t1_def by (rule holds_digits(3) [OF w])
  have "b64_octet 16 t4 = a" "b64_octet 8 t4 = b" "b64_octet 0 t4 = c"
    using holds_octet [OF h, of 16] holds_octet [OF h, of 8] holds_octet [OF h, of 0]
    by (simp_all add: whole_triplet_octets)
  moreover have "b64_scan (quad a b c @ cs) tr 0 = b64_scan (b64_char ?w # cs) t3 3"
    using w(1) by (simp add: quad_def Let_def b64_scan_char t1_def t2_def t3_def numeral_3_eq_3 del: b64_scan.simps)
  ultimately show ?thesis using b64_scan_char4 [OF w(1) t4] assms by simp
qed

lemma b64_scan_newline: "b64_scan (13 # 10 # cs) tr q = b64_scan cs tr q"
proof -
  have "b64_classify (uint (13 :: byte)) = Skip" "b64_classify (uint (10 :: byte)) = Skip" by code_simp+
  then show ?thesis by simp
qed

lemma b64_scan_groups:
  assumes "\<And>tr. b64_finish (b64_scan cs tr 0) = ys" and "3 dvd length xs"
  shows "b64_finish (b64_scan (b64_groups k xs @ cs) tr 0) = xs @ ys"
  using assms(2)
proof (induction k xs arbitrary: tr rule: b64_groups.induct)
  case (1 k a b c xs)
  then have d: "3 dvd length xs" by (simp add: dvd_add_right_iff flip: add_2_eq_Suc' numeral_plus_one)
      (simp add: dvd_def, presburger)?
  show ?case
  proof (cases "k = 18")
    case True
    have "b64_finish (b64_scan ([13, 10] @ b64_groups 0 xs @ cs) tr 0) = xs @ ys" for tr
      using "1.IH"(1) [OF True d] by (simp add: b64_scan_newline del: b64_scan.simps)
    from b64_scan_quad [OF this] True show ?thesis by simp
  next
    case False
    from b64_scan_quad [OF "1.IH"(2) [OF False d]] False show ?thesis by simp
  qed
qed (use assms(1) in \<open>auto simp: dvd_def\<close>, presburger+)?

lemma b64_scan_last:
  assumes "zs \<noteq> []" and "length zs \<le> 3"
  shows "b64_finish (b64_scan (b64_last zs @ [13, 10]) tr 0) = zs"
proof -
  have stop: "b64_scan (0x3D # cs) tr q = ([], tr, q)" for cs tr q
  proof -
    have "b64_classify (uint (0x3D :: byte)) = End" by code_simp
    then show ?thesis by simp
  qed
  have nl: "b64_finish (b64_scan [13, 10] tr 0) = []" for tr using b64_scan_newline [of "[]" tr 0] by simp
  consider a where "zs = [a]" | a b where "zs = [a, b]" | a b c where "zs = [a, b, c]"
    using assms by (cases zs rule: remdups_adj.cases; cases "tl (tl zs)") auto
  then show ?thesis
  proof cases
    case (1 a)
    let ?w = "whole_triplet a 0 0"
    define t1 t2 where "t1 = b64_shift tr (drop_bit 18 ?w mod 64)" and "t2 = b64_shift t1 (drop_bit 12 ?w mod 64)"
    note w = whole_triplet_octets(4,5) [of a 0 0]
    have h: "holds t2 12 (drop_bit 12 ?w)" unfolding t2_def t1_def by (rule holds_digits(1) [OF w])
    have "b64_octet 4 t2 = a"
      using holds_octet [OF h, of 4] whole_triplet_octets(1) [of a 0 0] by (simp add: drop_bit_drop_bit)
    moreover have "b64_scan (b64_last zs @ [13, 10]) tr 0 = ([], t2, 2)"
      using w(1) by (simp add: 1 b64_last_def quad_def Let_def b64_scan_char stop t1_def t2_def numeral_2_eq_2
        del: b64_scan.simps)
    ultimately show ?thesis by (simp add: 1)
  next
    case (2 a b)
    let ?w = "whole_triplet a b 0"
    define t1 t2 t3 where "t1 = b64_shift tr (drop_bit 18 ?w mod 64)" and "t2 = b64_shift t1 (drop_bit 12 ?w mod 64)"
      and "t3 = b64_shift t2 (drop_bit 6 ?w mod 64)"
    note w = whole_triplet_octets(4,5) [of a b 0]
    have h: "holds t3 18 (drop_bit 6 ?w)" unfolding t3_def t2_def t1_def by (rule holds_digits(2) [OF w])
    have "b64_octet 10 t3 = a" "b64_octet 2 t3 = b"
      using holds_octet [OF h, of 10] holds_octet [OF h, of 2] whole_triplet_octets(1,2) [of a b 0]
      by (simp_all add: drop_bit_drop_bit)
    moreover have "b64_scan (b64_last zs @ [13, 10]) tr 0 = ([], t3, 3)"
      using w(1) by (simp add: 2 b64_last_def quad_def Let_def b64_scan_char stop t1_def t2_def t3_def numeral_3_eq_3
        del: b64_scan.simps)
    ultimately show ?thesis by (simp add: 2)
  next
    case (3 a b c)
    then show ?thesis using b64_scan_quad [OF nl, of a b c] by (simp add: b64_last_def)
  qed
qed

lemma b64_decode_encode:
  assumes "bs \<noteq> []"
  shows "b64_decode (b64_encode bs) = bs"
proof -
  define n where "n = (length bs - 1) div 3 * 3"
  have n: "n < length bs" "length bs \<le> n + 3" 
    using div_times_less_eq_dividend [of "length bs - 1" 3] dividend_less_div_times [of 3 "length bs - 1"] assms
    by (cases bs; simp add: n_def)+
  have "b64_finish (b64_scan (b64_last (drop n bs) @ [13, 10]) tr 0) = drop n bs" for tr
    by (rule b64_scan_last) (use n in auto)
  moreover have "3 dvd length (take n bs)" using n by (simp add: n_def)
  ultimately have "b64_finish (b64_scan (b64_groups 0 (take n bs) @ b64_last (drop n bs) @ [13, 10]) 0 0) =
      take n bs @ drop n bs" by (rule b64_scan_groups)
  then show ?thesis by (simp add: b64_decode_def b64_encode_def n_def Let_def)
qed

end
