(* ===== verification/Octstr_Search.thy ===== *)
theory Octstr_Search
  imports Octstr Gwlist_Sort "HOL-Library.List_Lexorder"
begin

text \<open>
  Comparing and searching octet strings (\<open>gwlib/octstr.c\<close>). \<open>octstr_compare\<close> is shown to be
  the lexicographic order of octets, which makes it a comparison function for \<open>gwlist_sort\<close>;
  the searches are shown to find the first occurrence.
\<close>

section \<open>Library functions on areas\<close>

text \<open>\<open>memcmp\<close> specifies only the sign of its result; the model returns the sign.\<close>

fun memcmp :: "byte cells \<Rightarrow> int \<Rightarrow> byte cells \<Rightarrow> int \<Rightarrow> nat \<Rightarrow> int option" where
  "memcmp a i b j 0 = Some 0"
| "memcmp a i b j (Suc n) = do {
     x \<leftarrow> rd a i;
     y \<leftarrow> rd b j;
     if x = y then memcmp a (i + 1) b (j + 1) n
     else Some (if x < y then -1 else 1) }"

text \<open>The index of the octet found by \<open>memchr\<close>, or \<open>-1\<close> for NULL.\<close>

fun memchr :: "byte cells \<Rightarrow> int \<Rightarrow> byte \<Rightarrow> nat \<Rightarrow> int option" where
  "memchr a i ch 0 = Some (-1)"
| "memchr a i ch (Suc n) = do { x \<leftarrow> rd a i; if x = ch then Some i else memchr a (i + 1) ch n }"

section \<open>Comparison\<close>

definition octstr_compare :: "octstr \<Rightarrow> octstr \<Rightarrow> int option" where
  "octstr_compare ostr1 ostr2 = do {
     seems_valid ostr1;
     seems_valid ostr2;
     let len = (if os_len ostr1 < os_len ostr2 then os_len ostr1 else os_len ostr2);
     if len = 0 then
       Some (if os_len ostr1 = 0 \<and> os_len ostr2 > 0 then -1
         else if os_len ostr1 > 0 \<and> os_len ostr2 = 0 then 1
         else 0)
     else do {
       ret \<leftarrow> memcmp (os_data ostr1) 0 (os_data ostr2) 0 (nat len);
       Some (if ret = 0 then
           if os_len ostr1 < os_len ostr2 then -1
           else if os_len ostr1 > os_len ostr2 then 1
           else ret
         else ret) } }"

text \<open>
  The loop of \<open>octstr_case_compare\<close>: the index it stops at and the two characters last read.
\<close>

function case_loop :: "byte cells \<Rightarrow> byte cells \<Rightarrow> int \<Rightarrow> int \<Rightarrow> int \<Rightarrow> int \<Rightarrow> (int \<times> int \<times> int) option" where
  "case_loop d1 d2 i len c1 c2 =
     (if i < len then do {
        x \<leftarrow> rd d1 i;
        y \<leftarrow> rd d2 i;
        let c1 = toupper (uint x);
        let c2 = toupper (uint y);
        if c1 \<noteq> c2 then Some (i, c1, c2) else case_loop d1 d2 (i + 1) len c1 c2 }
      else Some (i, c1, c2))"
  by pat_completeness auto
termination
  by (relation "measure (\<lambda>(d1, d2, i, len, c1, c2). nat (len - i))") auto

declare case_loop.simps [simp del]

definition octstr_case_compare :: "octstr \<Rightarrow> octstr \<Rightarrow> int option" where
  "octstr_case_compare os1 os2 = do {
     seems_valid os1;
     seems_valid os2;
     let len = (if os_len os1 < os_len os2 then os_len os1 else os_len os2);
     if len = 0 then
       Some (if os_len os1 = 0 \<and> os_len os2 > 0 then -1
         else if os_len os1 > 0 \<and> os_len os2 = 0 then 1
         else 0)
     else do {
       (i, c1, c2) \<leftarrow> case_loop (os_data os1) (os_data os2) 0 len 0 0;
       Some (if i = len then
           if i = os_len os1 \<and> i = os_len os2 then 0
           else if i = os_len os1 then -1
           else 1
         else
           if c1 < c2 then -1 else if c1 = c2 then 0 else 1) } }"

definition octstr_ncompare :: "octstr \<Rightarrow> octstr \<Rightarrow> int \<Rightarrow> int option" where
  "octstr_ncompare ostr1 ostr2 n = do {
     seems_valid ostr1;
     seems_valid ostr2;
     let len = (if os_len ostr1 < os_len ostr2 \<and> os_len ostr1 < n then os_len ostr1
       else if os_len ostr2 < os_len ostr1 \<and> os_len ostr2 < n then os_len ostr2
       else n);
     if len = 0 then Some 0
     else memcmp (os_data ostr1) 0 (os_data ostr2) 0 (nat len) }"

definition octstr_item_match :: "octstr \<Rightarrow> octstr \<Rightarrow> bool option" where
  "octstr_item_match item pattern = do { r \<leftarrow> octstr_compare item pattern; Some (r = 0) }"

definition octstr_item_case_match :: "octstr \<Rightarrow> octstr \<Rightarrow> bool option" where
  "octstr_item_case_match item pattern = do { r \<leftarrow> octstr_case_compare item pattern; Some (r = 0) }"

section \<open>Search\<close>

definition octstr_search_char :: "octstr \<Rightarrow> int \<Rightarrow> int \<Rightarrow> int option" where
  "octstr_search_char ostr ch pos = do {
     seems_valid ostr;
     gw_assert (ch \<ge> 0);
     gw_assert (ch \<le> 255);
     gw_assert (pos \<ge> 0);
     if pos \<ge> os_len ostr then Some (-1)
     else memchr (os_data ostr) pos (word_of_int ch) (nat (os_len ostr - pos)) }"

function rsearch_loop :: "byte cells \<Rightarrow> int \<Rightarrow> int \<Rightarrow> int option" where
  "rsearch_loop d ch i =
     (if i \<ge> 0 then do {
        c \<leftarrow> rd d i;
        if uint c = ch then Some i else rsearch_loop d ch (i - 1) }
      else Some (-1))"
  by pat_completeness auto
termination
  by (relation "measure (\<lambda>(d, ch, i). nat (i + 1))") auto

declare rsearch_loop.simps [simp del]

definition octstr_rsearch_char :: "octstr \<Rightarrow> int \<Rightarrow> int \<Rightarrow> int option" where
  "octstr_rsearch_char ostr ch pos = do {
     seems_valid ostr;
     gw_assert (ch \<ge> 0);
     gw_assert (ch \<le> 255);
     gw_assert (pos \<ge> 0);
     if pos \<ge> os_len ostr then Some (-1)
     else rsearch_loop (os_data ostr) ch pos }"

function search_chars_loop :: "octstr \<Rightarrow> octstr \<Rightarrow> int \<Rightarrow> int \<Rightarrow> int option" where
  "search_chars_loop ostr chars pos i = do {
     n \<leftarrow> octstr_len (Some chars);
     if i < n then do {
       c \<leftarrow> octstr_get_char chars i;
       j \<leftarrow> octstr_search_char ostr c pos;
       if j \<noteq> -1 then Some j else search_chars_loop ostr chars pos (i + 1) }
     else Some (-1) }"
  by pat_completeness auto
termination
  by (relation "measure (\<lambda>(ostr, chars, pos, i). nat (os_len chars - i))")
    (auto simp: octstr_len_def bind_eq_Some_conv)

declare search_chars_loop.simps [simp del]

definition octstr_search_chars :: "octstr \<Rightarrow> octstr \<Rightarrow> int \<Rightarrow> int option" where
  "octstr_search_chars ostr chars pos = do {
     seems_valid ostr;
     seems_valid chars;
     gw_assert (pos \<ge> 0);
     search_chars_loop ostr chars pos 0 }"

text \<open>The loop of \<open>octstr_search\<close>; \<open>nd\<close> and \<open>ndlen\<close> are the needle's area and length.\<close>

partial_function (option) search_loop :: "octstr \<Rightarrow> byte cells \<Rightarrow> int \<Rightarrow> int \<Rightarrow> int \<Rightarrow> int option" where
  "search_loop haystack nd ndlen first pos =
     (if pos \<ge> 0 \<and> os_len haystack - pos \<ge> ndlen then do {
        r \<leftarrow> memcmp (os_data haystack) pos nd 0 (nat ndlen);
        if r = 0 then Some pos
        else do {
          pos \<leftarrow> octstr_search_char haystack first (pos + 1);
          search_loop haystack nd ndlen first pos } }
      else Some (-1))"

definition octstr_search :: "octstr \<Rightarrow> octstr \<Rightarrow> int \<Rightarrow> int option" where
  "octstr_search haystack needle pos = do {
     seems_valid haystack;
     seems_valid needle;
     gw_assert (pos \<ge> 0);
     if os_len needle = 0 then Some 0
     else do {
       c \<leftarrow> rd (os_data needle) 0;
       if os_len needle = 1 then octstr_search_char haystack (uint c) pos
       else do {
         pos \<leftarrow> octstr_search_char haystack (uint c) pos;
         search_loop haystack (os_data needle) (os_len needle) (uint c) pos } } }"

text \<open>
  \<open>needle\<close> is a C string: its octets up to the end of their area, which ends with a NUL. Its
  first character is passed as a \<open>char\<close>, which is signed on the supported platforms.
\<close>

definition octstr_str_search :: "octstr \<Rightarrow> byte list option \<Rightarrow> int \<Rightarrow> int option" where
  "octstr_str_search haystack needle pos = do {
     seems_valid haystack;
     gw_assert (pos \<ge> 0);
     case needle of None \<Rightarrow> Some 0
     | Some s \<Rightarrow>
         if strlen s = 0 then Some 0
         else if strlen s = 1 then octstr_search_char haystack (sint (hd s)) pos
         else do {
           pos \<leftarrow> octstr_search_char haystack (sint (hd s)) pos;
           search_loop haystack (map Some s @ [Some 0]) (strlen s) (sint (hd s)) pos } }"

text \<open>Whether the needle matches at \<open>i\<close>, ignoring case: the inner loop of \<open>octstr_case_search\<close>.\<close>

function case_match_loop :: "byte cells \<Rightarrow> byte cells \<Rightarrow> int \<Rightarrow> int \<Rightarrow> int \<Rightarrow> int option" where
  "case_match_loop hay nd i j len =
     (if j < len then do {
        x \<leftarrow> rd hay (i + j);
        y \<leftarrow> rd nd j;
        if toupper (uint x) \<noteq> toupper (uint y) then Some j
        else case_match_loop hay nd i (j + 1) len }
      else Some j)"
  by pat_completeness auto
termination
  by (relation "measure (\<lambda>(hay, nd, i, j, len). nat (len - j))") auto

declare case_match_loop.simps [simp del]

function case_search_loop :: "byte cells \<Rightarrow> byte cells \<Rightarrow> int \<Rightarrow> int \<Rightarrow> int \<Rightarrow> int option" where
  "case_search_loop hay nd i lim len =
     (if i \<le> lim then do {
        j \<leftarrow> case_match_loop hay nd i 0 len;
        if j = len then Some i else case_search_loop hay nd (i + 1) lim len }
      else Some (-1))"
  by pat_completeness auto
termination
  by (relation "measure (\<lambda>(hay, nd, i, lim, len). nat (lim + 1 - i))") auto

declare case_search_loop.simps [simp del]

definition octstr_case_search :: "octstr \<Rightarrow> octstr \<Rightarrow> int \<Rightarrow> int option" where
  "octstr_case_search haystack needle pos = do {
     seems_valid haystack;
     seems_valid needle;
     gw_assert (pos \<ge> 0);
     if os_len needle = 0 then Some 0
     else case_search_loop (os_data haystack) (os_data needle) pos
       (os_len haystack - os_len needle) (os_len needle) }"

text \<open>
  \<open>octstr_case_nsearch\<close> bounds both loops by \<open>n\<close>; the inner one then stops short of the needle's
  length, which is not a match.
\<close>

function case_nsearch_loop :: "byte cells \<Rightarrow> byte cells \<Rightarrow> int \<Rightarrow> int \<Rightarrow> int \<Rightarrow> int \<Rightarrow> int option" where
  "case_nsearch_loop hay nd i lim len n =
     (if i \<le> lim \<and> i < n then do {
        j \<leftarrow> case_match_loop hay nd i 0 (if len < n then len else n);
        if j = len then Some i else case_nsearch_loop hay nd (i + 1) lim len n }
      else Some (-1))"
  by pat_completeness auto
termination
  by (relation "measure (\<lambda>(hay, nd, i, lim, len, n). nat (lim + 1 - i))") auto

declare case_nsearch_loop.simps [simp del]

definition octstr_case_nsearch :: "octstr \<Rightarrow> octstr \<Rightarrow> int \<Rightarrow> int \<Rightarrow> int option" where
  "octstr_case_nsearch haystack needle pos n = do {
     seems_valid haystack;
     seems_valid needle;
     gw_assert (pos \<ge> 0);
     if os_len needle = 0 then Some 0
     else case_nsearch_loop (os_data haystack) (os_data needle) pos
       (os_len haystack - os_len needle) (os_len needle) n }"

section \<open>Segments of an area\<close>

definition seg :: "byte cells \<Rightarrow> int \<Rightarrow> byte list \<Rightarrow> bool" where
  "seg a i xs \<longleftrightarrow> (\<forall>k < length xs. rd a (i + int k) = Some (xs ! k))"

lemma seg_Nil [simp]: "seg a i []"
  by (simp add: seg_def)

lemma seg_Cons: "seg a i (x # xs) \<longleftrightarrow> rd a i = Some x \<and> seg a (i + 1) xs"
  by (auto simp: seg_def less_Suc_eq_0_disj algebra_simps)

lemma seg_app: "i = int (length p) \<Longrightarrow> seg (p @ map Some xs @ q) i xs"
  by (auto simp: seg_def rd_def nth_append nat_add_distrib)

lemma orep_seg:
  assumes "orep os bs" and "bs = xs @ ys @ zs" and "i = int (length xs)"
  shows "seg (os_data os) i ys"
proof (cases "ys = []")
  case False
  then obtain rest where "os_data os = map Some bs @ Some 0 # rest" using orep_data [OF assms(1)] assms(2) by auto
  then have "os_data os = map Some xs @ map Some ys @ (map Some zs @ Some 0 # rest)" using assms(2) by simp
  then show ?thesis using seg_app [of i "map Some xs" ys] assms(3) by simp
qed simp

lemma orep_seg_at:
  assumes "orep os bs" and "p + n \<le> length bs"
  shows "seg (os_data os) (int p) (take n (drop p bs))"
proof (rule orep_seg [OF assms(1)])
  show "bs = take p bs @ take n (drop p bs) @ drop n (drop p bs)" by (simp del: drop_drop)
  show "int p = int (length (take p bs))" using assms(2) by simp
qed

section \<open>Comparison is lexicographic\<close>

definition cmp_bytes :: "byte list \<Rightarrow> byte list \<Rightarrow> int" where
  "cmp_bytes xs ys = (if xs = ys then 0 else if xs < ys then -1 else 1)"

lemma memcmp_seg:
  "seg a i xs \<Longrightarrow> seg b j ys \<Longrightarrow> length ys = length xs \<Longrightarrow> memcmp a i b j (length xs) = Some (cmp_bytes xs ys)"
proof (induction xs arbitrary: i j ys)
  case Nil
  then show ?case by (simp add: cmp_bytes_def)
next
  case (Cons x xs)
  then obtain y ys' where ys: "ys = y # ys'" by (cases ys) auto
  then have *: "rd a i = Some x" "rd b j = Some y" "seg a (i + 1) xs" "seg b (j + 1) ys'" "length ys' = length xs"
    using Cons.prems by (simp_all add: seg_Cons)
  show ?case using *(1,2) Cons.IH [OF *(3-5)] by (auto simp: ys cmp_bytes_def)
qed

lemma cmp_bytes_Cons:
  "cmp_bytes (x # xs) (y # ys) = (if x = y then cmp_bytes xs ys else if x < y then -1 else 1)"
  by (auto simp: cmp_bytes_def)

lemma cmp_bytes_prefix:
  assumes "n = min (length xs) (length ys)"
  shows "cmp_bytes xs ys = (let r = cmp_bytes (take n xs) (take n ys) in
    if r = 0 then if length xs < length ys then -1 else if length ys < length xs then 1 else 0 else r)"
  using assms
proof (induction xs ys arbitrary: n rule: list_induct2')
  case (4 x xs y ys)
  then show ?case by (cases n) (auto simp: cmp_bytes_Cons Let_def)
qed (auto simp: cmp_bytes_def Let_def)

lemma octstr_compare_rep:
  assumes "orep a xs" and "orep b ys"
  shows "octstr_compare a b = Some (cmp_bytes xs ys)"
proof -
  define n where "n = min (length xs) (length ys)"
  have len: "(if os_len a < os_len b then os_len a else os_len b) = int n"
    using assms by (simp add: orep_len n_def)
  note pre = cmp_bytes_prefix [OF n_def]
  show ?thesis
  proof (cases "n = 0")
    case True
    then have "xs = [] \<or> ys = []" by (auto simp: n_def min_def split: if_splits)
    then show ?thesis using assms True len
      by (cases xs; cases ys) (auto simp: octstr_compare_def seems_valid_rep orep_len Let_def cmp_bytes_def)
  next
    case False
    have "seg (os_data a) (int 0) (take n (drop 0 xs))" "seg (os_data b) (int 0) (take n (drop 0 ys))"
      by (rule orep_seg_at [OF assms(1)], simp add: n_def, rule orep_seg_at [OF assms(2)], simp add: n_def)
    then have "memcmp (os_data a) 0 (os_data b) 0 (length (take n xs)) = Some (cmp_bytes (take n xs) (take n ys))"
      by (intro memcmp_seg) (simp_all add: n_def)
    moreover have "length (take n xs) = n" by (simp add: n_def)
    ultimately have m: "memcmp (os_data a) 0 (os_data b) 0 n = Some (cmp_bytes (take n xs) (take n ys))" by simp
    show ?thesis unfolding octstr_compare_def seems_valid_rep [OF assms(1)] seems_valid_rep [OF assms(2)] Let_def len
      using False m pre assms by (auto simp: orep_len Let_def)
  qed
qed

interpretation octcmp: comparison cmp_bytes
  by unfold_locales (auto simp: cmp_bytes_def split: if_splits)

lemma octstr_item_match_rep: "orep a xs \<Longrightarrow> orep b ys \<Longrightarrow> octstr_item_match a b = Some (xs = ys)"
  by (simp add: octstr_item_match_def octstr_compare_rep cmp_bytes_def)

text \<open>
  \<open>octstr_ncompare\<close> compares at most the shorter string: a proper prefix of at most \<open>n\<close> octets
  counts as equal.
\<close>

lemma octstr_ncompare_rep:
  assumes "orep a xs" and "orep b ys" and "0 \<le> n" and "length xs \<noteq> length ys \<or> nat n \<le> length xs"
  shows "octstr_ncompare a b n = Some (cmp_bytes (take (min (nat n) (length ys)) xs) (take (min (nat n) (length xs)) ys))"
proof -
  define k where "k = min (nat n) (min (length xs) (length ys))"
  have len: "(if os_len a < os_len b \<and> os_len a < n then os_len a
      else if os_len b < os_len a \<and> os_len b < n then os_len b else n) = int k"
    using assms by (auto simp: orep_len k_def min_def)
  have t: "take (min (nat n) (length ys)) xs = take k xs" "take (min (nat n) (length xs)) ys = take k ys"
    by (auto simp: k_def min_def)
  have "seg (os_data a) (int 0) (take k (drop 0 xs))" "seg (os_data b) (int 0) (take k (drop 0 ys))"
    by (rule orep_seg_at [OF assms(1)], simp add: k_def, rule orep_seg_at [OF assms(2)], simp add: k_def)
  then have "memcmp (os_data a) 0 (os_data b) 0 (length (take k xs)) = Some (cmp_bytes (take k xs) (take k ys))"
    by (intro memcmp_seg) (simp_all add: k_def)
  moreover have "length (take k xs) = k" by (simp add: k_def)
  ultimately have m: "memcmp (os_data a) 0 (os_data b) 0 k = Some (cmp_bytes (take k xs) (take k ys))" by simp
  show ?thesis unfolding octstr_ncompare_def seems_valid_rep [OF assms(1)] seems_valid_rep [OF assms(2)] Let_def len t
    using m by (auto simp: cmp_bytes_def)
qed

definition upper :: "byte list \<Rightarrow> int list" where
  "upper bs = map (\<lambda>b. toupper (uint b)) bs"

lemma upper_simps [simp]: "upper [] = []" "upper (b # bs) = toupper (uint b) # upper bs"
  "length (upper bs) = length bs"
  by (simp_all add: upper_def)

lemma case_loop_list:
  "seg d1 i xs \<Longrightarrow> seg d2 i ys \<Longrightarrow> length ys = length xs \<Longrightarrow>
   \<exists>i' c1' c2'. case_loop d1 d2 i (i + int (length xs)) c1 c2 = Some (i', c1', c2') \<and>
     (upper xs = upper ys \<longrightarrow> i' = i + int (length xs)) \<and>
     (upper xs \<noteq> upper ys \<longrightarrow> i' < i + int (length xs) \<and> c1' \<noteq> c2' \<and> (c1' < c2' \<longleftrightarrow> upper xs < upper ys))"
proof (induction xs arbitrary: i ys c1 c2)
  case Nil
  then show ?case by (simp add: case_loop.simps)
next
  case (Cons x xs)
  then obtain y ys' where ys: "ys = y # ys'" by (cases ys) auto
  then have *: "rd d1 i = Some x" "rd d2 i = Some y" "seg d1 (i + 1) xs" "seg d2 (i + 1) ys'" "length ys' = length xs"
    using Cons.prems by (simp_all add: seg_Cons)
  show ?case
  proof (cases "toupper (uint x) = toupper (uint y)")
    case True
    obtain i' c1' c2' where r: "case_loop d1 d2 (i + 1) (i + 1 + int (length xs)) (toupper (uint y)) (toupper (uint y)) = Some (i', c1', c2')"
      "upper xs = upper ys' \<longrightarrow> i' = i + 1 + int (length xs)"
      "upper xs \<noteq> upper ys' \<longrightarrow> i' < i + 1 + int (length xs) \<and> c1' \<noteq> c2' \<and> (c1' < c2' \<longleftrightarrow> upper xs < upper ys')"
      using Cons.IH [OF *(3-5)] by blast
    have "case_loop d1 d2 i (i + int (length (x # xs))) c1 c2 = Some (i', c1', c2')"
      using True *(1,2) r(1) by (subst case_loop.simps) (simp add: Let_def algebra_simps)
    then show ?thesis using r(2,3) True by (auto simp: ys)
  next
    case False
    have "case_loop d1 d2 i (i + int (length (x # xs))) c1 c2 = Some (i, toupper (uint x), toupper (uint y))"
      using False *(1,2) by (subst case_loop.simps) (simp add: Let_def)
    then show ?thesis using False by (auto simp: ys)
  qed
qed

definition cmp_upper :: "byte list \<Rightarrow> byte list \<Rightarrow> int" where
  "cmp_upper xs ys = (if upper xs = upper ys then 0 else if upper xs < upper ys then -1 else 1)"

lemma cmp_upper_Cons:
  "cmp_upper (x # xs) (y # ys) =
     (if toupper (uint x) = toupper (uint y) then cmp_upper xs ys
      else if toupper (uint x) < toupper (uint y) then -1 else 1)"
  by (auto simp: cmp_upper_def upper_def)

lemma cmp_upper_prefix:
  assumes "n = min (length xs) (length ys)"
  shows "cmp_upper xs ys = (let r = cmp_upper (take n xs) (take n ys) in
    if r = 0 then if length xs < length ys then -1 else if length ys < length xs then 1 else 0 else r)"
  using assms
proof (induction xs ys arbitrary: n rule: list_induct2')
  case (4 x xs y ys)
  then show ?case by (cases n) (auto simp: cmp_upper_Cons Let_def)
qed (auto simp: cmp_upper_def Let_def)

lemma octstr_case_compare_rep:
  assumes "orep a xs" and "orep b ys"
  shows "octstr_case_compare a b = Some (cmp_upper xs ys)"
proof -
  define n where "n = min (length xs) (length ys)"
  have len: "(if os_len a < os_len b then os_len a else os_len b) = int n"
    using assms by (simp add: orep_len n_def)
  note pre = cmp_upper_prefix [OF n_def]
  show ?thesis
  proof (cases "n = 0")
    case True
    then have "xs = [] \<or> ys = []" by (auto simp: n_def min_def split: if_splits)
    then show ?thesis using assms True len
      by (cases xs; cases ys) (auto simp: octstr_case_compare_def seems_valid_rep orep_len Let_def cmp_upper_def)
  next
    case False
    have "seg (os_data a) (int 0) (take n (drop 0 xs))" "seg (os_data b) (int 0) (take n (drop 0 ys))"
      by (rule orep_seg_at [OF assms(1)], simp add: n_def, rule orep_seg_at [OF assms(2)], simp add: n_def)
    then have s: "seg (os_data a) 0 (take n xs)" "seg (os_data b) 0 (take n ys)" by simp_all
    have l: "length (take n ys) = length (take n xs)" "length (take n xs) = n" by (simp_all add: n_def)
    obtain i c1 c2 where r: "case_loop (os_data a) (os_data b) 0 (int n) 0 0 = Some (i, c1, c2)"
      "upper (take n xs) = upper (take n ys) \<longrightarrow> i = int n"
      "upper (take n xs) \<noteq> upper (take n ys) \<longrightarrow> i < int n \<and> c1 \<noteq> c2 \<and> (c1 < c2 \<longleftrightarrow> upper (take n xs) < upper (take n ys))"
      using case_loop_list [OF s l(1), of 0 0] l(2) by auto
    have cp: "cmp_upper (take n xs) (take n ys) = (if i = int n then 0 else if c1 < c2 then -1 else 1)"
      "i \<noteq> int n \<longrightarrow> c1 \<noteq> c2"
      using r(2,3) by (auto simp: cmp_upper_def)
    show ?thesis unfolding octstr_case_compare_def seems_valid_rep [OF assms(1)] seems_valid_rep [OF assms(2)] Let_def len
      using False r(1) pre cp assms by (auto simp: orep_len Let_def n_def min_def)
  qed
qed

lemma octstr_item_case_match_rep:
  "orep a xs \<Longrightarrow> orep b ys \<Longrightarrow> octstr_item_case_match a b = Some (upper xs = upper ys)"
  by (simp add: octstr_item_case_match_def octstr_case_compare_rep cmp_upper_def)

interpretation casecmp: comparison cmp_upper
  by unfold_locales (auto simp: cmp_upper_def split: if_splits)

section \<open>The searches find the first occurrence\<close>

definition match_at :: "byte list \<Rightarrow> byte list \<Rightarrow> nat \<Rightarrow> bool" where
  "match_at hs nd p \<longleftrightarrow> p + length nd \<le> length hs \<and> take (length nd) (drop p hs) = nd"

definition find_from :: "byte list \<Rightarrow> byte list \<Rightarrow> nat \<Rightarrow> int" where
  "find_from hs nd p = (case find (match_at hs nd) [p..<Suc (length hs)] of None \<Rightarrow> -1 | Some k \<Rightarrow> int k)"

lemma match_at_single: "match_at hs [b] p \<longleftrightarrow> p < length hs \<and> hs ! p = b"
  by (auto simp: match_at_def take_Suc_conv_app_nth)

lemma match_at_hd:
  assumes "match_at hs nd p" and "nd \<noteq> []"
  shows "match_at hs [hd nd] p"
proof -
  obtain b bs where nd: "nd = b # bs" using assms(2) by (cases nd) auto
  then have p: "p < length hs" "take (Suc (length bs)) (drop p hs) = b # bs" using assms(1) by (auto simp: match_at_def)
  then have "hs ! p = b" by (simp flip: Cons_nth_drop_Suc)
  then show ?thesis using p(1) by (simp add: nd match_at_single)
qed

lemma find_from_step:
  "find_from hs nd p = (if p \<le> length hs then if match_at hs nd p then int p else find_from hs nd (Suc p) else -1)"
proof (cases "p \<le> length hs")
  case True
  then have "[p..<Suc (length hs)] = p # [Suc p..<Suc (length hs)]" by (simp add: upt_conv_Cons del: upt_Suc)
  then show ?thesis using True by (simp add: find_from_def del: upt_Suc)
qed (simp add: find_from_def)

lemma find_from_cases:
  obtains "find_from hs nd p = -1" "\<And>j. p \<le> j \<Longrightarrow> \<not> match_at hs nd j"
  | k where "find_from hs nd p = int k" "p \<le> k" "match_at hs nd k" "\<And>j. p \<le> j \<Longrightarrow> j < k \<Longrightarrow> \<not> match_at hs nd j"
proof (induction "Suc (length hs) - p" arbitrary: p thesis)
  case 0
  then show ?case using find_from_step [of hs nd p] by (auto simp: match_at_def)
next
  case (Suc n)
  then have p: "p \<le> length hs" "n = Suc (length hs) - Suc p" by auto
  show ?case
  proof (cases "match_at hs nd p")
    case True
    then show ?thesis using Suc.prems(2) [of p] p find_from_step [of hs nd p] by simp
  next
    case False
    have s: "find_from hs nd p = find_from hs nd (Suc p)" using False p(1) find_from_step [of hs nd p] by simp
    show ?thesis
    proof (rule Suc.hyps(1) [OF p(2)])
      assume a: "find_from hs nd (Suc p) = -1" "\<And>j. Suc p \<le> j \<Longrightarrow> \<not> match_at hs nd j"
      have "\<not> match_at hs nd j" if "p \<le> j" for j using a(2) [of j] False that by (cases "j = p") auto
      then show ?thesis using Suc.prems(1) a(1) s by simp
    next
      fix k assume a: "find_from hs nd (Suc p) = int k" "Suc p \<le> k" "match_at hs nd k"
        "\<And>j. Suc p \<le> j \<Longrightarrow> j < k \<Longrightarrow> \<not> match_at hs nd j"
      have "\<not> match_at hs nd j" if "p \<le> j" "j < k" for j using a(4) [of j] False that by (cases "j = p") auto
      then show ?thesis using Suc.prems(2) [of k] a s by simp
    qed
  qed
qed

lemma find_from_bound:
  "0 \<le> find_from hs nd p \<Longrightarrow> \<exists>k. find_from hs nd p = int k \<and> p \<le> k \<and> k + length nd \<le> length hs"
  by (rule find_from_cases [of hs nd p]) (auto simp: match_at_def)

lemma find_from_none: "(\<And>j. p \<le> j \<Longrightarrow> \<not> match_at hs nd j) \<Longrightarrow> find_from hs nd p = -1"
  by (rule find_from_cases [of hs nd p]) auto

lemma find_from_skip:
  assumes "p \<le> k" and "\<And>j. p \<le> j \<Longrightarrow> j < k \<Longrightarrow> \<not> match_at hs nd j"
  shows "find_from hs nd p = find_from hs nd k"
  using assms
proof (induction "k - p" arbitrary: p)
  case 0
  then show ?case by simp
next
  case (Suc n)
  have "find_from hs nd (Suc p) = find_from hs nd k" using Suc by simp
  moreover have "\<not> match_at hs nd p" using Suc by simp
  ultimately show ?case using find_from_step [of hs nd p] find_from_step [of hs nd k] Suc.hyps(2)
    by (cases "p \<le> length hs") auto
qed

lemma memchr_list:
  assumes "orep os bs" and "p \<le> length bs"
  shows "memchr (os_data os) (int p) b (length bs - p) = Some (find_from bs [b] p)"
  using assms(2)
proof (induction "length bs - p" arbitrary: p)
  case 0
  then show ?case by (simp add: find_from_none match_at_single)
next
  case (Suc n)
  then have n: "length bs - p = Suc (length bs - Suc p)" and p: "p < length bs" by auto
  have "rd (os_data os) (int p) = Some (bs ! p)" using orep_rd [OF assms(1), of "int p"] p by simp
  then show ?case using Suc.hyps(1) [of "Suc p"] Suc.hyps(2) p find_from_step [of bs "[b]" p]
    by (simp add: n match_at_single algebra_simps)
qed

lemma octstr_search_char_rep:
  assumes "orep os bs" and "0 \<le> pos"
  shows "octstr_search_char os (uint b) pos = Some (find_from bs [b] (nat pos))"
proof (cases "pos \<ge> int (length bs)")
  case True
  then have "find_from bs [b] (nat pos) = -1" by (intro find_from_none) (auto simp: match_at_single)
  then show ?thesis using assms True uint_byte_bounds [of b]
    by (simp add: octstr_search_char_def seems_valid_rep orep_len)
next
  case False
  have "nat (int (length bs) - pos) = length bs - nat pos" using assms(2) by simp
  then show ?thesis using assms False memchr_list [OF assms(1), of "nat pos" b] uint_byte_bounds [of b]
    by (simp add: octstr_search_char_def seems_valid_rep orep_len)
qed

lemma search_loop_list:
  assumes "orep hay hs" and "nd \<noteq> []" and "seg nda 0 nd"
  shows "search_loop hay nda (int (length nd)) (uint (hd nd)) (find_from hs [hd nd] p) = Some (find_from hs nd p)"
proof (induction "Suc (length hs) - p" arbitrary: p rule: less_induct)
  case less
  show ?case
  proof (rule find_from_cases [of hs "[hd nd]" p])
    assume n: "find_from hs [hd nd] p = -1" "\<And>j. p \<le> j \<Longrightarrow> \<not> match_at hs [hd nd] j"
    then have "find_from hs nd p = -1" using match_at_hd assms(2) by (intro find_from_none) blast
    then show ?thesis using n(1) by (subst search_loop.simps) simp
  next
    fix k assume k: "find_from hs [hd nd] p = int k" "p \<le> k" "match_at hs [hd nd] k"
      "\<And>j. p \<le> j \<Longrightarrow> j < k \<Longrightarrow> \<not> match_at hs [hd nd] j"
    have skip: "find_from hs nd p = find_from hs nd k"
      using match_at_hd assms(2) k(2,4) by (intro find_from_skip) blast+
    show ?thesis
    proof (cases "k + length nd \<le> length hs")
      case False
      then have "find_from hs nd k = -1" by (intro find_from_none) (simp add: match_at_def)
      then show ?thesis using False skip k(1) orep_len [OF assms(1)] by (subst search_loop.simps) simp
    next
      case True
      let ?t = "take (length nd) (drop k hs)"
      have lt: "length ?t = length nd" using True by simp
      have m: "memcmp (os_data hay) (int k) nda 0 (length nd) = Some (cmp_bytes ?t nd)"
        using memcmp_seg [OF orep_seg_at [OF assms(1) True] assms(3)] lt by simp
      show ?thesis
      proof (cases "?t = nd")
        case eq: True
        then have "find_from hs nd k = int k" using True find_from_step [of hs nd k] by (simp add: match_at_def)
        then show ?thesis using True skip k(1) orep_len [OF assms(1)] m eq
          by (subst search_loop.simps) (simp add: cmp_bytes_def)
      next
        case ne: False
        then have "\<not> match_at hs nd k" by (simp add: match_at_def)
        then have next': "find_from hs nd k = find_from hs nd (Suc k)" using True find_from_step [of hs nd k] by simp
        have "k < length hs" using k(3) by (simp add: match_at_single)
        then have "Suc (length hs) - Suc k < Suc (length hs) - p" using k(2) by simp
        note IH = less.hyps [OF this]
        have "octstr_search_char hay (uint (hd nd)) (int k + 1) = Some (find_from hs [hd nd] (Suc k))"
          using octstr_search_char_rep [OF assms(1), of "int k + 1"] by (simp add: nat_add_distrib)
        then show ?thesis using True skip k(1) orep_len [OF assms(1)] m ne next' IH
          by (subst search_loop.simps) (simp add: cmp_bytes_def)
      qed
    qed
  qed
qed

lemma octstr_search_rep:
  assumes "orep hay hs" and "orep nd ns" and "0 \<le> pos"
  shows "octstr_search hay nd pos = Some (if ns = [] then 0 else find_from hs ns (nat pos))"
proof (cases "ns = []")
  case True
  then show ?thesis using assms by (simp add: octstr_search_def seems_valid_rep orep_len)
next
  case False
  have h: "rd (os_data nd) 0 = Some (hd ns)" using orep_rd [OF assms(2), of 0] False by (simp add: hd_conv_nth)
  note sc = octstr_search_char_rep [OF assms(1,3), of "hd ns"]
  have s: "seg (os_data nd) 0 ns" using orep_seg [OF assms(2), of "[]" ns "[]" 0] by simp
  show ?thesis
  proof (cases "length ns = 1")
    case True
    then have "ns = [hd ns]" by (cases ns) auto
    then show ?thesis using assms True False sc h by (simp add: octstr_search_def seems_valid_rep orep_len)
  next
    case n1: False
    show ?thesis using assms False n1 sc h search_loop_list [OF assms(1) False s, of "nat pos"]
      by (simp add: octstr_search_def seems_valid_rep orep_len)
  qed
qed

text \<open>
  \<open>octstr_search_chars\<close> goes through the characters in the order given, and returns the first
  occurrence of the first one that occurs.
\<close>

definition find_chars :: "byte list \<Rightarrow> byte list \<Rightarrow> nat \<Rightarrow> int" where
  "find_chars hs cs p = (case find (\<lambda>b. find_from hs [b] p \<noteq> -1) cs of None \<Rightarrow> -1 | Some b \<Rightarrow> find_from hs [b] p)"

lemma search_chars_loop_list:
  assumes "orep os hs" and "orep chars (xs @ cs)" and "0 \<le> pos"
  shows "search_chars_loop os chars pos (int (length xs)) = Some (find_chars hs cs (nat pos))"
  using assms(2)
proof (induction cs arbitrary: xs)
  case Nil
  then show ?case by (subst search_chars_loop.simps) (simp add: octstr_len_rep [OF Nil] find_chars_def)
next
  case (Cons b cs)
  have "octstr_get_char chars (int (length xs)) = Some (uint b)"
    by (simp add: octstr_get_char_rep [OF Cons.prems] nth_append)
  then show ?case
    using Cons.IH [of "xs @ [b]"] Cons.prems octstr_len_rep [OF Cons.prems] octstr_search_char_rep [OF assms(1,3), of b]
    by (subst search_chars_loop.simps) (simp add: find_chars_def algebra_simps)
qed

lemma octstr_search_chars_rep:
  "orep os hs \<Longrightarrow> orep chars cs \<Longrightarrow> 0 \<le> pos \<Longrightarrow> octstr_search_chars os chars pos = Some (find_chars hs cs (nat pos))"
  using search_chars_loop_list [of os hs chars "[]" cs pos]
  by (simp add: octstr_search_chars_def seems_valid_rep)

text \<open>Searching backwards.\<close>

lemma octstr_rsearch_char_rep:
  assumes "orep os bs" and "p < length bs"
  shows "\<exists>r. octstr_rsearch_char os (uint b) (int p) = Some r \<and>
    (r = -1 \<and> b \<notin> set (take (Suc p) bs) \<or>
     (\<exists>k \<le> p. r = int k \<and> bs ! k = b \<and> (\<forall>j. k < j \<and> j \<le> p \<longrightarrow> bs ! j \<noteq> b)))"
proof -
  have "\<exists>r. rsearch_loop (os_data os) (uint b) (int q - 1) = Some r \<and>
      (r = -1 \<and> b \<notin> set (take q bs) \<or> (\<exists>k < q. r = int k \<and> bs ! k = b \<and> (\<forall>j. k < j \<and> j < q \<longrightarrow> bs ! j \<noteq> b)))"
    if "q \<le> length bs" for q
    using that
  proof (induction q)
    case 0
    then show ?case by (simp add: rsearch_loop.simps)
  next
    case (Suc q)
    have rd: "rd (os_data os) (int q) = Some (bs ! q)" using orep_rd [OF assms(1), of "int q"] Suc.prems by simp
    have t: "set (take (Suc q) bs) = insert (bs ! q) (set (take q bs))"
      using Suc.prems by (simp add: take_Suc_conv_app_nth)
    show ?case
    proof (cases "bs ! q = b")
      case True
      then have "rsearch_loop (os_data os) (uint b) (int q) = Some (int q)" using rd by (subst rsearch_loop.simps) simp
      then show ?thesis using True by (intro exI [of _ "int q"]) auto
    next
      case False
      then have e: "rsearch_loop (os_data os) (uint b) (int q) = rsearch_loop (os_data os) (uint b) (int q - 1)"
        using rd by (subst rsearch_loop.simps) (simp add: uint_byte_eq_iff)
      from Suc.IH Suc.prems obtain r where r: "rsearch_loop (os_data os) (uint b) (int q - 1) = Some r"
        "r = -1 \<and> b \<notin> set (take q bs) \<or> (\<exists>k < q. r = int k \<and> bs ! k = b \<and> (\<forall>j. k < j \<and> j < q \<longrightarrow> bs ! j \<noteq> b))"
        by auto
      from r(2) show ?thesis
      proof
        assume "r = -1 \<and> b \<notin> set (take q bs)"
        then show ?thesis using e r(1) t False by auto
      next
        assume "\<exists>k < q. r = int k \<and> bs ! k = b \<and> (\<forall>j. k < j \<and> j < q \<longrightarrow> bs ! j \<noteq> b)"
        then obtain k where "k < q" "r = int k" "bs ! k = b" "\<forall>j. k < j \<and> j < q \<longrightarrow> bs ! j \<noteq> b" by blast
        then have "k < Suc q \<and> r = int k \<and> bs ! k = b \<and> (\<forall>j. k < j \<and> j < Suc q \<longrightarrow> bs ! j \<noteq> b)"
          using False by (auto simp: less_Suc_eq)
        then show ?thesis using e r(1) by auto
      qed
    qed
  qed
  from this [of "Suc p"] assms show ?thesis
    using uint_byte_bounds [of b] by (auto simp: octstr_rsearch_char_def seems_valid_rep orep_len less_Suc_eq_le)
qed

text \<open>Searching without regard to case.\<close>

definition case_match_at :: "byte list \<Rightarrow> byte list \<Rightarrow> nat \<Rightarrow> bool" where
  "case_match_at hs nd p \<longleftrightarrow> p + length nd \<le> length hs \<and> upper (take (length nd) (drop p hs)) = upper nd"

lemma case_match_loop_list:
  "seg h (i + j) xs \<Longrightarrow> seg nd j ys \<Longrightarrow> length xs = length ys \<Longrightarrow>
   \<exists>r. case_match_loop h nd i j (j + int (length ys)) = Some r \<and> (r = j + int (length ys) \<longleftrightarrow> upper xs = upper ys)
     \<and> r \<le> j + int (length ys)"
proof (induction ys arbitrary: j xs)
  case Nil
  then show ?case by (simp add: case_match_loop.simps)
next
  case (Cons y ys)
  then obtain x xs' where xs: "xs = x # xs'" by (cases xs) auto
  then have *: "rd h (i + j) = Some x" "rd nd j = Some y" "seg h (i + (j + 1)) xs'" "seg nd (j + 1) ys" "length xs' = length ys"
    using Cons.prems by (simp_all add: seg_Cons algebra_simps)
  show ?case
  proof (cases "toupper (uint x) = toupper (uint y)")
    case True
    then show ?thesis using *(1,2) Cons.IH [OF *(3-5)]
      by (subst case_match_loop.simps) (auto simp: xs algebra_simps)
  next
    case False
    then show ?thesis using *(1,2) by (subst case_match_loop.simps) (simp add: xs)
  qed
qed

lemma octstr_case_search_rep:
  assumes "orep hay hs" and "orep nd ns" and "ns \<noteq> []"
  shows "\<exists>r. octstr_case_search hay nd (int p) = Some r \<and>
    (r = -1 \<and> (\<forall>j \<ge> p. \<not> case_match_at hs ns j) \<or>
     (\<exists>k \<ge> p. r = int k \<and> case_match_at hs ns k \<and> (\<forall>j. p \<le> j \<and> j < k \<longrightarrow> \<not> case_match_at hs ns j)))"
proof -
  let ?loop = "\<lambda>q. case_search_loop (os_data hay) (os_data nd) (int q) (int (length hs) - int (length ns)) (int (length ns))"
  let ?ok = "\<lambda>q r. r = -1 \<and> (\<forall>j \<ge> q. \<not> case_match_at hs ns j) \<or>
     (\<exists>k \<ge> q. r = int k \<and> case_match_at hs ns k \<and> (\<forall>j. q \<le> j \<and> j < k \<longrightarrow> \<not> case_match_at hs ns j))"
  have "\<exists>r. ?loop q = Some r \<and> ?ok q r" for q
  proof (induction "Suc (length hs) - q" arbitrary: q rule: less_induct)
    case less
    show ?case
    proof (cases "q + length ns \<le> length hs")
      case False
      then have "?loop q = Some (-1)" by (subst case_search_loop.simps) simp
      moreover have "\<forall>j \<ge> q. \<not> case_match_at hs ns j" using False by (auto simp: case_match_at_def)
      ultimately show ?thesis by blast
    next
      case True
      have s1: "seg (os_data hay) (int q + 0) (take (length ns) (drop q hs))" using orep_seg_at [OF assms(1) True] by simp
      have s2: "seg (os_data nd) 0 ns" using orep_seg [OF assms(2), of "[]" ns "[]" 0] by simp
      obtain r where r: "case_match_loop (os_data hay) (os_data nd) (int q) 0 (int (length ns)) = Some r"
        "r = int (length ns) \<longleftrightarrow> upper (take (length ns) (drop q hs)) = upper ns"
        using case_match_loop_list [OF s1 s2] True by auto
      show ?thesis
      proof (cases "case_match_at hs ns q")
        case m: True
        then have "?loop q = Some (int q)" using r True by (subst case_search_loop.simps) (simp add: case_match_at_def)
        then show ?thesis using m by (intro exI [of _ "int q"]) auto
      next
        case m: False
        then have e: "?loop q = ?loop (Suc q)" using r True
          by (subst case_search_loop.simps) (simp add: case_match_at_def algebra_simps)
        have "Suc (length hs) - Suc q < Suc (length hs) - q" using True by simp
        from less.hyps [OF this] obtain r' where r': "?loop (Suc q) = Some r'" "?ok (Suc q) r'" by blast
        from r'(2) show ?thesis
        proof
          assume a: "r' = -1 \<and> (\<forall>j \<ge> Suc q. \<not> case_match_at hs ns j)"
          then have "\<forall>j \<ge> q. \<not> case_match_at hs ns j" using m by (metis le_antisym not_less_eq_eq)
          then show ?thesis using e r'(1) a by auto
        next
          assume "\<exists>k \<ge> Suc q. r' = int k \<and> case_match_at hs ns k \<and> (\<forall>j. Suc q \<le> j \<and> j < k \<longrightarrow> \<not> case_match_at hs ns j)"
          then obtain k where k: "k \<ge> Suc q" "r' = int k" "case_match_at hs ns k"
            "\<forall>j. Suc q \<le> j \<and> j < k \<longrightarrow> \<not> case_match_at hs ns j" by blast
          have "\<forall>j. q \<le> j \<and> j < k \<longrightarrow> \<not> case_match_at hs ns j" using k(4) m by (metis le_antisym not_less_eq_eq)
          then show ?thesis using e r'(1) k by (intro exI [of _ r']) auto
        qed
      qed
    qed
  qed
  then show ?thesis using assms by (simp add: octstr_case_search_def seems_valid_rep orep_len)
qed

end
