(* ===== verification/Octstr_Edit.thy ===== *)
theory Octstr_Edit
  imports Octstr_Search Octstr_Hex
begin

text \<open>
  The operations of \<open>gwlib/octstr.c\<close> that are written in terms of the others: stripping and
  shrinking white space, splitting into lists, replacing and deleting substrings, hashing.
\<close>

unbundle bit_operations_syntax

section \<open>Stripping\<close>

function strip_start :: "octstr \<Rightarrow> (int \<Rightarrow> bool) \<Rightarrow> int \<Rightarrow> int option" where
  "strip_start text p start = do {
     c \<leftarrow> octstr_get_char text start;
     n \<leftarrow> octstr_len (Some text);
     if p c \<and> start \<le> n then strip_start text p (start + 1) else Some start }"
  by pat_completeness auto
termination
  by (relation "measure (\<lambda>(text, p, start). nat (os_len text + 1 - start))")
    (auto simp: octstr_len_def bind_eq_Some_conv)

declare strip_start.simps [simp del]

function strip_end :: "octstr \<Rightarrow> (int \<Rightarrow> bool) \<Rightarrow> int \<Rightarrow> int option" where
  "strip_end text p end = do {
     c \<leftarrow> octstr_get_char text end;
     if p c \<and> end \<ge> 0 then strip_end text p (end - 1) else Some end }"
  by pat_completeness auto
termination
  by (relation "measure (\<lambda>(text, p, end). nat (end + 1))") auto

declare strip_end.simps [simp del]

text \<open>
  The three stripping functions have the same text and differ in the class of characters.
\<close>

definition strip_with :: "(int \<Rightarrow> bool) \<Rightarrow> octstr \<Rightarrow> octstr option" where
  "strip_with p text = do {
     seems_valid text;
     gw_assert (\<not> os_immutable text);
     start \<leftarrow> strip_start text p 0;
     text \<leftarrow> (if start > 0 then octstr_delete text 0 start else Some text);
     len \<leftarrow> octstr_len (Some text);
     text \<leftarrow> (if len > 0 then do {
         end \<leftarrow> strip_end text p (len - 1);
         octstr_delete text (end + 1) (len - 1 - end) }
       else Some text);
     seems_valid text;
     Some text }"

definition octstr_strip_blanks :: "octstr \<Rightarrow> octstr option" where
  "octstr_strip_blanks text = strip_with isspace text"

text \<open>\<open>iscrlf\<close> takes an \<open>unsigned char\<close>, so the end mark \<open>-1\<close> becomes 255.\<close>

definition iscrlf :: "int \<Rightarrow> bool" where
  "iscrlf c \<longleftrightarrow> c mod 256 = 10 \<or> c mod 256 = 13"

definition octstr_strip_crlfs :: "octstr \<Rightarrow> octstr option" where
  "octstr_strip_crlfs text = strip_with iscrlf text"

definition octstr_strip_nonalphanums :: "octstr \<Rightarrow> octstr option" where
  "octstr_strip_nonalphanums text = strip_with (\<lambda>c. \<not> isalnum c) text"

text \<open>The parameter is a \<open>char\<close>: its value is signed.\<close>

definition octstr_strip_char :: "octstr \<Rightarrow> byte \<Rightarrow> octstr option" where
  "octstr_strip_char text ch = do {
     seems_valid text;
     gw_assert (\<not> os_immutable text);
     start \<leftarrow> strip_start text (\<lambda>c. sint ch = c) 0;
     text \<leftarrow> (if start > 0 then octstr_delete text 0 start else Some text);
     seems_valid text;
     Some text }"

text \<open>The inner loop of \<open>octstr_shrink_blanks\<close>.\<close>

function blank_run :: "octstr \<Rightarrow> int \<Rightarrow> int option" where
  "blank_run text j = do {
     c \<leftarrow> octstr_get_char text j;
     if isspace c then blank_run text (j + 1) else Some j }"
  by pat_completeness auto
termination
  by (relation "measure (\<lambda>(text, j). nat (os_len text - j))")
    (auto simp: octstr_get_char_def isspace_def bind_eq_Some_conv split: if_splits)

declare blank_run.simps [simp del]

partial_function (option) shrink_loop :: "octstr \<Rightarrow> int \<Rightarrow> int \<Rightarrow> octstr option" where
  "shrink_loop text i end =
     (if i < end then do {
        c \<leftarrow> octstr_get_char text i;
        if isspace c then do {
          text \<leftarrow> (if c \<noteq> 32 then octstr_set_char text i 32 else Some text);
          j \<leftarrow> blank_run text (i + 1);
          text \<leftarrow> (if j - (i + 1) > 0 then octstr_delete text (i + 1) (j - (i + 1)) else Some text);
          shrink_loop text (i + 2) end }
        else shrink_loop text (i + 1) end }
      else Some text)"

definition octstr_shrink_blanks :: "octstr \<Rightarrow> octstr option" where
  "octstr_shrink_blanks text = do {
     seems_valid text;
     gw_assert (\<not> os_immutable text);
     end \<leftarrow> octstr_len (Some text);
     text \<leftarrow> shrink_loop text 0 end;
     seems_valid text;
     Some text }"

text \<open>The character is assigned to a \<open>char\<close> before it is tested.\<close>

function isnum_loop :: "octstr \<Rightarrow> int \<Rightarrow> bool option" where
  "isnum_loop ostr1 start = do {
     n \<leftarrow> octstr_len (Some ostr1);
     if start < n then do {
       c \<leftarrow> octstr_get_char ostr1 start;
       let c = sint (word_of_int c :: byte);
       if \<not> isdigit c \<and> c \<noteq> 43 then Some False else isnum_loop ostr1 (start + 1) }
     else Some True }"
  by pat_completeness auto
termination
  by (relation "measure (\<lambda>(ostr1, start). nat (os_len ostr1 - start))")
    (auto simp: octstr_len_def bind_eq_Some_conv)

declare isnum_loop.simps [simp del]

definition octstr_isnum :: "octstr \<Rightarrow> bool option" where
  "octstr_isnum ostr1 = do { seems_valid ostr1; isnum_loop ostr1 0 }"

section \<open>Splitting\<close>

text \<open>The two scanning loops of \<open>octstr_split_words\<close>, which stop at the end of the string.\<close>

function scan_class :: "(int \<Rightarrow> bool) \<Rightarrow> byte cells \<Rightarrow> int \<Rightarrow> int \<Rightarrow> int option" where
  "scan_class p data i len =
     (if i < len then do {
        c \<leftarrow> rd data i;
        if p (uint c) then scan_class p data (i + 1) len else Some i }
      else Some i)"
  by pat_completeness auto
termination
  by (relation "measure (\<lambda>(p, data, i, len). nat (len - i))") auto

declare scan_class.simps [simp del]

partial_function (option) split_words_loop :: "octstr \<Rightarrow> octstr gwlist \<Rightarrow> int \<Rightarrow> octstr gwlist option" where
  "split_words_loop ostr l i = do {
     start \<leftarrow> scan_class isspace (os_data ostr) i (os_len ostr);
     end \<leftarrow> scan_class (\<lambda>c. \<not> isspace c) (os_data ostr) start (os_len ostr);
     if start = end then Some l
     else do {
       word \<leftarrow> octstr_create_from_data (os_data ostr) start (end - start);
       l \<leftarrow> gwlist_append l word;
       split_words_loop ostr l end } }"

definition octstr_split_words :: "octstr \<Rightarrow> octstr gwlist option" where
  "octstr_split_words ostr = do {
     seems_valid ostr;
     split_words_loop ostr gwlist_create 0 }"

partial_function (option) split_loop ::
    "octstr \<Rightarrow> octstr \<Rightarrow> int \<Rightarrow> octstr gwlist \<Rightarrow> int \<Rightarrow> octstr gwlist option" where
  "split_loop os sep seplen l pos = do {
     next \<leftarrow> octstr_search os sep pos;
     if next \<ge> 0 then do {
       piece \<leftarrow> octstr_copy (Some os) pos (next - pos);
       l \<leftarrow> gwlist_append l piece;
       split_loop os sep seplen l (next + seplen) }
     else do {
       n \<leftarrow> octstr_len (Some os);
       if pos < n then do {
         piece \<leftarrow> octstr_copy (Some os) pos n;
         gwlist_append l piece }
       else Some l } }"

definition octstr_split :: "octstr \<Rightarrow> octstr \<Rightarrow> octstr gwlist option" where
  "octstr_split os sep = do {
     seplen \<leftarrow> octstr_len (Some sep);
     split_loop os sep seplen gwlist_create 0 }"

section \<open>Replacing\<close>

partial_function (option) replace_loop :: "octstr \<Rightarrow> octstr \<Rightarrow> octstr \<Rightarrow> int \<Rightarrow> int \<Rightarrow> int \<Rightarrow> octstr option" where
  "replace_loop haystack needle repl len repl_len p = do {
     p \<leftarrow> octstr_search haystack needle p;
     if p \<noteq> -1 then do {
       haystack \<leftarrow> octstr_delete haystack p len;
       haystack \<leftarrow> octstr_insert haystack (Some repl) p;
       replace_loop haystack needle repl len repl_len (p + repl_len) }
     else Some haystack }"

definition octstr_replace :: "octstr \<Rightarrow> octstr \<Rightarrow> octstr \<Rightarrow> octstr option" where
  "octstr_replace haystack needle repl = do {
     len \<leftarrow> octstr_len (Some needle);
     repl_len \<leftarrow> octstr_len (Some repl);
     replace_loop haystack needle repl len repl_len 0 }"

definition octstr_replace_first :: "octstr \<Rightarrow> octstr \<Rightarrow> octstr \<Rightarrow> octstr option" where
  "octstr_replace_first haystack needle repl = do {
     len \<leftarrow> octstr_len (Some needle);
     p \<leftarrow> octstr_search haystack needle 0;
     if p \<noteq> -1 then do {
       haystack \<leftarrow> octstr_delete haystack p len;
       octstr_insert haystack (Some repl) p }
     else Some haystack }"

partial_function (option) delete_loop :: "octstr \<Rightarrow> octstr \<Rightarrow> int \<Rightarrow> int \<Rightarrow> octstr option" where
  "delete_loop haystack needle len p = do {
     p \<leftarrow> octstr_search haystack needle p;
     if p \<noteq> -1 then do {
       haystack \<leftarrow> octstr_delete haystack p len;
       delete_loop haystack needle len p }
     else Some haystack }"

definition octstr_delete_matching :: "octstr \<Rightarrow> octstr \<Rightarrow> octstr option" where
  "octstr_delete_matching haystack needle = do {
     seems_valid haystack;
     seems_valid needle;
     gw_assert (\<not> os_immutable haystack);
     len \<leftarrow> octstr_len (Some needle);
     delete_loop haystack needle len 0 }"

function symbolize_loop :: "octstr \<Rightarrow> int \<Rightarrow> int \<Rightarrow> octstr option" where
  "symbolize_loop ostr i len =
     (if i < len then do {
        ostr \<leftarrow> octstr_insert_data ostr i [Some 0x25, Some 0] 1;
        symbolize_loop ostr (i + 3) len }
      else Some ostr)"
  by pat_completeness auto
termination
  by (relation "measure (\<lambda>(ostr, i, len). nat (len - i))") auto

declare symbolize_loop.simps [simp del]

definition octstr_symbolize :: "octstr \<Rightarrow> (int \<times> octstr) option" where
  "octstr_symbolize ostr = do {
     seems_valid ostr;
     gw_assert (\<not> os_immutable ostr);
     if os_len ostr = 0 then Some (0, ostr)
     else do {
       ok \<leftarrow> octstr_check_range ostr 0 (os_len ostr) gw_isxdigit;
       if \<not> ok then Some (-1, ostr)
       else do {
         let len = os_len ostr + cdiv (os_len ostr) 2;
         ostr \<leftarrow> octstr_grow ostr (os_len ostr * 2);
         ostr \<leftarrow> symbolize_loop ostr 0 len;
         Some (1, ostr) } } }"

section \<open>Hashing\<close>

text \<open>\<open>unsigned long\<close> arithmetic wraps around; the characters are signed.\<close>

function hash_loop :: "byte cells \<Rightarrow> int \<Rightarrow> int \<Rightarrow> 64 word \<Rightarrow> 64 word \<Rightarrow> 64 word option" where
  "hash_loop str i len hash a =
     (if i < len then do {
        c \<leftarrow> rd str i;
        hash_loop str (i + 1) len (hash * a + scast c) (a * 378551) }
      else Some hash)"
  by pat_completeness auto
termination
  by (relation "measure (\<lambda>(str, i, len, hash, a). nat (len - i))") auto

declare hash_loop.simps [simp del]

definition octstr_hash_key :: "octstr option \<Rightarrow> 64 word option" where
  "octstr_hash_key ostr = do {
     len \<leftarrow> octstr_len ostr;
     str \<leftarrow> octstr_get_cstr ostr;
     hash \<leftarrow> hash_loop str 0 len 0 63689;
     Some (hash AND 0x7FFFFFFF) }"

section \<open>What stripping does\<close>

definition strip :: "(int \<Rightarrow> bool) \<Rightarrow> byte list \<Rightarrow> byte list" where
  "strip p bs = rev (dropWhile (\<lambda>b. p (uint b)) (rev (dropWhile (\<lambda>b. p (uint b)) bs)))"

lemma strip_start_rep:
  assumes "orep os bs" and "s \<le> length (takeWhile (\<lambda>b. p (uint b)) bs)"
  shows "\<exists>r. strip_start os p (int s) = Some r \<and> 0 \<le> r \<and> drop (nat r) bs = dropWhile (\<lambda>b. p (uint b)) bs"
  using assms(2)
proof (induction "length bs - s" arbitrary: s rule: less_induct)
  case less
  let ?P = "\<lambda>b. p (uint b)" and ?k = "length (takeWhile (\<lambda>b. p (uint b)) bs)"
  note len = octstr_len_rep [OF assms(1)] and ch = octstr_get_char_rep [OF assms(1)]
  have kl: "?k \<le> length bs" by (rule length_takeWhile_le)
  consider (run) "s < ?k" | (stop) "s = ?k" "?k < length bs" | (all) "s = ?k" "?k = length bs"
    using less.prems kl by linarith
  then show ?case
  proof cases
    case run
    then have "?P (bs ! s)" by (metis nth_mem set_takeWhileD takeWhile_nth)
    moreover have "s < length bs" using run kl by linarith
    ultimately show ?thesis using less.hyps [of "Suc s"] run
      by (subst strip_start.simps) (simp add: len ch algebra_simps)
  next
    case stop
    then have "\<not> ?P (bs ! s)" using nth_length_takeWhile [of ?P bs] by simp
    then have "strip_start os p (int s) = Some (int s)" using stop by (subst strip_start.simps) (simp add: len ch)
    then show ?thesis using stop(1) by (simp add: dropWhile_eq_drop)
  next
    case all
    have "strip_start os p (int s) = Some (if p (-1) then int s + 1 else int s)"
      using all by (subst strip_start.simps) (auto simp: len ch strip_start.simps [of os p "int s + 1"]
        strip_start.simps [of os p "int (length bs) + 1"])
    moreover have "dropWhile ?P bs = []" using all by (simp add: dropWhile_eq_drop)
    ultimately show ?thesis using all by (auto simp del: dropWhile_eq_Nil_conv)
  qed
qed

lemma rstrip_split:
  "\<forall>y \<in> set ys. P y \<Longrightarrow> xs = [] \<or> \<not> P (last xs) \<Longrightarrow> rev (dropWhile P (rev (xs @ ys))) = xs"
  by (cases xs rule: rev_cases) (auto simp: dropWhile_append)

lemma strip_end_rep:
  assumes "orep os bs" and "e \<le> length bs" and "\<forall>y \<in> set (drop e bs). p (uint y)"
  shows "\<exists>r. strip_end os p (int e - 1) = Some r \<and> -1 \<le> r \<and> r < int (length bs) \<and>
    take (nat (r + 1)) bs = rev (dropWhile (\<lambda>b. p (uint b)) (rev bs))"
  using assms(2,3)
proof (induction e)
  case 0
  have "rev (dropWhile (\<lambda>b. p (uint b)) (rev ([] @ bs))) = []" using 0 by (intro rstrip_split) auto
  then show ?case by (subst strip_end.simps) (simp add: octstr_get_char_rep [OF assms(1)])
next
  case (Suc e)
  have e: "e < length bs" using Suc.prems(1) by simp
  have ch: "octstr_get_char os (int e) = Some (uint (bs ! e))" using e by (simp add: octstr_get_char_rep [OF assms(1)])
  have d: "drop e bs = bs ! e # drop (Suc e) bs" using e by (simp add: Cons_nth_drop_Suc)
  show ?case
  proof (cases "p (uint (bs ! e))")
    case True
    have "\<forall>y \<in> set (drop e bs). p (uint y)" using True Suc.prems(2) by (simp add: d)
    then show ?thesis using Suc.IH e ch True by (subst strip_end.simps) simp
  next
    case False
    have "rev (dropWhile (\<lambda>b. p (uint b)) (rev (take (Suc e) bs @ drop (Suc e) bs))) = take (Suc e) bs"
      using Suc.prems False e by (intro rstrip_split) (auto simp: last_conv_nth)
    then have "rev (dropWhile (\<lambda>b. p (uint b)) (rev bs)) = take (Suc e) bs" by simp
    then show ?thesis using e ch False
      by (subst strip_end.simps) (simp add: nat_add_distrib)
  qed
qed

lemma strip_with_rep:
  assumes "mrep os bs"
  shows "runs (strip_with p os) (\<lambda>r. mrep r (strip p bs))"
proof -
  let ?P = "\<lambda>b. p (uint b)"
  obtain s where s: "strip_start os p 0 = Some s" "0 \<le> s" "drop (nat s) bs = dropWhile ?P bs"
    using strip_start_rep [OF mrep_orep [OF assms], of 0 p] by auto
  have "runs (if s > 0 then octstr_delete os 0 s else Some os) (\<lambda>r. mrep r (dropWhile ?P bs))"
    using octstr_delete_rep [OF assms, of 0 s] s assms by (cases "s = 0") auto
  then obtain o1 where o1: "(if s > 0 then octstr_delete os 0 s else Some os) = Some o1" "mrep o1 (dropWhile ?P bs)"
    by (auto elim: runsE)
  define cs where "cs = dropWhile ?P bs"
  have m1: "mrep o1 cs" using o1(2) by (simp add: cs_def)
  have "runs (if int (length cs) > 0 then do {
         e \<leftarrow> strip_end o1 p (int (length cs) - 1);
         octstr_delete o1 (e + 1) (int (length cs) - 1 - e) }
       else Some o1) (\<lambda>r. mrep r (strip p bs))"
  proof (cases "cs = []")
    case True
    then show ?thesis using m1 by (simp add: strip_def flip: cs_def)
  next
    case False
    obtain e where e: "strip_end o1 p (int (length cs) - 1) = Some e" "-1 \<le> e" "e < int (length cs)"
      "take (nat (e + 1)) cs = rev (dropWhile ?P (rev cs))"
      using strip_end_rep [OF mrep_orep [OF m1], of "length cs" p] by auto
    have "nat (e + 1) + nat (int (length cs) - 1 - e) = length cs" using e(2,3) by linarith
    then show ?thesis using octstr_delete_rep [OF m1, of "e + 1" "int (length cs) - 1 - e"] e False
      by (simp add: strip_def flip: cs_def)
  qed
  then obtain o2 where o2: "(if int (length cs) > 0 then do {
         e \<leftarrow> strip_end o1 p (int (length cs) - 1);
         octstr_delete o1 (e + 1) (int (length cs) - 1 - e) }
       else Some o1) = Some o2" "mrep o2 (strip p bs)" by (auto elim: runsE)
  show ?thesis
    unfolding strip_with_def seems_valid_rep [OF mrep_orep [OF assms]] s(1) Option.bind.bind_lunit o1(1)
      octstr_len_rep [OF mrep_orep [OF m1]] o2(1) seems_valid_rep [OF mrep_orep [OF o2(2)]]
    using o2(2) mrep_mutable [OF assms] by simp
qed

lemmas octstr_strip_rep = strip_with_rep [of _ _ isspace, folded octstr_strip_blanks_def]
  strip_with_rep [of _ _ iscrlf, folded octstr_strip_crlfs_def]
  strip_with_rep [of _ _ "\<lambda>c. \<not> isalnum c", folded octstr_strip_nonalphanums_def]

function shrink :: "byte list \<Rightarrow> byte list" where
  "shrink [] = []"
| "shrink (b # bs) =
     (if isspace (uint b) then 0x20 # shrink (dropWhile (\<lambda>b. isspace (uint b)) bs) else b # shrink bs)"
  by pat_completeness auto
termination
  by (relation "measure length") (auto simp: length_dropWhile_le less_Suc_eq_le)

lemma blank_run_rep:
  assumes "orep os (xs @ ys)"
  shows "blank_run os (int (length xs)) = Some (int (length xs + length (takeWhile (\<lambda>b. isspace (uint b)) ys)))"
  using assms
proof (induction ys arbitrary: xs)
  case Nil
  then show ?case by (subst blank_run.simps) (simp add: octstr_get_char_rep [OF Nil] isspace_def)
next
  case (Cons y ys)
  have "octstr_get_char os (int (length xs)) = Some (uint y)" by (simp add: octstr_get_char_rep [OF Cons.prems] nth_append)
  then show ?case using Cons.IH [of "xs @ [y]"] Cons.prems
    by (subst blank_run.simps) (simp add: algebra_simps)
qed

lemma shrink_loop_end:
  "orep os bs \<Longrightarrow> int (length bs) \<le> i \<Longrightarrow> shrink_loop os i e = Some os"
proof (induction "nat (e - i)" arbitrary: i rule: less_induct)
  case less
  have "octstr_get_char os i = Some (-1)" using less.prems by (simp add: octstr_get_char_rep)
  then show ?case using less by (subst shrink_loop.simps) (simp add: isspace_def)
qed

lemma shrink_loop_rep:
  "mrep os (out @ cs) \<Longrightarrow> int (length (out @ cs)) \<le> e \<Longrightarrow>
   runs (shrink_loop os (int (length out)) e) (\<lambda>r. mrep r (out @ shrink cs))"
proof (induction "length cs" arbitrary: os out cs rule: less_induct)
  case less
  show ?case
  proof (cases cs)
    case Nil
    then show ?thesis using less.prems shrink_loop_end [OF mrep_orep [OF less.prems(1)]] by simp
  next
    case (Cons b bs)
    note m = less.prems(1) [unfolded Cons]
    have lt: "int (length out) < e" using less.prems(2) Cons by simp
    have ch: "octstr_get_char os (int (length out)) = Some (uint b)"
      by (simp add: octstr_get_char_rep [OF mrep_orep [OF m]] nth_append)
    show ?thesis
    proof (cases "isspace (uint b)")
      case False
      have "runs (shrink_loop os (int (length (out @ [b]))) e) (\<lambda>r. mrep r ((out @ [b]) @ shrink bs))"
        by (rule less.hyps) (use less.prems Cons in auto)
      then show ?thesis using False ch lt Cons by (subst shrink_loop.simps) (simp add: algebra_simps)
    next
      case True
      have "runs (if uint b \<noteq> 32 then octstr_set_char os (int (length out)) 32 else Some os) (\<lambda>r. mrep r (out @ 0x20 # bs))"
      proof (cases "uint b = 32")
        case True
        then have "b = 0x20" using uint_byte_eq_iff [of b "0x20"] by simp
        then show ?thesis using m True by simp
      next
        case False
        then show ?thesis using octstr_set_char_rep [OF m, of "int (length out)" 32] by simp
      qed
      then obtain o1 where o1: "(if uint b \<noteq> 32 then octstr_set_char os (int (length out)) 32 else Some os) = Some o1"
          "mrep o1 (out @ 0x20 # bs)" by (auto elim: runsE)
      let ?P = "\<lambda>b. isspace (uint b)"
      let ?k = "length (takeWhile ?P bs)"
      have br: "blank_run o1 (int (length out) + 1) = Some (int (length out) + 1 + int ?k)"
        using blank_run_rep [of o1 "out @ [0x20]" bs] mrep_orep [OF o1(2)] by (simp add: algebra_simps)
      have "runs (if int ?k > 0 then octstr_delete o1 (int (length out) + 1) (int ?k) else Some o1)
          (\<lambda>r. mrep r (out @ 0x20 # dropWhile ?P bs))"
      proof (cases "?k = 0")
        case True
        then have "dropWhile ?P bs = bs" by (simp add: dropWhile_eq_drop)
        then show ?thesis using True o1(2) by simp
      next
        case False
        have "nat (int (length out) + 1) = Suc (length out)" by simp
        then show ?thesis using False octstr_delete_rep [OF o1(2), of "int (length out) + 1" "int ?k"]
          by (simp add: dropWhile_eq_drop)
      qed
      then obtain o2 where o2: "(if int ?k > 0 then octstr_delete o1 (int (length out) + 1) (int ?k) else Some o1) = Some o2"
          "mrep o2 (out @ 0x20 # dropWhile ?P bs)" by (auto elim: runsE)
      have step: "shrink_loop os (int (length out)) e = shrink_loop o2 (int (length out) + 2) e"
        using lt ch True o1(1) br o2(1) by (subst shrink_loop.simps) (simp split del: if_split cong: if_cong)
      show ?thesis
      proof (cases "dropWhile ?P bs")
        case Nil
        then show ?thesis using o2(2) shrink_loop_end [OF mrep_orep [OF o2(2)], of "int (length out) + 2" e] True Cons step
          by (simp del: dropWhile_eq_Nil_conv)
      next
        case d: (Cons d ds)
        have nd: "\<not> isspace (uint d)" using d by (metis dropWhile_eq_Cons_conv)
        have len: "length ds < length cs" "length (d # ds) \<le> length bs"
          using length_dropWhile_le [of ?P bs] d Cons by auto
        have "runs (shrink_loop o2 (int (length (out @ [0x20, d]))) e) (\<lambda>r. mrep r ((out @ [0x20, d]) @ shrink ds))"
          by (rule less.hyps [OF len(1)]) (use o2(2) d less.prems(2) Cons len(2) in auto)
        then show ?thesis using step True Cons d nd by (simp add: algebra_simps)
      qed
    qed
  qed
qed

lemma octstr_shrink_blanks_rep:
  assumes "mrep os bs"
  shows "runs (octstr_shrink_blanks os) (\<lambda>r. mrep r (shrink bs))"
proof -
  obtain r where r: "shrink_loop os 0 (int (length bs)) = Some r" "mrep r (shrink bs)"
    using shrink_loop_rep [of os "[]" bs "int (length bs)"] assms by (auto elim: runsE)
  then show ?thesis using assms
    by (simp add: octstr_shrink_blanks_def seems_valid_rep [OF mrep_orep] mrep_mutable octstr_len_rep [OF mrep_orep])
qed

lemma isnum_loop_rep:
  "orep os (xs @ ys) \<Longrightarrow>
   isnum_loop os (int (length xs)) = Some (list_all (\<lambda>b. isdigit (uint b) \<or> uint b = 43) ys)"
proof (induction ys arbitrary: xs)
  case Nil
  then show ?case by (subst isnum_loop.simps) (simp add: octstr_len_rep [OF Nil])
next
  case (Cons y ys)
  have ch: "octstr_get_char os (int (length xs)) = Some (uint y)"
    by (simp add: octstr_get_char_rep [OF Cons.prems] nth_append)
  have "isdigit (sint y) \<or> sint y = 43 \<longleftrightarrow> isdigit (uint y) \<or> uint y = 43"
    using uint_byte_bounds [of y] by (auto simp: isdigit_def sint_byte)
  then show ?case using ch Cons.IH [of "xs @ [y]"] Cons.prems
    by (subst isnum_loop.simps) (auto simp: octstr_len_rep [OF Cons.prems] Let_def algebra_simps)
qed

lemma octstr_isnum_rep:
  "orep os bs \<Longrightarrow> octstr_isnum os = Some (list_all (\<lambda>b. isdigit (uint b) \<or> uint b = 43) bs)"
  using isnum_loop_rep [of os "[]" bs] by (simp add: octstr_isnum_def seems_valid_rep)

section \<open>What splitting does\<close>

text \<open>A list of octet strings and the octet lists it represents.\<close>

definition lrep :: "octstr gwlist \<Rightarrow> byte list list \<Rightarrow> bool" where
  "lrep l bss \<longleftrightarrow> (\<exists>oss. rep l oss \<and> list_all2 mrep oss bss)"

lemma lrep_create: "lrep gwlist_create []"
  using gwlist_create_rep by (auto simp: lrep_def)

lemma lrep_append:
  assumes "lrep l bss" and "mrep os bs"
  shows "runs (gwlist_append l os) (\<lambda>l. lrep l (bss @ [bs]))"
proof -
  obtain oss where o: "rep l oss" "list_all2 mrep oss bss" using assms(1) by (auto simp: lrep_def)
  have "list_all2 mrep (oss @ [os]) (bss @ [bs])" using o(2) assms(2) by (simp add: list_all2_appendI)
  then show ?thesis using gwlist_append_rep [OF o(1), of os] by (auto simp: lrep_def elim!: runs_mono)
qed

text \<open>The pieces between the separators; an empty piece at the end is not reported.\<close>

function pieces :: "byte list \<Rightarrow> byte list \<Rightarrow> nat \<Rightarrow> byte list list" where
  "pieces bs sep p =
     (if sep = [] then []
      else let k = find_from bs sep p in
        if k \<ge> 0 then take (nat k - p) (drop p bs) # pieces bs sep (nat k + length sep)
        else if p < length bs then [drop p bs] else [])"
  by pat_completeness auto
termination
proof (relation "measure (\<lambda>(bs, sep, p). Suc (length bs) - p)", goal_cases)
  case (2 bs sep p k)
  then obtain j where "k = int j" "p \<le> j" "j + length sep \<le> length bs" "0 < length sep"
    using find_from_bound [of bs sep p] by auto
  moreover from this have "p < j + length sep" by linarith
  ultimately show ?case by (simp add: diff_less_mono2)
qed simp

declare pieces.simps [simp del]

lemma split_loop_rep:
  assumes "orep os bs" and "orep sep ss" and "ss \<noteq> []"
  shows "lrep l acc \<Longrightarrow> runs (split_loop os sep (int (length ss)) l (int p)) (\<lambda>l. lrep l (acc @ pieces bs ss p))"
proof (induction "Suc (length bs) - p" arbitrary: p l acc rule: less_induct)
  case less
  have se: "octstr_search os sep (int p) = Some (find_from bs ss p)"
    using octstr_search_rep [OF assms(1,2), of "int p"] assms(3) by simp
  show ?case
  proof (rule find_from_cases [of bs ss p])
    assume n: "find_from bs ss p = -1"
    show ?thesis
    proof (cases "p < length bs")
      case False
      then show ?thesis using n se less.prems assms(1)
        by (subst split_loop.simps) (simp add: octstr_len_rep pieces.simps [of bs ss p] assms(3))
    next
      case True
      have "take (length bs) (drop p bs) = drop p bs" by simp
      then obtain piece where pc: "octstr_copy (Some os) (int p) (int (length bs)) = Some piece" "mrep piece (drop p bs)"
        using octstr_copy_rep [OF assms(1), of "int p" "int (length bs)"] by (auto elim: runsE)
      then show ?thesis using n se True assms(1,3) lrep_append [OF less.prems pc(2)]
        by (subst split_loop.simps) (simp add: octstr_len_rep pieces.simps [of bs ss p])
    qed
  next
    fix k assume k: "find_from bs ss p = int k" "p \<le> k" "match_at bs ss k"
    obtain piece where pc: "octstr_copy (Some os) (int p) (int k - int p) = Some piece" "mrep piece (take (k - p) (drop p bs))"
      using octstr_copy_rep [OF assms(1), of "int p" "int k - int p"] k(2) by (auto elim: runsE simp: nat_diff_distrib)
    obtain l' where l': "gwlist_append l piece = Some l'" "lrep l' (acc @ [take (k - p) (drop p bs)])"
      using lrep_append [OF less.prems pc(2)] by (auto elim: runsE)
    have "Suc (length bs) - (k + length ss) < Suc (length bs) - p"
      using k(2,3) assms(3) by (cases ss) (auto simp: match_at_def intro!: diff_less_mono2)
    from less.hyps [OF this l'(2)]
    show ?thesis using k(1) se pc(1) l'(1) assms(3)
      by (subst split_loop.simps) (simp add: pieces.simps [of bs ss p])
  qed
qed

lemma octstr_split_rep:
  assumes "orep os bs" and "orep sep ss" and "ss \<noteq> []"
  shows "runs (octstr_split os sep) (\<lambda>l. lrep l (pieces bs ss 0))"
  using split_loop_rep [OF assms lrep_create, of 0] assms
  by (simp add: octstr_split_def octstr_len_rep)

fun join :: "byte list \<Rightarrow> byte list list \<Rightarrow> byte list" where
  "join sep [] = []"
| "join sep [x] = x"
| "join sep (x # y # ys) = x @ sep @ join sep (y # ys)"

lemma pieces_Nil: "sep \<noteq> [] \<Longrightarrow> pieces bs sep p = [] \<Longrightarrow> length bs \<le> p"
  by (subst (asm) pieces.simps) (auto simp: Let_def split: if_splits)

lemma match_at_split: "match_at bs sep k \<Longrightarrow> p \<le> k \<Longrightarrow> drop p bs = take (k - p) (drop p bs) @ sep @ drop (k + length sep) bs"
proof -
  assume m: "match_at bs sep k" "p \<le> k"
  have "drop p bs = take (k - p) (drop p bs) @ drop (k - p) (drop p bs)" by (simp del: drop_drop)
  also have "drop (k - p) (drop p bs) = drop k bs" using m(2) by simp
  also have "drop k bs = take (length sep) (drop k bs) @ drop (length sep) (drop k bs)" by (simp del: drop_drop)
  finally show ?thesis using m(1) by (simp add: match_at_def add.commute)
qed

text \<open>Nothing is lost: the pieces, joined again, give the string, but for a separator at its end.\<close>

lemma join_pieces:
  assumes "sep \<noteq> []"
  shows "p \<le> length bs \<Longrightarrow> join sep (pieces bs sep p) = drop p bs \<or> join sep (pieces bs sep p) @ sep = drop p bs"
proof (induction "Suc (length bs) - p" arbitrary: p rule: less_induct)
  case less
  show ?case
  proof (rule find_from_cases [of bs sep p])
    assume "find_from bs sep p = -1"
    then show ?thesis using assms by (auto simp: pieces.simps [of bs sep p])
  next
    fix k assume k: "find_from bs sep p = int k" "p \<le> k" "match_at bs sep k"
    let ?q = "k + length sep" and ?x = "take (k - p) (drop p bs)"
    have q: "?q \<le> length bs" "p < ?q" using k assms by (cases sep; simp add: match_at_def)+
    have ps: "pieces bs sep p = ?x # pieces bs sep ?q" using k(1) assms by (simp add: pieces.simps [of bs sep p])
    have d: "drop p bs = ?x @ sep @ drop ?q bs" by (rule match_at_split [OF k(3,2)])
    have IH: "join sep (pieces bs sep ?q) = drop ?q bs \<or> join sep (pieces bs sep ?q) @ sep = drop ?q bs"
      by (rule less.hyps) (use q less.prems in auto)
    show ?thesis
    proof (cases "pieces bs sep ?q")
      case Nil
      then have "drop ?q bs = []" using pieces_Nil [OF assms] by simp
      then show ?thesis using ps Nil d by simp
    next
      case (Cons y ys)
      then have "join sep (pieces bs sep p) = ?x @ sep @ join sep (pieces bs sep ?q)" using ps by simp
      then show ?thesis using IH d by (metis append_assoc)
    qed
  qed
qed

lemma match_at_take: "match_at (take n bs) sep i \<Longrightarrow> match_at bs sep i"
  by (auto simp: match_at_def drop_take min_def split: if_splits)

lemma match_at_drop:
  assumes "match_at (drop p bs) sep i" and "sep \<noteq> []"
  shows "match_at bs sep (p + i)"
proof -
  have "i + length sep \<le> length bs - p" "0 < length sep" using assms by (simp_all add: match_at_def)
  then have "p + i + length sep \<le> length bs" by linarith
  then show ?thesis using assms(1) by (simp add: match_at_def add.commute)
qed

lemma pieces_free:
  assumes "sep \<noteq> []"
  shows "x \<in> set (pieces bs sep p) \<Longrightarrow> \<not> match_at x sep i"
proof (induction "Suc (length bs) - p" arbitrary: p rule: less_induct)
  case less
  show ?case
  proof (rule find_from_cases [of bs sep p])
    assume n: "find_from bs sep p = -1" "\<And>j. p \<le> j \<Longrightarrow> \<not> match_at bs sep j"
    then have "x = drop p bs" using less.prems assms by (auto simp: pieces.simps [of bs sep p] split: if_splits)
    then show ?thesis using n(2) [of "p + i"] match_at_drop assms by auto
  next
    fix k assume k: "find_from bs sep p = int k" "p \<le> k" "match_at bs sep k"
      "\<And>j. p \<le> j \<Longrightarrow> j < k \<Longrightarrow> \<not> match_at bs sep j"
    let ?q = "k + length sep" and ?x = "take (k - p) (drop p bs)"
    have ps: "pieces bs sep p = ?x # pieces bs sep ?q" using k(1) assms by (simp add: pieces.simps [of bs sep p])
    have q: "?q \<le> length bs" "p < ?q" using k assms by (cases sep; simp add: match_at_def)+
    consider "x = ?x" | "x \<in> set (pieces bs sep ?q)" using less.prems ps by auto
    then show ?thesis
    proof cases
      case 1
      show ?thesis
      proof
        assume m: "match_at x sep i"
        then have "match_at bs sep (p + i)" using match_at_drop [OF match_at_take] assms 1 by blast
        moreover have "p + i < k" using m 1 k(2) assms by (cases sep) (auto simp: match_at_def)
        ultimately show False using k(4) [of "p + i"] by simp
      qed
    next
      case 2
      show ?thesis by (rule less.hyps [OF _ 2]) (use q in auto)
    qed
  qed
qed

section \<open>What replacing does\<close>

function replaced :: "byte list \<Rightarrow> byte list \<Rightarrow> byte list \<Rightarrow> nat \<Rightarrow> byte list" where
  "replaced hs nd rp p =
     (if nd = [] then hs
      else let k = find_from hs nd p in
        if k \<ge> 0 then replaced (take (nat k) hs @ rp @ drop (nat k + length nd) hs) nd rp (nat k + length rp)
        else hs)"
  by pat_completeness auto
termination
proof (relation "measure (\<lambda>(hs, nd, rp, p). Suc (length hs) - p)", goal_cases)
  case (2 hs nd rp p k)
  then obtain j where "k = int j" "p \<le> j" "j + length nd \<le> length hs" "0 < length nd"
    using find_from_bound [of hs nd p] by auto
  moreover from this have "p < length nd + j" by linarith
  ultimately show ?case by (simp add: diff_less_mono2)
qed simp

declare replaced.simps [simp del]

lemma replace_loop_rep:
  assumes "orep nd ns" and "orep rp rs" and "ns \<noteq> []"
  shows "mrep os hs \<Longrightarrow> runs (replace_loop os nd rp (int (length ns)) (int (length rs)) (int p)) (\<lambda>r. mrep r (replaced hs ns rs p))"
proof (induction "Suc (length hs) - p" arbitrary: p os hs rule: less_induct)
  case less
  have se: "octstr_search os nd (int p) = Some (find_from hs ns p)"
    using octstr_search_rep [OF mrep_orep [OF less.prems] assms(1), of "int p"] assms(3) by simp
  show ?case
  proof (rule find_from_cases [of hs ns p])
    assume "find_from hs ns p = -1"
    then show ?thesis using se less.prems assms(3)
      by (subst replace_loop.simps) (simp add: replaced.simps [of hs ns rs p])
  next
    fix k assume k: "find_from hs ns p = int k" "p \<le> k" "match_at hs ns k"
    have kl: "k + length ns \<le> length hs" "0 < length ns" using k(3) assms(3) by (simp_all add: match_at_def)
    obtain o1 where o1: "octstr_delete os (int k) (int (length ns)) = Some o1" "mrep o1 (take k hs @ drop (k + length ns) hs)"
      using octstr_delete_rep [OF less.prems, of "int k" "int (length ns)"] by (auto elim: runsE)
    let ?hs = "take k hs @ rs @ drop (k + length ns) hs"
    have "k \<le> length (take k hs @ drop (k + length ns) hs)" using kl by simp
    then obtain o2 where o2: "octstr_insert o1 (Some rp) (int k) = Some o2" "mrep o2 ?hs"
      using octstr_insert_rep [OF o1(2) assms(2), of k] kl by (auto elim: runsE)
    have "p < length ns + k" using kl(2) k(2) by linarith
    then have "Suc (length ?hs) - (k + length rs) < Suc (length hs) - p" using kl by (simp add: diff_less_mono2)
    from less.hyps [OF this o2(2)] show ?thesis using k(1) se o1(1) o2(1) assms(3)
      by (subst replace_loop.simps) (simp add: replaced.simps [of hs ns rs p])
  qed
qed

lemma octstr_replace_rep:
  assumes "mrep os hs" and "orep nd ns" and "orep rp rs" and "ns \<noteq> []"
  shows "runs (octstr_replace os nd rp) (\<lambda>r. mrep r (replaced hs ns rs 0))"
  using replace_loop_rep [OF assms(2-4,1), of 0] assms
  by (simp add: octstr_replace_def octstr_len_rep)

text \<open>
  An empty needle is found at position 0 whatever position the search starts from, so the
  loops that search on behind what they have found never end.
\<close>

lemma octstr_search_empty: "os_len nd = 0 \<Longrightarrow> octstr_search hay nd p = Some q \<Longrightarrow> q = 0"
  by (auto simp: octstr_search_def bind_eq_Some_conv split: if_splits)

lemma replace_loop_empty_needle: "os_len nd = 0 \<Longrightarrow> replace_loop hay nd rp len rlen p = None"
proof (rule ccontr)
  assume e: "os_len nd = 0" and "replace_loop hay nd rp len rlen p \<noteq> None"
  then obtain r where "replace_loop hay nd rp len rlen p = Some r" by blast
  then have "os_len nd = 0 \<longrightarrow> False"
    by (rule replace_loop.raw_induct [where P = "\<lambda>hay nd rp len rlen p r. os_len nd = 0 \<longrightarrow> False", rotated])
      (auto simp: bind_eq_Some_conv split: if_splits dest: octstr_search_empty)
  then show False using e by simp
qed

lemma split_loop_empty_separator: "os_len sep = 0 \<Longrightarrow> split_loop os sep n l p = None"
proof (rule ccontr)
  assume e: "os_len sep = 0" and "split_loop os sep n l p \<noteq> None"
  then obtain r where "split_loop os sep n l p = Some r" by blast
  then have "os_len sep = 0 \<longrightarrow> False"
    by (rule split_loop.raw_induct [where P = "\<lambda>os sep n l p r. os_len sep = 0 \<longrightarrow> False", rotated])
      (auto simp: bind_eq_Some_conv split: if_splits dest: octstr_search_empty)
  then show False using e by simp
qed

lemma octstr_replace_first_rep:
  assumes "mrep os hs" and "orep nd ns" and "orep rp rs" and "ns \<noteq> []"
  shows "runs (octstr_replace_first os nd rp) (\<lambda>r. mrep r (case find_from hs ns 0 of k \<Rightarrow>
    if k \<ge> 0 then take (nat k) hs @ rs @ drop (nat k + length ns) hs else hs))"
proof -
  have se: "octstr_search os nd 0 = Some (find_from hs ns 0)"
    using octstr_search_rep [OF mrep_orep [OF assms(1)] assms(2), of 0] assms(4) by simp
  show ?thesis
  proof (rule find_from_cases [of hs ns 0])
    assume "find_from hs ns 0 = -1"
    then show ?thesis using se assms by (simp add: octstr_replace_first_def octstr_len_rep)
  next
    fix k assume k: "find_from hs ns 0 = int k" "match_at hs ns k"
    have kl: "k + length ns \<le> length hs" using k(2) by (simp add: match_at_def)
    obtain o1 where o1: "octstr_delete os (int k) (int (length ns)) = Some o1" "mrep o1 (take k hs @ drop (k + length ns) hs)"
      using octstr_delete_rep [OF assms(1), of "int k" "int (length ns)"] by (auto elim: runsE)
    have "k \<le> length (take k hs @ drop (k + length ns) hs)" using kl by simp
    from octstr_insert_rep [OF o1(2) assms(3) this] show ?thesis using k(1) se o1(1) assms(2) kl
      by (simp add: octstr_replace_first_def octstr_len_rep)
  qed
qed

text \<open>Deleting every occurrence, also those that a deletion brings about behind its position.\<close>

function deleted :: "byte list \<Rightarrow> byte list \<Rightarrow> nat \<Rightarrow> byte list" where
  "deleted hs nd p =
     (if nd = [] then hs
      else let k = find_from hs nd p in
        if k \<ge> 0 then deleted (take (nat k) hs @ drop (nat k + length nd) hs) nd (nat k) else hs)"
  by pat_completeness auto
termination
proof (relation "measure (\<lambda>(hs, nd, p). length hs)", goal_cases)
  case (2 hs nd p k)
  then obtain j where "k = int j" "p \<le> j" "j + length nd \<le> length hs" "0 < length nd"
    using find_from_bound [of hs nd p] by auto
  moreover from this have "j + (length hs - (j + length nd)) < length hs" by linarith
  ultimately show ?case by simp
qed simp

declare deleted.simps [simp del]

lemma delete_loop_rep:
  assumes "orep nd ns" and "ns \<noteq> []"
  shows "mrep os hs \<Longrightarrow> runs (delete_loop os nd (int (length ns)) (int p)) (\<lambda>r. mrep r (deleted hs ns p))"
proof (induction "length hs" arbitrary: p os hs rule: less_induct)
  case less
  have se: "octstr_search os nd (int p) = Some (find_from hs ns p)"
    using octstr_search_rep [OF mrep_orep [OF less.prems] assms(1), of "int p"] assms(2) by simp
  show ?case
  proof (rule find_from_cases [of hs ns p])
    assume "find_from hs ns p = -1"
    then show ?thesis using se less.prems assms(2)
      by (subst delete_loop.simps) (simp add: deleted.simps [of hs ns p])
  next
    fix k assume k: "find_from hs ns p = int k" "p \<le> k" "match_at hs ns k"
    have kl: "k + length ns \<le> length hs" "0 < length ns" using k(3) assms(2) by (simp_all add: match_at_def)
    obtain o1 where o1: "octstr_delete os (int k) (int (length ns)) = Some o1" "mrep o1 (take k hs @ drop (k + length ns) hs)"
      using octstr_delete_rep [OF less.prems, of "int k" "int (length ns)"] by (auto elim: runsE)
    have "k + (length hs - (k + length ns)) < length hs" using kl by linarith
    then have "length (take k hs @ drop (k + length ns) hs) < length hs" using kl by simp
    from less.hyps [OF this o1(2)] show ?thesis using k(1) se o1(1) assms(2)
      by (subst delete_loop.simps) (simp add: deleted.simps [of hs ns p])
  qed
qed

lemma octstr_delete_matching_rep:
  assumes "mrep os hs" and "orep nd ns" and "ns \<noteq> []"
  shows "runs (octstr_delete_matching os nd) (\<lambda>r. mrep r (deleted hs ns 0))"
  using delete_loop_rep [OF assms(2,3,1), of 0] assms
  by (simp add: octstr_delete_matching_def octstr_len_rep seems_valid_rep [OF mrep_orep] seems_valid_rep mrep_mutable)

fun symbolized :: "byte list \<Rightarrow> byte list" where
  "symbolized (a # b # bs) = 0x25 # a # b # symbolized bs"
| "symbolized [a] = [0x25, a]"
| "symbolized [] = []"

lemma symbolize_loop_rep:
  "mrep os (out @ bs) \<Longrightarrow>
   runs (symbolize_loop os (int (length out)) (int (length out + length bs + length bs div 2)))
     (\<lambda>r. mrep r (out @ symbolized bs))"
proof (induction bs arbitrary: os out rule: symbolized.induct)
  case (1 a b bs)
  obtain o1 where o1: "octstr_insert_data os (int (length out)) [Some 0x25, Some 0] 1 = Some o1"
      "mrep o1 (out @ 0x25 # a # b # bs)"
    using octstr_insert_data_rep [OF "1.prems", of "length out" "[0x25]" "[Some 0]"] by (auto elim: runsE)
  have "runs (symbolize_loop o1 (int (length (out @ [0x25, a, b]))) (int (length (out @ [0x25, a, b]) + length bs + length bs div 2)))
     (\<lambda>r. mrep r ((out @ [0x25, a, b]) @ symbolized bs))"
    by (rule "1.IH") (use o1(2) in simp)
  then show ?case using o1(1) by (subst symbolize_loop.simps) (simp add: algebra_simps)
next
  case (2 a)
  obtain o1 where o1: "octstr_insert_data os (int (length out)) [Some 0x25, Some 0] 1 = Some o1" "mrep o1 (out @ [0x25, a])"
    using octstr_insert_data_rep [OF 2, of "length out" "[0x25]" "[Some 0]"] by (auto elim: runsE)
  have "symbolize_loop o1 (int (length out) + 3) (int (length out) + 1) = Some o1" by (subst symbolize_loop.simps) simp
  then show ?case using o1 by (subst symbolize_loop.simps) (simp add: algebra_simps)
next
  case 3
  then show ?case by (subst symbolize_loop.simps) simp
qed

lemma octstr_symbolize_rep:
  assumes "mrep os bs"
  shows "if list_all (\<lambda>b. gw_isxdigit (uint b)) bs
    then \<exists>r. octstr_symbolize os = Some (if bs = [] then 0 else 1, r) \<and> mrep r (symbolized bs)
    else octstr_symbolize os = Some (-1, os)"
proof (cases "bs = []")
  case True
  then show ?thesis using assms
    by (simp add: octstr_symbolize_def seems_valid_rep [OF mrep_orep] mrep_mutable mrep_len)
next
  case ne: False
  note chk = octstr_check_range_rep [OF mrep_orep [OF assms], of 0 "int (length bs)" gw_isxdigit, simplified]
  note simps = octstr_symbolize_def seems_valid_rep [OF mrep_orep [OF assms]] mrep_mutable [OF assms] mrep_len [OF assms]
  show ?thesis
  proof (cases "list_all (\<lambda>b. gw_isxdigit (uint b)) bs")
    case False
    then show ?thesis using ne chk by (simp add: simps)
  next
    case True
    have "0 \<le> int (length bs) * 2" by simp
    then obtain o1 rest where g: "octstr_grow os (int (length bs) * 2) = Some o1" "filled o1 bs rest"
        "int (length bs) * 2 < int (length bs + length rest)" "bs \<noteq> [] \<longrightarrow> (\<exists>r. rest = Some 0 # r)"
      by (rule octstr_grow_rep [OF assms])
    then have m: "mrep o1 bs" using ne filled_mrep by blast
    obtain r where "symbolize_loop o1 0 (int (length bs + length bs div 2)) = Some r" "mrep r (symbolized bs)"
      using symbolize_loop_rep [of o1 "[]" bs] m by (auto elim: runsE)
    then show ?thesis using True ne chk g(1) by (simp add: simps zdiv_int)
  qed
qed

section \<open>The hash\<close>

fun hash_bytes :: "byte list \<Rightarrow> 64 word \<Rightarrow> 64 word \<Rightarrow> 64 word" where
  "hash_bytes [] hash a = hash"
| "hash_bytes (b # bs) hash a = hash_bytes bs (hash * a + scast b) (a * 378551)"

lemma hash_loop_list:
  "hash_loop (map Some xs @ map Some ys @ r) (int (length xs)) (int (length xs + length ys)) h a = Some (hash_bytes ys h a)"
proof (induction ys arbitrary: xs h a)
  case Nil
  then show ?case by (simp add: hash_loop.simps)
next
  case (Cons b ys)
  have "rd (map Some xs @ map Some (b # ys) @ r) (int (length xs)) = Some b" by (simp add: rd_def nth_append)
  then show ?case using Cons [of "xs @ [b]"] by (subst hash_loop.simps) (simp add: algebra_simps)
qed

text \<open>The hash depends on the octets alone and fits in 31 bits.\<close>

lemma octstr_hash_key_rep:
  assumes "orep os bs"
  shows "octstr_hash_key (Some os) = Some (hash_bytes bs 0 63689 AND 0x7FFFFFFF)"
proof (cases "bs = []")
  case True
  then show ?thesis using assms
    by (simp add: octstr_hash_key_def octstr_len_rep octstr_get_cstr_def seems_valid_rep orep_len hash_loop.simps)
next
  case False
  obtain rest where d: "os_data os = map Some bs @ Some 0 # rest" using orep_data [OF assms False] by blast
  then show ?thesis using assms False hash_loop_list [of "[]" bs "Some 0 # rest" 0 63689]
    by (simp add: octstr_hash_key_def octstr_len_rep octstr_get_cstr_def seems_valid_rep orep_len)
qed

section \<open>Words\<close>

function words :: "byte list \<Rightarrow> byte list list" where
  "words bs = (case dropWhile (\<lambda>b. isspace (uint b)) bs of [] \<Rightarrow> []
     | w # ws \<Rightarrow> takeWhile (\<lambda>b. \<not> isspace (uint b)) (w # ws) # words (dropWhile (\<lambda>b. \<not> isspace (uint b)) (w # ws)))"
  by pat_completeness auto
termination
proof (relation "measure length", goal_cases)
  case (2 bs w ws)
  have "\<not> isspace (uint w)" using 2 by (metis dropWhile_eq_Cons_conv)
  then have "length (dropWhile (\<lambda>b. \<not> isspace (uint b)) (w # ws)) \<le> length ws" by (simp add: length_dropWhile_le)
  moreover have "length (w # ws) \<le> length bs" using length_dropWhile_le [of "\<lambda>b. isspace (uint b)" bs] 2 by simp
  ultimately show ?case by simp
qed simp

declare words.simps [simp del]

lemma scan_class_rep:
  "orep os (xs @ ys) \<Longrightarrow> scan_class p (os_data os) (int (length xs)) (os_len os) =
     Some (int (length xs + length (takeWhile (\<lambda>b. p (uint b)) ys)))"
proof (induction ys arbitrary: xs)
  case Nil
  then show ?case by (subst scan_class.simps) (simp add: orep_len [OF Nil])
next
  case (Cons y ys)
  have "rd (os_data os) (int (length xs)) = Some y"
    using orep_rd [OF Cons.prems, of "int (length xs)"] by (simp add: nth_append)
  then show ?case using Cons.IH [of "xs @ [y]"] Cons.prems
    by (subst scan_class.simps) (simp add: orep_len [OF Cons.prems] algebra_simps)
qed

lemma split_words_loop_rep:
  "orep os (xs @ ys) \<Longrightarrow> lrep l acc \<Longrightarrow>
   runs (split_words_loop os l (int (length xs))) (\<lambda>l. lrep l (acc @ words ys))"
proof (induction "length ys" arbitrary: xs ys l acc rule: less_induct)
  case less
  let ?S = "\<lambda>b. isspace (uint b)"
  define bl where "bl = takeWhile ?S ys"
  define ws where "ws = dropWhile ?S ys"
  define w where "w = takeWhile (\<lambda>b. \<not> ?S b) ws"
  define zs where "zs = dropWhile (\<lambda>b. \<not> ?S b) ws"
  have ys: "ys = bl @ ws" "ws = w @ zs" by (simp_all add: bl_def ws_def w_def zs_def)
  have o1: "orep os ((xs @ bl) @ ws)" using less.prems(1) ys(1) by simp
  have o2: "orep os ((xs @ bl @ w) @ zs)" using o1 ys(2) by simp
  have start: "scan_class isspace (os_data os) (int (length xs)) (os_len os) = Some (int (length (xs @ bl)))"
    using scan_class_rep [OF less.prems(1), of isspace] by (simp add: bl_def)
  have fin: "scan_class (\<lambda>c. \<not> isspace c) (os_data os) (int (length (xs @ bl))) (os_len os) = Some (int (length (xs @ bl @ w)))"
    using scan_class_rep [OF o1, of "\<lambda>c. \<not> isspace c"] by (simp add: w_def)
  show ?case
  proof (cases ws)
    case Nil
    then have "w = []" by (simp add: w_def)
    moreover have "words ys = []" using Nil by (simp add: words.simps ws_def [symmetric])
    ultimately show ?thesis using start fin less.prems(2) by (subst split_words_loop.simps) simp
  next
    case (Cons v vs)
    have nv: "\<not> ?S v" using Cons by (metis dropWhile_eq_Cons_conv ws_def)
    then have wne: "w \<noteq> []" by (simp add: w_def Cons)
    have wd: "words ys = w # words zs" using Cons by (simp add: words.simps [of ys] ws_def [symmetric] w_def zs_def)
    obtain rest where d: "os_data os = map Some (xs @ ys) @ Some 0 # rest"
      using orep_data [OF less.prems(1)] wne ys by auto
    have tk: "take (nat (int (length (xs @ bl @ w)) - int (length (xs @ bl)))) (drop (nat (int (length (xs @ bl)))) (os_data os)) = map Some w"
      by (simp add: d ys)
    have "runs (octstr_create_from_data (os_data os) (int (length (xs @ bl))) (int (length (xs @ bl @ w)) - int (length (xs @ bl))))
        (\<lambda>r. mrep r w)"
      by (rule octstr_create_from_data_rep [OF _ _ tk]) simp_all
    then obtain word where word: "octstr_create_from_data (os_data os) (int (length (xs @ bl)))
        (int (length (xs @ bl @ w)) - int (length (xs @ bl))) = Some word" "mrep word w" by (auto elim: runsE)
    obtain l' where l': "gwlist_append l word = Some l'" "lrep l' (acc @ [w])"
      using lrep_append [OF less.prems(2) word(2)] by (auto elim: runsE)
    have "length zs < length ys" using wne ys by simp
    from less.hyps [OF this o2 l'(2)]
    have rec: "runs (split_words_loop os l' (int (length (xs @ bl @ w)))) (\<lambda>l. lrep l (acc @ words ys))"
      by (simp add: wd)
    have ne: "int (length (xs @ bl)) \<noteq> int (length (xs @ bl @ w))" using wne by simp
    show ?thesis using start fin word(1) l'(1) rec ne
      by (subst split_words_loop.simps) (simp only: Option.bind.bind_lunit if_False)
  qed
qed

lemma octstr_split_words_rep:
  assumes "orep os bs"
  shows "runs (octstr_split_words os) (\<lambda>l. lrep l (words bs))"
  using split_words_loop_rep [of os "[]" bs gwlist_create "[]"] assms lrep_create
  by (simp add: octstr_split_words_def seems_valid_rep)

end
