(* ===== verification/Octstr_Uintvar.thy ===== *)
theory Octstr_Uintvar
  imports Octstr
begin

text \<open>
  The variable-length integers of \<open>gwlib/octstr.c\<close>: seven bits per octet, most significant
  first, the top bit marking that more octets follow.
\<close>

unbundle bit_operations_syntax

section \<open>Operations\<close>

function uintvar_loop :: "byte cells \<Rightarrow> 64 word \<Rightarrow> int \<Rightarrow> (byte cells \<times> int) option" where
  "uintvar_loop octets value i =
     (if value > 0 \<and> i \<ge> 0 then do {
        octets \<leftarrow> wr octets i (0x80 OR ucast (value AND 0x7F));
        uintvar_loop octets (drop_bit 7 value) (i - 1) }
      else Some (octets, i))"
  by pat_completeness auto
termination
  by (relation "measure (\<lambda>(octets, value, i). nat (i + 1))") auto

declare uintvar_loop.simps [simp del]

definition octstr_append_uintvar :: "octstr \<Rightarrow> 64 word \<Rightarrow> octstr option" where
  "octstr_append_uintvar ostr value = do {
     octets \<leftarrow> wr (replicate 5 None) 4 (ucast (value AND 0x7F));
     (octets, i) \<leftarrow> uintvar_loop octets (drop_bit 7 value) 3;
     let start = i + 1;
     octstr_append_data ostr (drop (nat start) octets) (5 - start) }"

text \<open>The return value and, unless it is \<open>-1\<close>, the number read.\<close>

function extract_loop :: "octstr \<Rightarrow> int \<Rightarrow> int \<Rightarrow> 64 word \<Rightarrow> (int \<times> 64 word option) option" where
  "extract_loop ostr pos count ui =
     (if count < 5 then do {
        c \<leftarrow> octstr_get_char ostr (pos + count);
        if c < 0 then Some (-1, None)
        else do {
          let ui = push_bit 7 ui OR word_of_int (c AND 0x7F);
          if c AND 0x80 = 0 then Some (pos + count + 1, Some ui)
          else extract_loop ostr pos (count + 1) ui } }
      else Some (-1, None))"
  by pat_completeness auto
termination
  by (relation "measure (\<lambda>(ostr, pos, count, ui). nat (5 - count))") auto

declare extract_loop.simps [simp del]

definition octstr_extract_uintvar :: "octstr \<Rightarrow> int \<Rightarrow> (int \<times> 64 word option) option" where
  "octstr_extract_uintvar ostr pos = extract_loop ostr pos 0 0"

section \<open>Encoding as a list\<close>

fun uv_high :: "nat \<Rightarrow> 64 word \<Rightarrow> byte list" where
  "uv_high 0 v = []"
| "uv_high (Suc k) v = (if v = 0 then [] else uv_high k (drop_bit 7 v) @ [0x80 OR ucast (v AND 0x7F)])"

definition uintvar :: "64 word \<Rightarrow> byte list" where
  "uintvar v = uv_high 4 (drop_bit 7 v) @ [ucast (v AND 0x7F)]"

lemma length_uv_high: "length (uv_high k v) \<le> k"
  by (induction k v rule: uv_high.induct) auto

lemma uintvar_loop_list:
  "\<exists>n. n + length (uv_high k v) = k \<and> uintvar_loop (replicate k None @ map Some ys) v (int k - 1) =
     Some (replicate n None @ map Some (uv_high k v @ ys), int n - 1)"
proof (induction k v arbitrary: ys rule: uv_high.induct)
  case (1 v)
  then show ?case by (simp add: uintvar_loop.simps)
next
  case (2 k v)
  show ?case
  proof (cases "v = 0")
    case True
    then show ?thesis by (intro exI [of _ "Suc k"]) (simp add: uintvar_loop.simps)
  next
    case False
    let ?d = "0x80 OR ucast (v AND 0x7F) :: byte"
    have "wr (replicate (Suc k) None @ map Some ys) (int k) ?d = Some (replicate k None @ map Some (?d # ys))"
      using wr_at [of "replicate k None" None "map Some ys" ?d]
      by (simp add: replicate_append_same flip: replicate_Suc append_Cons) (simp add: replicate_app_Cons_same)
    moreover have "v > 0" using False by (simp add: word_gt_0)
    ultimately show ?thesis using "2.IH" [OF False, of "?d # ys"] False
      by (subst uintvar_loop.simps) (simp del: replicate_Suc)
  qed
qed

lemma octstr_append_uintvar_rep:
  assumes "mrep os bs"
  shows "runs (octstr_append_uintvar os v) (\<lambda>r. mrep r (bs @ uintvar v))"
proof -
  let ?d = "ucast (v AND 0x7F) :: byte" and ?h = "uv_high 4 (drop_bit 7 v)"
  have w: "wr (replicate 5 None) 4 ?d = Some (replicate 4 None @ map Some [?d])"
    by (simp add: wr_def numeral_eq_Suc)
  obtain n where n: "n + length ?h = 4" "uintvar_loop (replicate 4 None @ map Some [?d]) (drop_bit 7 v) 3 =
      Some (replicate n None @ map Some (uintvar v), int n - 1)"
    using uintvar_loop_list [of 4 "drop_bit 7 v" "[?d]"] by (auto simp: uintvar_def)
  have l: "5 - int n = int (length (uintvar v))" using n(1) by (simp add: uintvar_def)
  have "octstr_append_uintvar os v = octstr_append_data os (map Some (uintvar v) @ []) (int (length (uintvar v)))"
    unfolding octstr_append_uintvar_def w Option.bind.bind_lunit n(2) prod.case Let_def using l by simp
  then show ?thesis using octstr_append_data_rep [OF assms, of "uintvar v" "[]"] by simp
qed

section \<open>Decoding\<close>

text \<open>The decoder on a list; \<open>n\<close> more octets may be read.\<close>

fun uv_read :: "nat \<Rightarrow> byte list \<Rightarrow> 64 word \<Rightarrow> (nat \<times> 64 word) option" where
  "uv_read 0 bs ui = None"
| "uv_read (Suc n) [] ui = None"
| "uv_read (Suc n) (b # bs) ui =
     (let ui = push_bit 7 ui OR ucast (b AND 0x7F) in
      if b AND 0x80 = 0 then Some (1, ui)
      else map_option (\<lambda>(k, v). (Suc k, v)) (uv_read n bs ui))"

lemma low7_int: "(word_of_int (uint b AND 0x7F) :: 64 word) = ucast (b AND 0x7F :: byte)"
proof -
  have "uint b AND 0x7F = uint (b AND 0x7F)" by (simp add: unsigned_and_eq)
  then show ?thesis by simp
qed

lemma top_bit_int: "uint b AND 0x80 = 0 \<longleftrightarrow> b AND 0x80 = (0 :: byte)"
proof -
  have "uint b AND 0x80 = uint (b AND 0x80)" by (simp add: unsigned_and_eq)
  then show ?thesis by (simp add: uint_0_iff)
qed

lemma extract_loop_rep:
  assumes "orep os (xs @ ys)" and "count + n = 5"
  shows "extract_loop os (int (length xs) - int count) (int count) ui =
    Some (case uv_read n ys ui of None \<Rightarrow> (-1, None) | Some (k, v) \<Rightarrow> (int (length xs + k), Some v))"
  using assms
proof (induction n ys ui arbitrary: xs count rule: uv_read.induct)
  case (1 bs ui)
  then show ?case by (subst extract_loop.simps) simp
next
  case (2 n ui)
  then have "octstr_get_char os (int (length xs)) = Some (-1)" by (simp add: octstr_get_char_rep [OF "2.prems"(1)])
  then show ?case using "2.prems"(2) by (subst extract_loop.simps) simp
next
  case (3 n b bs ui)
  have ch: "octstr_get_char os (int (length xs)) = Some (uint b)"
    by (simp add: octstr_get_char_rep [OF "3.prems"(1)] nth_append)
  let ?ui = "push_bit 7 ui OR ucast (b AND 0x7F)"
  show ?case
  proof (cases "b AND 0x80 = 0")
    case True
    then show ?thesis using ch "3.prems"(2)
      by (subst extract_loop.simps) (simp add: Let_def low7_int top_bit_int)
  next
    case False
    have "extract_loop os (int (length (xs @ [b])) - int (Suc count)) (int (Suc count)) ?ui =
      Some (case uv_read n bs ?ui of None \<Rightarrow> (-1, None) | Some (k, v) \<Rightarrow> (int (length (xs @ [b]) + k), Some v))"
      by (rule "3.IH" [OF refl False]) (use "3.prems" in auto)
    then show ?thesis using ch "3.prems"(2) False
      by (subst extract_loop.simps) (auto simp: Let_def low7_int top_bit_int algebra_simps split: option.splits)
  qed
qed

lemma octstr_extract_uintvar_rep:
  assumes "orep os (xs @ ys)"
  shows "octstr_extract_uintvar os (int (length xs)) =
    Some (case uv_read 5 ys 0 of None \<Rightarrow> (-1, None) | Some (k, v) \<Rightarrow> (int (length xs + k), Some v))"
  using extract_loop_rep [OF assms, of 0 5 0] by (simp add: octstr_extract_uintvar_def)

section \<open>Round trip\<close>

lemma cont_low7: "ucast ((0x80 OR ucast (v AND 0x7F) :: byte) AND 0x7F) = (v AND 0x7F :: 64 word)"
  by (rule bit_word_eqI) (auto simp: bit_simps numeral_eq_Suc less_Suc_eq)

lemma cont_top: "(0x80 OR x :: byte) AND 0x80 \<noteq> 0"
proof -
  have "bit ((0x80 OR x) AND 0x80 :: byte) 7" by (simp add: bit_simps)
  then show ?thesis by auto
qed

lemma last_low7: "ucast ((ucast (v AND 0x7F) :: byte) AND 0x7F) = (v AND 0x7F :: 64 word)"
  "(ucast (v AND 0x7F) :: byte) AND 0x80 = 0" 
  by (rule bit_word_eqI; auto simp: bit_simps numeral_eq_Suc less_Suc_eq)+

lemma push_low7: "push_bit 7 (take_bit n (drop_bit 7 v)) OR (v AND 0x7F) = (take_bit (n + 7) v :: 64 word)"
proof -
  have "v AND 0x7F = take_bit 7 v" by (simp add: take_bit_eq_mask mask_numeral)
  then show ?thesis
    by (intro bit_word_eqI) (auto simp: bit_simps)
qed

lemma uv_read_cont:
  "uv_read (Suc m) ((0x80 OR ucast (v AND 0x7F)) # ys) ui =
   map_option (\<lambda>(j, w). (Suc j, w)) (uv_read m ys (push_bit 7 ui OR (v AND 0x7F)))"
  by (simp only: uv_read.simps Let_def cont_low7 cont_top if_False)

lemma uv_read_high:
  "uv_read (m + length (uv_high k v)) (uv_high k v @ ys) 0 =
   map_option (\<lambda>(j, w). (length (uv_high k v) + j, w)) (uv_read m ys (take_bit (7 * k) v))"
proof (induction k v arbitrary: m ys rule: uv_high.induct)
  case (1 v)
  show ?case by (cases "uv_read m ys 0") auto
next
  case (2 k v)
  show ?case
  proof (cases "v = 0")
    case True
    then show ?thesis by (cases "uv_read m ys 0") auto
  next
    case False
    have e: "push_bit 7 (take_bit (7 * k) (drop_bit 7 v)) OR (v AND 0x7F) = take_bit (7 * Suc k) v"
      using push_low7 [of "7 * k" v] by (simp add: add.commute)
    show ?thesis using False "2.IH" [OF False, of "Suc m" "(0x80 OR ucast (v AND 0x7F)) # ys"] e
      by (simp add: uv_read_cont option.map_comp comp_def case_prod_beta del: mult_Suc_right uv_read.simps)
  qed
qed

lemma uv_read_uintvar: "uv_read 5 (uintvar v @ zs) 0 = Some (length (uintvar v), take_bit 35 v)"
proof -
  let ?h = "uv_high 4 (drop_bit 7 v)"
  obtain m where m: "5 = Suc m + length ?h"
    using length_uv_high [of 4 "drop_bit 7 v"] by (metis add.commute add_Suc_right le_add_diff_inverse numeral_eq_Suc pred_numeral_simps(3) semiring_norm(26) semiring_norm(27) semiring_norm(28))
  have "push_bit 7 (take_bit 28 (drop_bit 7 v)) OR (v AND 0x7F) = take_bit 35 v"
    using push_low7 [of 28 v] by simp
  then show ?thesis
    unfolding uintvar_def append_assoc append_Cons append_Nil m uv_read_high
    by (simp add: Let_def last_low7)
qed

end
