(* ===== verification/Octstr_Spec.thy ===== *)
theory Octstr_Spec
  imports Octstr_Hex Octstr_Url Octstr_Base64 Octstr_Search Octstr_Edit Octstr_Uintvar
begin

text \<open>
  The contract of \<open>gwlib/octstr.h\<close>: the operations as transformations of a list of octets, and
  the refinement of the length-and-buffer representation to it. An operation of the
  specification is \<open>None\<close> exactly where the C code fails an assertion, writes outside its
  buffer or does not return.
\<close>

section \<open>Operations\<close>

text \<open>A second string that an operation takes is given by its octets and created by the call.\<close>

datatype octstr_op =
    OLen
  | OGet int
  | OSet int int
  | OInsert int "byte list"
  | OInsertData int "byte list"
  | OAppend "byte list"
  | OAppendChar int
  | OTruncate int
  | ODelete int int
  | OCopy int int
  | OCompare "byte list"
  | OSearchChar int int
  | OSearch "byte list" int
  | OReplace "byte list" "byte list"
  | OStripBlanks
  | OShrinkBlanks
  | OToHex bool
  | OFromHex
  | OUrlEncode
  | OUrlDecode
  | OShellEscape
  | OToBase64
  | OFromBase64
  | OAppendUintvar "64 word"
  | OHash

datatype octstr_res = ODone | ONum int | OStr "byte list" | OKey "64 word"

definition fresh :: "byte list \<Rightarrow> octstr option" where
  "fresh ys = octstr_create_from_data (map Some ys) 0 (int (length ys))"

definition unnull :: "'a option option \<Rightarrow> 'a option" where
  "unnull m = do { r \<leftarrow> m; r }"

fun octstr_call :: "octstr_op \<Rightarrow> octstr \<Rightarrow> (octstr_res \<times> octstr) option" where
  "octstr_call OLen os = map_option (\<lambda>n. (ONum n, os)) (octstr_len (Some os))"
| "octstr_call (OGet pos) os = map_option (\<lambda>c. (ONum c, os)) (octstr_get_char os pos)"
| "octstr_call (OSet pos ch) os = map_option (Pair ODone) (octstr_set_char os pos ch)"
| "octstr_call (OInsert pos ys) os =
     map_option (Pair ODone) (do { os2 \<leftarrow> fresh ys; octstr_insert os (Some os2) pos })"
| "octstr_call (OInsertData pos ys) os =
     map_option (Pair ODone) (octstr_insert_data os pos (map Some ys) (int (length ys)))"
| "octstr_call (OAppend ys) os =
     map_option (Pair ODone) (do { os2 \<leftarrow> fresh ys; octstr_append os (Some os2) })"
| "octstr_call (OAppendChar ch) os = map_option (Pair ODone) (octstr_append_char os ch)"
| "octstr_call (OTruncate n) os = map_option (Pair ODone) (unnull (octstr_truncate (Some os) n))"
| "octstr_call (ODelete pos n) os = map_option (Pair ODone) (octstr_delete os pos n)"
| "octstr_call (OCopy pos n) os =
     map_option (\<lambda>r. (OStr (bytes r), os)) (octstr_copy (Some os) pos n)"
| "octstr_call (OCompare ys) os =
     map_option (\<lambda>c. (ONum c, os)) (do { os2 \<leftarrow> fresh ys; octstr_compare os os2 })"
| "octstr_call (OSearchChar ch pos) os = map_option (\<lambda>c. (ONum c, os)) (octstr_search_char os ch pos)"
| "octstr_call (OSearch ys pos) os =
     map_option (\<lambda>c. (ONum c, os)) (do { os2 \<leftarrow> fresh ys; octstr_search os os2 pos })"
| "octstr_call (OReplace ns rs) os =
     map_option (Pair ODone) (do { nd \<leftarrow> fresh ns; rp \<leftarrow> fresh rs; octstr_replace os nd rp })"
| "octstr_call OStripBlanks os = map_option (Pair ODone) (octstr_strip_blanks os)"
| "octstr_call OShrinkBlanks os = map_option (Pair ODone) (octstr_shrink_blanks os)"
| "octstr_call (OToHex up) os = map_option (Pair ODone) (octstr_binary_to_hex os up)"
| "octstr_call OFromHex os = map_option (\<lambda>(r, os). (ONum r, os)) (octstr_hex_to_binary os)"
| "octstr_call OUrlEncode os = map_option (Pair ODone) (unnull (octstr_url_encode (Some os)))"
| "octstr_call OUrlDecode os =
     do { (r, os) \<leftarrow> octstr_url_decode (Some os); os \<leftarrow> os; Some (ONum r, os) }"
| "octstr_call OShellEscape os = map_option (Pair ODone) (unnull (octstr_shell_escape (Some os)))"
| "octstr_call OToBase64 os = map_option (Pair ODone) (octstr_binary_to_base64 os)"
| "octstr_call OFromBase64 os = map_option (Pair ODone) (octstr_base64_to_binary os)"
| "octstr_call (OAppendUintvar v) os = map_option (Pair ODone) (octstr_append_uintvar os v)"
| "octstr_call OHash os = map_option (\<lambda>k. (OKey k, os)) (octstr_hash_key (Some os))"

fun bytes_spec :: "octstr_op \<Rightarrow> byte list \<Rightarrow> (octstr_res \<times> byte list) option" where
  "bytes_spec OLen bs = Some (ONum (int (length bs)), bs)"
| "bytes_spec (OGet pos) bs =
     Some (ONum (if 0 \<le> pos \<and> pos < int (length bs) then uint (bs ! nat pos) else -1), bs)"
| "bytes_spec (OSet pos ch) bs =
     (if 0 \<le> pos then Some (ODone, if pos < int (length bs) then bs[nat pos := word_of_int ch] else bs) else None)"
| "bytes_spec (OInsert pos ys) bs =
     (if pos > int (length bs) \<or> pos < 0 \<and> ys \<noteq> [] then None
      else Some (ODone, take (nat pos) bs @ ys @ drop (nat pos) bs))"
| "bytes_spec (OInsertData pos ys) bs =
     (if pos > int (length bs) \<or> pos < 0 \<and> ys \<noteq> [] then None
      else Some (ODone, take (nat pos) bs @ ys @ drop (nat pos) bs))"
| "bytes_spec (OAppend ys) bs = Some (ODone, bs @ ys)"
| "bytes_spec (OAppendChar ch) bs =
     (if 0 \<le> ch \<and> ch \<le> 255 then Some (ODone, bs @ [word_of_int ch]) else None)"
| "bytes_spec (OTruncate n) bs = (if 0 \<le> n then Some (ODone, take (nat n) bs) else None)"
| "bytes_spec (ODelete pos n) bs =
     (if n \<le> 0 then Some (ODone, bs)
      else if pos < 0 then None
      else Some (ODone, take (nat pos) bs @ drop (nat pos + nat n) bs))"
| "bytes_spec (OCopy pos n) bs =
     (if 0 \<le> pos \<and> 0 \<le> n then Some (OStr (take (nat n) (drop (nat pos) bs)), bs) else None)"
| "bytes_spec (OCompare ys) bs = Some (ONum (cmp_bytes bs ys), bs)"
| "bytes_spec (OSearchChar ch pos) bs =
     (if 0 \<le> ch \<and> ch \<le> 255 \<and> 0 \<le> pos
      then Some (ONum (find_from bs [word_of_int ch] (nat pos)), bs) else None)"
| "bytes_spec (OSearch ys pos) bs =
     (if 0 \<le> pos then Some (ONum (if ys = [] then 0 else find_from bs ys (nat pos)), bs) else None)"
| "bytes_spec (OReplace ns rs) bs = (if ns = [] then None else Some (ODone, replaced bs ns rs 0))"
| "bytes_spec OStripBlanks bs = Some (ODone, strip isspace bs)"
| "bytes_spec OShrinkBlanks bs = Some (ODone, shrink bs)"
| "bytes_spec (OToHex up) bs = Some (ODone, hex_encode up bs)"
| "bytes_spec OFromHex bs =
     Some (if list_all (\<lambda>b. gw_isxdigit (uint b)) bs then (ONum 0, hex_decode bs) else (ONum (-1), bs))"
| "bytes_spec OUrlEncode bs = Some (ODone, url_encoded bs)"
| "bytes_spec OUrlDecode bs = Some (ONum (snd (url_decoded True bs)), fst (url_decoded True bs))"
| "bytes_spec OShellEscape bs = Some (ODone, shell_quoted bs)"
| "bytes_spec OToBase64 bs = Some (ODone, if bs = [] then [13, 10] else b64_encode bs)"
| "bytes_spec OFromBase64 bs = Some (ODone, b64_decode bs)"
| "bytes_spec (OAppendUintvar v) bs = Some (ODone, bs @ uintvar v)"
| "bytes_spec OHash bs = Some (OKey (hash_bytes bs 0 63689 AND 0x7FFFFFFF), bs)"

section \<open>Refinement\<close>

lemma fresh_rep: obtains os where "fresh ys = Some os" "mrep os ys" "orep os ys"
proof -
  have "runs (fresh ys) (\<lambda>os. mrep os ys)"
    unfolding fresh_def by (rule octstr_create_from_data_rep) simp_all
  then show ?thesis using that mrep_orep by (auto elim: runsE)
qed

lemma done_rep:
  "runs m (\<lambda>r. mrep r ys) \<Longrightarrow> \<exists>os'. map_option (Pair ODone) m = Some (ODone, os') \<and> mrep os' ys"
  by (auto elim: runsE)

lemma unnull_rep:
  "\<exists>r. m = Some (Some r) \<and> mrep r ys \<Longrightarrow>
   \<exists>os'. map_option (Pair ODone) (unnull m) = Some (ODone, os') \<and> mrep os' ys"
  by (auto simp: unnull_def)

lemma octstr_insert_out:
  assumes "mrep os bs" "orep os2 ys" "pos > int (length bs) \<or> pos < 0 \<and> ys \<noteq> []"
  shows "octstr_insert os (Some os2) pos = None"
proof (cases "pos > int (length bs)")
  case True
  then show ?thesis using assms
    by (simp add: octstr_insert_def seems_valid_rep [OF mrep_orep] seems_valid_rep mrep_len gw_assert_def)
next
  case False
  then have "pos < 0" "os_len os2 \<noteq> 0" using assms by (auto simp: orep_len)
  moreover have "memmove d (p + n) p k = None" if "p < 0" for d :: "byte cells" and p n k
    using that by (simp add: memmove_def)
  ultimately show ?thesis by (auto simp: octstr_insert_def bind_eq_None_conv)
qed

lemma octstr_insert_data_out:
  assumes "mrep os bs" "pos > int (length bs) \<or> pos < 0 \<and> n \<noteq> 0"
  shows "octstr_insert_data os pos d n = None"
proof (cases "pos > int (length bs)")
  case True
  then show ?thesis using assms
    by (simp add: octstr_insert_data_def seems_valid_rep [OF mrep_orep] mrep_len gw_assert_def mrep_mutable)
next
  case False
  then have "pos < 0" "n \<noteq> 0" using assms by auto
  moreover have "memcpy a p b q k = None" if "p < 0" for a b :: "byte cells" and p q k
    using that by (simp add: memcpy_def)
  ultimately show ?thesis by (auto simp: octstr_insert_data_def bind_eq_None_conv)
qed

lemma octstr_delete_nothing: "mrep os bs \<Longrightarrow> n \<le> 0 \<Longrightarrow> octstr_delete os pos n = Some os"
  by (auto simp: octstr_delete_def Let_def seems_valid_rep [OF mrep_orep] mrep_len mrep_mutable)

lemma octstr_delete_out:
  assumes "mrep os bs" "0 < n" "pos < 0"
  shows "octstr_delete os pos n = None"
  using assms
  by (auto simp: octstr_delete_def Let_def seems_valid_rep [OF mrep_orep] mrep_len mrep_mutable memmove_def)

lemma octstr_replace_empty:
  assumes "orep nd []"
  shows "octstr_replace os nd rp = None"
  using orep_len [OF assms] by (simp add: octstr_replace_def bind_eq_None_conv replace_loop_empty_needle)


lemma octstr_insert_in:
  assumes "mrep os bs" "orep os2 ys" "pos \<le> int (length bs)" "0 \<le> pos \<or> ys = []"
  shows "runs (octstr_insert os (Some os2) pos) (\<lambda>r. mrep r (take (nat pos) bs @ ys @ drop (nat pos) bs))"
proof (cases "0 \<le> pos")
  case True
  then show ?thesis using octstr_insert_rep [OF assms(1,2), of "nat pos"] assms by simp
next
  case False
  then show ?thesis using assms
    by (simp add: octstr_insert_def seems_valid_rep [OF mrep_orep] seems_valid_rep mrep_len orep_len mrep_mutable)
qed

lemma octstr_insert_data_in:
  assumes "mrep os bs" "pos \<le> int (length bs)" "0 \<le> pos \<or> ys = []"
  shows "runs (octstr_insert_data os pos (map Some ys) (int (length ys)))
    (\<lambda>r. mrep r (take (nat pos) bs @ ys @ drop (nat pos) bs))"
proof (cases "0 \<le> pos")
  case True
  then show ?thesis using octstr_insert_data_rep [OF assms(1), of "nat pos" ys "[]"] assms by simp
next
  case False
  then show ?thesis using assms
    by (simp add: octstr_insert_data_def seems_valid_rep [OF mrep_orep] mrep_len mrep_mutable)
qed

lemma octstr_call_refines:
  assumes m: "mrep os bs" and s: "bytes_spec c bs = Some (r, ys)"
  shows "\<exists>os'. octstr_call c os = Some (r, os') \<and> mrep os' ys"
proof -
  note o = mrep_orep [OF m]
  show ?thesis
  proof (cases c)
    case OLen
    then show ?thesis using m s by (auto simp: octstr_len_rep [OF o])
  next
    case (OGet pos)
    then show ?thesis using m s by (auto simp: octstr_get_char_rep [OF o])
  next
    case (OSet pos ch)
    then show ?thesis using s done_rep [OF octstr_set_char_rep [OF m, of pos ch]] by (auto split: if_splits)
  next
    case (OInsert pos zs)
    then have p: "pos \<le> int (length bs)" "0 \<le> pos \<or> zs = []" using s by (auto split: if_splits)
    obtain os2 where f: "fresh zs = Some os2" "orep os2 zs" by (rule fresh_rep)
    then show ?thesis using OInsert s done_rep [OF octstr_insert_in [OF m f(2) p]] by (auto split: if_splits)
  next
    case (OInsertData pos zs)
    then have p: "pos \<le> int (length bs)" "0 \<le> pos \<or> zs = []" using s by (auto split: if_splits)
    then show ?thesis using OInsertData s done_rep [OF octstr_insert_data_in [OF m p]] by (auto split: if_splits)
  next
    case (OAppend zs)
    obtain os2 where f: "fresh zs = Some os2" "orep os2 zs" by (rule fresh_rep)
    then show ?thesis using OAppend s done_rep [OF octstr_append_rep [OF m f(2)]] by auto
  next
    case (OAppendChar ch)
    then show ?thesis using s done_rep [OF octstr_append_char_rep [OF m, of ch]] by (auto split: if_splits)
  next
    case (OTruncate n)
    then show ?thesis using s unnull_rep [OF octstr_truncate_rep [OF m, of n]] by (auto split: if_splits)
  next
    case (ODelete pos n)
    then show ?thesis using m s done_rep [OF octstr_delete_rep [OF m, of pos n]]
      by (auto simp: octstr_delete_nothing split: if_splits)
  next
    case (OCopy pos n)
    then show ?thesis using m s octstr_copy_rep [OF o, of pos n]
      by (auto simp: mrep_def orep_iff elim!: runsE split: if_splits)
  next
    case (OCompare zs)
    obtain os2 where f: "fresh zs = Some os2" "orep os2 zs" by (rule fresh_rep)
    then show ?thesis using OCompare s m by (auto simp: octstr_compare_rep [OF o])
  next
    case (OSearchChar ch pos)
    then have "0 \<le> ch" "ch \<le> 255" using s by (auto split: if_splits)
    then have "uint (word_of_int ch :: byte) = ch" by (simp add: uint_word_of_int)
    then show ?thesis using OSearchChar s m octstr_search_char_rep [OF o, of pos "word_of_int ch"]
      by (auto split: if_splits)
  next
    case (OSearch zs pos)
    obtain os2 where f: "fresh zs = Some os2" "orep os2 zs" by (rule fresh_rep)
    then show ?thesis using OSearch s m octstr_search_rep [OF o f(2), of pos] by (auto split: if_splits)
  next
    case (OReplace ns rs)
    obtain nd where f: "fresh ns = Some nd" "orep nd ns" by (rule fresh_rep)
    obtain rp where g: "fresh rs = Some rp" "orep rp rs" by (rule fresh_rep)
    show ?thesis using OReplace s f(1) g(1) done_rep [OF octstr_replace_rep [OF m f(2) g(2)]]
      by (auto split: if_splits)
  next
    case OStripBlanks
    then show ?thesis using s done_rep [OF octstr_strip_rep(1) [OF m]] by simp
  next
    case OShrinkBlanks
    then show ?thesis using s done_rep [OF octstr_shrink_blanks_rep [OF m]] by simp
  next
    case (OToHex up)
    then show ?thesis using s done_rep [OF octstr_binary_to_hex_rep [OF m, of up]] by simp
  next
    case OFromHex
    then show ?thesis using s m octstr_hex_to_binary_rep [OF m] by (auto split: if_splits)
  next
    case OUrlEncode
    then show ?thesis using s unnull_rep [OF octstr_url_encode_rep [OF m]] by simp
  next
    case OUrlDecode
    then show ?thesis using s octstr_url_decode_rep [OF m] by auto
  next
    case OShellEscape
    then show ?thesis using s unnull_rep [OF octstr_shell_escape_rep [OF m]] by simp
  next
    case OToBase64
    then show ?thesis using s done_rep [OF octstr_binary_to_base64_rep [OF m]] by simp
  next
    case OFromBase64
    then show ?thesis using s done_rep [OF octstr_base64_to_binary_rep [OF m]] by simp
  next
    case (OAppendUintvar v)
    then show ?thesis using s done_rep [OF octstr_append_uintvar_rep [OF m, of v]] by simp
  next
    case OHash
    then show ?thesis using s m octstr_hash_key_rep [OF o] by auto
  qed
qed


lemma octstr_call_aborts:
  assumes m: "mrep os bs" and s: "bytes_spec c bs = None"
  shows "octstr_call c os = None"
proof -
  note o = mrep_orep [OF m]
  show ?thesis
  proof (cases c)
    case (OInsert pos zs)
    obtain os2 where f: "fresh zs = Some os2" "orep os2 zs" by (rule fresh_rep)
    then show ?thesis using OInsert s octstr_insert_out [OF m f(2), of pos] by (auto split: if_splits)
  next
    case (OSearch zs pos)
    then show ?thesis using s by (auto simp: octstr_search_def gw_assert_def bind_eq_None_conv split: if_splits)
  next
    case (OReplace ns rs)
    obtain nd where f: "fresh ns = Some nd" "orep nd ns" by (rule fresh_rep)
    then show ?thesis using OReplace s by (auto simp: bind_eq_None_conv octstr_replace_empty split: if_splits)
  qed (use s in \<open>auto split: if_splits simp: octstr_set_char_negative [OF o] octstr_insert_data_out [OF m]
      octstr_delete_out [OF m] octstr_append_char_def octstr_truncate_def octstr_copy_def octstr_search_char_def
      gw_assert_def bind_eq_None_conv unnull_def\<close>)
qed

interpretation ostr: refines mrep octstr_call bytes_spec
  by unfold_locales (auto intro: octstr_call_refines octstr_call_aborts)

end
