(* ===== verification/Octstr_Properties.thy ===== *)
theory Octstr_Properties
  imports Octstr_Spec
begin

text \<open>
  The properties of the octet strings: the refinement to lists of octets, and what the codecs,
  comparisons, searches and splits of \<open>gwlib/octstr.c\<close> promise.
\<close>

section \<open>Valid strings\<close>

text \<open>A mutable string that holds \<open>bs\<close> and its terminator in an area without slack.\<close>

definition lit :: "byte list \<Rightarrow> octstr" where
  "lit bs = \<lparr>os_data = map Some bs @ [Some 0], os_len = int (length bs), os_size = int (length bs) + 1,
     os_immutable = False\<rparr>"

lemma lit_rep: "mrep (lit bs) bs"
  by (simp add: lit_def mrep_def orep_def)

lemma lit_ok [simp]: "octstr_ok (lit bs)" "\<not> os_immutable (lit bs)" "bytes (lit bs) = bs"
  using lit_rep [of bs] by (simp_all add: mrep_def orep_iff)

lemma mrepI: "octstr_ok os \<Longrightarrow> \<not> os_immutable os \<Longrightarrow> mrep os (bytes os)"
  by (simp add: mrep_def orep_iff)

lemma orepI: "octstr_ok os \<Longrightarrow> orep os (bytes os)"
  by (simp add: orep_iff)

lemma mrepD: "mrep os bs \<Longrightarrow> octstr_ok os \<and> bytes os = bs \<and> \<not> os_immutable os"
  by (simp add: mrep_def orep_iff)

lemma lrepD: "lrep l bss \<Longrightarrow> gwlist_ok l \<and> map bytes (items l) = bss"
  by (auto simp: lrep_def rep_iff list_all2_conv_all_nth mrep_def orep_iff intro: nth_equalityI)

section \<open>Refinement\<close>



section \<open>Codecs\<close>

lemma hexits_plain: "n < 16 \<Longrightarrow> hexits True ! n \<noteq> 0x20 \<and> is_safe (hexits True ! n)"
proof -
  assume "n < 16"
  then have "hexits True ! n \<in> set (hexits True)" by (intro nth_mem) (simp add: hexits_def cstr_def)
  moreover have "list_all (\<lambda>c. c \<noteq> 0x20 \<and> is_safe c) (hexits True)" by code_simp
  ultimately show ?thesis by (simp add: list_all_iff)
qed

lemma url_char_plain: "list_all (\<lambda>b. b \<noteq> 0x20 \<and> (is_safe b \<or> b = 0x25 \<or> b = 0x2B)) (url_char c)"
  by (auto simp: url_char_def hexits_plain nibble_bounds)

lemma url_encoded_plain: "list_all (\<lambda>b. b \<noteq> 0x20 \<and> (is_safe b \<or> b = 0x25 \<or> b = 0x2B)) (url_encoded bs)"
  by (induction bs) (simp_all add: url_char_plain)

text \<open>
  \<^bold>\<open>C13\<close> URL encoding is a codec on all octet strings: \<open>octstr_url_encode\<close> yields a string
  of unreserved characters, \<open>%\<close> and \<open>+\<close> only, without spaces, and \<open>octstr_url_decode\<close>
  of it reports success and gives the original octets back.
\<close>

theorem octstr_url_roundtrip:
  assumes "octstr_ok os" and "\<not> os_immutable os"
  shows "\<exists>e d. octstr_url_encode (Some os) = Some (Some e) \<and>
    list_all (\<lambda>b. b \<noteq> 0x20 \<and> (is_safe b \<or> b = 0x25 \<or> b = 0x2B)) (bytes e) \<and>
    octstr_url_decode (Some e) = Some (0, Some d) \<and> octstr_ok d \<and> bytes d = bytes os"
proof -
  obtain e where e: "octstr_url_encode (Some os) = Some (Some e)" "mrep e (url_encoded (bytes os))"
    using octstr_url_encode_rep [OF mrepI [OF assms]] by blast
  obtain d where "octstr_url_decode (Some e) = Some (0, Some d)" "mrep d (bytes os)"
    using octstr_url_decode_rep [OF e(2)] by (auto simp: url_decoded_encoded)
  then show ?thesis using e url_encoded_plain [of "bytes os"] by (auto dest!: mrepD)
qed

theorem octstr_url_roundtrip_witness:
  "\<exists>e d. octstr_url_encode (Some (lit [0, 0x20, 0xFF, 0x2B])) = Some (Some e) \<and>
    octstr_url_decode (Some e) = Some (0, Some d) \<and> bytes d = [0, 0x20, 0xFF, 0x2B]"
  using octstr_url_roundtrip [of "lit [0, 0x20, 0xFF, 0x2B]"] by auto

text \<open>
  \<^bold>\<open>C14\<close> Base64 round trip: encoding a nonempty string, line breaks included, and
  decoding the result gives the original octets back.
\<close>

theorem octstr_base64_roundtrip:
  assumes "octstr_ok os" and "\<not> os_immutable os" and "bytes os \<noteq> []"
  shows "\<exists>e d. octstr_binary_to_base64 os = Some e \<and> octstr_base64_to_binary e = Some d \<and>
    octstr_ok d \<and> bytes d = bytes os"
proof -
  obtain e where e: "octstr_binary_to_base64 os = Some e" "mrep e (b64_encode (bytes os))"
    using octstr_binary_to_base64_rep [OF mrepI [OF assms(1,2)]] assms(3) by (auto elim: runsE)
  obtain d where "octstr_base64_to_binary e = Some d" "mrep d (bytes os)"
    using octstr_base64_to_binary_rep [OF e(2)] b64_decode_encode [OF assms(3)] by (auto elim: runsE)
  then show ?thesis using e by (auto dest!: mrepD)
qed

theorem octstr_base64_roundtrip_witness:
  "\<exists>e d. octstr_binary_to_base64 (lit [1, 0, 255, 7]) = Some e \<and> octstr_base64_to_binary e = Some d \<and>
    octstr_ok d \<and> bytes d = [1, 0, 255, 7]"
  using octstr_base64_roundtrip [of "lit [1, 0, 255, 7]"] by simp

text \<open>
  \<^bold>\<open>C15\<close> Hexadecimal round trip: the string that \<open>octstr_binary_to_hex\<close> builds, in either
  case, holds two hexadecimal digits per octet, is accepted by \<open>octstr_hex_to_binary\<close> and
  becomes the original octets again; a string with any other character is rejected unchanged.
\<close>

theorem octstr_hex_roundtrip:
  assumes "octstr_ok os" and "\<not> os_immutable os"
  shows "(\<exists>e d. octstr_binary_to_hex os up = Some e \<and> length (bytes e) = 2 * length (bytes os) \<and>
      octstr_hex_to_binary e = Some (0, d) \<and> octstr_ok d \<and> bytes d = bytes os) \<and>
    (\<not> list_all (\<lambda>b. gw_isxdigit (uint b)) (bytes os) \<longrightarrow> octstr_hex_to_binary os = Some (-1, os))"
proof -
  obtain e where e: "octstr_binary_to_hex os up = Some e" "mrep e (hex_encode up (bytes os))"
    using octstr_binary_to_hex_rep [OF mrepI [OF assms]] by (rule runsE)
  obtain d where "octstr_hex_to_binary e = Some (0, d)" "mrep d (bytes os)"
    using octstr_hex_to_binary_rep [OF e(2)] by (auto simp: hex_encode_hex hex_decode_encode)
  moreover have "length (hex_encode up xs) = 2 * length xs" for xs
    by (induction xs) (simp_all add: hex_encode_def)
  moreover have "\<not> list_all (\<lambda>b. gw_isxdigit (uint b)) (bytes os) \<longrightarrow> octstr_hex_to_binary os = Some (-1, os)"
    using octstr_hex_to_binary_rep [OF mrepI [OF assms]] by simp
  ultimately show ?thesis using e by (auto dest!: mrepD)
qed

theorem octstr_hex_roundtrip_witness:
  "(\<exists>e d. octstr_binary_to_hex (lit [0xAB, 1]) False = Some e \<and> length (bytes e) = 4 \<and>
      octstr_hex_to_binary e = Some (0, d) \<and> octstr_ok d \<and> bytes d = [0xAB, 1]) \<and>
   octstr_hex_to_binary (lit [0x67]) = Some (-1, lit [0x67])"
proof -
  have "\<not> list_all (\<lambda>b. gw_isxdigit (uint b)) [0x67 :: byte]" by code_simp
  then show ?thesis using octstr_hex_roundtrip [of "lit [0xAB, 1]" False]
    octstr_hex_roundtrip [of "lit [0x67]" False] by simp
qed



text \<open>
  \<^bold>\<open>C29\<close> Variable-length integers: appending any number below \<open>2 ^ 35\<close> and extracting it at
  the position where it was appended returns the number and the position just after it;
  of a larger number the lowest 35 bits come back.
\<close>

theorem octstr_uintvar_roundtrip:
  assumes "octstr_ok os" and "\<not> os_immutable os"
  shows "\<exists>e. octstr_append_uintvar os v = Some e \<and> octstr_ok e \<and>
    octstr_extract_uintvar e (int (length (bytes os))) = Some (int (length (bytes e)), Some (take_bit 35 v)) \<and>
    (v < 2 ^ 35 \<longrightarrow> take_bit 35 v = v)"
proof -
  obtain e where e: "octstr_append_uintvar os v = Some e" "mrep e (bytes os @ uintvar v)"
    using octstr_append_uintvar_rep [OF mrepI [OF assms]] by (rule runsE)
  have "take_bit 35 v = v" if "v < 2 ^ 35"
  proof (rule word_uint_eqI)
    show "uint (take_bit 35 v) = uint v" using that
      by (simp add: unsigned_take_bit_eq word_less_def take_bit_int_eq_self)
  qed
  then show ?thesis
    using e octstr_extract_uintvar_rep [OF mrep_orep [OF e(2)]] uv_read_uintvar [of v "[]"]
    by (auto dest!: mrepD)
qed

theorem octstr_uintvar_roundtrip_witness:
  "\<exists>e. octstr_append_uintvar (lit [7]) 1000000 = Some e \<and> octstr_ok e \<and>
    octstr_extract_uintvar e 1 = Some (int (length (bytes e)), Some 1000000)"
proof -
  have "(1000000 :: 64 word) < 2 ^ 35" by code_simp
  then show ?thesis using octstr_uintvar_roundtrip [of "lit [7]" 1000000] by auto
qed

section \<open>Comparing and searching\<close>

text \<open>
  \<^bold>\<open>C11\<close> \<open>octstr_compare\<close> is the lexicographic order on octets, a shorter string before its
  extensions, and \<open>octstr_case_compare\<close> the same order on the strings in upper case; so both
  are total preorders, as sorting with them requires.
\<close>

theorem octstr_compare_lexicographic:
  assumes "octstr_ok a" and "octstr_ok b"
  shows "\<exists>c d. octstr_compare a b = Some c \<and> (c = 0 \<longleftrightarrow> bytes a = bytes b) \<and>
      (c < 0 \<longleftrightarrow> bytes a < bytes b) \<and> (c > 0 \<longleftrightarrow> bytes b < bytes a) \<and>
    octstr_case_compare a b = Some d \<and> (d = 0 \<longleftrightarrow> upper (bytes a) = upper (bytes b)) \<and>
      (d < 0 \<longleftrightarrow> upper (bytes a) < upper (bytes b)) \<and> (d > 0 \<longleftrightarrow> upper (bytes b) < upper (bytes a))"
  using octstr_compare_rep [OF orepI [OF assms(1)] orepI [OF assms(2)]]
    octstr_case_compare_rep [OF orepI [OF assms(1)] orepI [OF assms(2)]]
  by (auto simp: cmp_bytes_def cmp_upper_def)

theorem octstr_compare_lexicographic_witness:
  "\<exists>c d. octstr_compare (lit [0x61, 0xFF]) (lit [0x41]) = Some c \<and> c > 0 \<and>
    octstr_case_compare (lit [0x61, 0xFF]) (lit [0x41]) = Some d \<and> d > 0"
proof -
  have "[0x41] < [0x61, 0xFF :: byte]" "upper [0x41] < upper [0x61, 0xFF :: byte]" by code_simp+
  then show ?thesis using octstr_compare_lexicographic [of "lit [0x61, 0xFF]" "lit [0x41]"] by auto
qed

text \<open>
  \<^bold>\<open>C12\<close> \<open>octstr_search\<close> returns the least position at or after \<open>pos\<close> at which the whole
  nonempty needle occurs in the haystack, and \<open>-1\<close> exactly when there is none.
\<close>

theorem octstr_search_first:
  assumes "octstr_ok h" and "octstr_ok n" and "bytes n \<noteq> []"
  shows "\<exists>r. octstr_search h n (int p) = Some r \<and>
    (r = -1 \<and> (\<forall>k\<ge>p. \<not> match_at (bytes h) (bytes n) k) \<or>
     (\<exists>k\<ge>p. r = int k \<and> match_at (bytes h) (bytes n) k \<and>
       (\<forall>j. p \<le> j \<and> j < k \<longrightarrow> \<not> match_at (bytes h) (bytes n) j)))"
  using octstr_search_rep [OF orepI [OF assms(1)] orepI [OF assms(2)], of "int p"] assms(3)
  by (cases rule: find_from_cases [of "bytes h" "bytes n" p]) auto

theorem octstr_search_first_witness:
  "octstr_search (lit [1, 2, 1, 2, 3, 1, 2, 3]) (lit [1, 2, 3]) 1 = Some 2"
proof -
  have n: "\<not> match_at [1, 2, 1, 2, 3, 1, 2, 3] [1, 2, 3 :: byte] 1"
    and m: "match_at [1, 2, 1, 2, 3, 1, 2, 3] [1, 2, 3 :: byte] 2" by code_simp+
  have e: "k = 2" if "1 \<le> k" "match_at [1, 2, 1, 2, 3, 1, 2, 3] [1, 2, 3 :: byte] k"
    "\<forall>j. 1 \<le> j \<and> j < k \<longrightarrow> \<not> match_at [1, 2, 1, 2, 3, 1, 2, 3] [1, 2, 3 :: byte] j" for k
    using that n m by (metis One_nat_def Suc_1 le_less_Suc_eq linorder_not_less not_less_eq_eq one_le_numeral)
  show ?thesis using octstr_search_first [of "lit [1, 2, 1, 2, 3, 1, 2, 3]" "lit [1, 2, 3]" 1] e m
    by auto
qed

text \<open>
  \<^bold>\<open>C28\<close> \<open>octstr_split\<close> by a nonempty separator returns a list of strings none of which
  contains the separator and which, joined by it, give the original string back, up to one
  trailing separator.
\<close>

theorem octstr_split_join:
  assumes "octstr_ok os" and "octstr_ok sep" and "bytes sep \<noteq> []"
  shows "\<exists>l. octstr_split os sep = Some l \<and> gwlist_ok l \<and>
    list_all (\<lambda>x. \<forall>i. \<not> match_at x (bytes sep) i) (map bytes (items l)) \<and>
    (join (bytes sep) (map bytes (items l)) = bytes os \<or>
     join (bytes sep) (map bytes (items l)) @ bytes sep = bytes os)"
proof -
  obtain l where l: "octstr_split os sep = Some l" "lrep l (pieces (bytes os) (bytes sep) 0)"
    using octstr_split_rep [OF orepI [OF assms(1)] orepI [OF assms(2)] assms(3)] by (rule runsE)
  have "list_all (\<lambda>x. \<forall>i. \<not> match_at x (bytes sep) i) (pieces (bytes os) (bytes sep) 0)"
    using pieces_free [OF assms(3)] by (auto simp: list_all_iff)
  then show ?thesis using l(1) lrepD [OF l(2)] join_pieces [OF assms(3), of 0 "bytes os"]
    by (intro exI [of _ l]) (simp del: list.pred_map)
qed

theorem octstr_split_join_witness:
  "\<exists>l. octstr_split (lit [1, 9, 9, 2]) (lit [9]) = Some l \<and> gwlist_ok l \<and>
    list_all (\<lambda>x. \<forall>i. \<not> match_at x [9] i) (map bytes (items l)) \<and>
    (join [9] (map bytes (items l)) = [1, 9, 9, 2] \<or> join [9] (map bytes (items l)) @ [9] = [1, 9, 9, 2])"
  using octstr_split_join [of "lit [1, 9, 9, 2]" "lit [9]"] by simp

text \<open>
  \<^bold>\<open>C14\<close> With an empty needle, \<open>octstr_replace\<close> and \<open>octstr_split\<close> never return:
  \<open>octstr_search\<close> finds the empty string at position 0 again and again.
\<close>

theorem octstr_empty_needle_loops:
  assumes "octstr_ok nd" and "bytes nd = []"
  shows "octstr_replace os nd rp = None \<and> octstr_split os nd = None"
proof -
  have "os_len nd = 0" using orep_len [OF orepI [OF assms(1)]] assms(2) by simp
  then show ?thesis
    by (simp add: octstr_replace_def octstr_split_def bind_eq_None_conv replace_loop_empty_needle
        split_loop_empty_separator)
qed

theorem octstr_empty_needle_loops_witness:
  "octstr_replace (lit [1, 2]) (lit []) (lit [3]) = None \<and> octstr_split (lit [1, 2]) (lit []) = None"
  using octstr_empty_needle_loops [of "lit []"] by simp

text \<open>
  \<^bold>\<open>C15\<close> \<open>octstr_ncompare\<close> compares only as many octets as the shorter string has: it
  answers \<open>0\<close> for any two strings of different lengths of which one is a prefix of the other,
  even when they differ within the first \<open>n\<close> octets, the empty string included.
\<close>

theorem octstr_ncompare_prefix:
  assumes "octstr_ok a" and "octstr_ok b" and "bytes b = bytes a @ c # cs" and "0 \<le> n"
  shows "octstr_ncompare a b n = Some 0 \<and> octstr_ncompare b a n = Some 0"
  using octstr_ncompare_rep [OF orepI [OF assms(1)] orepI [OF assms(2)] assms(4)]
    octstr_ncompare_rep [OF orepI [OF assms(2)] orepI [OF assms(1)] assms(4)] assms(3)
  by (simp add: cmp_bytes_def min_def)

theorem octstr_ncompare_prefix_witness:
  "octstr_ncompare (lit []) (lit [0x4F, 0x4B]) 2 = Some 0"
  using octstr_ncompare_prefix [of "lit []" "lit [0x4F, 0x4B]" "0x4F" "[0x4B]" 2] by simp

end
