(* ===== verification/Octets.thy ===== *)
theory Octets
  imports Octstr_Properties
begin

text \<open>
  The layer above \<open>gwlib/octstr.c\<close>. The components that only use octet strings see an
  \<open>Octstr *\<close> as its list of octets; the functions below are the calls they make, on lists.
  Each of them is shown to be what the call does on the buffer representation, aborts
  included. The second half adds the number functions of \<open>octstr.c\<close>, directly on lists.
\<close>

type_synonym octets = "byte list"

section \<open>The calls on lists\<close>

definition oct_len :: "octets \<Rightarrow> int" where
  "oct_len bs = int (length bs)"

definition oct_get :: "octets \<Rightarrow> int \<Rightarrow> int" where
  "oct_get bs pos = (if 0 \<le> pos \<and> pos < int (length bs) then uint (bs ! nat pos) else -1)"

definition oct_set :: "octets \<Rightarrow> int \<Rightarrow> int \<Rightarrow> octets option" where
  "oct_set bs pos ch =
     (if 0 \<le> pos then Some (if pos < int (length bs) then bs[nat pos := word_of_int ch] else bs) else None)"

definition oct_copy :: "octets \<Rightarrow> int \<Rightarrow> int \<Rightarrow> octets option" where
  "oct_copy bs from len =
     (if 0 \<le> from \<and> 0 \<le> len then Some (take (nat len) (drop (nat from) bs)) else None)"

definition oct_insert :: "octets \<Rightarrow> octets \<Rightarrow> int \<Rightarrow> octets option" where
  "oct_insert bs ys pos =
     (if pos > int (length bs) \<or> pos < 0 \<and> ys \<noteq> [] then None
      else Some (take (nat pos) bs @ ys @ drop (nat pos) bs))"

definition oct_delete :: "octets \<Rightarrow> int \<Rightarrow> int \<Rightarrow> octets option" where
  "oct_delete bs pos len =
     (if len \<le> 0 then Some bs
      else if pos < 0 then None
      else Some (take (nat pos) bs @ drop (nat pos + nat len) bs))"

definition oct_truncate :: "octets \<Rightarrow> int \<Rightarrow> octets option" where
  "oct_truncate bs n = (if 0 \<le> n then Some (take (nat n) bs) else None)"

definition oct_append_char :: "octets \<Rightarrow> int \<Rightarrow> octets option" where
  "oct_append_char bs ch = (if 0 \<le> ch \<and> ch \<le> 255 then Some (bs @ [word_of_int ch]) else None)"

definition oct_search_char :: "octets \<Rightarrow> int \<Rightarrow> int \<Rightarrow> int option" where
  "oct_search_char bs ch pos =
     (if 0 \<le> ch \<and> ch \<le> 255 \<and> 0 \<le> pos then Some (find_from bs [word_of_int ch] (nat pos)) else None)"

definition oct_search :: "octets \<Rightarrow> octets \<Rightarrow> int \<Rightarrow> int option" where
  "oct_search bs ys pos =
     (if 0 \<le> pos then Some (if ys = [] then 0 else find_from bs ys (nat pos)) else None)"

definition oct_hash_key :: "octets \<Rightarrow> 64 word" where
  "oct_hash_key bs = hash_bytes bs 0 63689 AND 0x7FFFFFFF"

definition oct_strip_blanks :: "octets \<Rightarrow> octets" where
  "oct_strip_blanks bs = strip isspace bs"

definition oct_strip_crlfs :: "octets \<Rightarrow> octets" where
  "oct_strip_crlfs bs = strip iscrlf bs"

text \<open>
  What \<open>agrees m o\<close> says of a call \<open>m\<close> on buffers and its counterpart \<open>o\<close> on lists: both
  abort, or both return and the string returned holds the list returned.
\<close>

definition agrees :: "octstr option \<Rightarrow> octets option \<Rightarrow> bool" where
  "agrees m o1 \<longleftrightarrow> (case o1 of None \<Rightarrow> m = None | Some bs \<Rightarrow> runs m (\<lambda>os. mrep os bs))"

lemma agrees_call:
  assumes "mrep os bs" and "octstr_call c os = map_option (Pair ODone) m"
    and "bytes_spec c bs = map_option (Pair ODone) o1"
  shows "agrees m o1"
  using octstr_call_refines [OF assms(1), of c] octstr_call_aborts [OF assms(1), of c] assms(2,3)
  by (cases o1) (auto simp: agrees_def runs_def)

lemma oct_refines:
  assumes "mrep os bs" and "orep os2 ys"
  shows "octstr_len (Some os) = Some (oct_len bs)"
    and "octstr_get_char os pos = Some (oct_get bs pos)"
    and "agrees (octstr_set_char os pos ch) (oct_set bs pos ch)"
    and "agrees (octstr_copy (Some os) pos len) (oct_copy bs pos len)"
    and "agrees (octstr_insert os (Some os2) pos) (oct_insert bs ys pos)"
    and "agrees (octstr_delete os pos len) (oct_delete bs pos len)"
    and "agrees (unnull (octstr_truncate (Some os) len)) (oct_truncate bs len)"
    and "agrees (octstr_append_char os ch) (oct_append_char bs ch)"
    and "octstr_search_char os ch pos = oct_search_char bs ch pos"
    and "octstr_search os os2 pos = oct_search bs ys pos"
    and "octstr_hash_key (Some os) = Some (oct_hash_key bs)"
    and "agrees (octstr_strip_blanks os) (Some (oct_strip_blanks bs))"
    and "agrees (octstr_strip_crlfs os) (Some (oct_strip_crlfs bs))"
proof -
  note o = mrep_orep [OF assms(1)]
  show "octstr_len (Some os) = Some (oct_len bs)" by (simp add: octstr_len_rep [OF o] oct_len_def)
  show "octstr_get_char os pos = Some (oct_get bs pos)" by (simp add: octstr_get_char_rep [OF o] oct_get_def)
  show "agrees (octstr_set_char os pos ch) (oct_set bs pos ch)"
    by (rule agrees_call [OF assms(1), of "OSet pos ch"]) (simp_all add: oct_set_def)
  show "agrees (octstr_copy (Some os) pos len) (oct_copy bs pos len)"
    using octstr_copy_rep [OF o, of pos len]
    by (auto simp: agrees_def oct_copy_def octstr_copy_def gw_assert_def bind_eq_None_conv)
  show "agrees (octstr_insert os (Some os2) pos) (oct_insert bs ys pos)"
    using octstr_insert_in [OF assms, of pos] octstr_insert_out [OF assms, of pos]
    by (auto simp: agrees_def oct_insert_def)
  show "agrees (octstr_delete os pos len) (oct_delete bs pos len)"
    by (rule agrees_call [OF assms(1), of "ODelete pos len"]) (simp_all add: oct_delete_def)
  show "agrees (unnull (octstr_truncate (Some os) len)) (oct_truncate bs len)"
    by (rule agrees_call [OF assms(1), of "OTruncate len"]) (simp_all add: oct_truncate_def)
  show "agrees (octstr_append_char os ch) (oct_append_char bs ch)"
    by (rule agrees_call [OF assms(1), of "OAppendChar ch"]) (simp_all add: oct_append_char_def)
  show "octstr_search_char os ch pos = oct_search_char bs ch pos"
    using octstr_call_refines [OF assms(1), of "OSearchChar ch pos"]
      octstr_call_aborts [OF assms(1), of "OSearchChar ch pos"]
    by (auto simp: oct_search_char_def split: if_splits)
  show "octstr_search os os2 pos = oct_search bs ys pos"
    using octstr_search_rep [OF o assms(2), of pos]
    by (auto simp: oct_search_def octstr_search_def gw_assert_def bind_eq_None_conv)
  show "octstr_hash_key (Some os) = Some (oct_hash_key bs)"
    by (simp add: octstr_hash_key_rep [OF o] oct_hash_key_def)
  show "agrees (octstr_strip_blanks os) (Some (oct_strip_blanks bs))"
    by (simp add: agrees_def octstr_strip_rep(1) [OF assms(1)] oct_strip_blanks_def)
  show "agrees (octstr_strip_crlfs os) (Some (oct_strip_crlfs bs))"
    by (simp add: agrees_def octstr_strip_rep(2) [OF assms(1)] oct_strip_crlfs_def)
qed

section \<open>Numbers\<close>

text \<open>The value of a digit in bases up to 36; 99 for any other character.\<close>

definition digit_of :: "byte \<Rightarrow> int" where
  "digit_of c =
     (if isdigit (uint c) then uint c - 48
      else if islower (uint c) then uint c - 97 + 10
      else if isupper (uint c) then uint c - 65 + 10
      else 99)"

definition LONG_MAX :: int where
  "LONG_MAX = 2 ^ 63 - 1"

definition LONG_MIN :: int where
  "LONG_MIN = - (2 ^ 63)"

definition digits_value :: "int \<Rightarrow> byte list \<Rightarrow> int" where
  "digits_value base ds = foldl (\<lambda>n d. n * base + digit_of d) 0 ds"

text \<open>
  \<open>strtol\<close> of the C library in the C locale: white space, a sign, a prefix \<open>0x\<close> for base 16
  and 0 (only before a hexadecimal digit), and as many digits as there are. The result is the
  number of octets up to \<open>endptr\<close> (0 if there is no digit), the value, and whether it is out
  of range (\<open>ERANGE\<close>). The NUL after the last octet is no digit.
\<close>

definition strtol_sign :: "octets \<Rightarrow> bool \<times> octets" where
  "strtol_sign s = (case s of [] \<Rightarrow> (False, [])
     | c # cs \<Rightarrow> if c = 0x2D then (True, cs) else if c = 0x2B then (False, cs) else (False, c # cs))"

definition hex_prefix :: "octets \<Rightarrow> bool" where
  "hex_prefix s = (case s of a # b # c # _ \<Rightarrow> a = 0x30 \<and> (b = 0x78 \<or> b = 0x58) \<and> digit_of c < 16 | _ \<Rightarrow> False)"

definition strtol_base :: "octets \<Rightarrow> int \<Rightarrow> int \<times> octets" where
  "strtol_base s base =
     (if (base = 0 \<or> base = 16) \<and> hex_prefix s then (16, drop 2 s)
      else if base = 0 then (case s of c # _ \<Rightarrow> if c = 0x30 then (8, s) else (10, s) | [] \<Rightarrow> (10, s))
      else (base, s))"

definition strtol :: "octets \<Rightarrow> int \<Rightarrow> nat \<times> int \<times> bool" where
  "strtol s base =
     (let (neg, s1) = strtol_sign (dropWhile (\<lambda>c. isspace (uint c)) s);
          (b, s2) = strtol_base s1 base;
          ds = takeWhile (\<lambda>c. digit_of c < b) s2;
          n = (if neg then - digits_value b ds else digits_value b ds)
      in if ds = [] then (0, 0, False)
         else (length s - length s2 + length ds,
               if n > LONG_MAX then LONG_MAX else if n < LONG_MIN then LONG_MIN else n,
               n > LONG_MAX \<or> n < LONG_MIN))"

text \<open>\<open>strtoul\<close>, its return value only; a negative number is negated in the unsigned type.\<close>

definition ULONG_MAX :: int where
  "ULONG_MAX = 2 ^ 64 - 1"

definition strtoul :: "octets \<Rightarrow> int \<Rightarrow> int" where
  "strtoul s base =
     (let (neg, s1) = strtol_sign (dropWhile (\<lambda>c. isspace (uint c)) s);
          (b, s2) = strtol_base s1 base;
          n = digits_value b (takeWhile (\<lambda>c. digit_of c < b) s2)
      in if n > ULONG_MAX then ULONG_MAX else if neg then (- n) mod 2 ^ 64 else n)"

text \<open>
  The return value, and what the call stores through \<open>nump\<close>, if anything. A negative position
  would read before the string.
\<close>

definition octstr_parse_long :: "octets \<Rightarrow> int \<Rightarrow> int \<Rightarrow> (int \<times> int option) option" where
  "octstr_parse_long ostr pos base = do {
     gw_assert (base = 0 \<or> (base \<ge> 2 \<and> base \<le> 36));
     if pos \<ge> int (length ostr) then Some (-1, None)
     else do {
       gw_assert (pos \<ge> 0);
       let (k, number, erange) = strtol (drop (nat pos) ostr) base in
       if erange then Some (-1, None)
       else if k = 0 then Some (-1, None)
       else Some (pos + int k, Some number) } }"

text \<open>The decimal representation that \<open>sprintf\<close> prints for \<open>%ld\<close>.\<close>

definition digit_char :: "nat \<Rightarrow> byte" where
  "digit_char d = word_of_int (48 + int d)"

fun dec_nat :: "nat \<Rightarrow> byte list" where
  "dec_nat n = (if n < 10 then [digit_char n] else dec_nat (n div 10) @ [digit_char (n mod 10)])"

declare dec_nat.simps [simp del]

definition decimal :: "int \<Rightarrow> byte list" where
  "decimal v = (if v < 0 then 0x2D # dec_nat (nat (- v)) else dec_nat (nat v))"

definition octstr_append_decimal :: "octets \<Rightarrow> int \<Rightarrow> octets" where
  "octstr_append_decimal ostr value = ostr @ decimal value"

subsection \<open>Printing and parsing are inverse\<close>

lemma uint_digit_char [simp]: "d < 10 \<Longrightarrow> uint (digit_char d) = 48 + int d"
  using uint_word_of_int_byte [of "48 + int d"] by (simp only: digit_char_def)

lemma digit_of_digit_char [simp]: "d < 10 \<Longrightarrow> digit_of (digit_char d) = int d"
  by (simp add: digit_of_def isdigit_def)

lemma dec_nat_digits: "list_all (\<lambda>c. isdigit (uint c)) (dec_nat n)"
proof (induction n rule: dec_nat.induct)
  case (1 n)
  have "n mod 10 \<le> 9" by presburger
  then show ?case using 1 by (subst dec_nat.simps) (simp add: isdigit_def)
qed

lemma dec_nat_not_Nil: "dec_nat n \<noteq> []"
  by (subst dec_nat.simps) simp

lemma digits_value_append: "digits_value b (xs @ [d]) = digits_value b xs * b + digit_of d"
  by (simp add: digits_value_def)

lemma digits_value_dec_nat: "digits_value 10 (dec_nat n) = int n"
proof (induction n rule: dec_nat.induct)
  case (1 n)
  show ?case
  proof (cases "n < 10")
    case True
    then show ?thesis by (subst dec_nat.simps) (simp add: digits_value_def)
  next
    case False
    have "int (n div 10) * 10 + int (n mod 10) = int n" by presburger
    then show ?thesis using False 1
      by (subst dec_nat.simps) (simp add: digits_value_append)
  qed
qed


lemma strtol_decimal:
  assumes "LONG_MIN \<le> v" and "v \<le> LONG_MAX" and "ys = [] \<or> \<not> isdigit (uint (hd ys))"
  shows "strtol (decimal v @ ys) 10 = (length (decimal v), v, False)"
proof -
  have d10: "digit_of c < 10 \<longleftrightarrow> isdigit (uint c)" for c :: byte
    using uint_byte_bounds [of c] by (auto simp: digit_of_def isdigit_def islower_def isupper_def)
  have tw: "takeWhile (\<lambda>c. digit_of c < 10) (dec_nat n @ ys) = dec_nat n" for n
    using dec_nat_digits [of n] assms(3) 
    by (subst takeWhile_append2) (auto simp: d10 list_all_iff takeWhile_eq_Nil_iff)
  obtain d ds where dn: "dec_nat (nat \<bar>v\<bar>) = d # ds" "isdigit (uint d)"
    using dec_nat_not_Nil [of "nat \<bar>v\<bar>"] dec_nat_digits [of "nat \<bar>v\<bar>"] by (cases "dec_nat (nat \<bar>v\<bar>)") auto
  have sp: "\<not> isspace (uint d)" "d \<noteq> 0x2D" "d \<noteq> 0x2B" "\<not> isspace (uint (0x2D :: byte))"
    using dn(2) by (auto simp: isdigit_def isspace_def)
  have s: "strtol_sign (dropWhile (\<lambda>c. isspace (uint c)) (decimal v @ ys)) = (v < 0, dec_nat (nat \<bar>v\<bar>) @ ys)"
    using sp dn by (auto simp: decimal_def strtol_sign_def)
  show ?thesis
    unfolding strtol_def s using assms(1,2) dec_nat_not_Nil [of "nat \<bar>v\<bar>"]
    by (auto simp: strtol_base_def tw digits_value_dec_nat decimal_def Let_def)
qed

lemma octstr_parse_long_decimal:
  assumes "LONG_MIN \<le> v" and "v \<le> LONG_MAX" and "ys = [] \<or> \<not> isdigit (uint (hd ys))"
  shows "octstr_parse_long (octstr_append_decimal xs v @ ys) (int (length xs)) 10 =
    Some (int (length (octstr_append_decimal xs v)), Some v)"
proof -
  have "decimal v \<noteq> []" using dec_nat_not_Nil by (simp add: decimal_def)
  then have "\<not> int (length (decimal v)) + int (length ys) \<le> 0" by (cases "decimal v") auto
  then show ?thesis using strtol_decimal [OF assms] \<open>decimal v \<noteq> []\<close>
    by (simp add: octstr_parse_long_def octstr_append_decimal_def)
qed

subsection \<open>Hexadecimal numbers\<close>

text \<open>What \<open>sprintf\<close> prints for \<open>%0kx\<close>.\<close>

definition hex_char :: "nat \<Rightarrow> byte" where
  "hex_char d = (if d < 10 then word_of_int (48 + int d) else word_of_int (87 + int d))"

fun hex_nat :: "nat \<Rightarrow> byte list" where
  "hex_nat n = (if n < 16 then [hex_char n] else hex_nat (n div 16) @ [hex_char (n mod 16)])"

declare hex_nat.simps [simp del]

definition hex_pad :: "nat \<Rightarrow> nat \<Rightarrow> byte list" where
  "hex_pad k n = replicate (k - length (hex_nat n)) 0x30 @ hex_nat n"

lemma uint_hex_char: "d < 16 \<Longrightarrow> uint (hex_char d) = (if d < 10 then 48 + int d else 87 + int d)"
  using uint_word_of_int_byte [of "48 + int d"] uint_word_of_int_byte [of "87 + int d"] by (simp add: hex_char_def)

lemma hex_char [simp]:
  "d < 16 \<Longrightarrow> digit_of (hex_char d) = int d" "d < 16 \<Longrightarrow> isxdigit (uint (hex_char d))"
  by (auto simp: uint_hex_char digit_of_def isdigit_def islower_def isxdigit_def)

text \<open>The fixed-width form: one digit per step, exactly \<open>k\<close> of them.\<close>

fun hex_fix :: "nat \<Rightarrow> nat \<Rightarrow> byte list" where
  "hex_fix 0 n = []"
| "hex_fix (Suc k) n = hex_fix k (n div 16) @ [hex_char (n mod 16)]"

lemma hex_fix_length [simp]: "length (hex_fix k n) = k"
  by (induction k arbitrary: n) auto

lemma hex_fix_zero: "hex_fix k 0 = replicate k 0x30"
  by (induction k) (simp_all add: hex_char_def replicate_append_same)

lemma hex_pad_fix: "n < 16 ^ k \<Longrightarrow> 0 < k \<Longrightarrow> hex_pad k n = hex_fix k n"
proof (induction k arbitrary: n)
  case (Suc k)
  show ?case
  proof (cases "n < 16")
    case True
    then show ?thesis by (simp add: hex_pad_def hex_nat.simps [of n] hex_fix_zero)
  next
    case False
    then have "0 < k" using Suc.prems by (cases k) auto
    moreover have "n div 16 < 16 ^ k" using Suc.prems by (simp add: less_mult_imp_div_less mult.commute)
    ultimately show ?thesis using False Suc.IH [of "n div 16"] by (simp add: hex_pad_def hex_nat.simps [of n])
  qed
qed simp

lemma hex_fix_digits: "list_all (\<lambda>c. isxdigit (uint c)) (hex_fix k n)"
  by (induction k arbitrary: n) simp_all

lemma hex_fix_value: "digits_value 16 (hex_fix k n) = int (n mod 16 ^ k)"
proof (induction k arbitrary: n)
  case (Suc k)
  have "n mod 16 ^ Suc k = n div 16 mod 16 ^ k * 16 + n mod 16"
    by (simp add: mod_mult2_eq mult.commute)
  then show ?case using Suc by (simp add: digits_value_append flip: of_nat_mod)
qed (simp add: digits_value_def)

text \<open>
  \<open>strtoul\<close> on a string that starts with a hexadecimal digit, but not with a prefix, is the
  value of the digits.
\<close>

lemma digit_of_xdigit: "digit_of c < 16 \<longleftrightarrow> isxdigit (uint c)"
  using uint_byte_bounds [of c] by (auto simp: digit_of_def isdigit_def islower_def isupper_def isxdigit_def)

lemma digit_of_nonneg: "0 \<le> digit_of c"
  by (auto simp: digit_of_def isdigit_def islower_def isupper_def)

lemma digits_value_bound:
  "list_all (\<lambda>c. isxdigit (uint c)) ds \<Longrightarrow> 0 \<le> digits_value 16 ds \<and> digits_value 16 ds < 16 ^ length ds"
proof (induction ds rule: rev_induct)
  case (snoc d ds)
  then have "digit_of d < 16" "0 \<le> digit_of d" by (simp_all add: digit_of_xdigit digit_of_nonneg)
  with snoc show ?case by (simp add: digits_value_append)
qed (simp add: digits_value_def)

lemma strtoul_hex:
  assumes "list_all (\<lambda>c. isxdigit (uint c)) ds" and "ds \<noteq> []" "length ds \<le> 16"
    and ys: "ys = [] \<or> \<not> isalnum (uint (hd ys))"
  shows "strtoul (ds @ ys) 16 = digits_value 16 ds"
proof -
  obtain c cs where ds: "ds = c # cs" using assms(2) by (cases ds) auto
  have c: "\<not> isspace (uint c)" "c \<noteq> 0x2D" "c \<noteq> 0x2B"
    using assms(1) by (auto simp: ds isxdigit_def isspace_def isdigit_def)
  have "\<not> hex_prefix (ds @ ys)"
    using assms(1) ys by (auto simp: ds hex_prefix_def isxdigit_def isalnum_def isalpha_def isdigit_def isupper_def islower_def
        split: list.splits) (cases cs; auto)+
  moreover have "takeWhile (\<lambda>c. digit_of c < 16) (ds @ ys) = ds"
    using assms(1) ys by (subst takeWhile_append2)
      (auto simp: digit_of_xdigit list_all_iff takeWhile_eq_Nil_iff isalnum_def isxdigit_def isalpha_def isupper_def islower_def)
  moreover have "digits_value 16 ds < 16 ^ 16"
    using digits_value_bound [OF assms(1)] power_increasing [OF assms(3), of "16 :: int"] by linarith
  ultimately show ?thesis
    using c by (simp add: strtoul_def ds strtol_sign_def strtol_base_def ULONG_MAX_def)
qed

subsection \<open>Network order\<close>

text \<open>\<open>encode_network_long\<close> and \<open>decode_network_long\<close> of \<open>gwlib/utils.c\<close>.\<close>

definition encode_network_long :: "64 word \<Rightarrow> octets" where
  "encode_network_long val =
     [ucast (drop_bit 24 val AND 0xFF), ucast (drop_bit 16 val AND 0xFF), ucast (drop_bit 8 val AND 0xFF), ucast (val AND 0xFF)]"

text \<open>The octets are promoted to \<open>int\<close>, so the result has the sign of bit 31.\<close>

definition decode_network_long :: "octets \<Rightarrow> int" where
  "decode_network_long data =
     sint (push_bit 24 (ucast (data ! 0)) OR push_bit 16 (ucast (data ! 1)) OR push_bit 8 (ucast (data ! 2)) OR ucast (data ! 3) :: 32 word)"

subsection \<open>Values of type int\<close>

definition INT_MAX :: int where
  "INT_MAX = 2 ^ 31 - 1"

definition to_int :: "int \<Rightarrow> int" where
  "to_int v = sint (word_of_int v :: 32 word)"

lemma to_int_id: "- (2 ^ 31) \<le> v \<Longrightarrow> v < 2 ^ 31 \<Longrightarrow> to_int v = v"
  by (simp add: to_int_def signed_of_int signed_take_bit_int_eq_self)

section \<open>Padded decimal numbers\<close>

text \<open>\<open>%0kd\<close>\<close>

definition dec_pad :: "nat \<Rightarrow> int \<Rightarrow> octets" where
  "dec_pad k v =
     (if v < 0 then let ds = dec_nat (nat (- v)) in 0x2D # replicate (k - 1 - length ds) 0x30 @ ds
      else let ds = dec_nat (nat v) in replicate (k - length ds) 0x30 @ ds)"

abbreviation digits :: "octets \<Rightarrow> bool" where
  "digits ds \<equiv> list_all (\<lambda>c. isdigit (uint c)) ds"

abbreviation dv :: "octets \<Rightarrow> int" where
  "dv ds \<equiv> digits_value 10 ds"

lemma digits_bound: "digits ds \<Longrightarrow> 0 \<le> dv ds \<and> dv ds < 10 ^ length ds"
proof (induction ds rule: rev_induct)
  case (snoc d ds)
  then have "0 \<le> digit_of d" "digit_of d \<le> 9" by (simp_all add: digit_of_def isdigit_def)
  with snoc show ?case by (simp add: digits_value_append)
qed (simp add: digits_value_def)

lemma strtol_digits:
  assumes "digits ds" "ds \<noteq> []" "length ds \<le> 9" "ys = [] \<or> \<not> isdigit (uint (hd ys))"
  shows "strtol (ds @ ys) 10 = (length ds, dv ds, False)"
proof -
  have d10: "digit_of c < 10 \<longleftrightarrow> isdigit (uint c)" for c :: byte
    using uint_byte_bounds [of c] by (auto simp: digit_of_def isdigit_def islower_def isupper_def)
  obtain d es where ds: "ds = d # es" "isdigit (uint d)" using assms(1,2) by (cases ds) auto
  have tw: "takeWhile (\<lambda>c. digit_of c < 10) (ds @ ys) = ds"
    using assms(1,4) by (subst takeWhile_append2) (auto simp: d10 list_all_iff takeWhile_eq_Nil_iff)
  have sp: "\<not> isspace (uint d)" "d \<noteq> 0x2D" "d \<noteq> 0x2B" using ds(2) by (auto simp: isdigit_def isspace_def)
  have s: "strtol_sign (dropWhile (\<lambda>c. isspace (uint c)) (ds @ ys)) = (False, ds @ ys)"
    using sp by (simp add: ds(1) strtol_sign_def)
  have "dv ds < 10 ^ 9" using digits_bound [OF assms(1)] power_increasing [OF assms(3), of "10 :: int"] by linarith
  then show ?thesis unfolding strtol_def s using digits_bound [OF assms(1)] assms(2)
    by (simp add: strtol_base_def tw Let_def LONG_MAX_def LONG_MIN_def)
qed

lemma dec_nat_length: "n < 10 ^ k \<Longrightarrow> 0 < k \<Longrightarrow> length (dec_nat n) \<le> k"
proof (induction k arbitrary: n)
  case (Suc k)
  show ?case
  proof (cases "n < 10")
    case False
    then have "n div 10 < 10 ^ k" "0 < k" using Suc.prems(1) by (auto intro: gr0I)
    then show ?thesis using Suc.IH False by (subst dec_nat.simps) simp
  qed (subst dec_nat.simps, simp)
qed simp

lemma dv_zeros: "dv (replicate n 0x30 @ ds) = dv ds"
  by (induction n) (simp_all add: digits_value_def digit_of_def isdigit_def)

lemma dec_pad_digits:
  assumes "0 \<le> v" "v < 10 ^ k" "0 < k"
  shows "length (dec_pad k v) = k" "digits (dec_pad k v)" "dv (dec_pad k v) = v"
proof -
  have "nat v < 10 ^ k" using assms by (simp add: nat_less_iff)
  then show "length (dec_pad k v) = k" using dec_nat_length [of "nat v" k] assms by (simp add: dec_pad_def Let_def)
  show "digits (dec_pad k v)" using assms(1) dec_nat_digits [of "nat v"] by (auto simp: dec_pad_def Let_def list_all_iff isdigit_def)
  show "dv (dec_pad k v) = v" using assms(1) by (simp add: dec_pad_def Let_def dv_zeros digits_value_dec_nat)
qed

lemma dec_pad2:
  assumes "0 \<le> v" "v \<le> 99"
  obtains a b where "dec_pad 2 v = [a, b]" "digits [a, b]" "dv [a, b] = v"
  using dec_pad_digits [of v 2] assms that by (auto simp: numeral_2_eq_2 length_Suc_conv)

lemma dec_pad4:
  assumes "0 \<le> v" "v \<le> 9999"
  obtains a b c d where "dec_pad 4 v = [a, b, c, d]" "digits [a, b, c, d]" "dv [a, b, c, d] = v"
  using dec_pad_digits [of v 4] assms that by (auto simp: eval_nat_numeral length_Suc_conv)

lemma dec_nat_longer: "10 ^ k \<le> n \<Longrightarrow> k < length (dec_nat n)"
proof (induction k arbitrary: n)
  case (Suc k)
  have "10 ^ k \<le> n div 10" using Suc.prems by (simp add: less_eq_div_iff_mult_less_eq)
  moreover have "\<not> n < 10" using one_le_power [of "10 :: nat" k] Suc.prems unfolding power_Suc by linarith
  ultimately show ?case using Suc.IH [of "n div 10"] by (subst dec_nat.simps) simp
qed (simp add: dec_nat_not_Nil)

lemma dec_pad_4:
  assumes "10 ^ k \<le> v"
  shows "k < length (dec_pad 4 v)"
proof -
  have "nat (10 ^ k) \<le> nat v" using assms by (rule nat_mono)
  then have "k < length (dec_nat (nat v))" by (intro dec_nat_longer) (simp add: nat_power_eq)
  moreover have "0 \<le> v" using assms zero_le_power [of "10 :: int" k] by linarith
  ultimately show ?thesis by (simp add: dec_pad_def Let_def)
qed

text \<open>Of a four-digit year, \<open>%ld\<close> and \<open>%04ld\<close> print the same.\<close>

lemma decimal_4: "1000 \<le> v \<Longrightarrow> decimal v = dec_pad 4 v"
  using dec_nat_longer [of 3 "nat v"] by (simp add: decimal_def dec_pad_def Let_def le_nat_iff)

section \<open>C strings and the first occurrence of a character\<close>

definition strcmp :: "octets \<Rightarrow> octets \<Rightarrow> int" where
  "strcmp a b = (if a = b then 0 else if map uint a < map uint b then -1 else 1)"

definition oct_str_compare :: "octets \<Rightarrow> octets \<Rightarrow> int" where
  "oct_str_compare bs s = strcmp (takeWhile (\<lambda>b. b \<noteq> 0) bs) s"

lemma find_char_first: "c \<notin> set pre \<Longrightarrow> find_from (pre @ c # rest) [c] 0 = int (length pre)"
proof (rule find_from_cases [of "pre @ c # rest" "[c]" 0])
  assume "\<And>j. 0 \<le> j \<Longrightarrow> \<not> match_at (pre @ c # rest) [c] j"
  from this [of "length pre"] show ?thesis by (simp add: match_at_single)
next
  fix k assume c: "c \<notin> set pre" and k: "find_from (pre @ c # rest) [c] 0 = int k" "match_at (pre @ c # rest) [c] k"
    "\<And>j. 0 \<le> j \<Longrightarrow> j < k \<Longrightarrow> \<not> match_at (pre @ c # rest) [c] j"
  have "\<not> k < length pre" using k(2) c by (auto simp: match_at_single nth_append dest: nth_mem)
  moreover have "\<not> length pre < k" using k(3) [of "length pre"] by (auto simp: match_at_single)
  ultimately show ?thesis using k(1) by simp
qed

end
