(* ===== verification/Gwlist_Threads.thy ===== *)
theory Gwlist_Threads
  imports Gwlist
begin

text \<open>
  The producer/consumer protocol of \<open>gwlib/list.c\<close>. Between \<open>lock\<close> and \<open>unlock\<close> an
  operation is one step; \<open>gwlist_consume\<close> gives up the lock while it sleeps on the condition
  variable, so it is two steps: \<open>consume_enter\<close> registers the consumer and \<open>consume_leave\<close>
  runs once the loop condition \<open>must_wait\<close> is false (or, in \<open>gwlist_timed_consume\<close>, once
  \<open>pthread_cond_timedwait\<close> reports \<open>ETIMEDOUT\<close>). The relation \<open>pc_step\<close> interleaves any
  number of producers and consumers.
\<close>

section \<open>The operations\<close>

definition gwlist_add_producer :: "'a gwlist \<Rightarrow> 'a gwlist" where
  "gwlist_add_producer l = l\<lparr>gl_num_producers := gl_num_producers l + 1\<rparr>"

definition gwlist_producer_count :: "'a gwlist \<Rightarrow> int" where
  "gwlist_producer_count l = gl_num_producers l"

definition gwlist_remove_producer :: "'a gwlist \<Rightarrow> 'a gwlist option" where
  "gwlist_remove_producer l = do {
     gw_assert (gl_num_producers l > 0);
     Some (l\<lparr>gl_num_producers := gl_num_producers l - 1\<rparr>) }"

definition gwlist_produce :: "'a gwlist \<Rightarrow> 'a \<Rightarrow> 'a gwlist option" where
  "gwlist_produce l item = gwlist_append l item"

definition gwlist_consumer_count :: "'a gwlist \<Rightarrow> int" where
  "gwlist_consumer_count l = gl_num_consumers l"

definition must_wait :: "'a gwlist \<Rightarrow> bool" where
  "must_wait l \<longleftrightarrow> gl_len l = 0 \<and> gl_num_producers l > 0"

definition consume_enter :: "'a gwlist \<Rightarrow> 'a gwlist" where
  "consume_enter l = l\<lparr>gl_num_consumers := gl_num_consumers l + 1\<rparr>"

definition consume_leave :: "'a gwlist \<Rightarrow> ('a option \<times> 'a gwlist) option" where
  "consume_leave l = do {
     (item, l) \<leftarrow> (if gl_len l > 0 then do {
         item \<leftarrow> GET l 0;
         l \<leftarrow> delete_items_from_list l 0 1;
         Some (Some item, l) }
       else Some (None, l));
     Some (item, l\<lparr>gl_num_consumers := gl_num_consumers l - 1\<rparr>) }"

text \<open>
  The calls of a thread that runs alone. \<open>gwlist_consume\<close> does not return (\<open>None\<close>) when it
  would have to sleep; \<open>gwlist_timed_consume\<close> then returns after the timeout.
\<close>

definition gwlist_consume :: "'a gwlist \<Rightarrow> ('a option \<times> 'a gwlist) option" where
  "gwlist_consume l =
     (let l = consume_enter l in if must_wait l then None else consume_leave l)"

definition gwlist_timed_consume :: "'a gwlist \<Rightarrow> ('a option \<times> 'a gwlist) option" where
  "gwlist_timed_consume l = consume_leave (consume_enter l)"

text \<open>The value returned once \<open>must_wait\<close> is false; alone, a sleeping caller never returns.\<close>

definition gwlist_wait_until_nonempty :: "'a gwlist \<Rightarrow> int option" where
  "gwlist_wait_until_nonempty l =
     (if must_wait l then None else Some (if gl_len l > 0 then 1 else -1))"

section \<open>Interleaving\<close>

record 'a pcsys =
  queue :: "'a gwlist"
  inside :: "nat set"
  produced :: "'a list"
  consumed :: "'a list"

definition pc_init :: "'a pcsys" where
  "pc_init = \<lparr>queue = gwlist_create, inside = {}, produced = [], consumed = []\<rparr>"

inductive pc_step :: "'a pcsys \<Rightarrow> 'a pcsys \<Rightarrow> bool" where
  add: "pc_step s (s\<lparr>queue := gwlist_add_producer (queue s)\<rparr>)"
| remove: "gwlist_remove_producer (queue s) = Some l \<Longrightarrow> pc_step s (s\<lparr>queue := l\<rparr>)"
| produce: "gwlist_produce (queue s) x = Some l \<Longrightarrow>
    pc_step s (s\<lparr>queue := l, produced := produced s @ [x]\<rparr>)"
| enter: "t \<notin> inside s \<Longrightarrow>
    pc_step s (s\<lparr>queue := consume_enter (queue s), inside := insert t (inside s)\<rparr>)"
| leave_item: "t \<in> inside s \<Longrightarrow> \<not> must_wait (queue s) \<Longrightarrow> consume_leave (queue s) = Some (Some x, l) \<Longrightarrow>
    pc_step s (s\<lparr>queue := l, inside := inside s - {t}, consumed := consumed s @ [x]\<rparr>)"
| leave_null: "t \<in> inside s \<Longrightarrow> \<not> must_wait (queue s) \<Longrightarrow> consume_leave (queue s) = Some (None, l) \<Longrightarrow>
    pc_step s (s\<lparr>queue := l, inside := inside s - {t}\<rparr>)"
| timeout: "t \<in> inside s \<Longrightarrow> must_wait (queue s) \<Longrightarrow> consume_leave (queue s) = Some (None, l) \<Longrightarrow>
    pc_step s (s\<lparr>queue := l, inside := inside s - {t}\<rparr>)"

inductive pc_reachable :: "'a pcsys \<Rightarrow> bool" where
  start: "pc_reachable pc_init"
| step: "pc_reachable s \<Longrightarrow> pc_step s s' \<Longrightarrow> pc_reachable s'"

definition pc_inv :: "'a pcsys \<Rightarrow> bool" where
  "pc_inv s \<longleftrightarrow> gwlist_ok (queue s) \<and> produced s = consumed s @ items (queue s) \<and>
     finite (inside s) \<and> gl_num_consumers (queue s) = int (card (inside s)) \<and>
     0 \<le> gl_num_producers (queue s)"

section \<open>The steps keep the invariant\<close>

lemma rep_parties [simp]:
  "rep (l\<lparr>gl_num_producers := n\<rparr>) xs = rep l xs"
  "rep (l\<lparr>gl_num_consumers := n\<rparr>) xs = rep l xs"
  by (simp_all add: rep_def cell_def)

lemma consume_leave_rep:
  assumes "rep l xs"
  shows "runs (consume_leave l) (\<lambda>(x, l'). x = (if xs = [] then None else Some (hd xs)) \<and> rep l' (tl xs) \<and>
    gl_num_producers l' = gl_num_producers l \<and> gl_num_consumers l' = gl_num_consumers l - 1)"
proof (cases xs)
  case Nil
  then show ?thesis using assms by (simp add: consume_leave_def repD_len)
next
  case (Cons y ys)
  then show ?thesis
    using delete_one [OF assms, of 0] GET_rep [OF assms, of 0] assms
    by (auto simp: consume_leave_def repD_len runs_bind same_parties_def elim!: runs_mono)
qed

lemma pc_inv_rep: "pc_inv s \<longleftrightarrow> (\<exists>xs. rep (queue s) xs \<and> produced s = consumed s @ xs) \<and>
    finite (inside s) \<and> gl_num_consumers (queue s) = int (card (inside s)) \<and> 0 \<le> gl_num_producers (queue s)"
  by (auto simp: pc_inv_def rep_iff)

lemma card_leave: "finite A \<Longrightarrow> t \<in> A \<Longrightarrow> int (card (A - {t})) = int (card A) - 1"
  using card.remove [of A t] by simp

lemma leave_null_inv:
  assumes inv: "pc_inv s" and t: "t \<in> inside s" and l: "consume_leave (queue s) = Some (None, l)"
  shows "pc_inv (s\<lparr>queue := l, inside := inside s - {t}\<rparr>)"
proof -
  obtain xs where xs: "rep (queue s) xs" "produced s = consumed s @ xs"
    using inv by (auto simp: pc_inv_rep)
  have "xs = []" "rep l []" "gl_num_producers l = gl_num_producers (queue s)"
    "gl_num_consumers l = gl_num_consumers (queue s) - 1"
    using runsD [OF consume_leave_rep [OF xs(1)] l] by (auto split: if_splits)
  then show ?thesis
    using inv t xs(2) card_leave [of "inside s" t] by (auto simp: pc_inv_rep)
qed

lemma pc_step_inv: "pc_step s s' \<Longrightarrow> pc_inv s \<Longrightarrow> pc_inv s'"
proof (induction rule: pc_step.induct)
  case (add s)
  then show ?case by (auto simp: pc_inv_rep gwlist_add_producer_def)
next
  case (remove s l)
  then show ?case by (auto simp: pc_inv_rep gwlist_remove_producer_def gw_assert_def split: if_splits)
next
  case (produce s x l)
  then obtain xs where xs: "rep (queue s) xs" "produced s = consumed s @ xs" by (auto simp: pc_inv_rep)
  have "rep l (xs @ [x]) \<and> same_parties (queue s) l"
    using runsD [OF gwlist_append_rep [OF xs(1), of x]] produce.hyps by (simp add: gwlist_produce_def)
  then show ?case using produce.prems xs by (auto simp: pc_inv_rep same_parties_def)
next
  case (enter t s)
  then show ?case by (auto simp: pc_inv_rep consume_enter_def)
next
  case (leave_item t s x l)
  then obtain xs where xs: "rep (queue s) xs" "produced s = consumed s @ xs" by (auto simp: pc_inv_rep)
  have "xs = x # tl xs" "rep l (tl xs)" "gl_num_producers l = gl_num_producers (queue s)"
    "gl_num_consumers l = gl_num_consumers (queue s) - 1"
    using runsD [OF consume_leave_rep [OF xs(1)] leave_item.hyps(3)] by (auto split: if_splits)
  then show ?case
    using leave_item.prems leave_item.hyps(1) xs(2) card_leave [of "inside s" t]
    by (auto simp: pc_inv_rep intro!: exI [of _ "tl xs"])
next
  case (leave_null t s l)
  then show ?case by (blast intro: leave_null_inv)
next
  case (timeout t s l)
  then show ?case by (blast intro: leave_null_inv)
qed

lemma pc_reachable_inv: "pc_reachable s \<Longrightarrow> pc_inv s"
proof (induction rule: pc_reachable.induct)
  case start
  show ?case by (auto simp: pc_inv_rep pc_init_def gwlist_create_rep intro!: exI [of _ "[]"]) (simp add: gwlist_create_def)+
next
  case (step s s')
  then show ?case by (blast intro: pc_step_inv)
qed

end
