(* ===== verification/Gwlist_Spec.thy ===== *)
theory Gwlist_Spec
  imports Gwlist Gwlist_Sort Gwlist_Threads
begin

text \<open>
  The contract of \<open>gwlib/list.h\<close>: the operations as transformations of a plain HOL list, and
  the refinement of the circular buffer to it. An operation of the specification is \<open>None\<close>
  exactly where the C code fails an assertion.
\<close>

section \<open>Operations\<close>

datatype 'a list_op =
    Append 'a
  | AppendUnique 'a "'a \<Rightarrow> 'a \<Rightarrow> bool"
  | Insert int 'a
  | Delete int int
  | DeleteMatching "'a \<Rightarrow> bool"
  | DeleteEqual 'a
  | Get int
  | ExtractFirst
  | ExtractMatching "'a \<Rightarrow> bool"
  | Search "'a \<Rightarrow> bool"
  | SearchAll "'a \<Rightarrow> bool"
  | SearchEqual 'a
  | Len

datatype 'a list_res = Void | Item "'a option" | Number int | Items "'a list option"

text \<open>The calls on the circular buffer; a returned list is given by its items.\<close>

fun gwlist_call :: "'a list_op \<Rightarrow> 'a gwlist \<Rightarrow> ('a list_res \<times> 'a gwlist) option" where
  "gwlist_call (Append x) l = map_option (Pair Void) (gwlist_append l x)"
| "gwlist_call (AppendUnique x cmp) l = map_option (Pair Void) (gwlist_append_unique l x cmp)"
| "gwlist_call (Insert pos x) l = map_option (Pair Void) (gwlist_insert l pos x)"
| "gwlist_call (Delete pos n) l = map_option (Pair Void) (gwlist_delete l pos n)"
| "gwlist_call (DeleteMatching p) l =
     map_option (\<lambda>(l, n). (Number n, l)) (gwlist_delete_matching l () (\<lambda>x _. p x))"
| "gwlist_call (DeleteEqual x) l = map_option (\<lambda>(l, n). (Number n, l)) (gwlist_delete_equal l x)"
| "gwlist_call (Get pos) l = map_option (\<lambda>x. (Item (Some x), l)) (gwlist_get l pos)"
| "gwlist_call ExtractFirst l = map_option (\<lambda>(x, l). (Item x, l)) (gwlist_extract_first l)"
| "gwlist_call (ExtractMatching p) l =
     map_option (\<lambda>(r, l). (Items (map_option items r), l)) (gwlist_extract_matching l () (\<lambda>x _. p x))"
| "gwlist_call (Search p) l = map_option (\<lambda>r. (Item r, l)) (gwlist_search l () (\<lambda>x _. p x))"
| "gwlist_call (SearchAll p) l =
     map_option (\<lambda>r. (Items (map_option items r), l)) (gwlist_search_all l () (\<lambda>x _. p x))"
| "gwlist_call (SearchEqual x) l = map_option (\<lambda>r. (Number r, l)) (gwlist_search_equal l x)"
| "gwlist_call Len l = Some (Number (gwlist_len (Some l)), l)"

definition nonempty :: "'a list \<Rightarrow> 'a list option" where
  "nonempty xs = (if xs = [] then None else Some xs)"

fun position :: "'a \<Rightarrow> 'a list \<Rightarrow> int" where
  "position x [] = -1"
| "position x (y # ys) =
     (if x = y then 0 else if position x ys = -1 then -1 else position x ys + 1)"

fun list_spec :: "'a list_op \<Rightarrow> 'a list \<Rightarrow> ('a list_res \<times> 'a list) option" where
  "list_spec (Append x) xs = Some (Void, xs @ [x])"
| "list_spec (AppendUnique x cmp) xs =
     Some (Void, if \<exists>y \<in> set xs. cmp y x then xs else xs @ [x])"
| "list_spec (Insert pos x) xs =
     (if 0 \<le> pos \<and> pos \<le> int (length xs)
      then Some (Void, take (nat pos) xs @ x # drop (nat pos) xs) else None)"
| "list_spec (Delete pos n) xs =
     (if 0 \<le> pos \<and> pos < int (length xs) \<and> 0 \<le> n \<and> pos + n \<le> int (length xs)
      then Some (Void, take (nat pos) xs @ drop (nat (pos + n)) xs) else None)"
| "list_spec (DeleteMatching p) xs =
     Some (Number (int (length (filter p xs))), filter (\<lambda>x. \<not> p x) xs)"
| "list_spec (DeleteEqual x) xs = Some (Number (int (count_list xs x)), filter (\<lambda>y. y \<noteq> x) xs)"
| "list_spec (Get pos) xs =
     (if 0 \<le> pos \<and> pos < int (length xs) then Some (Item (Some (xs ! nat pos)), xs) else None)"
| "list_spec ExtractFirst xs = Some (Item (if xs = [] then None else Some (hd xs)), tl xs)"
| "list_spec (ExtractMatching p) xs =
     Some (Items (nonempty (filter p xs)), filter (\<lambda>x. \<not> p x) xs)"
| "list_spec (Search p) xs = Some (Item (find p xs), xs)"
| "list_spec (SearchAll p) xs = Some (Items (nonempty (filter p xs)), xs)"
| "list_spec (SearchEqual x) xs = Some (Number (position x xs), xs)"
| "list_spec Len xs = Some (Number (int (length xs)), xs)"

section \<open>Refinement\<close>

lemma gwlist_insert_out: "rep l xs \<Longrightarrow> pos < 0 \<or> int (length xs) < pos \<Longrightarrow> gwlist_insert l pos x = None"
  by (auto simp: gwlist_insert_def gw_assert_def repD_len)

lemma gwlist_delete_out:
  "rep l xs \<Longrightarrow> \<not> (0 \<le> pos \<and> pos < int (length xs) \<and> 0 \<le> n \<and> pos + n \<le> int (length xs)) \<Longrightarrow>
   gwlist_delete l pos n = None"
  by (auto simp: gwlist_delete_def delete_items_from_list_def gw_assert_def repD_len)

lemma position_unique:
  "(i = -1 \<and> x \<notin> set xs) \<or> (0 \<le> i \<and> i < int (length xs) \<and> xs ! nat i = x \<and> x \<notin> set (take (nat i) xs)) \<Longrightarrow>
   position x xs = i"
proof (induction xs arbitrary: i)
  case Nil
  then show ?case by auto
next
  case (Cons y ys)
  show ?case
  proof (cases "x = y")
    case True
    then have "i = 0" using Cons.prems by (cases "nat i") auto
    then show ?thesis using True by simp
  next
    case False
    show ?thesis
    proof (cases "i = -1")
      case True
      then have "position x ys = -1" using Cons by auto
      then show ?thesis using False True by simp
    next
      case i: False
      then have "0 < i" using Cons.prems False by (cases "i = 0") auto
      then have "position x ys = i - 1"
        using Cons.prems False i by (intro Cons.IH) (auto simp: nth_Cons' take_Cons' nat_diff_distrib)
      then show ?thesis using False \<open>0 < i\<close> by simp
    qed
  qed
qed

lemma gwlist_search_equal_pos: "rep l xs \<Longrightarrow> gwlist_search_equal l x = Some (position x xs)"
  by (rule runsE [OF gwlist_search_equal_rep, of l xs x]) (simp_all add: position_unique)

lemma gwlist_call_refines:
  assumes "rep l xs" "list_spec c xs = Some (r, ys)"
  shows "\<exists>l'. gwlist_call c l = Some (r, l') \<and> rep l' ys"
proof (cases c)
  case (Append x)
  then show ?thesis using assms gwlist_append_rep [OF assms(1), of x] by (auto elim!: runsE)
next
  case (AppendUnique x cmp)
  then show ?thesis using assms gwlist_append_unique_rep [OF assms(1), of x cmp] by (auto elim!: runsE)
next
  case (Insert pos x)
  then have "nat pos \<le> length xs" "0 \<le> pos" using assms by (auto split: if_splits)
  then show ?thesis
    using Insert assms gwlist_insert_rep [OF assms(1), of "nat pos" x] by (auto elim!: runsE split: if_splits)
next
  case (Delete pos n)
  then have "0 \<le> pos" "pos < int (length xs)" "0 \<le> n" "pos + n \<le> int (length xs)"
    using assms by (auto split: if_splits)
  moreover from this have "nat pos < length xs" "nat pos + nat n \<le> length xs" by linarith+
  ultimately show ?thesis
    using Delete assms delete_items_rep [OF assms(1), of "nat pos" "nat n"]
    by (auto simp: gwlist_delete_def nat_add_distrib elim!: runsE)
next
  case (DeleteMatching p)
  then show ?thesis
    using assms gwlist_delete_matching_rep [OF assms(1), of "()" "\<lambda>x _. p x"] by (auto elim!: runsE)
next
  case (DeleteEqual x)
  then show ?thesis using assms gwlist_delete_equal_rep [OF assms(1), of x] by (auto elim!: runsE)
next
  case (Get pos)
  then show ?thesis
    using assms gwlist_get_rep [OF assms(1), of "nat pos"] by (auto split: if_splits)
next
  case ExtractFirst
  then show ?thesis using assms gwlist_extract_first_rep [OF assms(1)] by (auto elim!: runsE)
next
  case (ExtractMatching p)
  then show ?thesis
    using assms gwlist_extract_matching_rep [OF assms(1), of "()" "\<lambda>x _. p x"]
    by (auto simp: nonempty_def rep_iff elim!: runsE split: option.splits)
next
  case (Search p)
  then show ?thesis using assms gwlist_search_rep [OF assms(1), of "()" "\<lambda>x _. p x"] by auto
next
  case (SearchAll p)
  then show ?thesis
    using assms gwlist_search_all_rep [OF assms(1), of "()" "\<lambda>x _. p x"]
    by (auto simp: nonempty_def rep_iff elim!: runsE split: option.splits)
next
  case (SearchEqual x)
  then show ?thesis using assms gwlist_search_equal_pos [OF assms(1), of x] by auto
next
  case Len
  then show ?thesis using assms by (auto simp: gwlist_len_def repD_len)
qed

lemma gwlist_call_aborts: "rep l xs \<Longrightarrow> list_spec c xs = None \<Longrightarrow> gwlist_call c l = None"
  by (cases c) (auto simp: gwlist_insert_out gwlist_delete_out gwlist_get_out split: if_splits)

interpretation gwl: refines rep gwlist_call list_spec
  by unfold_locales (auto intro: gwlist_call_refines gwlist_call_aborts)

section \<open>Properties\<close>

text \<open>
  \<^bold>\<open>C1\<close> Any sequence of list operations on the circular buffer, starting from any
  well-formed list, returns the results that the same sequence returns on the list of its
  items, and ends in a well-formed list of exactly the items of the specification. In
  particular no in-range operation fails an assertion, reads a cell that was never written or
  touches memory outside the array.
\<close>

theorem gwlist_refines_list:
  assumes "gwlist_ok l" and "run_ops list_spec cs (items l) = Some (rs, ys)"
  shows "\<exists>l'. run_ops gwlist_call cs l = Some (rs, l') \<and> gwlist_ok l' \<and> items l' = ys"
  using gwl.run_Some [of l "items l" cs rs ys] assms by (simp add: rep_iff)

theorem gwlist_refines_list_witness:
  "\<exists>l'. run_ops gwlist_call
      [Append 1, Append 2, ExtractFirst, Append 3, Insert 1 (9::nat), Delete 1 1, Get 1, SearchEqual 3]
      gwlist_create = Some ([Void, Void, Item (Some 1), Void, Void, Void, Item (Some 3), Number 1], l') \<and>
    gwlist_ok l' \<and> items l' = [2, 3]"
proof (rule gwlist_refines_list)
  have "rep (gwlist_create :: nat gwlist) []" by (rule gwlist_create_rep)
  then show "gwlist_ok (gwlist_create :: nat gwlist)" by (simp add: rep_iff)
  show "run_ops list_spec
      [Append 1, Append 2, ExtractFirst, Append 3, Insert 1 9, Delete 1 1, Get 1, SearchEqual 3]
      (items (gwlist_create :: nat gwlist)) =
    Some ([Void, Void, Item (Some 1), Void, Void, Void, Item (Some 3), Number 1], [2, 3])"
    by code_simp
qed

text \<open>
  \<^bold>\<open>C9\<close> The list operations abort only where the contract says so: if a sequence of calls
  aborts on the circular buffer, the same sequence is outside the contract (an index out of
  range) on the list of its items, and conversely.
\<close>

theorem gwlist_aborts_iff:
  assumes "gwlist_ok l"
  shows "run_ops gwlist_call cs l = None \<longleftrightarrow> run_ops list_spec cs (items l) = None"
proof
  have r: "rep l (items l)" using assms by (simp add: rep_iff)
  show "run_ops list_spec cs (items l) = None \<Longrightarrow> run_ops gwlist_call cs l = None"
    by (rule gwl.run_None [OF r])
  show "run_ops gwlist_call cs l = None \<Longrightarrow> run_ops list_spec cs (items l) = None"
    using gwl.run_Some [OF r, of cs] by (cases "run_ops list_spec cs (items l)") auto
qed

theorem gwlist_aborts_iff_witness:
  "run_ops gwlist_call [Append (1::nat), Get 1] gwlist_create = None"
proof -
  have ok: "gwlist_ok (gwlist_create :: nat gwlist)" "items (gwlist_create :: nat gwlist) = []"
    using gwlist_create_rep [where 'a = nat] by (simp_all add: rep_iff)
  show ?thesis using gwlist_aborts_iff [OF ok(1), of "[Append 1, Get 1]"] by (simp add: ok(2))
qed

text \<open>
  \<^bold>\<open>C18\<close> For a comparison function that is a total preorder, \<open>gwlist_sort\<close> returns, and the
  list then holds a permutation of its items in ascending order.
\<close>

theorem gwlist_sort_sorts:
  assumes "comparison cmp" and "gwlist_ok l"
  shows "\<exists>l'. gwlist_sort l cmp = Some l' \<and> gwlist_ok l' \<and> mset (items l') = mset (items l) \<and>
    sorted_wrt (\<lambda>x y. cmp x y \<le> 0) (items l')"
  using comparison.gwlist_sort_rep [OF assms(1), of l "items l"] assms(2)
  by (auto simp: rep_iff elim!: runsE)

theorem gwlist_sort_sorts_witness:
  "\<exists>l'. gwlist_sort \<lparr>gl_tab = [Some 2, Some 7, Some (5::int)], gl_tab_size = 3, gl_start = 1, gl_len = 3,
      gl_num_producers = 0, gl_num_consumers = 0\<rparr> (-) = Some l' \<and> gwlist_ok l' \<and>
    mset (items l') = {#2, 5, 7#} \<and> sorted_wrt (\<lambda>x y. x - y \<le> 0) (items l')"
proof -
  let ?l = "\<lparr>gl_tab = [Some 2, Some 7, Some (5::int)], gl_tab_size = 3, gl_start = 1, gl_len = 3,
      gl_num_producers = 0, gl_num_consumers = 0\<rparr>"
  have c: "comparison ((-) :: int \<Rightarrow> int \<Rightarrow> int)" by unfold_locales auto
  have i: "items ?l = [7, 5, 2]" by code_simp
  have ok: "gwlist_ok ?l" by code_simp
  have m: "mset (items ?l) = {#2, 5, 7#}" unfolding i by simp
  from gwlist_sort_sorts [OF c ok, unfolded m] show ?thesis .
qed

text \<open>
  \<^bold>\<open>C12\<close> In every reachable state of the producer/consumer protocol, with any number of
  threads and any interleaving, what was produced is what was consumed, in order, followed by
  what the list holds: nothing is lost, duplicated or reordered. The consumer count is the
  number of threads inside \<open>gwlist_consume\<close>.
\<close>

theorem producer_consumer_fifo:
  assumes "pc_reachable s"
  shows "produced s = consumed s @ items (queue s) \<and> gl_num_consumers (queue s) = int (card (inside s)) \<and>
    gwlist_ok (queue s)"
  using pc_reachable_inv [OF assms] by (simp add: pc_inv_def)

theorem producer_consumer_fifo_witness:
  "let q = \<lparr>gl_tab = [Some (7::nat)], gl_tab_size = 1, gl_start = 0, gl_len = 1,
      gl_num_producers = 1, gl_num_consumers = 1\<rparr>;
    s = \<lparr>queue = q, inside = {3}, produced = [7], consumed = []\<rparr> in
   pc_reachable s \<and> produced s = consumed s @ items q \<and> gl_num_consumers q = int (card (inside s))"
proof -
  let ?q0 = "gwlist_add_producer gwlist_create :: nat gwlist"
  let ?q1 = "consume_enter ?q0"
  let ?q2 = "\<lparr>gl_tab = [Some (7::nat)], gl_tab_size = 1, gl_start = 0, gl_len = 1,
      gl_num_producers = 1, gl_num_consumers = 1\<rparr>"
  have "pc_reachable (pc_init\<lparr>queue := ?q0\<rparr>)"
    using pc_reachable.step [OF pc_reachable.start pc_step.add] by (simp add: pc_init_def)
  from pc_reachable.step [OF this pc_step.enter [of 3]]
  have "pc_reachable (pc_init\<lparr>queue := ?q1, inside := {3}\<rparr>)" by (simp add: pc_init_def)
  moreover have "gwlist_produce ?q1 7 = Some ?q2" by code_simp
  ultimately have "pc_reachable (pc_init\<lparr>queue := ?q2, inside := {3}, produced := [7]\<rparr>)"
    using pc_reachable.step [OF _ pc_step.produce, of "pc_init\<lparr>queue := ?q1, inside := {3}\<rparr>" 7 ?q2]
    by (simp add: pc_init_def)
  then have r: "pc_reachable \<lparr>queue = ?q2, inside = {3}, produced = [7], consumed = []\<rparr>"
    by (simp add: pc_init_def)
  show ?thesis using r producer_consumer_fifo [OF r] by simp
qed

end
