(* ===== verification/Dict.thy ===== *)
theory Dict
  imports Octets Gwlist_Spec
begin

text \<open>
  The hash tables of \<open>gwlib/dict.c\<close>, built on the lists of \<open>gwlib/list.c\<close>: an array of
  buckets, each NULL or a list of items. A value is a non-NULL pointer; a value argument is
  \<open>None\<close> where the C code gets NULL. The calls of \<open>destroy_value\<close> are part of the result, as
  the list of their arguments. The mutex makes every operation atomic.
\<close>

section \<open>State\<close>

record 'v item =
  it_key :: octets
  it_value :: 'v

record 'v dict =
  dict_tab :: "'v item gwlist option cells"
  dict_size :: int
  dict_count :: int
  dict_destroys :: bool

definition item_create :: "octets \<Rightarrow> 'v \<Rightarrow> 'v item" where
  "item_create key value = \<lparr>it_key = key, it_value = value\<rparr>"

definition item_has_key :: "'v item \<Rightarrow> octets \<Rightarrow> bool" where
  "item_has_key item key \<longleftrightarrow> cmp_bytes key (it_key item) = 0"

definition key_to_index :: "'v dict \<Rightarrow> octets \<Rightarrow> int option" where
  "key_to_index dict key = do {
     gw_assert (dict_size dict \<noteq> 0);
     Some (uint (oct_hash_key key mod word_of_int (dict_size dict))) }"

text \<open>\<open>destroy_value(v)\<close>, if there is a destructor.\<close>

definition destroy_value :: "'v dict \<Rightarrow> 'v option \<Rightarrow> 'v option list" where
  "destroy_value dict value = (if dict_destroys dict then [value] else [])"

section \<open>Operations\<close>

definition dict_create :: "int \<Rightarrow> bool \<Rightarrow> 'v dict option" where
  "dict_create size_hint destroys = do {
     let size = size_hint * 2;
     tab \<leftarrow> gw_malloc size;
     Some \<lparr>dict_tab = map (\<lambda>c :: 'v item gwlist option option. Some None) tab,
       dict_size = size, dict_count = 0, dict_destroys = destroys\<rparr> }"

text \<open>
  The search that \<open>dict_put\<close> and \<open>dict_put_true\<close> start with: it creates the missing list of
  the bucket. The result is the bucket's list and the item found.
\<close>

definition bucket_search ::
    "'v dict \<Rightarrow> int \<Rightarrow> octets \<Rightarrow> ('v item gwlist \<times> 'v item option) option" where
  "bucket_search dict i key = do {
     b \<leftarrow> rd (dict_tab dict) i;
     case b of
       None \<Rightarrow> Some (gwlist_create, None)
     | Some l \<Rightarrow> do { p \<leftarrow> gwlist_search l key item_has_key; Some (l, p) } }"

text \<open>
  \<open>p->value = value\<close> for the item \<open>p\<close> of the list that has the key; the keys of a list are
  distinct, so \<open>p\<close> is the only one.
\<close>

definition assign_value :: "'v item gwlist \<Rightarrow> octets \<Rightarrow> 'v \<Rightarrow> 'v item gwlist" where
  "assign_value l key value =
     l\<lparr>gl_tab := map (map_option (\<lambda>p. if item_has_key p key then p\<lparr>it_value := value\<rparr> else p)) (gl_tab l)\<rparr>"

definition dict_remove :: "'v dict \<Rightarrow> octets \<Rightarrow> ('v option \<times> 'v dict) option" where
  "dict_remove dict key = do {
     i \<leftarrow> key_to_index dict key;
     b \<leftarrow> rd (dict_tab dict) i;
     (lst, dict) \<leftarrow> (case b of
         None \<Rightarrow> Some (None, dict)
       | Some l \<Rightarrow> do {
           (lst, l) \<leftarrow> gwlist_extract_matching l key item_has_key;
           tab \<leftarrow> wr (dict_tab dict) i (Some l);
           Some (lst, dict\<lparr>dict_tab := tab\<rparr>) });
     gw_assert (lst = None \<or> gwlist_len lst = 1);
     case lst of
       None \<Rightarrow> Some (None, dict)
     | Some l \<Rightarrow> do {
         p \<leftarrow> gwlist_get l 0;
         Some (Some (it_value p), dict\<lparr>dict_count := dict_count dict - 1\<rparr>) } }"

definition dict_put :: "'v dict \<Rightarrow> octets \<Rightarrow> 'v option \<Rightarrow> ('v dict \<times> 'v option list) option" where
  "dict_put dict key value = (case value of
     None \<Rightarrow> do {
       (old, dict) \<leftarrow> dict_remove dict key;
       Some (dict, destroy_value dict old) }
   | Some v \<Rightarrow> do {
       i \<leftarrow> key_to_index dict key;
       (l, p) \<leftarrow> bucket_search dict i key;
       case p of
         None \<Rightarrow> do {
           l \<leftarrow> gwlist_append l (item_create key v);
           tab \<leftarrow> wr (dict_tab dict) i (Some l);
           Some (dict\<lparr>dict_tab := tab, dict_count := dict_count dict + 1\<rparr>, []) }
       | Some p \<Rightarrow> do {
           tab \<leftarrow> wr (dict_tab dict) i (Some (assign_value l key v));
           Some (dict\<lparr>dict_tab := tab\<rparr>, destroy_value dict (Some (it_value p))) } })"

definition dict_put_true :: "'v dict \<Rightarrow> octets \<Rightarrow> 'v \<Rightarrow> (bool \<times> 'v dict \<times> 'v option list) option" where
  "dict_put_true dict key v = do {
     i \<leftarrow> key_to_index dict key;
     (l, p) \<leftarrow> bucket_search dict i key;
     case p of
       None \<Rightarrow> do {
         l \<leftarrow> gwlist_append l (item_create key v);
         tab \<leftarrow> wr (dict_tab dict) i (Some l);
         Some (True, dict\<lparr>dict_tab := tab, dict_count := dict_count dict + 1\<rparr>, []) }
     | Some p \<Rightarrow> do {
         tab \<leftarrow> wr (dict_tab dict) i (Some l);
         Some (False, dict\<lparr>dict_tab := tab\<rparr>, destroy_value dict (Some v)) } }"

definition handle_null_value ::
    "'v dict \<Rightarrow> octets \<Rightarrow> 'v option \<Rightarrow> (bool \<times> 'v dict \<times> 'v option list) option" where
  "handle_null_value dict key value = (case value of
     None \<Rightarrow> do {
       (old, dict) \<leftarrow> dict_remove dict key;
       Some (True, dict, destroy_value dict old) }
   | Some v \<Rightarrow> Some (False, dict, []))"

definition dict_put_once :: "'v dict \<Rightarrow> octets \<Rightarrow> 'v option \<Rightarrow> (int \<times> 'v dict \<times> 'v option list) option" where
  "dict_put_once dict key value = do {
     (handled, dict, ds) \<leftarrow> handle_null_value dict key value;
     if handled then Some (1, dict, ds)
     else do {
       v \<leftarrow> value;
       (fresh, dict, ds) \<leftarrow> dict_put_true dict key v;
       Some (if fresh then 1 else 0, dict, ds) } }"

definition dict_get :: "'v dict \<Rightarrow> octets \<Rightarrow> 'v option option" where
  "dict_get dict key = do {
     i \<leftarrow> key_to_index dict key;
     b \<leftarrow> rd (dict_tab dict) i;
     p \<leftarrow> (case b of None \<Rightarrow> Some None | Some l \<Rightarrow> gwlist_search l key item_has_key);
     Some (map_option it_value p) }"

definition dict_key_count :: "'v dict \<Rightarrow> int" where
  "dict_key_count dict = dict_count dict"

section \<open>Traversal\<close>

text \<open>
  The nested loops of \<open>dict_keys\<close>, \<open>dict_duplicate\<close>, \<open>dict_traverse\<close> and
  \<open>dict_traverse_sorted\<close>; \<open>f\<close> is the loop body, on the state that it updates.
\<close>

function bucket_loop :: "('v item \<Rightarrow> 's \<Rightarrow> 's option) \<Rightarrow> 'v item gwlist \<Rightarrow> int \<Rightarrow> 's \<Rightarrow> 's option" where
  "bucket_loop f l j s =
     (if j < gl_len l then do {
        item \<leftarrow> gwlist_get l j;
        s \<leftarrow> f item s;
        bucket_loop f l (j + 1) s }
      else Some s)"
  by pat_completeness auto
termination
  by (relation "measure (\<lambda>(f, l, j, s). nat (gl_len l - j))") auto

declare bucket_loop.simps [simp del]

function tab_loop :: "('v item \<Rightarrow> 's \<Rightarrow> 's option) \<Rightarrow> 'v dict \<Rightarrow> int \<Rightarrow> 's \<Rightarrow> 's option" where
  "tab_loop f dict i s =
     (if i < dict_size dict then do {
        b \<leftarrow> rd (dict_tab dict) i;
        s \<leftarrow> (case b of None \<Rightarrow> Some s | Some l \<Rightarrow> bucket_loop f l 0 s);
        tab_loop f dict (i + 1) s }
      else Some s)"
  by pat_completeness auto
termination
  by (relation "measure (\<lambda>(f, dict, i, s). nat (dict_size dict - i))") auto

declare tab_loop.simps [simp del]

definition dict_keys :: "'v dict \<Rightarrow> octets gwlist option" where
  "dict_keys dict = tab_loop (\<lambda>item l. gwlist_append l (it_key item)) dict 0 gwlist_create"

text \<open>The values that \<open>dict_put\<close> destroys in the copy are returned with it.\<close>

definition dict_duplicate :: "'v dict \<Rightarrow> ('v \<Rightarrow> 'v option) \<Rightarrow> ('v dict \<times> 'v option list) option" where
  "dict_duplicate dict duplicate_value = do {
     dup \<leftarrow> dict_create (dict_size dict) (dict_destroys dict);
     tab_loop (\<lambda>item (dup, ds). do {
       (dup, d) \<leftarrow> dict_put dup (it_key item) (duplicate_value (it_value item));
       Some (dup, ds @ d) }) dict 0 (dup, []) }"

text \<open>\<open>func\<close> acts on the caller's data; the result is the number of calls and that data.\<close>

definition dict_traverse :: "'v dict \<Rightarrow> (octets \<Rightarrow> 'v \<Rightarrow> 'd \<Rightarrow> 'd) \<Rightarrow> 'd \<Rightarrow> (int \<times> 'd) option" where
  "dict_traverse dict func data =
     tab_loop (\<lambda>item (r, d). Some (r + 1, func (it_key item) (it_value item) d)) dict 0 (0, data)"

partial_function (option) consume_loop ::
    "(octets \<Rightarrow> 'v \<Rightarrow> 'd \<Rightarrow> 'd) \<Rightarrow> 'v item gwlist \<Rightarrow> 'd \<Rightarrow> 'd option" where
  "consume_loop func l data = do {
     (item, l) \<leftarrow> gwlist_consume l;
     case item of
       None \<Rightarrow> Some data
     | Some p \<Rightarrow> consume_loop func l (func (it_key p) (it_value p) data) }"

definition dict_traverse_sorted ::
    "'v dict \<Rightarrow> ('v item \<Rightarrow> 'v item \<Rightarrow> int) \<Rightarrow> (octets \<Rightarrow> 'v \<Rightarrow> 'd \<Rightarrow> 'd) \<Rightarrow> 'd \<Rightarrow> (int \<times> 'd) option" where
  "dict_traverse_sorted dict cmp func data = do {
     l \<leftarrow> tab_loop (\<lambda>item l. gwlist_append l item) dict 0 gwlist_create;
     l \<leftarrow> gwlist_sort l cmp;
     let r = gwlist_len (Some l);
     data \<leftarrow> consume_loop func l data;
     Some (r, data) }"

section \<open>Destruction\<close>

partial_function (option) drain :: "'v dict \<Rightarrow> 'v item gwlist \<Rightarrow> 'v option list \<Rightarrow> 'v option list option" where
  "drain dict l ds = do {
     (p, l) \<leftarrow> gwlist_extract_first l;
     case p of
       None \<Rightarrow> Some ds
     | Some p \<Rightarrow> drain dict l (ds @ destroy_value dict (Some (it_value p))) }"

function destroy_loop :: "'v dict \<Rightarrow> int \<Rightarrow> 'v option list \<Rightarrow> 'v option list option" where
  "destroy_loop dict i ds =
     (if i < dict_size dict then do {
        b \<leftarrow> rd (dict_tab dict) i;
        ds \<leftarrow> (case b of None \<Rightarrow> Some ds | Some l \<Rightarrow> drain dict l ds);
        destroy_loop dict (i + 1) ds }
      else Some ds)"
  by pat_completeness auto
termination
  by (relation "measure (\<lambda>(dict, i, ds). nat (dict_size dict - i))") auto

declare destroy_loop.simps [simp del]

definition dict_destroy :: "'v dict option \<Rightarrow> 'v option list option" where
  "dict_destroy d = (case d of None \<Rightarrow> Some [] | Some dict \<Rightarrow> destroy_loop dict 0 [])"

section \<open>Invariant and abstraction\<close>

text \<open>
  \<open>drep d bss\<close>: the buckets of \<open>d\<close> hold the item lists \<open>bss\<close>, every item sits in the bucket
  its key hashes to, a bucket has no key twice, and the key count is the number of items.
  \<open>dmap\<close> is the abstraction to a map.
\<close>

definition bucket_of :: "nat \<Rightarrow> octets \<Rightarrow> nat" where
  "bucket_of n key = unat (oct_hash_key key) mod n"

definition buckets_ok :: "'v item list list \<Rightarrow> bool" where
  "buckets_ok bss \<longleftrightarrow> bss \<noteq> [] \<and> length bss < 2 ^ 63 \<and>
     (\<forall>i < length bss. distinct (map it_key (bss ! i)) \<and>
       (\<forall>it \<in> set (bss ! i). bucket_of (length bss) (it_key it) = i))"

definition tab_rep :: "'v item gwlist option cells \<Rightarrow> 'v item list list \<Rightarrow> bool" where
  "tab_rep tab bss \<longleftrightarrow>
     list_all2 (\<lambda>c bs. case c of None \<Rightarrow> False | Some None \<Rightarrow> bs = [] | Some (Some l) \<Rightarrow> rep l bs) tab bss"

definition drep :: "'v dict \<Rightarrow> 'v item list list \<Rightarrow> bool" where
  "drep d bss \<longleftrightarrow> buckets_ok bss \<and> tab_rep (dict_tab d) bss \<and> dict_size d = int (length bss) \<and>
     dict_count d = int (length (concat bss))"

definition dmap :: "'v item list list \<Rightarrow> octets \<Rightarrow> 'v option" where
  "dmap bss key = map_option it_value (find (\<lambda>it. it_key it = key) (bss ! bucket_of (length bss) key))"

lemma item_has_key_iff [simp]: "item_has_key it key \<longleftrightarrow> it_key it = key"
  by (auto simp: item_has_key_def cmp_bytes_def)

lemma bucket_of_less [simp]: "0 < n \<Longrightarrow> bucket_of n key < n"
  by (simp add: bucket_of_def)

lemma drep_pos: "drep d bss \<Longrightarrow> 0 < length bss"
  by (auto simp: drep_def buckets_ok_def)

lemma drep_bucket: "drep d bss \<Longrightarrow> bucket_of (length bss) key < length bss"
  using drep_pos bucket_of_less by blast

lemma key_to_index_rep:
  assumes "drep d bss"
  shows "key_to_index d key = Some (int (bucket_of (length bss) key))"
proof -
  have l: "length bss < 2 ^ 64" "0 < length bss" "dict_size d = int (length bss)"
    using assms by (auto simp: drep_def buckets_ok_def)
  then have u: "uint (word_of_int (dict_size d) :: 64 word) = int (length bss)"
    by (simp only: uint_word_of_int) simp
  have "int (unat (oct_hash_key key) mod length bss) = uint (oct_hash_key key) mod int (length bss)"
    by (simp add: of_nat_mod)
  then show ?thesis using l
    unfolding key_to_index_def bucket_of_def uint_mod_distrib u by simp
qed

lemma tab_rep_length: "tab_rep tab bss \<Longrightarrow> length tab = length bss"
  by (simp add: tab_rep_def list_all2_lengthD)

lemma tab_rep_rd:
  assumes "tab_rep tab bss" "i < length bss"
  obtains b where "rd tab (int i) = Some b" "case b of None \<Rightarrow> bss ! i = [] | Some l \<Rightarrow> rep l (bss ! i)"
  using assms list_all2_nthD2 [of _ tab bss i] tab_rep_length [OF assms(1)]
  by (fastforce simp: tab_rep_def rd_nat split: option.splits)

lemma tab_rep_wr:
  assumes "tab_rep tab bss" "i < length bss" "rep l bs"
  obtains tab' where "wr tab (int i) (Some l) = Some tab'" "tab_rep tab' (bss[i := bs])"
proof
  show "wr tab (int i) (Some l) = Some (tab[i := Some (Some l)])"
    using assms tab_rep_length [OF assms(1)] by (simp add: wr_nat)
  show "tab_rep (tab[i := Some (Some l)]) (bss[i := bs])"
    using assms by (auto simp: tab_rep_def intro: list_all2_update_cong)
qed

text \<open>Replacing one bucket.\<close>

definition keyed :: "nat \<Rightarrow> nat \<Rightarrow> 'v item list \<Rightarrow> bool" where
  "keyed n i bs \<longleftrightarrow> distinct (map it_key bs) \<and> (\<forall>it \<in> set bs. bucket_of n (it_key it) = i)"

lemma drep_keyed: "drep d bss \<Longrightarrow> i < length bss \<Longrightarrow> keyed (length bss) i (bss ! i)"
  by (auto simp: drep_def buckets_ok_def keyed_def)

lemma length_concat_update:
  assumes "i < length bss"
  shows "int (length (concat (bss[i := bs]))) = int (length (concat bss)) - int (length (bss ! i)) + int (length bs)"
proof -
  have "concat bss = concat (take i bss) @ bss ! i @ concat (drop (Suc i) bss)"
    using id_take_nth_drop [OF assms] by (metis concat.simps(2) concat_append)
  then show ?thesis using assms by (simp add: upd_conv_take_nth_drop)
qed

lemma drep_update:
  assumes "drep d bss" "i < length bss" "rep l bs" "keyed (length bss) i bs"
  obtains tab where "wr (dict_tab d) (int i) (Some l) = Some tab"
    "\<And>c. c = dict_count d - int (length (bss ! i)) + int (length bs) \<Longrightarrow>
      drep (d\<lparr>dict_tab := tab, dict_count := c\<rparr>) (bss[i := bs])"
proof -
  obtain tab where t: "wr (dict_tab d) (int i) (Some l) = Some tab" "tab_rep tab (bss[i := bs])"
    using tab_rep_wr [of "dict_tab d" bss i l bs] assms by (auto simp: drep_def)
  show thesis
  proof (rule that [OF t(1)])
    fix c assume c: "c = dict_count d - int (length (bss ! i)) + int (length bs)"
    have "buckets_ok (bss[i := bs])"
      using assms(1,2,4) by (auto simp: drep_def buckets_ok_def keyed_def nth_list_update)
    then show "drep (d\<lparr>dict_tab := tab, dict_count := c\<rparr>) (bss[i := bs])"
      using t(2) assms(1) length_concat_update [OF assms(2), of bs] by (simp add: drep_def c)
  qed
qed

lemma dmap_update:
  assumes "drep d bss" "i = bucket_of (length bss) key"
    and "\<And>k. k \<noteq> key \<Longrightarrow> find (\<lambda>it. it_key it = k) bs = find (\<lambda>it. it_key it = k) (bss ! i)"
  shows "dmap (bss[i := bs]) = (dmap bss)(key := map_option it_value (find (\<lambda>it. it_key it = key) bs))"
  using drep_bucket [OF assms(1)] assms(2,3) by (auto simp: dmap_def nth_list_update)

text \<open>Lookup in one bucket.\<close>

lemma find_key_None: "find (\<lambda>it. it_key it = key) bs = None \<longleftrightarrow> key \<notin> it_key ` set bs"
  by (auto simp: find_None_iff)

lemma filter_key:
  assumes "distinct (map it_key bs)"
  shows "filter (\<lambda>it. it_key it = key) bs = (case find (\<lambda>it. it_key it = key) bs of None \<Rightarrow> [] | Some it \<Rightarrow> [it])"
  using assms
proof (induction bs)
  case Nil
  then show ?case by simp
next
  case (Cons b bs)
  show ?case
  proof (cases "it_key b = key")
    case True
    then have "filter (\<lambda>it. it_key it = key) bs = []" using Cons.prems by (auto simp: filter_empty_conv image_iff)
    then show ?thesis using True by simp
  next
    case False
    then show ?thesis using Cons by simp
  qed
qed

lemma find_filter_key: "k \<noteq> key \<Longrightarrow>
  find (\<lambda>it. it_key it = k) (filter (\<lambda>it. it_key it \<noteq> key) bs) = find (\<lambda>it. it_key it = k) bs"
  by (induction bs) auto

lemma find_append: "find p (xs @ ys) = (case find p xs of None \<Rightarrow> find p ys | Some x \<Rightarrow> Some x)"
  by (induction xs) auto

definition set_key :: "octets \<Rightarrow> 'v \<Rightarrow> 'v item \<Rightarrow> 'v item" where
  "set_key key v it = (if it_key it = key then it\<lparr>it_value := v\<rparr> else it)"

lemma it_key_set_key [simp]: "it_key (set_key key v it) = it_key it"
  by (simp add: set_key_def)

lemma find_set_key:
  "find (\<lambda>it. it_key it = k) (map (set_key key v) bs) = map_option (set_key key v) (find (\<lambda>it. it_key it = k) bs)"
  by (induction bs) auto

lemma find_set_key_other:
  "k \<noteq> key \<Longrightarrow> find (\<lambda>it. it_key it = k) (map (set_key key v) bs) = find (\<lambda>it. it_key it = k) bs"
  by (induction bs) (auto simp: set_key_def)

lemma assign_value_rep:
  assumes "rep l xs"
  shows "rep (assign_value l key v) (map (set_key key v) xs)"
proof -
  have a: "assign_value l key v = l\<lparr>gl_tab := map (map_option (set_key key v)) (gl_tab l)\<rparr>"
    by (simp add: assign_value_def set_key_def [abs_def])
  have "cell (assign_value l key v) k = Some (map (set_key key v) xs ! k)" if "k < length xs" for k
  proof -
    have "0 < length (gl_tab l)" using assms that by (auto simp: rep_def)
    then show ?thesis using repD_cell [OF assms that] that by (simp add: a cell_def)
  qed
  then show ?thesis using assms by (auto simp: rep_def a)
qed

section \<open>The operations on maps\<close>

lemma dict_create_rep:
  assumes "0 < hint" and "hint * 2 < 2 ^ 63"
  shows "runs (dict_create hint b) (\<lambda>d. drep d (replicate (nat (hint * 2)) []) \<and> dict_destroys d = b)"
proof -
  have "nat (hint * 2) < 2 ^ 63" "0 < nat (hint * 2)" using assms by (simp_all add: nat_less_iff)
  then show ?thesis using assms
    by (auto simp: dict_create_def gw_malloc_def drep_def buckets_ok_def tab_rep_def concat_replicate_trivial
        list_all2_conv_all_nth Let_def)
qed

lemma dmap_create: "0 < n \<Longrightarrow> dmap (replicate n []) = Map.empty"
  by (auto simp: dmap_def)

lemma drep_rd:
  assumes "drep d bss"
  obtains b where "key_to_index d key = Some (int (bucket_of (length bss) key))"
    "rd (dict_tab d) (int (bucket_of (length bss) key)) = Some b"
    "case b of None \<Rightarrow> bss ! bucket_of (length bss) key = [] | Some l \<Rightarrow> rep l (bss ! bucket_of (length bss) key)"
proof -
  have "tab_rep (dict_tab d) bss" using assms by (simp add: drep_def)
  from tab_rep_rd [OF this drep_bucket [OF assms, of key]] show ?thesis
    using that key_to_index_rep [OF assms, of key] by blast
qed

lemma dict_get_rep:
  assumes "drep d bss"
  shows "dict_get d key = Some (dmap bss key)"
proof -
  obtain b where "key_to_index d key = Some (int (bucket_of (length bss) key))"
    "rd (dict_tab d) (int (bucket_of (length bss) key)) = Some b"
    "case b of None \<Rightarrow> bss ! bucket_of (length bss) key = [] | Some l \<Rightarrow> rep l (bss ! bucket_of (length bss) key)"
    by (rule drep_rd [OF assms])
  then show ?thesis
    by (cases b) (auto simp: dict_get_def dmap_def gwlist_search_rep)
qed

lemma extract_key_rep:
  assumes "rep l xs"
  obtains r l' where "gwlist_extract_matching l key item_has_key = Some (r, l')"
    "rep l' (filter (\<lambda>it. it_key it \<noteq> key) xs)"
    "case r of None \<Rightarrow> filter (\<lambda>it. it_key it = key) xs = []
      | Some new \<Rightarrow> filter (\<lambda>it. it_key it = key) xs \<noteq> [] \<and> rep new (filter (\<lambda>it. it_key it = key) xs)"
  using gwlist_extract_matching_rep [OF assms, of key item_has_key]
  by (force elim!: runsE split: option.splits)

lemma dict_remove_rep:
  assumes d: "drep d bss"
  shows "runs (dict_remove d key) (\<lambda>(v, d'). v = dmap bss key \<and> dict_destroys d' = dict_destroys d \<and>
    (\<exists>bss'. drep d' bss' \<and> length bss' = length bss \<and> dmap bss' = (dmap bss)(key := None)))"
proof -
  let ?i = "bucket_of (length bss) key"
  obtain b where b: "key_to_index d key = Some (int ?i)" "rd (dict_tab d) (int ?i) = Some b"
    "case b of None \<Rightarrow> bss ! ?i = [] | Some l \<Rightarrow> rep l (bss ! ?i)"
    by (rule drep_rd [OF d])
  note i = drep_bucket [OF d, of key] and k = drep_keyed [OF d drep_bucket [OF d, of key]]
  show ?thesis
  proof (cases b)
    case None
    then have "dmap bss key = None" using b(3) by (simp add: dmap_def)
    moreover from this have "(dmap bss)(key := None) = dmap bss" by auto
    ultimately show ?thesis using d b None by (auto simp: dict_remove_def intro!: exI [of _ bss])
  next
    case (Some l)
    let ?rest = "filter (\<lambda>it. it_key it \<noteq> key) (bss ! ?i)" and ?hit = "filter (\<lambda>it. it_key it = key) (bss ! ?i)"
    have fk: "?hit = (case find (\<lambda>it. it_key it = key) (bss ! ?i) of None \<Rightarrow> [] | Some it \<Rightarrow> [it])"
      using k filter_key by (auto simp: keyed_def)
    obtain r l' where e: "gwlist_extract_matching l key item_has_key = Some (r, l')" "rep l' ?rest"
      "case r of None \<Rightarrow> ?hit = [] | Some new \<Rightarrow> ?hit \<noteq> [] \<and> rep new ?hit"
      by (rule extract_key_rep [of l "bss ! ?i" key]) (use b(3) Some in auto)
    have kr: "keyed (length bss) ?i ?rest" using k by (auto simp: keyed_def distinct_map_filter)
    obtain tab where t: "wr (dict_tab d) (int ?i) (Some l') = Some tab"
      "\<And>c. c = dict_count d - int (length (bss ! ?i)) + int (length ?rest) \<Longrightarrow>
        drep (d\<lparr>dict_tab := tab, dict_count := c\<rparr>) (bss[?i := ?rest])"
      using drep_update [OF d i e(2) kr] by blast
    have fn: "find (\<lambda>it. it_key it = key) ?rest = None" by (auto simp: find_None_iff)
    have m: "dmap (bss[?i := ?rest]) = (dmap bss)(key := None)"
      using dmap_update [OF d refl, of key ?rest] fn by (simp add: find_filter_key)
    have len: "length (bss ! ?i) = length ?rest + length ?hit"
      using sum_length_filter_compl [of "\<lambda>it. it_key it = key" "bss ! ?i"] by simp
    show ?thesis
    proof (cases "find (\<lambda>it. it_key it = key) (bss ! ?i)")
      case None
      then have "r = None" "dmap bss key = None" using e(3) fk by (auto simp: dmap_def split: option.splits)
      then show ?thesis
        using b Some e(1) t(1) t(2) [of "dict_count d"] m len fk None
        by (auto simp: dict_remove_def intro!: exI [of _ "bss[?i := ?rest]"])
    next
      case (Some it)
      then obtain new where "r = Some new" "rep new [it]" "dmap bss key = Some (it_value it)"
        using e(3) fk by (auto simp: dmap_def split: option.splits)
      then show ?thesis
        using b \<open>b = Some l\<close> e(1) t(1) t(2) [of "dict_count d - 1"] m len fk Some gwlist_get_rep [of new "[it]" 0]
        by (auto simp: dict_remove_def gwlist_len_def repD_len intro!: exI [of _ "bss[?i := ?rest]"])
    qed
  qed
qed

text \<open>
  \<open>put_rel d bss d' m\<close>: after an operation on \<open>d\<close> the table is still valid, of the same
  size and destructor, and holds the map \<open>m\<close>.
\<close>

definition put_rel :: "'v dict \<Rightarrow> 'v item list list \<Rightarrow> 'v dict \<Rightarrow> (octets \<Rightarrow> 'v option) \<Rightarrow> bool" where
  "put_rel d bss d' m \<longleftrightarrow> dict_destroys d' = dict_destroys d \<and>
     (\<exists>bss'. drep d' bss' \<and> length bss' = length bss \<and> dmap bss' = m)"

lemma put_rel_refl: "drep d bss \<Longrightarrow> put_rel d bss d (dmap bss)"
  by (auto simp: put_rel_def)

lemma bucket_search_rep:
  assumes d: "drep d bss"
  obtains l p where "key_to_index d key = Some (int (bucket_of (length bss) key))"
    "bucket_search d (int (bucket_of (length bss) key)) key = Some (l, p)"
    "rep l (bss ! bucket_of (length bss) key)"
    "p = find (\<lambda>it. it_key it = key) (bss ! bucket_of (length bss) key)"
proof -
  let ?i = "bucket_of (length bss) key"
  obtain b where b: "key_to_index d key = Some (int ?i)" "rd (dict_tab d) (int ?i) = Some b"
    "case b of None \<Rightarrow> bss ! ?i = [] | Some l \<Rightarrow> rep l (bss ! ?i)"
    by (rule drep_rd [OF d])
  show ?thesis
  proof (cases b)
    case None
    then show ?thesis using b that [of gwlist_create None] gwlist_create_rep by (simp add: bucket_search_def)
  next
    case (Some l)
    then show ?thesis using b that [of l] by (simp add: bucket_search_def gwlist_search_rep)
  qed
qed

lemma append_item_rep:
  assumes d: "drep d bss" and l: "rep l (bss ! bucket_of (length bss) key)"
    and new: "find (\<lambda>it. it_key it = key) (bss ! bucket_of (length bss) key) = None"
  obtains l' tab where "gwlist_append l (item_create key v) = Some l'"
    "wr (dict_tab d) (int (bucket_of (length bss) key)) (Some l') = Some tab"
    "put_rel d bss (d\<lparr>dict_tab := tab, dict_count := dict_count d + 1\<rparr>) ((dmap bss)(key \<mapsto> v))"
proof -
  let ?i = "bucket_of (length bss) key" and ?it = "item_create key v"
  note i = drep_bucket [OF d, of key]
  obtain l' where l': "gwlist_append l ?it = Some l'" "rep l' (bss ! ?i @ [?it])"
    using gwlist_append_rep [OF l, of ?it] by (auto elim: runsE)
  have "keyed (length bss) ?i (bss ! ?i @ [?it])"
    using drep_keyed [OF d i] new by (auto simp: keyed_def item_create_def find_key_None)
  then obtain tab where t: "wr (dict_tab d) (int ?i) (Some l') = Some tab"
      "\<And>c. c = dict_count d - int (length (bss ! ?i)) + int (length (bss ! ?i @ [?it])) \<Longrightarrow>
        drep (d\<lparr>dict_tab := tab, dict_count := c\<rparr>) (bss[?i := bss ! ?i @ [?it]])"
    using drep_update [OF d i l'(2)] by blast
  have "dmap (bss[?i := bss ! ?i @ [?it]]) = (dmap bss)(key \<mapsto> v)"
    using dmap_update [OF d refl, of key "bss ! ?i @ [?it]"] new
    by (simp add: find_append item_create_def split: option.splits)
  then have "put_rel d bss (d\<lparr>dict_tab := tab, dict_count := dict_count d + 1\<rparr>) ((dmap bss)(key \<mapsto> v))"
    using t(2) [of "dict_count d + 1"] by (auto simp: put_rel_def)
  with l'(1) t(1) show ?thesis by (rule that)
qed

lemma assign_item_rep:
  assumes d: "drep d bss" and l: "rep l (bss ! bucket_of (length bss) key)"
    and old: "find (\<lambda>it. it_key it = key) (bss ! bucket_of (length bss) key) = Some p"
  obtains tab where "wr (dict_tab d) (int (bucket_of (length bss) key)) (Some (assign_value l key v)) = Some tab"
    "put_rel d bss (d\<lparr>dict_tab := tab\<rparr>) ((dmap bss)(key \<mapsto> v))" "dmap bss key = Some (it_value p)"
proof -
  let ?i = "bucket_of (length bss) key" and ?bs = "map (set_key key v) (bss ! bucket_of (length bss) key)"
  note i = drep_bucket [OF d, of key]
  have "keyed (length bss) ?i ?bs"
    using drep_keyed [OF d i] by (auto simp: keyed_def comp_def)
  then obtain tab where t: "wr (dict_tab d) (int ?i) (Some (assign_value l key v)) = Some tab"
      "\<And>c. c = dict_count d - int (length (bss ! ?i)) + int (length ?bs) \<Longrightarrow>
        drep (d\<lparr>dict_tab := tab, dict_count := c\<rparr>) (bss[?i := ?bs])"
    using drep_update [OF d i assign_value_rep [OF l]] by blast
  have k: "it_key p = key" using old by (auto simp: find_Some_iff)
  have "dmap (bss[?i := ?bs]) = (dmap bss)(key \<mapsto> v)"
    using dmap_update [OF d refl, of key ?bs, OF find_set_key_other] old k
    by (simp add: find_set_key set_key_def)
  then have "put_rel d bss (d\<lparr>dict_tab := tab\<rparr>) ((dmap bss)(key \<mapsto> v))"
    using t(2) [of "dict_count d"] by (auto simp: put_rel_def)
  with t(1) show ?thesis by (rule that) (simp add: dmap_def old)
qed

lemma dict_put_rep:
  assumes d: "drep d bss"
  shows "runs (dict_put d key val) (\<lambda>(d', ds). put_rel d bss d' ((dmap bss)(key := val)) \<and>
    ds = (case val of None \<Rightarrow> destroy_value d (dmap bss key)
      | Some v \<Rightarrow> if dmap bss key = None then [] else destroy_value d (dmap bss key)))"
proof (cases val)
  case None
  then show ?thesis using dict_remove_rep [OF d, of key]
    by (auto simp: dict_put_def put_rel_def destroy_value_def elim!: runsE)
next
  case (Some v)
  let ?i = "bucket_of (length bss) key"
  obtain l p where s: "key_to_index d key = Some (int ?i)" "bucket_search d (int ?i) key = Some (l, p)"
    "rep l (bss ! ?i)" "p = find (\<lambda>it. it_key it = key) (bss ! ?i)"
    by (rule bucket_search_rep [OF d])
  show ?thesis
  proof (cases p)
    case None
    then have n: "find (\<lambda>it. it_key it = key) (bss ! ?i) = None" "dmap bss key = None"
      using s(4) by (simp_all add: dmap_def)
    obtain l' tab where "gwlist_append l (item_create key v) = Some l'"
      "wr (dict_tab d) (int ?i) (Some l') = Some tab"
      "put_rel d bss (d\<lparr>dict_tab := tab, dict_count := dict_count d + 1\<rparr>) ((dmap bss)(key \<mapsto> v))"
      by (rule append_item_rep [OF d s(3) n(1)])
    then show ?thesis using s(1) s(2) [unfolded None] n(2) Some by (simp add: dict_put_def)
  next
    case (Some q)
    then have n: "find (\<lambda>it. it_key it = key) (bss ! ?i) = Some q" using s(4) by simp
    obtain tab where "wr (dict_tab d) (int ?i) (Some (assign_value l key v)) = Some tab"
      "put_rel d bss (d\<lparr>dict_tab := tab\<rparr>) ((dmap bss)(key \<mapsto> v))" "dmap bss key = Some (it_value q)"
      by (rule assign_item_rep [OF d s(3) n])
    then show ?thesis using s(1) s(2) [unfolded Some] \<open>val = Some v\<close> by (simp add: dict_put_def)
  qed
qed

lemma dict_put_once_rep:
  assumes d: "drep d bss"
  shows "runs (dict_put_once d key val) (\<lambda>(r, d', ds).
    case val of
      None \<Rightarrow> r = 1 \<and> put_rel d bss d' ((dmap bss)(key := None)) \<and> ds = destroy_value d (dmap bss key)
    | Some v \<Rightarrow>
        if dmap bss key = None then r = 1 \<and> put_rel d bss d' ((dmap bss)(key \<mapsto> v)) \<and> ds = []
        else r = 0 \<and> put_rel d bss d' (dmap bss) \<and> ds = destroy_value d (Some v))"
proof (cases val)
  case None
  then show ?thesis using dict_remove_rep [OF d, of key]
    by (auto simp: dict_put_once_def handle_null_value_def put_rel_def destroy_value_def elim!: runsE)
next
  case (Some v)
  let ?i = "bucket_of (length bss) key"
  obtain l p where s: "key_to_index d key = Some (int ?i)" "bucket_search d (int ?i) key = Some (l, p)"
    "rep l (bss ! ?i)" "p = find (\<lambda>it. it_key it = key) (bss ! ?i)"
    by (rule bucket_search_rep [OF d])
  show ?thesis
  proof (cases p)
    case None
    then have n: "find (\<lambda>it. it_key it = key) (bss ! ?i) = None" "dmap bss key = None"
      using s(4) by (simp_all add: dmap_def)
    obtain l' tab where "gwlist_append l (item_create key v) = Some l'"
      "wr (dict_tab d) (int ?i) (Some l') = Some tab"
      "put_rel d bss (d\<lparr>dict_tab := tab, dict_count := dict_count d + 1\<rparr>) ((dmap bss)(key \<mapsto> v))"
      by (rule append_item_rep [OF d s(3) n(1)])
    then show ?thesis using s(1) s(2) [unfolded None] n(2) Some by (simp add: dict_put_once_def dict_put_true_def handle_null_value_def)
  next
    case p: (Some q)
    then have "dmap bss key \<noteq> None" using s(4) by (simp add: dmap_def)
    moreover obtain tab where "wr (dict_tab d) (int ?i) (Some l) = Some tab"
      "\<And>c. c = dict_count d - int (length (bss ! ?i)) + int (length (bss ! ?i)) \<Longrightarrow>
        drep (d\<lparr>dict_tab := tab, dict_count := c\<rparr>) (bss[?i := bss ! ?i])"
      using drep_update [OF d drep_bucket [OF d, of key] s(3) drep_keyed [OF d drep_bucket [OF d, of key]]] by blast
    moreover from this(2) [of "dict_count d"] have "put_rel d bss (d\<lparr>dict_tab := tab\<rparr>) (dmap bss)"
      by (auto simp: put_rel_def)
    ultimately show ?thesis using s(1) s(2) [unfolded p] Some
      by (auto simp: dict_put_once_def dict_put_true_def handle_null_value_def)
  qed
qed

text \<open>The keys.\<close>

lemma distinct_keys:
  assumes "buckets_ok bss"
  shows "distinct (map it_key (concat bss))"
proof -
  have "distinct (map it_key (concat (take n bss))) \<and>
      (\<forall>it \<in> set (concat (take n bss)). bucket_of (length bss) (it_key it) < n)" if "n \<le> length bss" for n
    using that
  proof (induction n)
    case 0
    then show ?case by simp
  next
    case (Suc n)
    then have "n < length bss" by simp
    then have "distinct (map it_key (bss ! n))" "\<forall>it \<in> set (bss ! n). bucket_of (length bss) (it_key it) = n"
      using assms by (auto simp: buckets_ok_def)
    then show ?case using Suc by (fastforce simp: take_Suc_conv_app_nth)
  qed
  from this [of "length bss"] show ?thesis by simp
qed

lemma dmap_eq_map_of:
  assumes "drep d bss"
  shows "dmap bss = map_of (map (\<lambda>it. (it_key it, it_value it)) (concat bss))"
proof
  fix key
  have ok: "buckets_ok bss" using assms by (simp add: drep_def)
  let ?i = "bucket_of (length bss) key"
  have uniq: "it \<in> set (concat bss) \<and> it_key it = key \<longleftrightarrow> it \<in> set (bss ! ?i) \<and> it_key it = key" for it
  proof
    assume it: "it \<in> set (concat bss) \<and> it_key it = key"
    then obtain bs where "bs \<in> set bss" "it \<in> set bs" by auto
    then obtain j where "j < length bss" "it \<in> set (bss ! j)" by (auto simp: in_set_conv_nth [of bs bss])
    then show "it \<in> set (bss ! ?i) \<and> it_key it = key" using ok it by (auto simp: buckets_ok_def)
  next
    assume "it \<in> set (bss ! ?i) \<and> it_key it = key"
    then show "it \<in> set (concat bss) \<and> it_key it = key" using drep_bucket [OF assms, of key] by auto
  qed
  show "dmap bss key = map_of (map (\<lambda>it. (it_key it, it_value it)) (concat bss)) key"
  proof (cases "find (\<lambda>it. it_key it = key) (bss ! ?i)")
    case None
    then have "key \<notin> it_key ` set (concat bss)" using uniq by (fastforce simp: find_None_iff)
    then have "map_of (map (\<lambda>it. (it_key it, it_value it)) (concat bss)) key = None"
      by (auto simp: map_of_eq_None_iff)
    then show ?thesis using None by (simp add: dmap_def)
  next
    case (Some it)
    then have "it \<in> set (concat bss)" "it_key it = key" using uniq [of it] by (auto simp: find_Some_iff)
    then have "(key, it_value it) \<in> set (map (\<lambda>it. (it_key it, it_value it)) (concat bss))" by auto
    moreover have "distinct (map fst (map (\<lambda>it. (it_key it, it_value it)) (concat bss)))"
      using distinct_keys [OF ok] by (simp add: comp_def)
    ultimately show ?thesis using Some by (simp add: dmap_def)
  qed
qed

lemma dom_dmap: "drep d bss \<Longrightarrow> dom (dmap bss) = it_key ` set (concat bss)"
  by (simp add: dmap_eq_map_of dom_map_of_conv_image_fst image_image)

lemma dict_key_count_rep: "drep d bss \<Longrightarrow> dict_key_count d = int (card (dom (dmap bss)))"
  using distinct_card [of "map it_key (concat bss)"] distinct_keys [of bss] dom_dmap [of d bss]
  by (simp add: drep_def dict_key_count_def)

section \<open>Traversal\<close>

lemma bucket_loop_rep:
  assumes "rep l (xs @ ys)"
  shows "bucket_loop f l (int (length xs)) s = iterate f ys s"
  using assms
proof (induction ys arbitrary: xs s)
  case Nil
  then show ?case by (subst bucket_loop.simps) (simp add: repD_len)
next
  case (Cons y ys)
  have g: "gwlist_get l (int (length xs)) = Some y"
    using gwlist_get_rep [OF Cons.prems, of "length xs"] by simp
  have "bucket_loop f l (int (length xs) + 1) = iterate f ys"
    using Cons.IH [of "xs @ [y]"] Cons.prems by (intro ext) (simp add: add.commute)
  then show ?case using g repD_len [OF Cons.prems]
    by (subst bucket_loop.simps) simp
qed

lemma tab_loop_rep:
  assumes "drep d (xss @ yss)"
  shows "tab_loop f d (int (length xss)) s = iterate f (concat yss) s"
  using assms
proof (induction yss arbitrary: xss s)
  case Nil
  then show ?case by (subst tab_loop.simps) (simp add: drep_def)
next
  case (Cons ys yss)
  have t: "tab_rep (dict_tab d) (xss @ ys # yss)" "dict_size d = int (length (xss @ ys # yss))"
    using Cons.prems by (simp_all add: drep_def)
  obtain b where b: "rd (dict_tab d) (int (length xss)) = Some b" "case b of None \<Rightarrow> ys = [] | Some l \<Rightarrow> rep l ys"
    by (rule tab_rep_rd [OF t(1), of "length xss", unfolded nth_append_length]) auto
  have n: "tab_loop f d (int (length xss) + 1) = iterate f (concat yss)"
    using Cons.IH [of "xss @ [ys]"] Cons.prems by (intro ext) (simp add: add.commute)
  have "(case b of None \<Rightarrow> Some s | Some l \<Rightarrow> bucket_loop f l 0 s) = iterate f ys s"
    using b(2) bucket_loop_rep [where xs = "[]" and f = f] by (auto split: option.splits)
  then show ?case using b(1) t(2) n
    by (subst tab_loop.simps) (simp add: iterate_append)
qed

lemma tab_loop_all: "drep d bss \<Longrightarrow> tab_loop f d 0 s = iterate f (concat bss) s"
  using tab_loop_rep [of d "[]" bss] by simp

lemma append_all_rep:
  assumes "rep l xs"
  shows "runs (iterate (\<lambda>it l. gwlist_append l (f it)) ys l) (\<lambda>l'. rep l' (xs @ map f ys) \<and> same_parties l l')"
proof (rule iterate_runs [where P = "\<lambda>zs l'. rep l' (xs @ map f zs) \<and> same_parties l l'"])
  fix as a s
  assume "rep s (xs @ map f as) \<and> same_parties l s"
  then show "runs (gwlist_append s (f a)) (\<lambda>l'. rep l' (xs @ map f (as @ [a])) \<and> same_parties l l')"
    using gwlist_append_rep [of s "xs @ map f as" "f a"] by (auto elim!: runs_mono dest: same_parties_trans)
qed (simp add: assms)

lemma dict_keys_rep:
  assumes "drep d bss"
  shows "runs (dict_keys d) (\<lambda>l. rep l (map it_key (concat bss)))"
  using append_all_rep [OF gwlist_create_rep, of it_key "concat bss"]
  by (auto simp: dict_keys_def tab_loop_all [OF assms] elim: runs_mono)

lemma dict_traverse_rep:
  fixes d :: "'v dict"
  assumes "drep d bss"
  shows "dict_traverse d func data =
    Some (int (length (concat bss)), fold (\<lambda>it. func (it_key it) (it_value it)) (concat bss) data)"
proof -
  have "fold (\<lambda>it (r, x). (r + 1, func (it_key it) (it_value it) x)) its (r, x) =
      (r + int (length its), fold (\<lambda>it. func (it_key it) (it_value it)) its x)" for its :: "'v item list" and r :: int and x
    by (induction its arbitrary: r x) simp_all
  then show ?thesis
    using iterate_Some [of "\<lambda>it (r, x). (r + 1, func (it_key it) (it_value it) x)" "concat bss" "(0 :: int, data)"]
    by (simp add: dict_traverse_def tab_loop_all [OF assms] case_prod_unfold)
qed


lemma gwlist_consume_alone:
  assumes "rep l xs" and "gl_num_producers l = 0"
  shows "runs (gwlist_consume l) (\<lambda>(x, l'). x = (if xs = [] then None else Some (hd xs)) \<and> rep l' (tl xs) \<and>
    gl_num_producers l' = 0)"
proof -
  have "rep (consume_enter l) xs" using assms(1) by (simp add: consume_enter_def)
  from consume_leave_rep [OF this] show ?thesis using assms(2)
    by (auto simp: gwlist_consume_def Let_def consume_enter_def must_wait_def elim!: runs_mono)
qed

lemma consume_loop_rep:
  assumes "rep l xs" and "gl_num_producers l = 0"
  shows "consume_loop func l data = Some (fold (\<lambda>it. func (it_key it) (it_value it)) xs data)"
  using assms
proof (induction xs arbitrary: l data)
  case Nil
  then show ?case using gwlist_consume_alone [OF Nil.prems]
    by (subst consume_loop.simps) (auto elim!: runsE)
next
  case (Cons x xs)
  then show ?case using gwlist_consume_alone [OF Cons.prems]
    by (subst consume_loop.simps) (auto elim!: runsE simp: Cons.IH)
qed

lemma dict_traverse_sorted_rep:
  assumes d: "drep d bss" and c: "comparison cmp"
  shows "runs (dict_traverse_sorted d cmp func data) (\<lambda>(r, data'). r = int (length (concat bss)) \<and>
    (\<exists>its. mset its = mset (concat bss) \<and> sorted_wrt (\<lambda>x y. cmp x y \<le> 0) its \<and>
      data' = fold (\<lambda>it. func (it_key it) (it_value it)) its data))"
proof -
  obtain l where l: "tab_loop (\<lambda>item l. gwlist_append l item) d 0 gwlist_create = Some l" "rep l (concat bss)"
    "gl_num_producers l = 0"
    using append_all_rep [OF gwlist_create_rep, of "\<lambda>it. it" "concat bss"]
    by (auto simp: tab_loop_all [OF d] same_parties_def elim!: runsE) (simp add: gwlist_create_def)
  obtain l' its where l': "gwlist_sort l cmp = Some l'" "rep l' its" "mset its = mset (concat bss)"
    "sorted_wrt (\<lambda>x y. cmp x y \<le> 0) its" "same_parties l l'"
    using comparison.gwlist_sort_rep [OF c l(2)] by (auto elim!: runsE)
  have "gl_num_producers l' = 0" using l(3) l'(5) by (simp add: same_parties_def)
  then have "consume_loop func l' data = Some (fold (\<lambda>it. func (it_key it) (it_value it)) its data)"
    by (rule consume_loop_rep [OF l'(2)])
  moreover have "length its = length (concat bss)" using l'(3) by (metis size_mset)
  ultimately show ?thesis
    using l(1) l'(1-4) by (auto simp: dict_traverse_sorted_def gwlist_len_def repD_len)
qed

lemma drain_rep:
  assumes "rep l xs"
  shows "drain d l ds = Some (ds @ concat (map (\<lambda>it. destroy_value d (Some (it_value it))) xs))"
  using assms
proof (induction xs arbitrary: l ds)
  case Nil
  then show ?case using gwlist_extract_first_rep [OF Nil.prems] by (subst drain.simps) (auto elim!: runsE)
next
  case (Cons x xs)
  then show ?case using gwlist_extract_first_rep [OF Cons.prems]
    by (subst drain.simps) (auto elim!: runsE)
qed

lemma destroy_loop_rep:
  assumes "drep d (xss @ yss)"
  shows "destroy_loop d (int (length xss)) ds =
    Some (ds @ concat (map (\<lambda>it. destroy_value d (Some (it_value it))) (concat yss)))"
  using assms
proof (induction yss arbitrary: xss ds)
  case Nil
  then show ?case by (subst destroy_loop.simps) (simp add: drep_def)
next
  case (Cons ys yss)
  have t: "tab_rep (dict_tab d) (xss @ ys # yss)" "dict_size d = int (length (xss @ ys # yss))"
    using Cons.prems by (simp_all add: drep_def)
  obtain b where b: "rd (dict_tab d) (int (length xss)) = Some b" "case b of None \<Rightarrow> ys = [] | Some l \<Rightarrow> rep l ys"
    by (rule tab_rep_rd [OF t(1), of "length xss", unfolded nth_append_length]) auto
  have n: "destroy_loop d (int (length xss) + 1) ds' =
      Some (ds' @ concat (map (\<lambda>it. destroy_value d (Some (it_value it))) (concat yss)))" for ds'
    using Cons.IH [of "xss @ [ys]" ds'] Cons.prems by (simp add: add.commute)
  have "(case b of None \<Rightarrow> Some ds | Some l \<Rightarrow> drain d l ds) =
      Some (ds @ concat (map (\<lambda>it. destroy_value d (Some (it_value it))) ys))"
    using b(2) drain_rep by (auto split: option.splits)
  then show ?case using b(1) t(2) n by (subst destroy_loop.simps) simp
qed

lemma dict_destroy_rep:
  "drep d bss \<Longrightarrow> dict_destroy (Some d) = Some (if dict_destroys d then map (\<lambda>it. Some (it_value it)) (concat bss) else [])"
proof -
  assume d: "drep d bss"
  have "concat (map (\<lambda>it. destroy_value d (Some (it_value it))) its) =
      (if dict_destroys d then map (\<lambda>it. Some (it_value it)) its else [])" for its :: "'a item list"
    by (induction its) (simp_all add: destroy_value_def)
  then show ?thesis using destroy_loop_rep [of d "[]" bss "[]"] d by (simp add: dict_destroy_def)
qed


lemma map_of_append_new: "k \<notin> fst ` set ps \<Longrightarrow> map_of (ps @ [(k, v)]) = (map_of ps)(k \<mapsto> v)"
  by (induction ps) auto

lemma dict_duplicate_rep:
  fixes d :: "'v dict"
  assumes d: "drep d bss" and len: "int (length bss) * 2 < 2 ^ 63"
  shows "runs (dict_duplicate d f) (\<lambda>(d', ds). dict_destroys d' = dict_destroys d \<and>
    (\<exists>bss'. drep d' bss' \<and> dmap bss' = (\<lambda>key. Option.bind (dmap bss key) f)))"
proof -
  let ?n = "nat (int (length bss) * 2)" and ?m = "\<lambda>its key. Option.bind (map_of (map (\<lambda>it. (it_key it, it_value it)) its) key) f"
  let ?P = "\<lambda>its (d', ds :: 'v option list). dict_destroys d' = dict_destroys d \<and> (\<exists>bss'. drep d' bss' \<and> dmap bss' = ?m its)"
  have "dict_size d = int (length bss)" using d by (simp add: drep_def)
  then obtain d0 :: "'v dict" where d0: "dict_create (dict_size d) (dict_destroys d) = Some d0" "drep d0 (replicate ?n [])"
    "dict_destroys d0 = dict_destroys d"
    using dict_create_rep [of "int (length bss)" "dict_destroys d"] drep_pos [OF d] len by (auto elim: runsE)
  have "?P [] (d0, [])" using d0(2,3) drep_pos [OF d] by (auto intro!: exI [of _ "replicate ?n []"] simp: dmap_create)
  moreover have "runs (case s of (dup, ds) \<Rightarrow> do {
        (dup, d) \<leftarrow> dict_put dup (it_key it) (f (it_value it)); Some (dup, ds @ d) }) (?P (xs @ [it]))"
    if c: "concat bss = xs @ it # ys" and p: "?P xs s" for xs it ys s
  proof -
    have k: "it_key it \<notin> it_key ` set xs"
      using distinct_keys [of bss] d c by (auto simp: drep_def)
    then have m: "?m (xs @ [it]) = (?m xs)(it_key it := f (it_value it))"
      using map_of_append_new [of "it_key it" "map (\<lambda>it. (it_key it, it_value it)) xs" "it_value it"]
      by (auto simp: fun_eq_iff image_image simp del: map_of_append)
    obtain d' ds bss' where s: "s = (d', ds)" "drep d' bss'" "dmap bss' = ?m xs" "dict_destroys d' = dict_destroys d"
      using p by (cases s) auto
    then show ?thesis using dict_put_rep [OF s(2), of "it_key it" "f (it_value it)"] m
      by (auto simp: put_rel_def elim!: runsE)
  qed
  ultimately have "runs (iterate (\<lambda>item (dup, ds). do {
        (dup, d) \<leftarrow> dict_put dup (it_key item) (f (it_value item)); Some (dup, ds @ d) }) (concat bss) (d0, []))
      (?P (concat bss))"
    by (rule iterate_runs)
  then show ?thesis using d0(1) by (simp add: dict_duplicate_def tab_loop_all [OF d] dmap_eq_map_of [OF d])
qed

end
