(* ===== verification/Dict_Spec.thy ===== *)
theory Dict_Spec
  imports Dict
begin

text \<open>
  The contract of \<open>gwlib/dict.h\<close>: a hash table behaves as a finite map from octet strings to
  values. The last section follows the values: each one that was put is handed back, passed to
  the destructor or still stored, exactly once.
\<close>

section \<open>Valid tables\<close>

definition buckets :: "'v dict \<Rightarrow> 'v item list list" where
  "buckets d = map (\<lambda>c. case c of Some (Some l) \<Rightarrow> items l | _ \<Rightarrow> []) (dict_tab d)"

definition dict_ok :: "'v dict \<Rightarrow> bool" where
  "dict_ok d \<longleftrightarrow> buckets_ok (buckets d) \<and>
     list_all (\<lambda>c. case c of None \<Rightarrow> False | Some None \<Rightarrow> True | Some (Some l) \<Rightarrow> gwlist_ok l) (dict_tab d) \<and>
     dict_size d = int (length (dict_tab d)) \<and> dict_count d = int (length (concat (buckets d)))"

definition contents :: "'v dict \<Rightarrow> octets \<Rightarrow> 'v option" where
  "contents d = dmap (buckets d)"

lemma tab_rep_iff:
  "tab_rep tab bss \<longleftrightarrow>
     list_all (\<lambda>c. case c of None \<Rightarrow> False | Some None \<Rightarrow> True | Some (Some l) \<Rightarrow> gwlist_ok l) tab \<and>
     map (\<lambda>c. case c of Some (Some l) \<Rightarrow> items l | _ \<Rightarrow> []) tab = bss"
proof (induction tab arbitrary: bss)
  case Nil
  then show ?case by (auto simp: tab_rep_def)
next
  case (Cons c tab)
  have "tab_rep (c # tab) bss \<longleftrightarrow> (\<exists>bs bss'. bss = bs # bss' \<and> tab_rep tab bss' \<and>
      (case c of None \<Rightarrow> False | Some None \<Rightarrow> bs = [] | Some (Some l) \<Rightarrow> rep l bs))"
    by (auto simp: tab_rep_def list_all2_Cons1)
  then show ?case using Cons by (auto simp: rep_iff split: option.splits)
qed

lemma drep_iff: "drep d bss \<longleftrightarrow> dict_ok d \<and> buckets d = bss"
proof -
  have "length (buckets d) = length (dict_tab d)" by (simp add: buckets_def)
  then show ?thesis by (auto simp: drep_def dict_ok_def tab_rep_iff buckets_def)
qed

lemma dict_okD: "dict_ok d \<Longrightarrow> drep d (buckets d)"
  by (simp add: drep_iff)

section \<open>What clients of a table rely on\<close>

lemma dict_ok_drep: "drep d bss \<Longrightarrow> dict_ok d \<and> contents d = dmap bss"
  by (simp add: drep_iff contents_def)

lemma dict_get_ok: "dict_ok d \<Longrightarrow> dict_get d key = Some (contents d key)"
  using dict_get_rep [OF dict_okD] by (simp add: contents_def)

lemma dict_put_ok:
  assumes "dict_ok d"
  obtains d' ds where "dict_put d key val = Some (d', ds)" "dict_ok d'" "contents d' = (contents d)(key := val)"
  using dict_put_rep [OF dict_okD [OF assms], of key val] by (auto simp: put_rel_def contents_def [of d] dest!: dict_ok_drep elim!: runsE)

lemma dict_create_ok:
  assumes "0 < hint" and "hint * 2 < 2 ^ 63"
  obtains d :: "'v dict" where "dict_create hint b = Some d" "dict_ok d" "contents d = Map.empty"
proof -
  obtain d :: "'v dict" where "dict_create hint b = Some d" "drep d (replicate (nat (hint * 2)) [])"
    using dict_create_rep [OF assms, of b] by (auto elim: runsE)
  then show ?thesis using that [of d] dict_ok_drep [of d "replicate (nat (hint * 2)) []"] dmap_create [of "nat (hint * 2)"] assms(1) by simp
qed

lemma dict_keys_ok:
  assumes "dict_ok d"
  obtains l ks where "dict_keys d = Some l" "rep l ks" "distinct ks" "set ks = dom (contents d)"
proof -
  note d = dict_okD [OF assms]
  obtain l where l: "dict_keys d = Some l" "rep l (map it_key (concat (buckets d)))"
    using dict_keys_rep [OF d] by (auto elim: runsE)
  have "distinct (map it_key (concat (buckets d)))" using distinct_keys [of "buckets d"] d by (simp add: drep_def)
  moreover have "set (map it_key (concat (buckets d))) = dom (contents d)"
    by (force simp: contents_def dmap_eq_map_of [OF d] dom_map_of_conv_image_fst)
  ultimately show ?thesis using that l by blast
qed

section \<open>Operations\<close>

datatype 'v dict_op =
    Put octets "'v option"
  | PutOnce octets "'v option"
  | Fetch octets
  | Remove octets
  | KeyCount

datatype 'v dict_res =
    Destroyed "'v option list"
  | Once int "'v option list"
  | Fetched "'v option"
  | Removed "'v option"
  | Counted int

fun dict_call :: "'v dict_op \<Rightarrow> 'v dict \<Rightarrow> ('v dict_res \<times> 'v dict) option" where
  "dict_call (Put key val) d = map_option (\<lambda>(d, ds). (Destroyed ds, d)) (dict_put d key val)"
| "dict_call (PutOnce key val) d = map_option (\<lambda>(r, d, ds). (Once r ds, d)) (dict_put_once d key val)"
| "dict_call (Fetch key) d = map_option (\<lambda>v. (Fetched v, d)) (dict_get d key)"
| "dict_call (Remove key) d = map_option (\<lambda>(v, d). (Removed v, d)) (dict_remove d key)"
| "dict_call KeyCount d = Some (Counted (dict_key_count d), d)"

text \<open>The specification; \<open>del\<close> says whether the table has a destructor.\<close>

fun map_spec :: "bool \<Rightarrow> 'v dict_op \<Rightarrow> (octets \<Rightarrow> 'v option) \<Rightarrow> ('v dict_res \<times> (octets \<Rightarrow> 'v option)) option" where
  "map_spec del (Put key val) m =
     Some (Destroyed (if del \<and> (m key \<noteq> None \<or> val = None) then [m key] else []), m(key := val))"
| "map_spec del (PutOnce key None) m = Some (Once 1 (if del then [m key] else []), m(key := None))"
| "map_spec del (PutOnce key (Some v)) m =
     Some (if m key = None then (Once 1 [], m(key \<mapsto> v)) else (Once 0 (if del then [Some v] else []), m))"
| "map_spec del (Fetch key) m = Some (Fetched (m key), m)"
| "map_spec del (Remove key) m = Some (Removed (m key), m(key := None))"
| "map_spec del KeyCount m = Some (Counted (int (card (dom m))), m)"

definition dict_rel :: "bool \<Rightarrow> 'v dict \<Rightarrow> (octets \<Rightarrow> 'v option) \<Rightarrow> bool" where
  "dict_rel del d m \<longleftrightarrow> dict_ok d \<and> contents d = m \<and> dict_destroys d = del"

lemma put_rel_dict_rel: "put_rel d bss d' m \<Longrightarrow> dict_rel (dict_destroys d) d' m"
  by (auto simp: put_rel_def dict_rel_def drep_iff contents_def)

lemma dict_call_refines:
  assumes "dict_rel del d m" and "map_spec del c m = Some (r, m')"
  shows "\<exists>d'. dict_call c d = Some (r, d') \<and> dict_rel del d' m'"
proof -
  have d: "drep d (buckets d)" and m: "dmap (buckets d) = m" "dict_destroys d = del"
    using assms(1) by (simp_all add: dict_rel_def drep_iff contents_def)
  show ?thesis
  proof (cases c)
    case (Put key val)
    then show ?thesis using assms(2) dict_put_rep [OF d, of key val] m put_rel_dict_rel
      by (cases val) (fastforce simp: destroy_value_def elim!: runsE split: if_splits)+
  next
    case (PutOnce key val)
    then show ?thesis using assms(2) dict_put_once_rep [OF d, of key val] m put_rel_dict_rel
      by (cases val) (fastforce simp: destroy_value_def elim!: runsE split: if_splits)+
  next
    case (Fetch key)
    then show ?thesis using assms dict_get_rep [OF d, of key] m by auto
  next
    case (Remove key)
    then show ?thesis using assms dict_remove_rep [OF d, of key] m
      by (auto simp: dict_rel_def drep_iff contents_def elim!: runsE)
  next
    case KeyCount
    then show ?thesis using assms dict_key_count_rep [OF d] m by auto
  qed
qed

interpretation dct: refines "dict_rel del" dict_call "map_spec del" for del
proof
  show "dict_call x s = None" if "map_spec del x a = None" for s :: "'v dict" and a x
  proof (cases x)
    case (PutOnce k v)
    then show ?thesis using that by (cases v) auto
  qed (use that in auto)
qed (rule dict_call_refines)

section \<open>Where the values go\<close>

text \<open>The values of a map, the values a call was given, and those it released.\<close>

definition vals :: "(octets \<Rightarrow> 'v option) \<Rightarrow> 'v multiset" where
  "vals m = image_mset (\<lambda>key. the (m key)) (mset_set (dom m))"

fun given :: "'v dict_op \<Rightarrow> 'v multiset" where
  "given (Put key (Some v)) = {#v#}"
| "given (PutOnce key (Some v)) = {#v#}"
| "given _ = {#}"

definition opt_mset :: "'v option \<Rightarrow> 'v multiset" where
  "opt_mset v = (case v of None \<Rightarrow> {#} | Some x \<Rightarrow> {#x#})"

fun released :: "'v dict_res \<Rightarrow> 'v multiset" where
  "released (Destroyed ds) = \<Sum>\<^sub># (mset (map opt_mset ds))"
| "released (Once r ds) = \<Sum>\<^sub># (mset (map opt_mset ds))"
| "released (Removed v) = opt_mset v"
| "released _ = {#}"

lemma vals_split:
  assumes "finite (dom m)"
  shows "vals m = opt_mset (m key) + vals (m(key := None))"
proof (cases "m key")
  case None
  then show ?thesis by (simp add: opt_mset_def fun_upd_idem)
next
  case (Some v)
  then have "key \<in> dom m" by auto
  then have "mset_set (dom m) = add_mset key (mset_set (dom m - {key}))"
    by (rule mset_set.remove [OF assms])
  moreover have "dom (m(key := None)) = dom m - {key}" by auto
  moreover have "image_mset (\<lambda>k. the (m k)) (mset_set (dom m - {key})) =
      image_mset (\<lambda>k. the ((m(key := None)) k)) (mset_set (dom m - {key}))"
    using assms by (intro image_mset_cong) auto
  ultimately show ?thesis using Some by (simp add: vals_def opt_mset_def)
qed

lemma vals_frame:
  assumes "finite (dom m)"
  obtains V where "vals m = opt_mset (m key) + V" "\<And>val. vals (m(key := val)) = opt_mset val + V"
    "\<And>val. finite (dom (m(key := val)))"
proof (rule that)
  show "vals m = opt_mset (m key) + vals (m(key := None))" by (rule vals_split [OF assms])
  show f: "finite (dom (m(key := val)))" for val
    by (rule finite_subset [of _ "insert key (dom m)"]) (use assms in auto)
  show "vals (m(key := val)) = opt_mset val + vals (m(key := None))" for val
    by (rule vals_split [OF f [of val], of key, unfolded fun_upd_same fun_upd_upd])
qed

text \<open>One call, and a sequence of calls, with a destructor.\<close>

lemma map_spec_vals:
  assumes f: "finite (dom m)" and c: "map_spec True c m = Some (r, m')"
  shows "finite (dom m') \<and> vals m + given c = released r + vals m'"
proof -
  have put: ?thesis if "m' = m(key := val)" "given c = opt_mset val" "released r = opt_mset (m key)" for key val
    by (rule vals_frame [OF f, of key]) (simp add: that ac_simps)
  have keep: ?thesis if "m' = m" "given c = released r" using that f by simp
  show ?thesis
  proof (cases c)
    case (Put key val)
    then show ?thesis using c by (intro put [of key val]) (auto simp: opt_mset_def split: option.splits)
  next
    case (PutOnce key val)
    show ?thesis
    proof (cases "m key = None \<or> val = None")
      case True
      then show ?thesis using c PutOnce
        by (intro put [of key val]; cases val) (auto simp: opt_mset_def split: option.splits)
    next
      case False
      then show ?thesis using c PutOnce by (intro keep) (auto simp: opt_mset_def)
    qed
  next
    case (Remove key)
    then show ?thesis using c by (intro put [of key None]) (auto simp: opt_mset_def)
  qed (use c keep in auto)
qed

lemma run_map_spec_vals:
  assumes "finite (dom m)" and "run_ops (map_spec True) cs m = Some (rs, m')"
  shows "vals m + \<Sum>\<^sub># (mset (map given cs)) = \<Sum>\<^sub># (mset (map released rs)) + vals m'"
  using assms
proof (induction cs arbitrary: m rs)
  case Nil
  then show ?case by simp
next
  case (Cons c cs)
  then obtain r m1 rs' where c: "map_spec True c m = Some (r, m1)" "run_ops (map_spec True) cs m1 = Some (rs', m')"
    "rs = r # rs'"
    by (auto split: option.splits)
  then have 1: "vals m + given c = released r + vals m1" "finite (dom m1)"
    using map_spec_vals [OF Cons.prems(1) c(1)] by auto
  have "vals m + \<Sum>\<^sub># (mset (map given (c # cs))) = (vals m + given c) + \<Sum>\<^sub># (mset (map given cs))"
    by (simp add: ac_simps)
  also have "\<dots> = released r + (vals m1 + \<Sum>\<^sub># (mset (map given cs)))" by (simp only: 1(1) add.assoc)
  also have "\<dots> = released r + (\<Sum>\<^sub># (mset (map released rs')) + vals m')" by (simp only: Cons.IH [OF 1(2) c(2)])
  finally show ?case by (simp add: c(3) add.assoc)
qed

lemma vals_contents:
  assumes "drep d bss"
  shows "vals (dmap bss) = mset (map it_value (concat bss))"
proof -
  let ?ps = "map (\<lambda>it. (it_key it, it_value it)) (concat bss)"
  have dist: "distinct (map it_key (concat bss))" using assms distinct_keys by (auto simp: drep_def)
  then have "mset_set (it_key ` set (concat bss)) = mset (map it_key (concat bss))"
    by (metis mset_set_set set_map)
  moreover have v: "map (\<lambda>it. the (dmap bss (it_key it))) (concat bss) = map it_value (concat bss)"
  proof (rule map_cong [OF refl])
    fix it assume "it \<in> set (concat bss)"
    then have "(it_key it, it_value it) \<in> set ?ps" by auto
    then show "the (dmap bss (it_key it)) = it_value it"
      using dist by (simp add: dmap_eq_map_of [OF assms] comp_def)
  qed
  moreover have "vals (dmap bss) = image_mset (\<lambda>key. the (dmap bss key)) (mset_set (it_key ` set (concat bss)))"
    by (simp only: vals_def dom_dmap [OF assms])
  ultimately have "vals (dmap bss) = mset (map (\<lambda>it. the (dmap bss (it_key it))) (concat bss))"
    by (simp add: multiset.map_comp comp_def)
  then show ?thesis by (simp only: v)
qed

lemma finite_contents: "drep d bss \<Longrightarrow> finite (dom (dmap bss))"
  by (simp add: dom_dmap)


section \<open>Properties\<close>

lemma map_spec_total: "\<exists>r m'. map_spec del c m = Some (r, m')"
proof (cases c)
  case (PutOnce k v)
  then show ?thesis by (cases v) auto
qed auto

lemma run_map_spec_total: "\<exists>rs m'. run_ops (map_spec del) cs m = Some (rs, m')"
proof (induction cs arbitrary: m)
  case (Cons c cs)
  then show ?case using map_spec_total [of del c m] by (fastforce split: option.splits)
qed simp

lemma dict_run:
  assumes "dict_ok d"
  obtains rs d' m where "run_ops (map_spec (dict_destroys d)) cs (contents d) = Some (rs, m)"
    "run_ops dict_call cs d = Some (rs, d')" "dict_ok d'" "contents d' = m" "dict_destroys d' = dict_destroys d"
proof -
  have r: "dict_rel (dict_destroys d) d (contents d)" using assms by (simp add: dict_rel_def)
  obtain rs m where m: "run_ops (map_spec (dict_destroys d)) cs (contents d) = Some (rs, m)"
    using run_map_spec_total by blast
  obtain d' where "run_ops dict_call cs d = Some (rs, d')" "dict_rel (dict_destroys d) d' m"
    using dct.run_Some [OF r m] by blast
  then show ?thesis using that m by (simp add: dict_rel_def)
qed

text \<open>
  \<^bold>\<open>C3\<close> Any sequence of calls on a valid hash table returns, answers and calls the
  destructor exactly as on a finite map from keys to values, and leaves a valid table that
  holds that map; no assertion fails and no cell is read or written out of range.
\<close>

theorem dict_refines_map:
  assumes "dict_ok d"
  shows "\<exists>rs d' m. run_ops (map_spec (dict_destroys d)) cs (contents d) = Some (rs, m) \<and>
    run_ops dict_call cs d = Some (rs, d') \<and> dict_ok d' \<and> contents d' = m"
  by (rule dict_run [OF assms, of cs]) blast

definition two_buckets :: "nat dict" where
  "two_buckets = \<lparr>dict_tab = [Some None, Some None], dict_size = 2, dict_count = 0, dict_destroys = True\<rparr>"

lemma two_buckets_ok: "dict_ok two_buckets" "contents two_buckets = Map.empty" "dict_destroys two_buckets"
proof -
  have "runs (dict_create 1 True) (\<lambda>d :: nat dict. drep d (replicate (nat (1 * 2)) []) \<and> dict_destroys d = True)"
    by (rule dict_create_rep) simp_all
  moreover have "dict_create 1 True = Some two_buckets"
    by (simp add: dict_create_def gw_malloc_def two_buckets_def numeral_eq_Suc)
  ultimately have "drep two_buckets (replicate (nat 2) [])" by simp
  then show "dict_ok two_buckets" "contents two_buckets = Map.empty"
    by (simp_all add: drep_iff contents_def dmap_create)
qed (simp add: two_buckets_def)

theorem dict_refines_map_witness:
  "\<exists>d'. run_ops dict_call [Put [1] (Some 7), PutOnce [1] (Some 8), Fetch [1], Put [1] (Some 9), Fetch [2], Remove [1]]
      two_buckets =
    Some ([Destroyed [], Once 0 [Some 8], Fetched (Some 7), Destroyed [Some 7], Fetched None, Removed (Some 9)], d') \<and>
    dict_ok d' \<and> contents d' = Map.empty"
proof -
  let ?cs = "[Put [1] (Some 7), PutOnce [1] (Some 8), Fetch [1], Put [1] (Some 9), Fetch [2], Remove [1]] :: nat dict_op list"
  have "run_ops (map_spec True) ?cs Map.empty =
    Some ([Destroyed [], Once 0 [Some 8], Fetched (Some 7), Destroyed [Some 7], Fetched None, Removed (Some 9)], Map.empty)"
    by simp
  then show ?thesis using dict_refines_map [OF two_buckets_ok(1), of ?cs] two_buckets_ok(2,3) by simp
qed

text \<open>
  \<^bold>\<open>C19\<close> No value leaks and none is released twice: for a table with a destructor, the
  values stored at the start plus those given to the calls are, as a multiset, those handed
  back by \<open>dict_remove\<close>, those passed to the destructor by the calls, and those that
  \<open>dict_destroy\<close> passes to it at the end.
\<close>

theorem dict_values_released_once:
  assumes "dict_ok d" and "dict_destroys d"
  shows "\<exists>rs d' ds. run_ops dict_call cs d = Some (rs, d') \<and> dict_destroy (Some d') = Some ds \<and>
    vals (contents d) + \<Sum>\<^sub># (mset (map given cs)) =
    \<Sum>\<^sub># (mset (map released rs)) + \<Sum>\<^sub># (mset (map opt_mset ds))"
proof -
  obtain rs d' m where m: "run_ops (map_spec (dict_destroys d)) cs (contents d) = Some (rs, m)"
    and d': "run_ops dict_call cs d = Some (rs, d')" "dict_ok d'" "contents d' = m" "dict_destroys d' = dict_destroys d"
    by (rule dict_run [OF assms(1)])
  note bs = dict_okD [OF d'(2)]
  have "\<Sum>\<^sub># (mset (map opt_mset (map (\<lambda>it. Some (it_value it)) its))) = mset (map it_value its)" for its :: "'a item list"
    by (induction its) (simp_all add: opt_mset_def)
  then have D: "dict_destroy (Some d') = Some (map (\<lambda>it. Some (it_value it)) (concat (buckets d')))"
    and S: "\<Sum>\<^sub># (mset (map opt_mset (map (\<lambda>it. Some (it_value it)) (concat (buckets d'))))) = vals m"
    using vals_contents [OF bs] d'(3,4) dict_destroy_rep [OF bs] assms(2) by (simp_all add: contents_def)
  have "finite (dom (contents d))" using finite_contents [OF dict_okD [OF assms(1)]] by (simp add: contents_def)
  then have "vals (contents d) + \<Sum>\<^sub># (mset (map given cs)) = \<Sum>\<^sub># (mset (map released rs)) + vals m"
    using m assms(2) by (intro run_map_spec_vals) simp_all
  with d'(1) D S show ?thesis by (intro exI conjI) (assumption, assumption, simp only:)
qed

theorem dict_values_released_once_witness:
  "\<exists>rs d' ds. run_ops dict_call [Put [1] (Some 7), Put [1] (Some 9)] two_buckets = Some (rs, d') \<and>
    dict_destroy (Some d') = Some ds \<and> {#9, 7#} = \<Sum>\<^sub># (mset (map released rs)) + \<Sum>\<^sub># (mset (map opt_mset ds))"
proof -
  have "vals (Map.empty :: octets \<Rightarrow> nat option) = {#}" by (simp add: vals_def)
  then show ?thesis
    using dict_values_released_once [OF two_buckets_ok(1,3), of "[Put [1] (Some 7), Put [1] (Some 9)]"] two_buckets_ok(2)
    by simp
qed

text \<open>
  \<^bold>\<open>C26\<close> The traversals see every entry exactly once: \<open>dict_keys\<close> lists the keys without
  repetition, as many as \<open>dict_key_count\<close> says, and \<open>dict_traverse_sorted\<close> passes the
  entries of the map to the callback in ascending order.
\<close>

theorem dict_traversal_complete:
  assumes "dict_ok d" and "comparison cmp"
  shows "\<exists>l its. dict_keys d = Some l \<and> gwlist_ok l \<and> distinct (items l) \<and> set (items l) = dom (contents d) \<and>
    dict_key_count d = int (length (items l)) \<and>
    dict_traverse_sorted d cmp func x =
      Some (dict_key_count d, fold (\<lambda>it. func (it_key it) (it_value it)) its x) \<and>
    sorted_wrt (\<lambda>a b. cmp a b \<le> 0) its \<and> distinct (map it_key its) \<and>
    map_of (map (\<lambda>it. (it_key it, it_value it)) its) = contents d"
proof -
  note d = dict_okD [OF assms(1)]
  let ?all = "concat (buckets d)"
  have dist: "distinct (map it_key ?all)" using distinct_keys [of "buckets d"] d by (simp add: drep_def)
  obtain l where l: "dict_keys d = Some l" "gwlist_ok l" "items l = map it_key ?all"
    using dict_keys_rep [OF d] by (auto simp: rep_iff elim: runsE)
  obtain its where its: "mset its = mset ?all" "sorted_wrt (\<lambda>a b. cmp a b \<le> 0) its"
    "dict_traverse_sorted d cmp func x = Some (int (length ?all), fold (\<lambda>it. func (it_key it) (it_value it)) its x)"
    using dict_traverse_sorted_rep [OF d assms(2), of func x] by (auto elim!: runsE)
  let ?ps = "\<lambda>its. map (\<lambda>it. (it_key it, it_value it)) its"
  have p: "mset (map it_key its) = mset (map it_key ?all)" "mset (?ps its) = mset (?ps ?all)"
    using its(1) by simp_all
  then have di: "distinct (map it_key its)" using dist mset_eq_imp_distinct_iff by blast
  have m: "map_of (?ps its) = map_of (?ps ?all)"
    using mset_eq_setD [OF p(2)] di dist by (subst map_of_inject_set) (simp_all add: comp_def)
  have k: "dict_key_count d = int (length ?all)" using d by (simp add: drep_def dict_key_count_def)
  have dm: "dom (contents d) = set (map it_key ?all)" by (simp only: contents_def dom_dmap [OF d] set_map)
  have c: "contents d = map_of (?ps ?all)" by (simp only: contents_def dmap_eq_map_of [OF d])
  have "sorted_wrt (\<lambda>a b. cmp a b \<le> 0) its \<and> distinct (map it_key its) \<and> map_of (?ps its) = contents d"
    using its(2) di m c by simp
  moreover have "distinct (items l) \<and> set (items l) = dom (contents d) \<and> dict_key_count d = int (length (items l))"
    using dist by (simp only: l(3) dm k length_map)
  ultimately show ?thesis using l(1,2) its(3) k by (intro exI [of _ l] exI [of _ its]) (simp only:)
qed

theorem dict_traversal_complete_witness:
  "\<exists>d l n. dict_call (Put [1] (Some 7)) two_buckets = Some (Destroyed [], d) \<and> dict_keys d = Some l \<and>
    set (items l) = {[1]} \<and>
    dict_traverse_sorted d (\<lambda>a b. cmp_bytes (it_key a) (it_key b)) (\<lambda>key v s. s + v) 0 = Some (1, n)"
proof -
  have "dict_rel True two_buckets Map.empty" using two_buckets_ok by (simp add: dict_rel_def)
  then obtain d where d: "dict_call (Put [1] (Some 7)) two_buckets = Some (Destroyed [], d)" "dict_ok d"
    "contents d = [[1] \<mapsto> 7]"
    using dict_call_refines [of True two_buckets Map.empty "Put [1] (Some 7)" "Destroyed []" "[[1] \<mapsto> 7]"]
    by (auto simp: dict_rel_def)
  have c: "comparison (\<lambda>a b :: nat item. cmp_bytes (it_key a) (it_key b))"
    using octcmp.cmp_sym octcmp.cmp_trans by unfold_locales blast+
  obtain l n where l: "dict_keys d = Some l" "distinct (items l)" "set (items l) = {[1]}"
    "dict_key_count d = int (length (items l))"
    "dict_traverse_sorted d (\<lambda>a b. cmp_bytes (it_key a) (it_key b)) (\<lambda>key v s. s + v) 0 = Some (dict_key_count d, n)"
    using dict_traversal_complete [OF d(2) c, of "\<lambda>key v s. s + v" 0] by (auto simp: d(3))
  have "length (items l) = 1" using l(2,3) distinct_card [OF l(2)] by simp
  then show ?thesis using d(1) l by auto
qed

end
