(* ===== verification/Uuid.thy ===== *)
theory Uuid
  imports Octets
begin

text \<open>
  The UUID library of \<open>gwlib/gw_uuid.c\<close>, which names messages: packing, printing and parsing,
  comparison, and the two generators. A \<open>uuid_t\<close> is a list of 16 octets. The random octets,
  the node address and the clock readings are arguments of the functions that obtain them from
  the system.
\<close>

unbundle bit_operations_syntax

section \<open>The structure\<close>

record uuid =
  time_low :: "32 word"
  time_mid :: "16 word"
  time_hi_and_version :: "16 word"
  clock_seq :: "16 word"
  node :: octets

definition uuid_pack :: "uuid \<Rightarrow> octets" where
  "uuid_pack uu =
     [ucast (drop_bit 24 (time_low uu)), ucast (drop_bit 16 (time_low uu)), ucast (drop_bit 8 (time_low uu)), ucast (time_low uu),
      ucast (drop_bit 8 (time_mid uu)), ucast (time_mid uu),
      ucast (drop_bit 8 (time_hi_and_version uu)), ucast (time_hi_and_version uu),
      ucast (drop_bit 8 (clock_seq uu)), ucast (clock_seq uu)] @ node uu"

text \<open>\<open>tmp\<close> after reading the octets \<open>bs\<close>.\<close>

definition shift_in :: "octets \<Rightarrow> 32 word" where
  "shift_in bs = foldl (\<lambda>tmp b. push_bit 8 tmp OR ucast b) 0 bs"

definition uuid_unpack :: "octets \<Rightarrow> uuid" where
  "uuid_unpack in1 =
     \<lparr>time_low = shift_in (take 4 in1),
      time_mid = ucast (shift_in (take 2 (drop 4 in1))),
      time_hi_and_version = ucast (shift_in (take 2 (drop 6 in1))),
      clock_seq = ucast (shift_in (take 2 (drop 8 in1))),
      node = take 6 (drop 10 in1)\<rparr>"

definition uuid_clear :: "octets" where
  "uuid_clear = replicate 16 0"

definition uuid_copy :: "octets \<Rightarrow> octets" where
  "uuid_copy src = map (\<lambda>i. src ! i) [0..<16]"

definition uuid_is_null :: "octets \<Rightarrow> bool" where
  "uuid_is_null uu = list_all (\<lambda>i. uu ! i = 0) [0..<16]"

text \<open>The value of \<open>memcmp\<close> is the difference of the first octets that differ.\<close>

definition uuid_compare :: "octets \<Rightarrow> octets \<Rightarrow> int" where
  "uuid_compare uu1 uu2 =
     (let u1 = uuid_unpack uu1; u2 = uuid_unpack uu2
      in if time_low u1 \<noteq> time_low u2 then if time_low u1 < time_low u2 then -1 else 1
         else if time_mid u1 \<noteq> time_mid u2 then if time_mid u1 < time_mid u2 then -1 else 1
         else if time_hi_and_version u1 \<noteq> time_hi_and_version u2
           then if time_hi_and_version u1 < time_hi_and_version u2 then -1 else 1
         else if clock_seq u1 \<noteq> clock_seq u2 then if clock_seq u1 < clock_seq u2 then -1 else 1
         else cmp_bytes (node u1) (node u2))"

section \<open>Text form\<close>

definition uuid_unparse :: "octets \<Rightarrow> octets" where
  "uuid_unparse uu =
     (let uuid = uuid_unpack uu
      in hex_pad 8 (unat (time_low uuid)) @ [0x2D] @ hex_pad 4 (unat (time_mid uuid)) @ [0x2D] @
         hex_pad 4 (unat (time_hi_and_version uuid)) @ [0x2D] @
         hex_pad 2 (unat (drop_bit 8 (clock_seq uuid))) @ hex_pad 2 (unat (clock_seq uuid AND 0xFF)) @ [0x2D] @
         concat (map (\<lambda>i. hex_pad 2 (unat (node uuid ! i))) [0..<6]))"

text \<open>The loop over the characters, the terminating NUL included.\<close>

fun uuid_syntax :: "nat \<Rightarrow> octets \<Rightarrow> bool" where
  "uuid_syntax i [] = True"
| "uuid_syntax i (c # cs) =
     (if i = 8 \<or> i = 13 \<or> i = 18 \<or> i = 23 then if c = 0x2D then uuid_syntax (i + 1) cs else False
      else if i = 36 \<and> c = 0 then uuid_syntax (i + 1) cs
      else if \<not> isxdigit (uint c) then False
      else uuid_syntax (i + 1) cs)"

definition uuid_parse :: "octets \<Rightarrow> octets option" where
  "uuid_parse in1 =
     (if strlen in1 \<noteq> 36 then None
      else if \<not> uuid_syntax 0 (take 37 (in1 @ [0])) then None
      else Some (uuid_pack
        \<lparr>time_low = word_of_int (strtoul in1 16),
         time_mid = word_of_int (strtoul (drop 9 in1) 16),
         time_hi_and_version = word_of_int (strtoul (drop 14 in1) 16),
         clock_seq = word_of_int (strtoul (drop 19 in1) 16),
         node = map (\<lambda>i. word_of_int (strtoul [in1 ! (24 + 2 * i), in1 ! (25 + 2 * i)] 16)) [0..<6]\<rparr>))"

section \<open>Reading the fields\<close>

definition uuid_type :: "octets \<Rightarrow> int" where
  "uuid_type uu = uint (drop_bit 12 (time_hi_and_version (uuid_unpack uu)) AND 0xF)"

datatype uuid_variants = UUID_VARIANT_NCS | UUID_VARIANT_DCE | UUID_VARIANT_MICROSOFT | UUID_VARIANT_OTHER

definition uuid_variant :: "octets \<Rightarrow> uuid_variants" where
  "uuid_variant uu =
     (let var = clock_seq (uuid_unpack uu)
      in if var AND 0x8000 = 0 then UUID_VARIANT_NCS
         else if var AND 0x4000 = 0 then UUID_VARIANT_DCE
         else if var AND 0x2000 = 0 then UUID_VARIANT_MICROSOFT
         else UUID_VARIANT_OTHER)"

definition time_offset :: "64 word" where
  "time_offset = push_bit 32 0x01B21DD2 + 0x13814000"

definition uuid_time :: "octets \<Rightarrow> int \<times> int" where
  "uuid_time uu =
     (let uuid = uuid_unpack uu;
          high = ucast (time_mid uuid) OR push_bit 16 (ucast (time_hi_and_version uuid AND 0xFFF)) :: 32 word;
          clock_reg = (ucast (time_low uuid) OR push_bit 32 (ucast high)) - time_offset :: 64 word
      in (uint (clock_reg div 10000000), uint ((clock_reg mod 10000000) div 10)))"

section \<open>Generators\<close>

text \<open>\<open>buf\<close> is what \<open>get_random_bytes\<close> returns.\<close>

definition uuid_generate_random :: "octets \<Rightarrow> octets" where
  "uuid_generate_random buf =
     (let uu = uuid_unpack buf;
          uu = uu\<lparr>clock_seq := (clock_seq uu AND 0x3FFF) OR 0x8000\<rparr>;
          uu = uu\<lparr>time_hi_and_version := (time_hi_and_version uu AND 0x0FFF) OR 0x4000\<rparr>
      in uuid_pack uu)"

text \<open>
  The static variables of \<open>get_clock\<close>. \<open>tvs\<close> are the values of the next calls of
  \<open>gettimeofday\<close>; when the list is used up the function is still waiting for the clock.
\<close>

record clock_state =
  adjustment :: int
  last_tv :: "int \<times> int"
  seq :: "16 word"

definition clock_init :: clock_state where
  "clock_init = \<lparr>adjustment = 0, last_tv = (0, 0), seq = 0\<rparr>"

definition clock_reg_of :: "int \<times> int \<Rightarrow> int \<Rightarrow> 64 word" where
  "clock_reg_of tv adj = word_of_int (snd tv * 10 + adj) + word_of_int (fst tv) * 10000000 + time_offset"

fun get_clock :: "16 word \<Rightarrow> clock_state \<Rightarrow> (int \<times> int) list \<Rightarrow> (64 word \<times> 16 word \<times> clock_state) option" where
  "get_clock rnd st [] = None"
| "get_clock rnd st (tv # tvs) =
     (let st = (if last_tv st = (0, 0) then st\<lparr>seq := rnd AND 0x1FFF, last_tv := (fst tv - 1, snd tv)\<rparr> else st)
      in if fst tv < fst (last_tv st) \<or> fst tv = fst (last_tv st) \<and> snd tv < snd (last_tv st)
         then let st = st\<lparr>seq := (seq st + 1) AND 0x1FFF, adjustment := 0, last_tv := tv\<rparr>
              in Some (clock_reg_of tv 0, seq st, st)
         else if tv = last_tv st
         then if adjustment st \<ge> 10 then get_clock rnd st tvs
              else let st = st\<lparr>adjustment := adjustment st + 1\<rparr>
                   in Some (clock_reg_of tv (adjustment st), seq st, st)
         else let st = st\<lparr>adjustment := 0, last_tv := tv\<rparr>
              in Some (clock_reg_of tv 0, seq st, st))"

definition uuid_generate_time :: "16 word \<Rightarrow> octets \<Rightarrow> clock_state \<Rightarrow> (int \<times> int) list \<Rightarrow> (octets \<times> clock_state) option" where
  "uuid_generate_time rnd node_id st tvs = do {
     (reg, cs, st) \<leftarrow> get_clock rnd st tvs;
     let clock_mid = (ucast (drop_bit 32 reg) :: 32 word);
     Some (uuid_pack
       \<lparr>time_low = ucast reg,
        time_mid = ucast clock_mid,
        time_hi_and_version = ucast (drop_bit 16 clock_mid OR 0x1000),
        clock_seq = cs OR 0x8000,
        node = node_id\<rparr>, st) }"

section \<open>Packing is lossless\<close>

lemma shift_in4:
  "ucast (drop_bit 24 (shift_in [a, b, c, d])) = a" "ucast (drop_bit 16 (shift_in [a, b, c, d])) = b"
  "ucast (drop_bit 8 (shift_in [a, b, c, d])) = c" "ucast (shift_in [a, b, c, d]) = d"
  by (simp_all add: shift_in_def) (rule bit_word_eqI; auto simp: bit_simps dest: bit_imp_le_length)+

lemma shift_in2:
  "ucast (drop_bit 8 (ucast (shift_in [a, b]) :: 16 word)) = a" "ucast (ucast (shift_in [a, b]) :: 16 word) = b"
  by (simp_all add: shift_in_def) (rule bit_word_eqI; auto simp: bit_simps dest: bit_imp_le_length)+

lemma shift_in_bytes4: "shift_in [ucast (drop_bit 24 w), ucast (drop_bit 16 w), ucast (drop_bit 8 w), ucast w] = w"
proof (rule bit_word_eqI)
  fix n :: nat
  consider "24 \<le> n" | "16 \<le> n" "n < 24" | "8 \<le> n" "n < 16" | "n < 8" by linarith
  then show "bit (shift_in [ucast (drop_bit 24 w), ucast (drop_bit 16 w), ucast (drop_bit 8 w), ucast w]) n \<longleftrightarrow> bit w n"
    by cases (auto simp: shift_in_def bit_simps dest: bit_imp_le_length)
qed

lemma shift_in_bytes2: "ucast (shift_in [ucast (drop_bit 8 (w :: 16 word)), ucast w]) = w"
  by (simp add: shift_in_def) (rule bit_word_eqI; auto simp: bit_simps dest: bit_imp_le_length)

lemma uuid_unpack_pack: "length (node u) = 6 \<Longrightarrow> uuid_unpack (uuid_pack u) = u"
  by (simp add: uuid_unpack_def uuid_pack_def shift_in_bytes4 shift_in_bytes2)

lemma length_uuid_pack: "length (uuid_pack u) = 10 + length (node u)"
  by (simp add: uuid_pack_def)

lemma length_16:
  assumes "length xs = 16"
  obtains a b c d e f g h i j k l m n p q where "xs = [a, b, c, d, e, f, g, h, i, j, k, l, m, n, p, q]"
  using assms by (auto simp: length_Suc_conv numeral_eq_Suc)

lemma uuid_pack_unpack: "length bs = 16 \<Longrightarrow> uuid_pack (uuid_unpack bs) = bs"
  by (erule length_16) (simp add: uuid_unpack_def uuid_pack_def shift_in4 shift_in2)

lemma length_node_unpack [simp]: "length bs = 16 \<Longrightarrow> length (node (uuid_unpack bs)) = 6"
  by (simp add: uuid_unpack_def)

lemma uuid_copy_id: "length bs = 16 \<Longrightarrow> uuid_copy bs = bs"
  using map_nth [of bs] by (simp add: uuid_copy_def)

section \<open>Printing and parsing are inverse\<close>

lemma unat_bounds: "unat (w :: 32 word) < 16 ^ 8" "unat (v :: 16 word) < 16 ^ 4" "unat (b :: byte) < 16 ^ 2"
  using unsigned_less [of w] unsigned_less [of v] unsigned_less [of b] by simp_all

lemma uuid_syntax_xdigits:
  "(\<And>k. i \<le> k \<Longrightarrow> k < i + length ds \<Longrightarrow> k \<notin> {8, 13, 18, 23, 36}) \<Longrightarrow>
   uuid_syntax i (ds @ cs) \<longleftrightarrow> list_all (\<lambda>c. isxdigit (uint c)) ds \<and> uuid_syntax (i + length ds) cs"
proof (induction ds arbitrary: i)
  case (Cons d ds)
  have "i \<notin> {8, 13, 18, 23, 36}" by (rule Cons.prems) simp_all
  moreover have "uuid_syntax (Suc i) (ds @ cs) \<longleftrightarrow> list_all (\<lambda>c. isxdigit (uint c)) ds \<and> uuid_syntax (Suc i + length ds) cs"
    by (rule Cons.IH) (use Cons.prems in auto)
  ultimately show ?case by simp
qed simp

definition xdigits :: "nat \<Rightarrow> octets \<Rightarrow> bool" where
  "xdigits n ds \<longleftrightarrow> length ds = n \<and> list_all (\<lambda>c. isxdigit (uint c)) ds"

definition uuid_text :: "octets \<Rightarrow> octets \<Rightarrow> octets \<Rightarrow> octets \<Rightarrow> octets \<Rightarrow> octets" where
  "uuid_text as bs cs ds es = as @ 0x2D # bs @ 0x2D # cs @ 0x2D # ds @ 0x2D # es"

lemma xdigit_not_nul: "xdigits n ds \<Longrightarrow> 0 \<notin> set ds"
  by (auto simp: xdigits_def list_all_iff isxdigit_def isdigit_def)

lemma strtoul_field:
  assumes "xdigits n ds" "0 < n" "n \<le> 16" "ys = [] \<or> hd ys = 0x2D"
  shows "strtoul (ds @ ys) 16 = digits_value 16 ds"
  using assms by (intro strtoul_hex) (auto simp: xdigits_def isalnum_def isalpha_def isupper_def islower_def isdigit_def)

lemma uuid_syntax_split:
  assumes "length as = 8" "length bs = 4" "length cs = 4" "length ds = 4" "length es = 12"
  shows "uuid_syntax 0 (as @ p # bs @ q # cs @ r # ds @ t # es @ [0]) \<longleftrightarrow>
    list_all (\<lambda>c. isxdigit (uint c)) as \<and> p = 0x2D \<and> list_all (\<lambda>c. isxdigit (uint c)) bs \<and> q = 0x2D \<and>
    list_all (\<lambda>c. isxdigit (uint c)) cs \<and> r = 0x2D \<and> list_all (\<lambda>c. isxdigit (uint c)) ds \<and> t = 0x2D \<and>
    list_all (\<lambda>c. isxdigit (uint c)) es"
  using assms by (simp add: uuid_syntax_xdigits)

lemma uuid_syntax_text:
  assumes "xdigits 8 as" "xdigits 4 bs" "xdigits 4 cs" "xdigits 4 ds" "xdigits 12 es"
  shows "uuid_syntax 0 (uuid_text as bs cs ds es @ [0])"
  using assms uuid_syntax_split [of as bs cs ds es] by (simp add: uuid_text_def xdigits_def)

lemma uuid_parse_text:
  assumes d: "xdigits 8 as" "xdigits 4 bs" "xdigits 4 cs" "xdigits 4 ds" "xdigits 12 es"
  shows "uuid_parse (uuid_text as bs cs ds es) = Some (uuid_pack
    \<lparr>time_low = word_of_int (digits_value 16 as), time_mid = word_of_int (digits_value 16 bs),
     time_hi_and_version = word_of_int (digits_value 16 cs), clock_seq = word_of_int (digits_value 16 ds),
     node = map (\<lambda>i. word_of_int (digits_value 16 [es ! (2 * i), es ! (2 * i + 1)])) [0..<6]\<rparr>)"
proof -
  let ?t = "uuid_text as bs cs ds es"
  note l = d [unfolded xdigits_def]
  have len: "length ?t = 36" using l by (simp add: uuid_text_def)
  have "0 \<notin> set ?t" using d [THEN xdigit_not_nul] by (auto simp: uuid_text_def)
  then have "strlen ?t = 36" using len by (simp add: strlen_no_nul)
  moreover have "take 37 (?t @ [0]) = ?t @ [0]" using len by simp
  moreover have "strtoul ?t 16 = digits_value 16 as" unfolding uuid_text_def by (rule strtoul_field [OF d(1)]) simp_all
  moreover have "strtoul (drop 9 ?t) 16 = digits_value 16 bs"
    using strtoul_field [OF d(2)] l by (simp add: uuid_text_def)
  moreover have "strtoul (drop 14 ?t) 16 = digits_value 16 cs"
    using strtoul_field [OF d(3)] l by (simp add: uuid_text_def)
  moreover have "strtoul (drop 19 ?t) 16 = digits_value 16 ds"
    using strtoul_field [OF d(4)] l by (simp add: uuid_text_def)
  moreover have "strtoul [?t ! (24 + 2 * i), ?t ! (25 + 2 * i)] 16 = digits_value 16 [es ! (2 * i), es ! (2 * i + 1)]"
    if "i \<in> set [0..<6]" for i
  proof -
    have t: "?t ! (24 + k) = es ! k" for k using l by (simp add: uuid_text_def nth_append)
    have "?t ! (24 + 2 * i) = es ! (2 * i)" "?t ! (25 + 2 * i) = es ! (2 * i + 1)" using t [of "2 * i"] t [of "2 * i + 1"] by simp_all
    moreover have "xdigits 2 [es ! (2 * i), es ! (2 * i + 1)]"
      using that l(5) unfolding xdigits_def by (auto simp: list_all_length nth_Cons')
    ultimately show ?thesis using strtoul_field [of 2 "[es ! (2 * i), es ! (2 * i + 1)]" "[]"] by simp
  qed
  then have "map (\<lambda>i. word_of_int (strtoul [?t ! (24 + 2 * i), ?t ! (25 + 2 * i)] 16) :: byte) [0..<6] =
    map (\<lambda>i. word_of_int (digits_value 16 [es ! (2 * i), es ! (2 * i + 1)])) [0..<6]"
    by (intro map_cong arg_cong [of _ _ word_of_int]) simp_all
  ultimately show ?thesis
    using uuid_syntax_text [OF d] unfolding uuid_parse_def by (simp only: if_False if_True not_True_eq_False refl simp_thms)
qed

lemma hex_fix_add: "hex_fix (j + k) n = hex_fix j (n div 16 ^ k) @ hex_fix k n"
  by (induction k arbitrary: n) (simp_all add: div_mult2_eq)

lemma hex_fix_mod: "hex_fix k (n mod 16 ^ k) = hex_fix k n"
proof (induction k arbitrary: n)
  case (Suc k)
  have "n mod 16 ^ Suc k div 16 = n div 16 mod 16 ^ k" "n mod 16 ^ Suc k mod 16 = n mod 16"
    by (simp_all add: mod_mult2_eq)
  with Suc show ?case by simp
qed simp

lemma hex_byte: "xdigits 2 (hex_fix 2 (unat (b :: byte)))" "word_of_int (digits_value 16 (hex_fix 2 (unat b))) = b"
  using unat_bounds(3) [of b] hex_fix_digits by (simp_all add: xdigits_def hex_fix_value)

lemma uuid_unparse_text:
  assumes "length uu = 16"
  shows "uuid_unparse uu = (let u = uuid_unpack uu in
    uuid_text (hex_fix 8 (unat (time_low u))) (hex_fix 4 (unat (time_mid u))) (hex_fix 4 (unat (time_hi_and_version u)))
      (hex_fix 4 (unat (clock_seq u))) (concat (map (\<lambda>b. hex_fix 2 (unat b)) (node u))))"
proof -
  define u where "u = uuid_unpack uu"
  have cs: "hex_pad 2 (unat (drop_bit 8 c)) @ hex_pad 2 (unat (c AND 0xFF)) = hex_fix 4 (unat c)" for c :: "16 word"
  proof -
    have "unat (drop_bit 8 c) = unat c div 256" by (simp add: drop_bit_eq_div unat_div)
    moreover have "c AND 0xFF = take_bit 8 c" by (simp add: take_bit_eq_mask mask_numeral)
    then have "unat (c AND 0xFF) = unat c mod 256" by (simp add: take_bit_eq_mod unat_mod)
    moreover have "unat c div 256 < 16 ^ 2" using unat_bounds(2) [of c] by simp
    ultimately show ?thesis using hex_fix_add [of 2 2 "unat c"] hex_fix_mod [of 2 "unat c"] by (simp add: hex_pad_fix)
  qed
  have "map (\<lambda>i. hex_pad 2 (unat (node u ! i))) [0..<6] = map (\<lambda>b. hex_fix 2 (unat b)) (node u)"
    using assms unat_bounds(3) by (intro nth_equalityI) (simp_all add: u_def hex_pad_fix)
  moreover have "hex_pad 8 (unat (time_low u)) = hex_fix 8 (unat (time_low u))"
    "hex_pad 4 (unat (time_mid u)) = hex_fix 4 (unat (time_mid u))"
    "hex_pad 4 (unat (time_hi_and_version u)) = hex_fix 4 (unat (time_hi_and_version u))"
    using unat_bounds by (simp_all add: hex_pad_fix)
  ultimately show ?thesis
    using cs [of "clock_seq u"] by (simp add: uuid_unparse_def uuid_text_def flip: u_def)
qed

lemma concat_hex_bytes:
  "i < length ns \<Longrightarrow> [concat (map (\<lambda>b. hex_fix 2 (f b)) ns) ! (2 * i), concat (map (\<lambda>b. hex_fix 2 (f b)) ns) ! (2 * i + 1)] = hex_fix 2 (f (ns ! i))"
proof (induction ns arbitrary: i)
  case (Cons n ns)
  obtain a b where ab: "hex_fix 2 (f n) = [a, b]" by (simp add: numeral_2_eq_2)
  show ?case
  proof (cases i)
    case (Suc k)
    with Cons ab show ?thesis by simp
  qed (simp add: ab)
qed simp

lemma xdigits_hex: "xdigits k (hex_fix k n)"
  by (simp add: xdigits_def hex_fix_digits)

lemma xdigits_node: "length ns = 6 \<Longrightarrow> xdigits 12 (concat (map (\<lambda>b. hex_fix 2 (f b)) ns))"
  using hex_fix_digits by (auto simp: xdigits_def length_concat o_def list_all_iff sum_list_triv)

lemma word_of_hex:
  "word_of_int (digits_value 16 (hex_fix 8 (unat w))) = (w :: 32 word)"
  "word_of_int (digits_value 16 (hex_fix 4 (unat v))) = (v :: 16 word)"
  using unat_bounds(1) [of w] unat_bounds(2) [of v] by (simp_all add: hex_fix_value)

lemma uuid_parse_unparse:
  assumes "length uu = 16"
  shows "uuid_parse (uuid_unparse uu) = Some uu"
proof -
  define u where "u = uuid_unpack uu"
  have n: "length (node u) = 6" using assms by (simp add: u_def)
  have "map (\<lambda>i. word_of_int (digits_value 16 [concat (map (\<lambda>b. hex_fix 2 (unat b)) (node u)) ! (2 * i),
      concat (map (\<lambda>b. hex_fix 2 (unat b)) (node u)) ! (2 * i + 1)])) [0..<6] = map (\<lambda>i. node u ! i) [0..<6]"
  proof (rule map_cong)
    fix i
    assume "i \<in> set [0..<6]"
    then have i: "i < length (node u)" using n by simp
    show "word_of_int (digits_value 16 [concat (map (\<lambda>b. hex_fix 2 (unat b)) (node u)) ! (2 * i),
      concat (map (\<lambda>b. hex_fix 2 (unat b)) (node u)) ! (2 * i + 1)]) = node u ! i"
      unfolding concat_hex_bytes [OF i] by (rule hex_byte)
  qed simp
  also have "map (\<lambda>i. node u ! i) [0..<6] = node u" using map_nth [of "node u"] n by simp
  finally have "uuid_parse (uuid_unparse uu) = Some (uuid_pack u)"
    unfolding uuid_unparse_text [OF assms] Let_def u_def [symmetric]
    by (subst uuid_parse_text) (simp_all only: xdigits_hex xdigits_node n word_of_hex, cases u, simp)
  with uuid_pack_unpack [OF assms] show ?thesis by (simp add: u_def)
qed

text \<open>A parsed UUID prints as the string it came from, in lower case.\<close>

definition lower :: "byte \<Rightarrow> byte" where
  "lower c = word_of_int (tolower (uint c))"

lemma hex_char_digit: "isxdigit (uint c) \<Longrightarrow> hex_char (nat (digit_of c)) = lower c"
  by (auto simp: hex_char_def digit_of_def lower_def tolower_def isxdigit_def isdigit_def islower_def isupper_def)

lemma hex_fix_digits_value: "xdigits k ds \<Longrightarrow> hex_fix k (nat (digits_value 16 ds)) = map lower ds"
proof (induction k arbitrary: ds)
  case (Suc k)
  then obtain es d where ds: "ds = es @ [d]" by (cases ds rule: rev_cases) (auto simp: xdigits_def)
  with Suc.prems have es: "xdigits k es" and d: "isxdigit (uint d)" by (simp_all add: xdigits_def)
  have b: "0 \<le> digits_value 16 es" using es digits_value_bound by (simp add: xdigits_def)
  have "0 \<le> digit_of d" "digit_of d < 16" using d by (simp_all add: digit_of_nonneg digit_of_xdigit)
  with b have "nat (digits_value 16 ds) div 16 = nat (digits_value 16 es)" "nat (digits_value 16 ds) mod 16 = nat (digit_of d)"
    by (simp_all add: ds digits_value_append nat_add_distrib nat_mult_distrib)
  with Suc.IH [OF es] d ds show ?case by (simp add: hex_char_digit)
qed (simp add: xdigits_def)

lemma xdigits_append: "xdigits (m + n) ds \<Longrightarrow> \<exists>as bs. ds = as @ bs \<and> xdigits m as \<and> xdigits n bs"
  by (rule exI [of _ "take m ds"], rule exI [of _ "drop m ds"])
     (auto simp: xdigits_def list_all_iff dest: in_set_takeD in_set_dropD)

lemma uuid_parse_form:
  assumes "uuid_parse s = Some uu" "0 \<notin> set s"
  obtains as bs cs ds es where "s = uuid_text as bs cs ds es"
    "xdigits 8 as" "xdigits 4 bs" "xdigits 4 cs" "xdigits 4 ds" "xdigits 12 es"
proof -
  have len: "length s = 36" and syn: "uuid_syntax 0 (s @ [0])"
    using assms by (auto simp: uuid_parse_def strlen_no_nul split: if_splits)
  let ?as = "take 8 s" and ?bs = "take 4 (drop 9 s)" and ?cs = "take 4 (drop 14 s)" and ?ds = "take 4 (drop 19 s)" and ?es = "drop 24 s"
  have split: "s = ?as @ s ! 8 # ?bs @ s ! 13 # ?cs @ s ! 18 # ?ds @ s ! 23 # ?es"
  proof -
    have 1: "drop k s = take n (drop k s) @ s ! (k + n) # drop (k + n + 1) s" if "k + n < 36" for k n
      using id_take_nth_drop [of n "drop k s"] that len by (simp add: add.commute)
    show ?thesis using 1 [of 0 8] 1 [of 9 4] 1 [of 14 4] 1 [of 19 4] by simp
  qed
  have "uuid_syntax 0 (?as @ s ! 8 # ?bs @ s ! 13 # ?cs @ s ! 18 # ?ds @ s ! 23 # ?es @ [0])"
    using syn by (subst (asm) split) simp
  then have "list_all (\<lambda>c. isxdigit (uint c)) ?as" "s ! 8 = 0x2D" "list_all (\<lambda>c. isxdigit (uint c)) ?bs" "s ! 13 = 0x2D"
    "list_all (\<lambda>c. isxdigit (uint c)) ?cs" "s ! 18 = 0x2D" "list_all (\<lambda>c. isxdigit (uint c)) ?ds" "s ! 23 = 0x2D"
    "list_all (\<lambda>c. isxdigit (uint c)) ?es"
    using uuid_syntax_split [of ?as ?bs ?cs ?ds ?es "s ! 8" "s ! 13" "s ! 18" "s ! 23"] len by simp_all
  with split len show ?thesis
    by (intro that [of ?as ?bs ?cs ?ds ?es]) (simp_all add: uuid_text_def xdigits_def)
qed

lemma unat_digits:
  "xdigits 2 xs \<Longrightarrow> unat (word_of_int (digits_value 16 xs) :: byte) = nat (digits_value 16 xs)"
  "xdigits 4 xs \<Longrightarrow> unat (word_of_int (digits_value 16 xs) :: 16 word) = nat (digits_value 16 xs)"
  "xdigits 8 xs \<Longrightarrow> unat (word_of_int (digits_value 16 xs) :: 32 word) = nat (digits_value 16 xs)"
  using digits_value_bound [of xs] by (auto simp: xdigits_def unat_eq_nat_uint uint_word_of_int)

lemma uuid_unparse_parse:
  assumes "uuid_parse s = Some uu" "0 \<notin> set s"
  shows "uuid_unparse uu = map lower s" "length uu = 16"
proof -
  from assms obtain as bs cs ds es where s: "s = uuid_text as bs cs ds es"
    and d: "xdigits 8 as" "xdigits 4 bs" "xdigits 4 cs" "xdigits 4 ds" "xdigits 12 es" by (rule uuid_parse_form)
  define u where "u = \<lparr>time_low = word_of_int (digits_value 16 as), time_mid = word_of_int (digits_value 16 bs),
     time_hi_and_version = word_of_int (digits_value 16 cs), clock_seq = word_of_int (digits_value 16 ds),
     node = map (\<lambda>i. word_of_int (digits_value 16 [es ! (2 * i), es ! (2 * i + 1)])) [0..<6]\<rparr>"
  have uu: "uu = uuid_pack u" using assms(1) uuid_parse_text [OF d] by (simp only: s u_def option.inject)
  have n: "length (node u) = 6" by (simp add: u_def)
  then show l: "length uu = 16" by (simp add: uu length_uuid_pack)
  have E: "[es ! (2 * i), es ! (2 * i + 1)] \<in> Collect (xdigits 2)" if "i \<in> set [0..<6]" for i
    using d(5) that by (auto simp: xdigits_def list_all_length nth_Cons')
  have "concat (map (\<lambda>b. hex_fix 2 (unat b)) (node u)) = concat (map (\<lambda>i. map lower [es ! (2 * i), es ! (2 * i + 1)]) [0..<6])"
    unfolding u_def uuid.simps map_map o_def
    by (intro arg_cong [of _ _ concat] map_cong refl) (use E in \<open>simp only: mem_Collect_eq unat_digits(1) hex_fix_digits_value\<close>)
  also have "\<dots> = map lower es"
    using d(5) by (auto simp: xdigits_def length_Suc_conv numeral_eq_Suc upt_rec)
  finally have nd: "concat (map (\<lambda>b. hex_fix 2 (unat b)) (node u)) = map lower es" .
  have dash: "lower 0x2D = 0x2D" by (simp add: lower_def tolower_def isupper_def)
  have "uuid_unparse uu = uuid_text (hex_fix 8 (unat (time_low u))) (hex_fix 4 (unat (time_mid u)))
    (hex_fix 4 (unat (time_hi_and_version u))) (hex_fix 4 (unat (clock_seq u))) (map lower es)"
    using uuid_unparse_text [OF l] by (simp only: uu Let_def uuid_unpack_pack [OF n] nd)
  then show "uuid_unparse uu = map lower s"
    by (simp add: u_def unat_digits(2,3) d s uuid_text_def hex_fix_digits_value dash)
qed

section \<open>The order\<close>

definition be_value :: "octets \<Rightarrow> int" where
  "be_value bs = foldl (\<lambda>n b. n * 256 + uint b) 0 bs"

lemma be_value_bound: "0 \<le> be_value bs \<and> be_value bs < 256 ^ length bs"
proof (induction bs rule: rev_induct)
  case (snoc b bs)
  then show ?case using uint_byte_bounds [of b] by (simp add: be_value_def)
qed (simp add: be_value_def)

lemma uint_shift_in: "length bs \<le> 4 \<Longrightarrow> uint (shift_in bs) = be_value bs"
proof (induction bs rule: rev_induct)
  case (snoc b bs)
  let ?w = "shift_in bs"
  have "be_value bs < 256 ^ 3" using be_value_bound [of bs] snoc.prems power_increasing [of "length bs" 3 "256 :: int"] by simp
  moreover have w: "uint ?w = be_value bs" using snoc by simp
  ultimately have "take_bit 32 (push_bit 8 (uint ?w)) = push_bit 8 (uint ?w)"
    using be_value_bound [of bs] by (simp add: take_bit_int_eq_self_iff push_bit_eq_mult)
  moreover have "take_bit 32 (uint b) = uint b" using uint_byte_bounds [of b] by (simp add: take_bit_int_eq_self_iff)
  ultimately have "uint (push_bit 8 ?w OR ucast b) = push_bit 8 (uint ?w) OR uint b"
    by (simp add: unsigned_or_eq unsigned_push_bit_eq unsigned_ucast_eq)
  also have "\<dots> = uint ?w * 256 + uint b"
    using push_bit_or_add [of "uint b" 8 "uint ?w"] uint_byte_bounds [of b] by (simp add: push_bit_eq_mult)
  finally show ?case using w by (simp add: shift_in_def be_value_def)
qed (simp add: shift_in_def be_value_def)

lemma be_value_Cons: "be_value (b # bs) = uint b * 256 ^ length bs + be_value bs"
  by (induction bs rule: rev_induct) (simp_all add: be_value_def algebra_simps)

lemma lex_digits:
  fixes a b x y P :: int
  assumes "0 \<le> x" "x < P" "0 \<le> y" "y < P"
  shows "a < b \<Longrightarrow> a * P + x < b * P + y" "a * P + x = b * P + y \<longleftrightarrow> a = b \<and> x = y"
proof -
  have lt: "a * P + x < b * P + y" if "a < b" "0 \<le> y" "x < P" for a b x y
    using that assms mult_right_mono [of "a + 1" b P] by (simp add: algebra_simps)
  show "a < b \<Longrightarrow> a * P + x < b * P + y" using lt assms by blast
  show "a * P + x = b * P + y \<longleftrightarrow> a = b \<and> x = y"
    using lt [of a b y x] lt [of b a x y] assms by (cases a b rule: linorder_cases) auto
qed

lemma cmp_bytes_value:
  "length as = length bs \<Longrightarrow> cmp_bytes (as @ xs) (bs @ ys) =
    (if be_value as \<noteq> be_value bs then if be_value as < be_value bs then -1 else 1 else cmp_bytes xs ys)"
proof (induction as bs rule: list_induct2)
  case (Cons a as b bs)
  note d = lex_digits [of "be_value as" "256 ^ length as" "be_value bs"]
  have v: "0 \<le> be_value as" "be_value as < 256 ^ length as" "0 \<le> be_value bs" "be_value bs < 256 ^ length as"
    using be_value_bound [of as] be_value_bound [of bs] Cons.hyps by simp_all
  have lt: "a < b \<longleftrightarrow> uint a < uint b" and eq: "a = b \<longleftrightarrow> uint a = uint b" by (simp_all add: word_less_def word_uint_eq_iff)
  consider "uint a < uint b" | "uint a = uint b" | "uint b < uint a" by linarith
  then show ?case
    using d(1) [OF v, of "uint a" "uint b"] lex_digits(1) [OF v(3,4,1,2), of "uint b" "uint a"] Cons
    by cases (auto simp: cmp_bytes_Cons be_value_Cons lt eq)
qed simp

lemma uuid_compare_bytes:
  assumes "length a = 16" "length b = 16"
  shows "uuid_compare a b = cmp_bytes a b"
proof -
  have s: "\<exists>x1 x2 x3 x4 x5. x = x1 @ x2 @ x3 @ x4 @ x5 \<and> length x1 = 4 \<and> length x2 = 2 \<and> length x3 = 2 \<and> length x4 = 2 \<and> length x5 = 6"
    if "length x = 16" for x :: octets
    by (rule length_16 [OF that], rule exI [of _ "take 4 x"], rule exI [of _ "take 2 (drop 4 x)"], rule exI [of _ "take 2 (drop 6 x)"],
        rule exI [of _ "take 2 (drop 8 x)"], rule exI [of _ "drop 10 x"]) simp
  from s [OF assms(1)] obtain a1 a2 a3 a4 a5 where
    a: "a = a1 @ a2 @ a3 @ a4 @ a5" "length a1 = 4" "length a2 = 2" "length a3 = 2" "length a4 = 2" "length a5 = 6" by blast
  from s [OF assms(2)] obtain b1 b2 b3 b4 b5 where
    b: "b = b1 @ b2 @ b3 @ b4 @ b5" "length b1 = 4" "length b2 = 2" "length b3 = 2" "length b4 = 2" "length b5 = 6" by blast
  have w4: "u \<noteq> v \<longleftrightarrow> uint u \<noteq> uint v" "u < v \<longleftrightarrow> uint u < uint v" for u v :: "32 word"
    by (simp_all add: word_less_def word_uint_eq_iff)
  have w2: "u \<noteq> v \<longleftrightarrow> uint u \<noteq> uint v" "u < v \<longleftrightarrow> uint u < uint v" for u v :: "16 word"
    by (simp_all add: word_less_def word_uint_eq_iff)
  have u2: "uint (ucast (shift_in xs) :: 16 word) = be_value xs" if "length xs = 2" for xs
    using that be_value_bound [of xs] by (simp add: unsigned_ucast_eq uint_shift_in take_bit_int_eq_self_iff)
  have u4: "uint (shift_in xs) = be_value xs" if "length xs = 4" for xs
    using that by (simp add: uint_shift_in)
  show ?thesis
    by (simp add: a b uuid_compare_def uuid_unpack_def Let_def w4 w2 u2 u4 cmp_bytes_value)
qed

section \<open>What the generators produce\<close>

lemma version_bits: "drop_bit 12 ((w AND 0x0FFF) OR 0x4000 :: 16 word) AND 0xF = 4"
  "drop_bit 12 ((v AND 0x0FFF) OR 0x1000 :: 16 word) AND 0xF = 1"
  by (rule bit_word_eqI; auto simp: bit_simps numeral_eq_Suc less_Suc_eq)+

lemma variant_bits: "((w AND 0x3FFF) OR 0x8000 :: 16 word) AND 0x8000 \<noteq> 0" "((w AND 0x3FFF) OR 0x8000 :: 16 word) AND 0x4000 = 0"
  by (simp_all add: bit.conj_disj_distrib2 and.assoc bit.conj_disj_distrib)

definition clock_ok :: "clock_state \<Rightarrow> bool" where
  "clock_ok st \<longleftrightarrow> 0 \<le> adjustment st \<and> adjustment st \<le> 10 \<and> seq st AND 0x1FFF = seq st"

lemma get_clock_state:
  "get_clock rnd st tvs = Some (reg, cs, st') \<Longrightarrow> clock_ok st \<Longrightarrow>
   clock_ok st' \<and> reg = clock_reg_of (last_tv st') (adjustment st') \<and> cs = seq st' \<and> last_tv st' \<in> set tvs"
  by (induction rnd st tvs rule: get_clock.induct)
     (auto simp: clock_ok_def Let_def and.assoc split: if_splits)

lemma reg_high_bits:
  assumes "drop_bit 60 (reg :: 64 word) = 0"
  shows "bit reg n \<Longrightarrow> n < 60"
proof (rule ccontr)
  assume "bit reg n" "\<not> n < 60"
  then have "bit (drop_bit 60 reg) (n - 60)" by (simp add: bit_drop_bit_eq)
  with assms show False by simp
qed

lemma bit_consts:
  "bit (0xFFF :: int) k \<longleftrightarrow> k < 12" "bit (0x1000 :: int) k \<longleftrightarrow> k = 12" "bit (0xF :: int) k \<longleftrightarrow> k < 4"
  "bit (0xFFF :: 16 word) k \<longleftrightarrow> k < 12" "bit (0x1000 :: 32 word) k \<longleftrightarrow> k = 12" "bit (0xF :: 16 word) k \<longleftrightarrow> k < 4"
proof -
  have c: "(0xFFF :: int) = mask 12" "(0x1000 :: int) = 2 ^ 12" "(0xF :: int) = mask 4"
    "(0xFFF :: 16 word) = mask 12" "(0x1000 :: 32 word) = 2 ^ 12" "(0xF :: 16 word) = mask 4"
    by (simp_all add: mask_numeral)
  show "bit (0xFFF :: int) k \<longleftrightarrow> k < 12" unfolding c by (simp add: bit_mask_iff)
  show "bit (0x1000 :: int) k \<longleftrightarrow> k = 12" unfolding c bit_exp_iff by auto
  show "bit (0xF :: int) k \<longleftrightarrow> k < 4" unfolding c by (simp add: bit_mask_iff)
  show "bit (0xFFF :: 16 word) k \<longleftrightarrow> k < 12" unfolding c by (auto simp: bit_mask_iff)
  show "bit (0x1000 :: 32 word) k \<longleftrightarrow> k = 12" unfolding c bit_exp_iff by auto
  show "bit (0xF :: 16 word) k \<longleftrightarrow> k < 4" unfolding c by (auto simp: bit_mask_iff)
qed

lemma reassemble:
  fixes reg :: "64 word"
  assumes h: "drop_bit 60 reg = 0"
  defines "cm \<equiv> ucast (drop_bit 32 reg) :: 32 word"
  defines "hi \<equiv> ucast (drop_bit 16 cm OR 0x1000) :: 16 word"
  shows "ucast (ucast reg :: 32 word) OR push_bit 32 (ucast (ucast (ucast cm :: 16 word) OR push_bit 16 (ucast (hi AND 0xFFF)) :: 32 word)) = reg"
    and "drop_bit 12 hi AND 0xF = 1"
proof -
  show "ucast (ucast reg :: 32 word) OR push_bit 32 (ucast (ucast (ucast cm :: 16 word) OR push_bit 16 (ucast (hi AND 0xFFF)) :: 32 word)) = reg"
    (is "?l = _")
  proof (rule bit_word_eqI)
    fix n :: nat
    consider "n < 32" | "32 \<le> n" "n < 48" | "48 \<le> n" "n < 60" | "60 \<le> n" by linarith
    then show "bit ?l n \<longleftrightarrow> bit reg n"
      using reg_high_bits [OF h, of n]
      by cases (auto simp: cm_def hi_def bit_simps bit_consts)
  qed
  show "drop_bit 12 hi AND 0xF = 1"
  proof (rule bit_word_eqI)
    fix n :: nat
    show "bit (drop_bit 12 hi AND 0xF) n \<longleftrightarrow> bit (1 :: 16 word) n"
      using reg_high_bits [OF h, of "60 + n"] by (auto simp: cm_def hi_def bit_simps bit_consts)
  qed
qed

lemma uint_word64: "0 \<le> v \<Longrightarrow> v < 2 ^ 64 \<Longrightarrow> uint (word_of_int v :: 64 word) = v"
  by (simp add: uint_word_of_int)

lemma clock_reg_time:
  assumes "0 \<le> sec" "sec < 2 ^ 34" "0 \<le> usec" "usec < 1000000" "0 \<le> adj" "adj < 10"
  shows "drop_bit 60 (clock_reg_of (sec, usec) adj) = 0"
    and "uint ((clock_reg_of (sec, usec) adj - time_offset) div 10000000) = sec"
    and "uint ((clock_reg_of (sec, usec) adj - time_offset) mod 10000000 div 10) = usec"
proof -
  let ?v = "usec * 10 + adj + sec * 10000000"
  have r: "clock_reg_of (sec, usec) adj = word_of_int (?v + 0x01B21DD213814000)"
    by (simp add: clock_reg_of_def time_offset_def push_bit_eq_mult)
  have b: "0 \<le> ?v" "?v + 0x01B21DD213814000 < 2 ^ 60" using assms by simp_all
  have "uint (clock_reg_of (sec, usec) adj) = ?v + 0x01B21DD213814000"
    unfolding r using b by (intro uint_word64) simp_all
  then have "uint (drop_bit 60 (clock_reg_of (sec, usec) adj)) = (?v + 0x01B21DD213814000) div 2 ^ 60"
    by (simp add: drop_bit_eq_div uint_div)
  also have "\<dots> = 0" using b by (intro div_pos_pos_trivial) simp_all
  finally show "drop_bit 60 (clock_reg_of (sec, usec) adj) = 0" by (simp only: word_uint_eq_iff uint_0_eq)
  have d: "clock_reg_of (sec, usec) adj - time_offset = word_of_int ?v"
    unfolding r by (simp add: time_offset_def push_bit_eq_mult)
  have u: "uint (word_of_int ?v :: 64 word) = ?v" using b by (intro uint_word64) simp_all
  have v: "?v = (usec * 10 + adj) + sec * 10000000" "0 \<le> usec * 10 + adj" "usec * 10 + adj < 10000000" using assms by simp_all
  have "?v div 10000000 = sec" "?v mod 10000000 = usec * 10 + adj"
    using div_mult_self1 [of 10000000 "usec * 10 + adj" sec] mod_mult_self1 [of "usec * 10 + adj" sec 10000000]
      div_pos_pos_trivial [OF v(2,3)] mod_pos_pos_trivial [OF v(2,3)] by simp_all
  moreover have "(usec * 10 + adj) div 10 = usec"
    using div_mult_self1 [of 10 adj usec] div_pos_pos_trivial [of adj 10] assms by (simp add: add.commute)
  ultimately show "uint ((clock_reg_of (sec, usec) adj - time_offset) div 10000000) = sec"
    "uint ((clock_reg_of (sec, usec) adj - time_offset) mod 10000000 div 10) = usec"
    unfolding d uint_div uint_mod u by simp_all
qed

section \<open>Properties\<close>

text \<open>
  \<^bold>\<open>C25\<close> \<open>uuid_unparse\<close> and \<open>uuid_parse\<close> are inverse: a UUID prints to 36 characters that parse
  back to it, and whatever string parses to a UUID is its printed form up to the case of the
  hexadecimal digits. In particular no two UUIDs print alike.
\<close>

theorem uuid_roundtrip:
  "(length uu = 16 \<longrightarrow> uuid_parse (uuid_unparse uu) = Some uu \<and> length (uuid_unparse uu) = 36) \<and>
   (0 \<notin> set s \<longrightarrow> uuid_parse s = Some uu \<longrightarrow> length uu = 16 \<and> uuid_unparse uu = map lower s)"
proof (intro conjI impI)
  assume l: "length uu = 16"
  then show "uuid_parse (uuid_unparse uu) = Some uu" by (rule uuid_parse_unparse)
  then show "length (uuid_unparse uu) = 36"
    using xdigits_node [of "node (uuid_unpack uu)" unat] l
    by (simp add: uuid_unparse_text [OF l] uuid_text_def Let_def xdigits_def)
qed (auto simp: uuid_unparse_parse)

theorem uuid_roundtrip_witness:
  "uuid_parse (uuid_unparse (replicate 16 0xAB)) = Some (replicate 16 0xAB)"
  using uuid_roundtrip [of "replicate 16 0xAB" "[]"] by simp

text \<open>
  \<^bold>\<open>C25\<close> \<open>uuid_compare\<close>, which compares field by field in numbers of different widths, is the
  lexicographic order of the sixteen octets.
\<close>

theorem uuid_compare_lexicographic:
  assumes "length a = 16" "length b = 16"
  shows "uuid_compare a b = cmp_bytes a b"
  by (rule uuid_compare_bytes [OF assms])

theorem uuid_compare_lexicographic_witness:
  "uuid_compare [1, 2, 3, 4, 5, 6, 7, 8, 9, 10, 11, 12, 13, 14, 15, 16] [1, 2, 3, 4, 5, 6, 7, 8, 9, 10, 11, 200, 13, 14, 15, 16] = -1"
  using uuid_compare_lexicographic [of "[1, 2, 3, 4, 5, 6, 7, 8, 9, 10, 11, 12, 13, 14, 15, 16]" "[1, 2, 3, 4, 5, 6, 7, 8, 9, 10, 11, 200, 13, 14, 15, 16]"] by (simp add: cmp_bytes_def)

text \<open>
  \<^bold>\<open>C32\<close> A time-based UUID is of version 1 and tells its time: \<open>uuid_time\<close> returns the clock
  reading it was made from, as long as the clock is below the year 2514 and fewer than ten
  UUIDs were made in that microsecond.
\<close>

theorem uuid_time_roundtrip:
  assumes "uuid_generate_time rnd node_id st tvs = Some (uu, st')" "clock_ok st" "length node_id = 6"
    and "last_tv st' = (sec, usec)" "0 \<le> sec" "sec < 2 ^ 34" "0 \<le> usec" "usec < 1000000" "adjustment st' < 10"
  shows "uuid_time uu = (sec, usec) \<and> uuid_type uu = 1 \<and> (sec, usec) \<in> set tvs"
proof -
  from assms(1) obtain reg cs where g: "get_clock rnd st tvs = Some (reg, cs, st')"
    and uu: "uu = uuid_pack \<lparr>time_low = ucast reg, time_mid = ucast (ucast (drop_bit 32 reg) :: 32 word),
        time_hi_and_version = ucast (drop_bit 16 (ucast (drop_bit 32 reg) :: 32 word) OR 0x1000),
        clock_seq = cs OR 0x8000, node = node_id\<rparr>"
    by (auto simp: uuid_generate_time_def Let_def bind_eq_Some_conv)
  note st = get_clock_state [OF g assms(2)]
  have reg: "reg = clock_reg_of (sec, usec) (adjustment st')" using st assms(4) by simp
  have adj: "0 \<le> adjustment st'" using st by (simp add: clock_ok_def)
  note t = clock_reg_time [OF assms(5-8) adj assms(9)]
  note r = reassemble [of reg, unfolded reg, OF t(1)]
  show ?thesis
    using st assms(4) r t(2,3)
    by (simp add: uu uuid_time_def uuid_type_def uuid_unpack_pack assms(3) Let_def reg)
qed

theorem uuid_time_roundtrip_witness:
  "\<exists>uu st'. uuid_generate_time 0 [1, 2, 3, 4, 5, 6] clock_init [(1700000000, 5)] = Some (uu, st') \<and> uuid_time uu = (1700000000, 5)"
proof -
  obtain uu st' where g: "uuid_generate_time 0 [1, 2, 3, 4, 5, 6] clock_init [(1700000000, 5)] = Some (uu, st')"
    "last_tv st' = (1700000000, 5)" "adjustment st' = 0"
    by (simp add: uuid_generate_time_def clock_init_def Let_def)
  moreover have "clock_ok clock_init" by (simp add: clock_ok_def clock_init_def)
  ultimately show ?thesis using uuid_time_roundtrip [OF g(1) _ _ g(2)] by simp
qed

text \<open>
  \<^bold>\<open>C27\<close> The adjustment that keeps UUIDs of the same microsecond apart runs up to 10 and not
  to 9: the eleventh UUID of a microsecond equals the first of the next one.
\<close>

theorem uuid_time_collision:
  assumes "last_tv st = (sec, usec)" "(sec, usec) \<noteq> (0, 0)" "adjustment st = 9"
  shows "\<exists>uu st1 st2. uuid_generate_time rnd node_id st [(sec, usec)] = Some (uu, st1) \<and>
    uuid_generate_time rnd node_id st1 [(sec, usec + 1)] = Some (uu, st2)"
proof -
  have "clock_reg_of (sec, usec) 10 = clock_reg_of (sec, usec + 1) 0" by (simp add: clock_reg_of_def algebra_simps)
  then show ?thesis using assms by (auto simp: uuid_generate_time_def Let_def)
qed

theorem uuid_time_collision_witness:
  "\<exists>uu st1 st2. uuid_generate_time 0 [1, 2, 3, 4, 5, 6] \<lparr>adjustment = 9, last_tv = (1, 2), seq = 3\<rparr> [(1, 2)] = Some (uu, st1) \<and>
    uuid_generate_time 0 [1, 2, 3, 4, 5, 6] st1 [(1, 3)] = Some (uu, st2)"
  using uuid_time_collision [of "\<lparr>adjustment = 9, last_tv = (1, 2), seq = 3\<rparr>" 1 2 0 "[1, 2, 3, 4, 5, 6]"] by simp

end
