(* ===== verification/Msg.thy ===== *)
theory Msg
  imports Uuid
begin

text \<open>
  The messages the boxes exchange: \<open>gw/msg.c\<close>, whose functions are generated from the field
  lists of \<open>gw/msg-decl.h\<close> by redefining the macros \<open>INTEGER\<close>, \<open>OCTSTR\<close>, \<open>UUID\<close> and \<open>VOID\<close>.
  Here a field is declared once, by how to read and how to write it, and every function goes
  through the declarations as its macro does. \<open>long\<close> fields are integers; on the wire they
  have 32 bits.
\<close>

section \<open>The structures\<close>

datatype msg_type = heartbeat | admin | sms | ack | wdp_datagram

record sms_fields =
  sms_sender :: "octets option"
  sms_receiver :: "octets option"
  sms_udhdata :: "octets option"
  sms_msgdata :: "octets option"
  sms_time :: int
  sms_smsc_id :: "octets option"
  sms_smsc_number :: "octets option"
  sms_foreign_id :: "octets option"
  sms_service :: "octets option"
  sms_account :: "octets option"
  sms_id :: octets
  sms_sms_type :: int
  sms_mclass :: int
  sms_mwi :: int
  sms_coding :: int
  sms_compress :: int
  sms_validity :: int
  sms_deferred :: int
  sms_dlr_mask :: int
  sms_dlr_url :: "octets option"
  sms_pid :: int
  sms_alt_dcs :: int
  sms_rpi :: int
  sms_charset :: "octets option"
  sms_boxc_id :: "octets option"
  sms_binfo :: "octets option"
  sms_msg_left :: int
  sms_split_parts :: "int option"
  sms_priority :: int
  sms_resend_try :: int
  sms_resend_time :: int
  sms_meta_data :: "octets option"

record msg =
  type :: msg_type
  heartbeat_load :: int
  admin_command :: int
  admin_boxc_id :: "octets option"
  admin_http_port :: int
  sms_part :: sms_fields
  ack_nack :: int
  ack_time :: int
  ack_id :: octets
  wdp_source_address :: "octets option"
  wdp_source_port :: int
  wdp_destination_address :: "octets option"
  wdp_destination_port :: int
  wdp_user_data :: "octets option"

text \<open>A field: how to read it from a message and how to write it.\<close>

datatype field =
    INTEGER "msg \<Rightarrow> int" "int \<Rightarrow> msg \<Rightarrow> msg"
  | OCTSTR "msg \<Rightarrow> octets option" "octets option \<Rightarrow> msg \<Rightarrow> msg"
  | UUID "msg \<Rightarrow> octets" "octets \<Rightarrow> msg \<Rightarrow> msg"
  | VOID "msg \<Rightarrow> int option" "int option \<Rightarrow> msg \<Rightarrow> msg"

abbreviation sms_upd :: "(('v \<Rightarrow> 'v) \<Rightarrow> sms_fields \<Rightarrow> sms_fields) \<Rightarrow> 'v \<Rightarrow> msg \<Rightarrow> msg" where
  "sms_upd u v m \<equiv> m\<lparr>sms_part := u (\<lambda>_. v) (sms_part m)\<rparr>"

fun msg_decl :: "msg_type \<Rightarrow> field list" where
  "msg_decl heartbeat = [INTEGER heartbeat_load (\<lambda>v m. m\<lparr>heartbeat_load := v\<rparr>)]"
| "msg_decl admin =
     [INTEGER admin_command (\<lambda>v m. m\<lparr>admin_command := v\<rparr>),
      OCTSTR admin_boxc_id (\<lambda>v m. m\<lparr>admin_boxc_id := v\<rparr>),
      INTEGER admin_http_port (\<lambda>v m. m\<lparr>admin_http_port := v\<rparr>)]"
| "msg_decl sms =
     [OCTSTR (sms_sender \<circ> sms_part) (sms_upd sms_sender_update),
      OCTSTR (sms_receiver \<circ> sms_part) (sms_upd sms_receiver_update),
      OCTSTR (sms_udhdata \<circ> sms_part) (sms_upd sms_udhdata_update),
      OCTSTR (sms_msgdata \<circ> sms_part) (sms_upd sms_msgdata_update),
      INTEGER (sms_time \<circ> sms_part) (sms_upd sms_time_update),
      OCTSTR (sms_smsc_id \<circ> sms_part) (sms_upd sms_smsc_id_update),
      OCTSTR (sms_smsc_number \<circ> sms_part) (sms_upd sms_smsc_number_update),
      OCTSTR (sms_foreign_id \<circ> sms_part) (sms_upd sms_foreign_id_update),
      OCTSTR (sms_service \<circ> sms_part) (sms_upd sms_service_update),
      OCTSTR (sms_account \<circ> sms_part) (sms_upd sms_account_update),
      UUID (sms_id \<circ> sms_part) (sms_upd sms_id_update),
      INTEGER (sms_sms_type \<circ> sms_part) (sms_upd sms_sms_type_update),
      INTEGER (sms_mclass \<circ> sms_part) (sms_upd sms_mclass_update),
      INTEGER (sms_mwi \<circ> sms_part) (sms_upd sms_mwi_update),
      INTEGER (sms_coding \<circ> sms_part) (sms_upd sms_coding_update),
      INTEGER (sms_compress \<circ> sms_part) (sms_upd sms_compress_update),
      INTEGER (sms_validity \<circ> sms_part) (sms_upd sms_validity_update),
      INTEGER (sms_deferred \<circ> sms_part) (sms_upd sms_deferred_update),
      INTEGER (sms_dlr_mask \<circ> sms_part) (sms_upd sms_dlr_mask_update),
      OCTSTR (sms_dlr_url \<circ> sms_part) (sms_upd sms_dlr_url_update),
      INTEGER (sms_pid \<circ> sms_part) (sms_upd sms_pid_update),
      INTEGER (sms_alt_dcs \<circ> sms_part) (sms_upd sms_alt_dcs_update),
      INTEGER (sms_rpi \<circ> sms_part) (sms_upd sms_rpi_update),
      OCTSTR (sms_charset \<circ> sms_part) (sms_upd sms_charset_update),
      OCTSTR (sms_boxc_id \<circ> sms_part) (sms_upd sms_boxc_id_update),
      OCTSTR (sms_binfo \<circ> sms_part) (sms_upd sms_binfo_update),
      INTEGER (sms_msg_left \<circ> sms_part) (sms_upd sms_msg_left_update),
      VOID (sms_split_parts \<circ> sms_part) (sms_upd sms_split_parts_update),
      INTEGER (sms_priority \<circ> sms_part) (sms_upd sms_priority_update),
      INTEGER (sms_resend_try \<circ> sms_part) (sms_upd sms_resend_try_update),
      INTEGER (sms_resend_time \<circ> sms_part) (sms_upd sms_resend_time_update),
      OCTSTR (sms_meta_data \<circ> sms_part) (sms_upd sms_meta_data_update)]"
| "msg_decl ack =
     [INTEGER ack_nack (\<lambda>v m. m\<lparr>ack_nack := v\<rparr>),
      INTEGER ack_time (\<lambda>v m. m\<lparr>ack_time := v\<rparr>),
      UUID ack_id (\<lambda>v m. m\<lparr>ack_id := v\<rparr>)]"
| "msg_decl wdp_datagram =
     [OCTSTR wdp_source_address (\<lambda>v m. m\<lparr>wdp_source_address := v\<rparr>),
      INTEGER wdp_source_port (\<lambda>v m. m\<lparr>wdp_source_port := v\<rparr>),
      OCTSTR wdp_destination_address (\<lambda>v m. m\<lparr>wdp_destination_address := v\<rparr>),
      INTEGER wdp_destination_port (\<lambda>v m. m\<lparr>wdp_destination_port := v\<rparr>),
      OCTSTR wdp_user_data (\<lambda>v m. m\<lparr>wdp_user_data := v\<rparr>)]"

text \<open>The enumeration's numbers.\<close>

definition msg_types :: "msg_type list" where
  "msg_types = [heartbeat, admin, sms, ack, wdp_datagram]"

definition type_number :: "msg_type \<Rightarrow> int" where
  "type_number t = (case t of heartbeat \<Rightarrow> 0 | admin \<Rightarrow> 1 | sms \<Rightarrow> 2 | ack \<Rightarrow> 3 | wdp_datagram \<Rightarrow> 4)"

definition type_of_number :: "int \<Rightarrow> msg_type option" where
  "type_of_number i = (if 0 \<le> i \<and> i < int (length msg_types) then Some (msg_types ! nat i) else None)"

text \<open>The declarations of all structures, in the order of the file.\<close>

definition all_decls :: "field list" where
  "all_decls = concat (map msg_decl msg_types)"

section \<open>Creating and copying\<close>

definition MSG_PARAM_UNDEFINED :: int where
  "MSG_PARAM_UNDEFINED = -1"

text \<open>The area \<open>gw_malloc\<close> returns, before its fields are set.\<close>

definition blank_sms :: sms_fields where
  "blank_sms =
     \<lparr>sms_sender = None, sms_receiver = None, sms_udhdata = None, sms_msgdata = None, sms_time = 0, sms_smsc_id = None,
      sms_smsc_number = None, sms_foreign_id = None, sms_service = None, sms_account = None, sms_id = [], sms_sms_type = 0,
      sms_mclass = 0, sms_mwi = 0, sms_coding = 0, sms_compress = 0, sms_validity = 0, sms_deferred = 0, sms_dlr_mask = 0,
      sms_dlr_url = None, sms_pid = 0, sms_alt_dcs = 0, sms_rpi = 0, sms_charset = None, sms_boxc_id = None, sms_binfo = None,
      sms_msg_left = 0, sms_split_parts = None, sms_priority = 0, sms_resend_try = 0, sms_resend_time = 0, sms_meta_data = None\<rparr>"

definition blank :: "msg_type \<Rightarrow> msg" where
  "blank t =
     \<lparr>type = t, heartbeat_load = 0, admin_command = 0, admin_boxc_id = None, admin_http_port = 0, sms_part = blank_sms,
      ack_nack = 0, ack_time = 0, ack_id = [], wdp_source_address = None, wdp_source_port = 0,
      wdp_destination_address = None, wdp_destination_port = 0, wdp_user_data = None\<rparr>"

text \<open>\<open>rnd k\<close> is the result of the \<open>k\<close>-th call of \<open>uuid_generate\<close>.\<close>

fun create_field :: "(nat \<Rightarrow> octets) \<Rightarrow> field \<Rightarrow> msg \<times> nat \<Rightarrow> msg \<times> nat" where
  "create_field rnd (INTEGER get put) (p, k) = (put MSG_PARAM_UNDEFINED p, k)"
| "create_field rnd (OCTSTR get put) (p, k) = (put None p, k)"
| "create_field rnd (UUID get put) (p, k) = (put (rnd k) p, Suc k)"
| "create_field rnd (VOID get put) (p, k) = (put None p, k)"

definition msg_create :: "(nat \<Rightarrow> octets) \<Rightarrow> msg_type \<Rightarrow> msg" where
  "msg_create rnd t = fst (fold (create_field rnd) all_decls (blank t, 0))"

fun duplicate_field :: "msg \<Rightarrow> field \<Rightarrow> msg \<Rightarrow> msg" where
  "duplicate_field q (INTEGER get put) p = put (get q) p"
| "duplicate_field q (OCTSTR get put) p = put (case get q of None \<Rightarrow> None | Some os \<Rightarrow> Some os) p"
| "duplicate_field q (UUID get put) p = put (uuid_copy (get q)) p"
| "duplicate_field q (VOID get put) p = put (get q) p"

definition msg_duplicate :: "(nat \<Rightarrow> octets) \<Rightarrow> msg \<Rightarrow> msg" where
  "msg_duplicate rnd m = fold (duplicate_field m) all_decls (msg_create rnd (type m))"

section \<open>Packing\<close>

definition append_integer :: "octets \<Rightarrow> int \<Rightarrow> octets" where
  "append_integer os i = os @ encode_network_long (word_of_int i)"

definition append_string :: "octets \<Rightarrow> octets option \<Rightarrow> octets" where
  "append_string os f = (case f of None \<Rightarrow> append_integer os (-1) | Some bs \<Rightarrow> append_integer os (oct_len bs) @ bs)"

definition append_uuid :: "octets \<Rightarrow> octets \<Rightarrow> octets" where
  "append_uuid os id1 =
     (let buf = uuid_unparse id1; os = append_integer os 36
      in os @ take (nat (strlen buf)) buf)"

fun pack_field :: "msg \<Rightarrow> field \<Rightarrow> octets \<Rightarrow> octets" where
  "pack_field p (INTEGER get put) os = append_integer os (get p)"
| "pack_field p (OCTSTR get put) os = append_string os (get p)"
| "pack_field p (UUID get put) os = append_uuid os (get p)"
| "pack_field p (VOID get put) os = os"

definition msg_pack :: "msg \<Rightarrow> octets" where
  "msg_pack m = fold (pack_field m) (msg_decl (type m)) (append_integer [] (type_number (type m)))"

section \<open>Unpacking\<close>

text \<open>
  The parsers return \<open>None\<close> inside when they fail with -1, and the value and the new offset
  otherwise. \<open>off\<close> is an \<open>int\<close>: the addition in \<open>parse_string\<close> is made in \<open>long\<close> and cut to 32
  bits when it is stored, the one in \<open>parse_integer\<close> must not leave the range of \<open>int\<close>.
\<close>

definition parse_integer :: "octets \<Rightarrow> int \<Rightarrow> (int \<times> int) option option" where
  "parse_integer packed off = do {
     gw_assert (off \<ge> 0);
     gw_assert (off + 4 \<le> INT_MAX);
     Some (if off + 4 > oct_len packed then None
           else Some (decode_network_long (take 4 (drop (nat off) packed)), off + 4)) }"

definition parse_string :: "octets \<Rightarrow> int \<Rightarrow> (octets option \<times> int) option option" where
  "parse_string packed off = do {
     r \<leftarrow> parse_integer packed off;
     case r of None \<Rightarrow> Some None
     | Some (len, off) \<Rightarrow>
         if len = -1 then Some (Some (None, off))
         else do {
           os \<leftarrow> oct_copy packed off len;
           Some (Some (Some os, to_int (off + len))) } }"

definition get_cstr :: "octets option \<Rightarrow> octets" where
  "get_cstr os = (case os of None \<Rightarrow> cstr ''(null)'' | Some bs \<Rightarrow> bs)"

definition parse_uuid :: "octets \<Rightarrow> int \<Rightarrow> (octets \<times> int) option option" where
  "parse_uuid packed off = do {
     r \<leftarrow> parse_string packed off;
     case r of None \<Rightarrow> Some None
     | Some (tmp, off) \<Rightarrow>
         (case uuid_parse (get_cstr tmp) of None \<Rightarrow> Some None
          | Some id1 \<Rightarrow> Some (Some (id1, off))) }"

fun unpack_field :: "octets \<Rightarrow> field \<Rightarrow> msg \<Rightarrow> int \<Rightarrow> (msg \<times> int) option option" where
  "unpack_field os (INTEGER get put) p off = map_option (map_option (\<lambda>(v, off). (put v p, off))) (parse_integer os off)"
| "unpack_field os (OCTSTR get put) p off = map_option (map_option (\<lambda>(v, off). (put v p, off))) (parse_string os off)"
| "unpack_field os (UUID get put) p off = map_option (map_option (\<lambda>(v, off). (put v p, off))) (parse_uuid os off)"
| "unpack_field os (VOID get put) p off = Some (Some (p, off))"

fun unpack_fields :: "octets \<Rightarrow> field list \<Rightarrow> msg \<Rightarrow> int \<Rightarrow> msg option option" where
  "unpack_fields os [] p off = Some (Some p)"
| "unpack_fields os (f # fs) p off = do {
     r \<leftarrow> unpack_field os f p off;
     case r of None \<Rightarrow> Some None | Some (p, off) \<Rightarrow> unpack_fields os fs p off }"

definition msg_unpack :: "(nat \<Rightarrow> octets) \<Rightarrow> octets \<Rightarrow> msg option option" where
  "msg_unpack rnd os = do {
     let m = msg_create rnd heartbeat;
     r \<leftarrow> parse_integer os 0;
     case r of None \<Rightarrow> Some None
     | Some (i, off) \<Rightarrow>
         (case type_of_number i of None \<Rightarrow> Some None
          | Some t \<Rightarrow> unpack_fields os (msg_decl t) (m\<lparr>type := t\<rparr>) off) }"

section \<open>What is packed is unpacked\<close>

abbreviation enc :: "int \<Rightarrow> octets" where
  "enc i \<equiv> encode_network_long (word_of_int i)"

lemma length_enc [simp]: "length (encode_network_long w) = 4"
  by (simp add: encode_network_long_def)

lemma decode_enc: "- (2 ^ 31) \<le> i \<Longrightarrow> i < 2 ^ 31 \<Longrightarrow> decode_network_long (enc i) = i"
proof -
  let ?v = "word_of_int i :: 64 word"
  have "push_bit 24 (ucast (ucast (drop_bit 24 ?v AND 0xFF) :: byte)) OR push_bit 16 (ucast (ucast (drop_bit 16 ?v AND 0xFF) :: byte)) OR
    push_bit 8 (ucast (ucast (drop_bit 8 ?v AND 0xFF) :: byte)) OR ucast (ucast (?v AND 0xFF) :: byte) = (ucast ?v :: 32 word)"
    (is "?l = _")
  proof (rule bit_word_eqI)
    fix n :: nat
    have m: "bit (0xFF :: 64 word) k \<longleftrightarrow> k < 8" "bit (0xFF :: int) k \<longleftrightarrow> k < 8" for k
    proof -
      have c: "(0xFF :: 64 word) = mask 8" "(0xFF :: int) = mask 8" by (simp_all add: mask_numeral)
      show "bit (0xFF :: 64 word) k \<longleftrightarrow> k < 8" unfolding c by (auto simp: bit_mask_iff)
      show "bit (0xFF :: int) k \<longleftrightarrow> k < 8" unfolding c by (auto simp: bit_mask_iff)
    qed
    consider "n < 8" | "8 \<le> n" "n < 16" | "16 \<le> n" "n < 24" | "24 \<le> n" by linarith
    then show "bit ?l n \<longleftrightarrow> bit (ucast ?v :: 32 word) n"
      by cases (auto simp: bit_simps m)
  qed
  also have "(ucast ?v :: 32 word) = word_of_int i" by (rule bit_word_eqI) (auto simp: bit_simps)
  finally show "- (2 ^ 31) \<le> i \<Longrightarrow> i < 2 ^ 31 \<Longrightarrow> decode_network_long (enc i) = i"
    using to_int_id [of i] by (simp add: decode_network_long_def encode_network_long_def to_int_def)
qed

lemma drop_prefix [simp]: "drop (nat (int (length pre))) (pre @ xs) = xs"
  by simp

lemma parse_integer_enc:
  assumes "- (2 ^ 31) \<le> i" "i < 2 ^ 31" "int (length (pre @ enc i @ post)) \<le> INT_MAX"
  shows "parse_integer (pre @ enc i @ post) (int (length pre)) = Some (Some (i, int (length (pre @ enc i))))"
  using assms by (simp add: parse_integer_def oct_len_def decode_enc)

definition enc_string :: "octets option \<Rightarrow> octets" where
  "enc_string f = append_string [] f"

lemma append_string_enc: "append_string os f = os @ enc_string f"
  by (simp add: enc_string_def append_string_def append_integer_def split: option.splits)

lemma parse_string_enc:
  assumes "int (length (pre @ enc_string f @ post)) \<le> INT_MAX"
  shows "parse_string (pre @ enc_string f @ post) (int (length pre)) = Some (Some (f, int (length (pre @ enc_string f))))"
proof (cases f)
  case None
  then show ?thesis using assms parse_integer_enc [of "-1" pre post]
    by (simp add: parse_string_def enc_string_def append_string_def append_integer_def)
next
  case (Some bs)
  have l: "int (length bs) < 2 ^ 31" using assms Some
    by (simp add: enc_string_def append_string_def append_integer_def INT_MAX_def)
  let ?n = "int (length bs)" and ?pre = "pre @ enc (int (length bs))"
  have e: "pre @ enc_string f @ post = pre @ enc ?n @ bs @ post"
    by (simp add: Some enc_string_def append_string_def append_integer_def oct_len_def)
  have "parse_integer (pre @ enc ?n @ bs @ post) (int (length pre)) = Some (Some (?n, int (length ?pre)))"
    using assms l unfolding e by (intro parse_integer_enc) simp_all
  moreover have "oct_copy (pre @ enc ?n @ bs @ post) (int (length ?pre)) ?n = Some bs"
    using drop_prefix [of ?pre "bs @ post"] by (simp add: oct_copy_def del: drop_prefix)
  moreover have "to_int (int (length ?pre) + ?n) = int (length ?pre) + ?n"
    using assms unfolding e by (intro to_int_id) (simp_all add: INT_MAX_def)
  ultimately show ?thesis
    unfolding e by (simp add: parse_string_def Some enc_string_def append_string_def append_integer_def oct_len_def)
qed

definition enc_uuid :: "octets \<Rightarrow> octets" where
  "enc_uuid id1 = enc_string (Some (uuid_unparse id1))"

lemma xdigits_no_nul_text: "length uu = 16 \<Longrightarrow> 0 \<notin> set (uuid_unparse uu)"
  using xdigit_not_nul [OF xdigits_hex] xdigit_not_nul [OF xdigits_node, of "node (uuid_unpack uu)" unat]
  by (simp add: uuid_unparse_text uuid_text_def Let_def)

lemma length_uuid_unparse: "length uu = 16 \<Longrightarrow> length (uuid_unparse uu) = 36"
  using xdigits_node [of "node (uuid_unpack uu)" unat]
  by (simp add: uuid_unparse_text uuid_text_def Let_def xdigits_def)

lemma append_uuid_enc: "length id1 = 16 \<Longrightarrow> append_uuid os id1 = os @ enc_uuid id1"
  by (simp add: append_uuid_def enc_uuid_def enc_string_def append_string_def append_integer_def oct_len_def
      strlen_no_nul xdigits_no_nul_text length_uuid_unparse)

lemma parse_uuid_enc:
  assumes "int (length (pre @ enc_uuid id1 @ post)) \<le> INT_MAX" "length id1 = 16"
  shows "parse_uuid (pre @ enc_uuid id1 @ post) (int (length pre)) = Some (Some (id1, int (length (pre @ enc_uuid id1))))"
  using parse_string_enc [of pre "Some (uuid_unparse id1)" post] assms
  by (simp add: parse_uuid_def enc_uuid_def get_cstr_def uuid_parse_unparse)

text \<open>The fields that fit on the wire.\<close>

fun wire_ok :: "msg \<Rightarrow> field \<Rightarrow> bool" where
  "wire_ok m (INTEGER get put) \<longleftrightarrow> - (2 ^ 31) \<le> get m \<and> get m < 2 ^ 31"
| "wire_ok m (OCTSTR get put) \<longleftrightarrow> True"
| "wire_ok m (UUID get put) \<longleftrightarrow> length (get m) = 16"
| "wire_ok m (VOID get put) \<longleftrightarrow> True"

fun enc_field :: "msg \<Rightarrow> field \<Rightarrow> octets" where
  "enc_field m (INTEGER get put) = enc (get m)"
| "enc_field m (OCTSTR get put) = enc_string (get m)"
| "enc_field m (UUID get put) = enc_uuid (get m)"
| "enc_field m (VOID get put) = []"

fun assign_field :: "msg \<Rightarrow> field \<Rightarrow> msg \<Rightarrow> msg" where
  "assign_field q (INTEGER get put) p = put (get q) p"
| "assign_field q (OCTSTR get put) p = put (get q) p"
| "assign_field q (UUID get put) p = put (get q) p"
| "assign_field q (VOID get put) p = p"

lemma pack_field_enc: "wire_ok m f \<Longrightarrow> pack_field m f os = os @ enc_field m f"
  by (cases f) (simp_all add: append_integer_def append_string_enc append_uuid_enc)

lemma pack_fields_enc: "list_all (wire_ok m) fs \<Longrightarrow> fold (pack_field m) fs os = os @ concat (map (enc_field m) fs)"
  by (induction fs arbitrary: os) (simp_all add: pack_field_enc)

lemma unpack_field_enc:
  assumes "wire_ok m f" "int (length (pre @ enc_field m f @ post)) \<le> INT_MAX"
  shows "unpack_field (pre @ enc_field m f @ post) f p (int (length pre)) =
    Some (Some (assign_field m f p, int (length (pre @ enc_field m f))))"
  using assms parse_integer_enc [of _ pre post] parse_string_enc [of pre _ post] parse_uuid_enc [of pre _ post]
  by (cases f) simp_all

lemma unpack_fields_enc:
  "list_all (wire_ok m) fs \<Longrightarrow> int (length (pre @ concat (map (enc_field m) fs) @ post)) \<le> INT_MAX \<Longrightarrow>
   unpack_fields (pre @ concat (map (enc_field m) fs) @ post) fs p (int (length pre)) = Some (Some (fold (assign_field m) fs p))"
proof (induction fs arbitrary: pre p)
  case (Cons f fs)
  have "unpack_field (pre @ enc_field m f @ concat (map (enc_field m) fs) @ post) f p (int (length pre)) =
    Some (Some (assign_field m f p, int (length (pre @ enc_field m f))))"
    using Cons.prems by (intro unpack_field_enc) simp_all
  with Cons.IH [of "pre @ enc_field m f" "assign_field m f p"] Cons.prems show ?case by simp
qed simp

section \<open>Properties\<close>

text \<open>A field of \<open>m\<close> that arrived in \<open>m'\<close>; pointers are not sent.\<close>

fun delivered :: "msg \<Rightarrow> msg \<Rightarrow> field \<Rightarrow> bool" where
  "delivered m m' (INTEGER get put) \<longleftrightarrow> get m' = get m"
| "delivered m m' (OCTSTR get put) \<longleftrightarrow> get m' = get m"
| "delivered m m' (UUID get put) \<longleftrightarrow> get m' = get m"
| "delivered m m' (VOID get put) \<longleftrightarrow> get m' = None"

lemma msg_create_type: "type (msg_create rnd t) = t"
  by (cases t) (simp_all add: msg_create_def all_decls_def msg_types_def blank_def)

lemma msg_create_void: "sms_split_parts (sms_part (msg_create rnd t)) = None"
  by (simp add: msg_create_def all_decls_def msg_types_def blank_def)

lemma assign_delivers:
  "type m = t \<Longrightarrow> list_all (delivered m (fold (assign_field m) (msg_decl t) (msg_create rnd heartbeat\<lparr>type := t\<rparr>))) (msg_decl t)"
  by (cases t) (simp_all add: msg_create_void)

lemma assign_type: "type (fold (assign_field m) (msg_decl t) p) = type p"
  by (cases t) simp_all

lemma type_of_type_number: "type_of_number (type_number t) = Some t" "0 \<le> type_number t" "type_number t < 5"
  by (cases t; simp add: type_of_number_def type_number_def msg_types_def)+

text \<open>
  \<^bold>\<open>C8\<close> What \<open>msg_pack\<close> writes \<open>msg_unpack\<close> reads back, for every message whose integers fit
  in 32 bits and whose packed form is shorter than 2 GB: the unpacked message has the same type
  and the same value in every field that is sent, NULL strings and empty strings told apart.
\<close>

theorem msg_pack_unpack:
  assumes "list_all (wire_ok m) (msg_decl (type m))" and "int (length (msg_pack m)) \<le> INT_MAX"
  shows "\<exists>m'. msg_unpack rnd (msg_pack m) = Some (Some m') \<and> type m' = type m \<and>
    list_all (delivered m m') (msg_decl (type m))"
proof -
  let ?t = "type_number (type m)" and ?fs = "concat (map (enc_field m) (msg_decl (type m)))"
  let ?p = "msg_create rnd heartbeat\<lparr>type := type m\<rparr>"
  have pack: "msg_pack m = enc ?t @ ?fs"
    using assms(1) by (simp add: msg_pack_def pack_fields_enc append_integer_def)
  have "parse_integer (msg_pack m) 0 = Some (Some (?t, 4))"
    using parse_integer_enc [of ?t "[]" ?fs] type_of_type_number(2,3) [of "type m"] assms(2) by (simp add: pack)
  moreover have "unpack_fields (msg_pack m) (msg_decl (type m)) ?p 4 =
    Some (Some (fold (assign_field m) (msg_decl (type m)) ?p))"
    using unpack_fields_enc [OF assms(1), of "enc ?t" "[]" ?p] assms(2) by (simp add: pack)
  ultimately have "msg_unpack rnd (msg_pack m) = Some (Some (fold (assign_field m) (msg_decl (type m)) ?p))"
    by (simp add: msg_unpack_def type_of_type_number)
  moreover have "type (fold (assign_field m) (msg_decl (type m)) ?p) = type m" by (simp add: assign_type)
  moreover have "list_all (delivered m (fold (assign_field m) (msg_decl (type m)) ?p)) (msg_decl (type m))"
    by (rule assign_delivers) simp
  ultimately show ?thesis by blast
qed

definition sample_sms :: msg where
  "sample_sms = (blank sms)\<lparr>sms_part := blank_sms
     \<lparr>sms_sender := Some [0x31, 0x32], sms_msgdata := Some [], sms_id := replicate 16 7, sms_coding := -1\<rparr>\<rparr>"

theorem msg_pack_unpack_witness:
  "\<exists>m'. msg_unpack (\<lambda>k. replicate 16 0) (msg_pack sample_sms) = Some (Some m') \<and>
    sms_sender (sms_part m') = Some [0x31, 0x32] \<and> sms_receiver (sms_part m') = None \<and>
    sms_msgdata (sms_part m') = Some [] \<and> sms_id (sms_part m') = replicate 16 7"
proof -
  have ok: "list_all (wire_ok sample_sms) (msg_decl (type sample_sms))"
    by (simp add: sample_sms_def blank_def blank_sms_def)
  have "int (length (msg_pack sample_sms)) \<le> INT_MAX"
    using ok by (simp add: msg_pack_def pack_fields_enc append_integer_def)
      (simp add: sample_sms_def blank_def blank_sms_def enc_uuid_def enc_string_def append_string_def append_integer_def
        length_uuid_unparse INT_MAX_def)
  with msg_pack_unpack [OF ok, of "\<lambda>k. replicate 16 0"] show ?thesis
    by (auto simp: sample_sms_def blank_def blank_sms_def)
qed

text \<open>
  \<^bold>\<open>C23\<close> \<open>msg_duplicate\<close> copies every field of every structure: the copy is equal to the
  original.
\<close>

theorem msg_duplicate_copies:
  assumes "length (sms_id (sms_part m)) = 16" "length (ack_id m) = 16"
  shows "msg_duplicate rnd m = m"
proof -
  have o: "(case x of None \<Rightarrow> None | Some os \<Rightarrow> Some os) = x" for x :: "octets option" by (cases x) simp_all
  obtain t hl ac ab ah s an at ai ws wp wd we wu where m: "m = \<lparr>type = t, heartbeat_load = hl, admin_command = ac, admin_boxc_id = ab,
    admin_http_port = ah, sms_part = s, ack_nack = an, ack_time = at, ack_id = ai, wdp_source_address = ws, wdp_source_port = wp,
    wdp_destination_address = wd, wdp_destination_port = we, wdp_user_data = wu\<rparr>" by (cases m)
  show ?thesis
    using assms unfolding m
    by (cases s) (simp add: msg_duplicate_def all_decls_def msg_types_def o uuid_copy_id msg_create_def blank_def blank_sms_def)
qed

theorem msg_duplicate_copies_witness:
  "msg_duplicate (\<lambda>k. replicate 16 0) (sample_sms\<lparr>ack_id := replicate 16 1\<rparr>) = sample_sms\<lparr>ack_id := replicate 16 1\<rparr>"
  by (rule msg_duplicate_copies) (simp_all add: sample_sms_def)

text \<open>
  \<^bold>\<open>C35\<close> The length of a packed string is not checked: a packet whose string has a negative
  length other than -1, or a length that leads beyond the range of \<open>int\<close>, does not make
  \<open>msg_unpack\<close> return NULL. It ends in a failed assertion, that of \<open>octstr_copy\<close> or that of
  \<open>parse_integer\<close>, which stops the process.
\<close>

theorem msg_unpack_bad_length:
  assumes "- (2 ^ 31) \<le> n \<and> n < -1 \<or> INT_MAX - 12 < n \<and> n \<le> INT_MAX"
  shows "msg_unpack rnd (enc (type_number admin) @ enc c @ enc n @ rest) = None"
proof -
  let ?os = "enc (type_number admin) @ enc c @ enc n @ rest"
  have at: "parse_integer (pre @ enc i @ post) (int (length pre)) = Some (Some (decode_network_long (enc i), int (length pre) + 4))"
    if "length pre \<le> 8" for pre i post
    using that by (simp add: parse_integer_def oct_len_def INT_MAX_def)
  have n: "decode_network_long (enc n) = n" using assms by (intro decode_enc) (auto simp: INT_MAX_def)
  have p: "parse_integer ?os 0 = Some (Some (1, 4))" "parse_integer ?os 4 = Some (Some (decode_network_long (enc c), 8))"
    "parse_integer ?os 8 = Some (Some (n, 12))"
    using at [of "[]" 1 "enc c @ enc n @ rest"] at [of "enc 1" c "enc n @ rest"] at [of "enc 1 @ enc c" n rest] n decode_enc [of 1]
    by (simp_all add: type_number_def)
  have s: "parse_string ?os 8 = None \<or> (\<exists>bs. parse_string ?os 8 = Some (Some (bs, to_int (12 + n))) \<and> to_int (12 + n) < 0)"
  proof (cases "n < 0")
    case True
    with p assms show ?thesis by (auto simp: parse_string_def oct_copy_def INT_MAX_def)
  next
    case False
    with assms have "INT_MAX - 12 < n" "n \<le> INT_MAX" by auto
    moreover have "(word_of_int (12 + n) :: 32 word) = word_of_int (12 + n - 2 ^ 32)"
      using minus_mod_self2 [of "12 + n" "2 ^ 32"] by (simp add: word_of_int_eq_iff take_bit_eq_mod del: of_int_add of_int_diff)
    ultimately have "to_int (12 + n) = 12 + n - 2 ^ 32"
      using to_int_id [of "12 + n - 2 ^ 32"] by (simp only: to_int_def INT_MAX_def) simp
    with False p \<open>n \<le> INT_MAX\<close> show ?thesis by (auto simp: parse_string_def oct_copy_def INT_MAX_def)
  qed
  from p s show ?thesis
    by (auto simp: msg_unpack_def type_of_number_def msg_types_def parse_integer_def [of _ "to_int (12 + n)"])
qed

theorem msg_unpack_bad_length_witness:
  "msg_unpack (\<lambda>k. []) (enc (type_number admin) @ enc 0 @ enc (-2) @ []) = None"
  by (rule msg_unpack_bad_length) simp

end
