(* ===== verification/Parse.thy ===== *)
theory Parse
  imports Octets Gwlist_Spec
begin

text \<open>
  The parsing contexts of \<open>gwlib/parse.c\<close>: a position in an octet string, a limit, and a stack of
  outer limits kept in a \<open>List\<close>. A failing call sets the error flag. The functions return
  \<open>None\<close> only where an assertion of the code or of \<open>octstr.c\<close> fails.
\<close>

record parse_context =
  pc_data :: octets
  pc_pos :: int
  pc_limit :: int
  pc_stack :: "int gwlist option"
  pc_error :: int

section \<open>Operations\<close>

definition oct_extract_uintvar :: "octets \<Rightarrow> int \<Rightarrow> int \<times> 64 word option" where
  "oct_extract_uintvar bs pos =
     (if pos < 0 then (-1, None)
      else case uv_read 5 (drop (nat pos) bs) 0 of None \<Rightarrow> (-1, None) | Some (k, v) \<Rightarrow> (pos + int k, Some v))"

definition parse_context_create :: "octets \<Rightarrow> parse_context" where
  "parse_context_create str = \<lparr>pc_data = str, pc_pos = 0, pc_limit = oct_len str, pc_stack = None, pc_error = 0\<rparr>"

definition parse_error :: "parse_context \<Rightarrow> int" where
  "parse_error c = pc_error c"

definition parse_clear_error :: "parse_context \<Rightarrow> parse_context" where
  "parse_clear_error c = c\<lparr>pc_error := 0\<rparr>"

definition parse_set_error :: "parse_context \<Rightarrow> parse_context" where
  "parse_set_error c = c\<lparr>pc_error := 1\<rparr>"

definition parse_limit :: "parse_context \<Rightarrow> int \<Rightarrow> (int \<times> parse_context) option" where
  "parse_limit c len =
     (if pc_pos c + len > pc_limit c then Some (-1, c\<lparr>pc_error := 1\<rparr>)
      else do {
        let stack = (case pc_stack c of None \<Rightarrow> gwlist_create | Some l \<Rightarrow> l);
        stack \<leftarrow> gwlist_insert stack 0 (pc_limit c);
        Some (0, c\<lparr>pc_stack := Some stack, pc_limit := pc_pos c + len\<rparr>) })"

definition parse_pop_limit :: "parse_context \<Rightarrow> (int \<times> parse_context) option" where
  "parse_pop_limit c =
     (case pc_stack c of
        None \<Rightarrow> Some (-1, c\<lparr>pc_error := 1\<rparr>)
      | Some l \<Rightarrow>
          if gwlist_len (Some l) = 0 then Some (-1, c\<lparr>pc_error := 1\<rparr>)
          else do {
            (elem, l) \<leftarrow> gwlist_extract_first l;
            elem \<leftarrow> elem;
            Some (0, c\<lparr>pc_limit := elem, pc_stack := Some l\<rparr>) })"

definition parse_octets_left :: "parse_context \<Rightarrow> int" where
  "parse_octets_left c = pc_limit c - pc_pos c"

definition parse_skip :: "parse_context \<Rightarrow> int \<Rightarrow> int \<times> parse_context" where
  "parse_skip c k =
     (if pc_pos c + k > pc_limit c then (-1, c\<lparr>pc_pos := pc_limit c, pc_error := 1\<rparr>)
      else (0, c\<lparr>pc_pos := pc_pos c + k\<rparr>))"

definition parse_skip_to_limit :: "parse_context \<Rightarrow> parse_context" where
  "parse_skip_to_limit c = c\<lparr>pc_pos := pc_limit c\<rparr>"

definition parse_skip_to :: "parse_context \<Rightarrow> int \<Rightarrow> int \<times> parse_context" where
  "parse_skip_to c pos =
     (if pos < 0 then (-1, c\<lparr>pc_error := 1\<rparr>)
      else if pos > pc_limit c then (-1, c\<lparr>pc_pos := pc_limit c, pc_error := 1\<rparr>)
      else (0, c\<lparr>pc_pos := pos\<rparr>))"

definition parse_peek_char :: "parse_context \<Rightarrow> int \<times> parse_context" where
  "parse_peek_char c =
     (if pc_pos c = pc_limit c then (-1, c\<lparr>pc_error := 1\<rparr>) else (oct_get (pc_data c) (pc_pos c), c))"

definition parse_get_char :: "parse_context \<Rightarrow> int \<times> parse_context" where
  "parse_get_char c =
     (if pc_pos c = pc_limit c then (-1, c\<lparr>pc_error := 1\<rparr>)
      else (oct_get (pc_data c) (pc_pos c), c\<lparr>pc_pos := pc_pos c + 1\<rparr>))"

definition parse_get_octets :: "parse_context \<Rightarrow> int \<Rightarrow> (octets option \<times> parse_context) option" where
  "parse_get_octets c len =
     (if pc_pos c + len > pc_limit c then Some (None, c\<lparr>pc_error := 1\<rparr>)
      else do {
        result \<leftarrow> oct_copy (pc_data c) (pc_pos c) len;
        Some (Some result, c\<lparr>pc_pos := pc_pos c + len\<rparr>) })"

definition parse_get_uintvar :: "parse_context \<Rightarrow> 64 word \<times> parse_context" where
  "parse_get_uintvar c =
     (case oct_extract_uintvar (pc_data c) (pc_pos c) of
        (pos, None) \<Rightarrow> (0, c\<lparr>pc_error := 1\<rparr>)
      | (pos, Some v) \<Rightarrow>
          if pos < 0 \<or> pos > pc_limit c then (0, c\<lparr>pc_error := 1\<rparr>) else (v, c\<lparr>pc_pos := pos\<rparr>))"

definition parse_get_nul_string :: "parse_context \<Rightarrow> (octets option \<times> parse_context) option" where
  "parse_get_nul_string c = do {
     pos \<leftarrow> oct_search_char (pc_data c) 0 (pc_pos c);
     if pos < 0 \<or> pos \<ge> pc_limit c then Some (None, c\<lparr>pc_error := 1\<rparr>)
     else do {
       result \<leftarrow> oct_copy (pc_data c) (pc_pos c) (pos - pc_pos c);
       Some (Some result, c\<lparr>pc_pos := pos + 1\<rparr>) } }"

definition parse_get_line :: "parse_context \<Rightarrow> (octets option \<times> parse_context) option" where
  "parse_get_line c = do {
     pos \<leftarrow> oct_search_char (pc_data c) 10 (pc_pos c);
     if pos < 0 \<or> pos \<ge> pc_limit c then Some (None, c\<lparr>pc_error := 1\<rparr>)
     else do {
       result \<leftarrow> oct_copy (pc_data c) (pc_pos c) (pos - pc_pos c);
       Some (Some (oct_strip_crlfs result), c\<lparr>pc_pos := pos + 1\<rparr>) } }"

definition parse_get_seperated_block :: "parse_context \<Rightarrow> octets \<Rightarrow> (octets option \<times> parse_context) option" where
  "parse_get_seperated_block c seperator = do {
     spos \<leftarrow> oct_search (pc_data c) seperator (pc_pos c);
     if spos < 0 \<or> spos \<ge> pc_limit c then Some (None, c\<lparr>pc_error := 1\<rparr>)
     else do {
       epos \<leftarrow> oct_search (pc_data c) seperator (spos + oct_len seperator);
       if epos < 0 \<or> epos \<ge> pc_limit c then Some (None, c\<lparr>pc_error := 1\<rparr>)
       else do {
         let spos = spos + oct_len seperator;
         result \<leftarrow> oct_copy (pc_data c) spos (epos - spos);
         Some (Some result, c\<lparr>pc_pos := epos\<rparr>) } } }"

text \<open>\<open>parse_get_rest\<close> cuts the caller's string and leaves position and limit as they were.\<close>

definition parse_get_rest :: "parse_context \<Rightarrow> (octets \<times> parse_context) option" where
  "parse_get_rest c = do {
     d \<leftarrow> oct_delete (pc_data c) 0 (pc_pos c);
     Some (d, c\<lparr>pc_data := d\<rparr>) }"

section \<open>Valid contexts\<close>

definition stack_rep :: "parse_context \<Rightarrow> int list \<Rightarrow> bool" where
  "stack_rep c ks \<longleftrightarrow> (case pc_stack c of None \<Rightarrow> ks = [] | Some l \<Rightarrow> rep l ks)"

text \<open>\<open>ks\<close> are the outer limits, the innermost first.\<close>

definition pc_rep :: "parse_context \<Rightarrow> int list \<Rightarrow> bool" where
  "pc_rep c ks \<longleftrightarrow> stack_rep c ks \<and> 0 \<le> pc_pos c \<and> pc_pos c \<le> pc_limit c \<and> sorted (pc_limit c # ks @ [oct_len (pc_data c)])"

lemma pc_limit_bound: "pc_rep c ks \<Longrightarrow> pc_limit c \<le> oct_len (pc_data c)"
  by (auto simp: pc_rep_def)

datatype parse_op = DoError | DoClear | DoSet | DoLimit int | DoPop | DoLeft | DoSkip int | DoSkipToLimit | DoSkipTo int
  | DoPeek | DoChar | DoOctets int | DoUintvar | DoNul | DoLine | DoBlock octets

datatype parse_result = RInt int | ROctets "octets option" | RUint "64 word" | RDone

fun parse_call :: "parse_op \<Rightarrow> parse_context \<Rightarrow> (parse_result \<times> parse_context) option" where
  "parse_call DoError c = Some (RInt (parse_error c), c)"
| "parse_call DoClear c = Some (RDone, parse_clear_error c)"
| "parse_call DoSet c = Some (RDone, parse_set_error c)"
| "parse_call (DoLimit n) c = map_option (map_prod RInt id) (parse_limit c n)"
| "parse_call DoPop c = map_option (map_prod RInt id) (parse_pop_limit c)"
| "parse_call DoLeft c = Some (RInt (parse_octets_left c), c)"
| "parse_call (DoSkip n) c = Some (map_prod RInt id (parse_skip c n))"
| "parse_call DoSkipToLimit c = Some (RDone, parse_skip_to_limit c)"
| "parse_call (DoSkipTo p) c = Some (map_prod RInt id (parse_skip_to c p))"
| "parse_call DoPeek c = Some (map_prod RInt id (parse_peek_char c))"
| "parse_call DoChar c = Some (map_prod RInt id (parse_get_char c))"
| "parse_call (DoOctets n) c = map_option (map_prod ROctets id) (parse_get_octets c n)"
| "parse_call DoUintvar c = Some (map_prod RUint id (parse_get_uintvar c))"
| "parse_call DoNul c = map_option (map_prod ROctets id) (parse_get_nul_string c)"
| "parse_call DoLine c = map_option (map_prod ROctets id) (parse_get_line c)"
| "parse_call (DoBlock sep) c = map_option (map_prod ROctets id) (parse_get_seperated_block c sep)"








lemma uv_read_length: "uv_read m bs ui = Some (k, v) \<Longrightarrow> k \<le> length bs"
  by (induction m bs ui arbitrary: k v rule: uv_read.induct) (auto simp: Let_def split: if_splits)






section \<open>Reading what was written\<close>

lemma parse_uintvar_at:
  "pc_pos c = int (length pre) \<Longrightarrow> pc_data c = pre @ uintvar v @ post \<Longrightarrow> int (length (pre @ uintvar v)) \<le> pc_limit c \<Longrightarrow>
   parse_get_uintvar c = (take_bit 35 v, c\<lparr>pc_pos := int (length (pre @ uintvar v))\<rparr>)"
  by (simp add: parse_get_uintvar_def oct_extract_uintvar_def uv_read_uintvar)

lemma parse_octets_at:
  "pc_pos c = int (length pre) \<Longrightarrow> pc_data c = pre @ bs @ post \<Longrightarrow> int (length (pre @ bs)) \<le> pc_limit c \<Longrightarrow>
   parse_get_octets c (int (length bs)) = Some (Some bs, c\<lparr>pc_pos := int (length (pre @ bs))\<rparr>)"
  by (simp add: parse_get_octets_def oct_copy_def)

lemma find_nul:
  assumes "0 \<notin> set s"
  shows "find_from (pre @ s @ 0 # post) [0] (length pre) = int (length (pre @ s))"
proof (rule find_from_cases [of "pre @ s @ 0 # post" "[0]" "length pre"])
  assume "\<And>j. length pre \<le> j \<Longrightarrow> \<not> match_at (pre @ s @ 0 # post) [0] j"
  from this [of "length (pre @ s)"] show ?thesis by (simp add: match_at_single nth_append)
next
  fix k
  assume k: "find_from (pre @ s @ 0 # post) [0] (length pre) = int k" "length pre \<le> k" "match_at (pre @ s @ 0 # post) [0] k"
    "\<And>j. length pre \<le> j \<Longrightarrow> j < k \<Longrightarrow> \<not> match_at (pre @ s @ 0 # post) [0] j"
  have "\<not> k < length (pre @ s)" using k(2,3) assms by (auto simp: match_at_single nth_append split: if_splits) (metis add_diff_inverse_nat nat_add_left_cancel_less not_less nth_mem)
  moreover have "\<not> length (pre @ s) < k" using k(4) [of "length (pre @ s)"] by (auto simp: match_at_single nth_append)
  ultimately show ?thesis using k(1) by simp
qed

lemma parse_nul_at:
  "pc_pos c = int (length pre) \<Longrightarrow> pc_data c = pre @ s @ 0 # post \<Longrightarrow> 0 \<notin> set s \<Longrightarrow> int (length (pre @ s)) < pc_limit c \<Longrightarrow>
   parse_get_nul_string c = Some (Some s, c\<lparr>pc_pos := int (length (pre @ s)) + 1\<rparr>)"
  by (simp add: parse_get_nul_string_def oct_search_char_def find_nul oct_copy_def)

text \<open>A sequence of fields, how it is written, and the calls that read it.\<close>

datatype wire = WUint "64 word" | WString octets | WBlock octets

fun wire_enc :: "wire \<Rightarrow> octets" where
  "wire_enc (WUint v) = uintvar v"
| "wire_enc (WString s) = s @ [0]"
| "wire_enc (WBlock bs) = bs"

fun wire_op :: "wire \<Rightarrow> parse_op" where
  "wire_op (WUint v) = DoUintvar"
| "wire_op (WString s) = DoNul"
| "wire_op (WBlock bs) = DoOctets (int (length bs))"

fun wire_result :: "wire \<Rightarrow> parse_result" where
  "wire_result (WUint v) = RUint v"
| "wire_result (WString s) = ROctets (Some s)"
| "wire_result (WBlock bs) = ROctets (Some bs)"

fun wire_fits :: "wire \<Rightarrow> bool" where
  "wire_fits (WUint v) \<longleftrightarrow> take_bit 35 v = v"
| "wire_fits (WString s) \<longleftrightarrow> 0 \<notin> set s"
| "wire_fits (WBlock bs) \<longleftrightarrow> True"

lemma parse_wire_step:
  assumes "pc_pos c = int (length pre)" "pc_data c = pre @ wire_enc w @ post" "int (length (pre @ wire_enc w)) \<le> pc_limit c" "wire_fits w"
  shows "parse_call (wire_op w) c = Some (wire_result w, c\<lparr>pc_pos := int (length (pre @ wire_enc w))\<rparr>)"
  using assms by (cases w) (auto simp: parse_uintvar_at parse_nul_at parse_octets_at)

lemma parse_wire:
  "pc_pos c = int (length pre) \<Longrightarrow> pc_data c = pre @ concat (map wire_enc ws) @ post \<Longrightarrow>
   int (length (pre @ concat (map wire_enc ws))) \<le> pc_limit c \<Longrightarrow> list_all wire_fits ws \<Longrightarrow>
   run_ops parse_call (map wire_op ws) c = Some (map wire_result ws, c\<lparr>pc_pos := int (length (pre @ concat (map wire_enc ws)))\<rparr>)"
proof (induction ws arbitrary: c pre)
  case (Cons w ws)
  let ?c = "c\<lparr>pc_pos := int (length (pre @ wire_enc w))\<rparr>"
  have "parse_call (wire_op w) c = Some (wire_result w, ?c)"
    using Cons.prems by (intro parse_wire_step [of _ _ _ "concat (map wire_enc ws) @ post"]) auto
  moreover have "run_ops parse_call (map wire_op ws) ?c =
    Some (map wire_result ws, ?c\<lparr>pc_pos := int (length ((pre @ wire_enc w) @ concat (map wire_enc ws)))\<rparr>)"
    using Cons.prems by (intro Cons.IH) auto
  ultimately show ?case by simp
qed simp

section \<open>Properties\<close>



text \<open>
  \<^bold>\<open>C24\<close> Fields written one after the other are read back in order: variable-length integers
  below \<open>2 ^ 35\<close>, NUL-terminated strings without a NUL inside, and blocks of known length.
\<close>

theorem parse_reads_back:
  assumes "list_all wire_fits ws"
  shows "\<exists>c. run_ops parse_call (map wire_op ws) (parse_context_create (concat (map wire_enc ws) @ post)) =
    Some (map wire_result ws, c) \<and> pc_error c = 0 \<and> parse_octets_left c = int (length post)"
  using parse_wire [of "parse_context_create (concat (map wire_enc ws) @ post)" "[]" ws post] assms
  by (simp add: parse_context_create_def oct_len_def parse_octets_left_def)

theorem parse_reads_back_witness:
  "\<exists>c. run_ops parse_call [DoUintvar, DoNul, DoOctets 2] (parse_context_create (uintvar 300 @ [65, 0] @ [1, 2] @ [9])) =
    Some ([RUint 300, ROctets (Some [65]), ROctets (Some [1, 2])], c) \<and> pc_error c = 0 \<and> parse_octets_left c = 1"
  using parse_reads_back [of "[WUint 300, WString [65], WBlock [1, 2]]" "[9]"] by simp

end
