(* ===== verification/Counter.thy ===== *)
theory Counter
  imports Ctype
begin

text \<open>
  The shared counters of \<open>gwlib/counter.c\<close>. The value is an \<open>unsigned long\<close>, a 64-bit word that
  wraps around. Every function holds the counter's lock for its whole body, so concurrent
  threads are an interleaving of whole calls. Each call returns the value before it.
\<close>

record counter =
  counter_n :: "64 word"

definition counter_create :: counter where
  "counter_create = \<lparr>counter_n = 0\<rparr>"















section \<open>Property\<close>



end
