(* ===== verification/Charset.thy ===== *)
theory Charset
  imports Octets
begin

text \<open>
  The character set conversions of \<open>gwlib/charset.c\<close> between the GSM 03.38 alphabet, Latin-1,
  UTF-8 and the German national variant, with the tables of \<open>charset.c\<close> and
  \<open>gwlib/latin1_to_gsm.h\<close>. Strings are lists of octets. The conversions that only call
  \<open>iconv\<close> take it as an argument.
\<close>

unbundle bit_operations_syntax

section \<open>Tables\<close>

definition NRP :: int where
  "NRP = 63"

text \<open>Entries 63 are \<open>NRP\<close>; a negative entry is a character that needs an escape.\<close>

definition latin1_to_gsm :: "int list" where
  "latin1_to_gsm =
     [63, 63, 63, 63, 63, 63, 63, 63, 63, 63, 10, 63, -10, 13, 63, 63,
      63, 63, 63, 63, 63, 63, 63, 63, 63, 63, 63, 63, 63, 63, 63, 63,
      32, 33, 34, 35, 2, 37, 38, 39, 40, 41, 42, 43, 44, 45, 46, 47,
      48, 49, 50, 51, 52, 53, 54, 55, 56, 57, 58, 59, 60, 61, 62, 63,
      0, 65, 66, 67, 68, 69, 70, 71, 72, 73, 74, 75, 76, 77, 78, 79,
      80, 81, 82, 83, 84, 85, 86, 87, 88, 89, 90, -60, -47, -62, -20, 17,
      63, 97, 98, 99, 100, 101, 102, 103, 104, 105, 106, 107, 108, 109, 110, 111,
      112, 113, 114, 115, 116, 117, 118, 119, 120, 121, 122, -40, -64, -41, -61, 63,
      63, 63, 63, 63, 63, 63, 63, 63, 63, 63, 63, 63, 63, 63, 63, 63,
      63, 63, 63, 63, 63, 63, 63, 63, 63, 63, 63, 63, 63, 63, 63, 63,
      63, 64, 63, 1, 36, 3, 63, 95, 63, 63, 63, 63, 63, 63, 63, 63,
      63, 63, 63, 63, 63, 63, 63, 63, 63, 63, 63, 63, 63, 63, 63, 96,
      63, 63, 63, 63, 91, 14, 28, 9, 63, 31, 63, 63, 63, 63, 63, 63,
      63, 93, 63, 63, 63, 63, 92, 63, 11, 63, 63, 63, 94, 63, 63, 30,
      127, 63, 63, 63, 123, 15, 29, 9, 4, 5, 63, 63, 7, 63, 63, 63,
      63, 125, 8, 63, 63, 63, 124, 63, 12, 6, 63, 63, 126, 63, 63, 63]"

definition gsm_esctolatin1 :: "(int \<times> int) list" where
  "gsm_esctolatin1 =
     [(10, 12), (20, 94), (40, 123), (41, 125), (47, 92), (60, 91), (61, 126), (62, 93), (64, 124), (101, 128), (-1, -1)]"

definition gsm_esctouni :: "(int \<times> int) list" where
  "gsm_esctouni =
     [(10, 12), (20, 94), (40, 123), (41, 125), (47, 92), (60, 91), (61, 126), (62, 93), (64, 124), (101, 0x20AC), (-1, -1)]"

definition gsm_to_latin1 :: "int list" where
  "gsm_to_latin1 =
     [64, 163, 36, 165, 232, 233, 249, 236, 242, 199, 10, 216, 248, 13, 197, 229,
      63, 95, 63, 63, 63, 63, 63, 63, 63, 63, 63, 32, 198, 230, 223, 201,
      32, 33, 34, 35, 164, 37, 38, 39, 40, 41, 42, 43, 44, 45, 46, 47,
      48, 49, 50, 51, 52, 53, 54, 55, 56, 57, 58, 59, 60, 61, 62, 63,
      161, 65, 66, 67, 68, 69, 70, 71, 72, 73, 74, 75, 76, 77, 78, 79,
      80, 81, 82, 83, 84, 85, 86, 87, 88, 89, 90, 196, 214, 209, 220, 167,
      191, 97, 98, 99, 100, 101, 102, 103, 104, 105, 106, 107, 108, 109, 110, 111,
      112, 113, 114, 115, 116, 117, 118, 119, 120, 121, 122, 228, 246, 241, 252, 224]"

definition gsm_to_unicode :: "int list" where
  "gsm_to_unicode =
     [64, 163, 36, 165, 232, 233, 249, 236, 242, 199, 10, 216, 248, 13, 197, 229,
      916, 95, 934, 915, 923, 937, 928, 936, 931, 920, 926, 63, 198, 230, 223, 201,
      32, 33, 34, 35, 164, 37, 38, 39, 40, 41, 42, 43, 44, 45, 46, 47,
      48, 49, 50, 51, 52, 53, 54, 55, 56, 57, 58, 59, 60, 61, 62, 63,
      161, 65, 66, 67, 68, 69, 70, 71, 72, 73, 74, 75, 76, 77, 78, 79,
      80, 81, 82, 83, 84, 85, 86, 87, 88, 89, 90, 196, 214, 209, 220, 167,
      191, 97, 98, 99, 100, 101, 102, 103, 104, 105, 106, 107, 108, 109, 110, 111,
      112, 113, 114, 115, 116, 117, 118, 119, 120, 121, 122, 228, 246, 241, 252, 224]"

section \<open>Conversions\<close>

text \<open>Indexing an array; outside it the behaviour is undefined.\<close>

definition tab_at :: "int list \<Rightarrow> int \<Rightarrow> int option" where
  "tab_at t i = (if 0 \<le> i \<and> i < int (length t) then Some (t ! nat i) else None)"

text \<open>The search loop through an escape table, which ends with a negative entry.\<close>

fun esc_lookup :: "(int \<times> int) list \<Rightarrow> int \<Rightarrow> int option" where
  "esc_lookup [] c = None"
| "esc_lookup ((esc, u) # t) c =
     (if esc \<ge> 0 then if esc = c then Some u else esc_lookup t c
      else if esc = c then Some u else None)"

definition append_utf8 :: "octets \<Rightarrow> int \<Rightarrow> octets option" where
  "append_utf8 newostr c =
     (if c < 128 then oct_append_char newostr c
      else if c < 0x0800 then do {
        newostr \<leftarrow> oct_append_char newostr ((drop_bit 6 c OR 0xC0) AND 0xFF);
        oct_append_char newostr ((c AND 0x3F) OR 0x80) }
      else do {
        newostr \<leftarrow> oct_append_char newostr ((drop_bit 12 c OR 0xE0) AND 0xFF);
        newostr \<leftarrow> oct_append_char newostr (((drop_bit 6 c AND 0x3F) OR 0x80) AND 0xFF);
        oct_append_char newostr (((c AND 0x3F) OR 0x80) AND 0xFF) })"

function gsm_to_utf8_loop :: "octets \<Rightarrow> int \<Rightarrow> octets \<Rightarrow> octets option" where
  "gsm_to_utf8_loop ostr pos newostr =
     (if pos < oct_len ostr then do {
        let c = oct_get ostr pos;
        if c > 127 then gsm_to_utf8_loop ostr (pos + 1) newostr
        else if c = 27 \<and> pos + 1 < oct_len ostr then
          (case esc_lookup gsm_esctouni (oct_get ostr (pos + 1)) of
             Some u \<Rightarrow> do {
               newostr \<leftarrow> append_utf8 newostr u;
               gsm_to_utf8_loop ostr (pos + 2) newostr }
           | None \<Rightarrow> do {
               u \<leftarrow> tab_at gsm_to_unicode 27;
               newostr \<leftarrow> append_utf8 newostr u;
               gsm_to_utf8_loop ostr (pos + 1) newostr })
        else do {
          u \<leftarrow> tab_at gsm_to_unicode c;
          newostr \<leftarrow> append_utf8 newostr u;
          gsm_to_utf8_loop ostr (pos + 1) newostr } }
      else Some newostr)"
  by pat_completeness auto
termination
  by (relation "measure (\<lambda>(ostr, pos, newostr). nat (oct_len ostr - pos))") auto

declare gsm_to_utf8_loop.simps [simp del]

definition charset_gsm_to_utf8 :: "octets option \<Rightarrow> octets option option" where
  "charset_gsm_to_utf8 ostr = (case ostr of None \<Rightarrow> Some None | Some s \<Rightarrow> map_option Some (gsm_to_utf8_loop s 0 []))"

text \<open>The Unicode characters outside Latin-1 that GSM 03.38 has.\<close>

definition unicode_to_gsm :: "int \<Rightarrow> int list" where
  "unicode_to_gsm u =
     (if u = 0x394 then [0x10] else if u = 0x3A6 then [0x12] else if u = 0x393 then [0x13]
      else if u = 0x39B then [0x14] else if u = 0x3A9 then [0x15] else if u = 0x3A0 then [0x16]
      else if u = 0x3A8 then [0x17] else if u = 0x3A3 then [0x18] else if u = 0x398 then [0x19]
      else if u = 0x39E then [0x1A] else if u = 0x20AC then [27, 101] else [NRP])"

definition append_gsm :: "octets \<Rightarrow> int \<Rightarrow> octets option" where
  "append_gsm newostr val1 =
     (if val1 \<le> 255 then do {
        v \<leftarrow> tab_at latin1_to_gsm val1;
        if v < 0 then do {
          newostr \<leftarrow> oct_append_char newostr 27;
          oct_append_char newostr (v * (-1)) }
        else oct_append_char newostr v }
      else iterate (\<lambda>v newostr. oct_append_char newostr v) (unicode_to_gsm val1) newostr)"

text \<open>The next character: its code, or nothing if it is incomplete, and how many octets it takes.\<close>

definition utf8_next :: "octets \<Rightarrow> int \<Rightarrow> int option \<times> int" where
  "utf8_next ostr pos =
     (let val1 = oct_get ostr pos in
      if val1 AND 0xE0 = 0xC0 then
        if pos + 1 < oct_len ostr
        then (Some (push_bit 6 (val1 AND NOT 0xC0) OR (oct_get ostr (pos + 1) AND 0x3F)), 2)
        else (None, 2)
      else if val1 AND 0xF0 = 0xE0 then
        if pos + 2 < oct_len ostr
        then (Some (push_bit 6 (push_bit 6 (val1 AND NOT 0xE0) OR (oct_get ostr (pos + 1) AND 0x3F)) OR
                 (oct_get ostr (pos + 2) AND 0x3F)), 3)
        else (None, 3)
      else (Some val1, 1))"

function utf8_to_gsm_loop :: "octets \<Rightarrow> int \<Rightarrow> octets \<Rightarrow> octets option" where
  "utf8_to_gsm_loop ostr pos newostr =
     (if pos < oct_len ostr then
        (case utf8_next ostr pos of
           (None, k) \<Rightarrow> utf8_to_gsm_loop ostr (pos + k) newostr
         | (Some val1, k) \<Rightarrow> do {
             newostr \<leftarrow> append_gsm newostr val1;
             utf8_to_gsm_loop ostr (pos + k) newostr })
      else Some newostr)"
  by pat_completeness auto
termination
  by (relation "measure (\<lambda>(ostr, pos, newostr). nat (oct_len ostr - pos))")
     (auto simp: utf8_next_def Let_def split: if_splits)

declare utf8_to_gsm_loop.simps [simp del]

definition charset_utf8_to_gsm :: "octets option \<Rightarrow> octets option option" where
  "charset_utf8_to_gsm ostr = (case ostr of None \<Rightarrow> Some None | Some s \<Rightarrow> map_option Some (utf8_to_gsm_loop s 0 []))"

definition set_if :: "octets \<Rightarrow> int \<Rightarrow> int \<Rightarrow> int \<Rightarrow> octets option" where
  "set_if ostr pos new c = (if new \<noteq> c then oct_set ostr pos new else Some ostr)"

partial_function (option) gsm_to_latin1_loop :: "octets \<Rightarrow> int \<Rightarrow> int \<Rightarrow> octets option" where
  "gsm_to_latin1_loop ostr len pos =
     (if pos < len then do {
        let c = oct_get ostr pos;
        if c = 27 \<and> pos + 1 < len then do {
          ostr \<leftarrow> oct_delete ostr pos 1;
          let c = oct_get ostr pos;
          ostr \<leftarrow> (case esc_lookup gsm_esctolatin1 c of
             Some new \<Rightarrow> set_if ostr pos new c
           | None \<Rightarrow> if c < 128 then do { new \<leftarrow> tab_at gsm_to_latin1 c; set_if ostr pos new c } else Some ostr);
          gsm_to_latin1_loop ostr (len - 1) (pos + 1) }
        else if c < 128 then do {
          new \<leftarrow> tab_at gsm_to_latin1 c;
          ostr \<leftarrow> set_if ostr pos new c;
          gsm_to_latin1_loop ostr len (pos + 1) }
        else gsm_to_latin1_loop ostr len (pos + 1) }
      else Some ostr)"

definition charset_gsm_to_latin1 :: "octets \<Rightarrow> octets option" where
  "charset_gsm_to_latin1 ostr = gsm_to_latin1_loop ostr (oct_len ostr) 0"

partial_function (option) latin1_to_gsm_loop :: "octets \<Rightarrow> int \<Rightarrow> int \<Rightarrow> octets option" where
  "latin1_to_gsm_loop ostr len pos =
     (if pos < len then do {
        let c = oct_get ostr pos;
        gw_assert (c \<ge> 0);
        gw_assert (c \<le> 256);
        new \<leftarrow> tab_at latin1_to_gsm c;
        if new < 0 then do {
          ostr \<leftarrow> oct_insert ostr [27] pos;
          ostr \<leftarrow> set_if ostr (pos + 1) (- new) c;
          latin1_to_gsm_loop ostr (len + 1) (pos + 2) }
        else do {
          ostr \<leftarrow> set_if ostr pos new c;
          latin1_to_gsm_loop ostr len (pos + 1) } }
      else Some ostr)"

definition charset_latin1_to_gsm :: "octets \<Rightarrow> octets option" where
  "charset_latin1_to_gsm ostr = latin1_to_gsm_loop ostr (oct_len ostr) 0"

definition nrc_of_gsm :: "int \<Rightarrow> int" where
  "nrc_of_gsm c =
     (if c = 0x5e then 0x5d else if c = 0x7e then 0x7d else if c = 0x1e then 0x7e else if c = 0x5f then 0x5e else c)"

definition gsm_of_nrc :: "int \<Rightarrow> int" where
  "gsm_of_nrc c =
     (if c = 0x5d then 0x5e else if c = 0x7d then 0x7e else if c = 0x7e then 0x1e else if c = 0x5e then 0x5f else c)"

function map_chars :: "(int \<Rightarrow> int) \<Rightarrow> octets \<Rightarrow> int \<Rightarrow> int \<Rightarrow> octets option" where
  "map_chars f ostr len pos =
     (if pos < len then do {
        let c = oct_get ostr pos;
        ostr \<leftarrow> set_if ostr pos (f c) c;
        map_chars f ostr len (pos + 1) }
      else Some ostr)"
  by pat_completeness auto
termination
  by (relation "measure (\<lambda>(f, ostr, len, pos). nat (len - pos))") auto

declare map_chars.simps [simp del]

definition charset_gsm_to_nrc_iso_21_german :: "octets \<Rightarrow> octets option" where
  "charset_gsm_to_nrc_iso_21_german ostr = map_chars nrc_of_gsm ostr (oct_len ostr) 0"

definition charset_nrc_iso_21_german_to_gsm :: "octets \<Rightarrow> octets option" where
  "charset_nrc_iso_21_german_to_gsm ostr = map_chars gsm_of_nrc ostr (oct_len ostr) 0"

text \<open>The return value and the string.\<close>

definition charset_gsm_truncate :: "octets \<Rightarrow> int \<Rightarrow> (int \<times> octets) option" where
  "charset_gsm_truncate gsm lim =
     (if oct_len gsm > lim then do {
        gsm \<leftarrow> (if oct_get gsm (lim - 1) = 27 then oct_truncate gsm (lim - 1) else oct_truncate gsm lim);
        Some (1, gsm) }
      else Some (0, gsm))"

section \<open>The loops as recursion on lists\<close>

definition utf8 :: "int \<Rightarrow> octets" where
  "utf8 u = the (append_utf8 [] u)"

lemma append_char_app: "oct_append_char (as @ bs) c = map_option ((@) as) (oct_append_char bs c)"
  by (simp add: oct_append_char_def)

lemma append_utf8_eq: "0 \<le> u \<Longrightarrow> append_utf8 os u = Some (os @ utf8 u)"
proof -
  assume u: "0 \<le> u"
  have ff: "0 \<le> x AND 0xFF" "x AND 0xFF \<le> 255" for x :: int
    using AND_upper2 [of 255 x] by simp_all
  have b: "0 \<le> (x AND 0x3F) OR 0x80" "(x AND 0x3F) OR 0x80 \<le> 255" for x :: int
    using OR_upper [of "x AND 0x3F" 8 "0x80"] AND_upper2 [of "0x3F" x] by simp_all
  show ?thesis
    using u ff b by (simp add: utf8_def append_utf8_def oct_append_char_def)
qed

definition gsm1 :: "int \<Rightarrow> octets" where
  "gsm1 v = the (append_gsm [] v)"

lemma latin1_to_gsm_range: "list_all (\<lambda>v. -128 < v \<and> v < 128) latin1_to_gsm" "length latin1_to_gsm = 256"
  by code_simp+

lemma append_gsm_eq: "0 \<le> v \<Longrightarrow> append_gsm os v = Some (os @ gsm1 v)"
proof (cases "v \<le> 255")
  case True
  assume "0 \<le> v"
  with True have t: "tab_at latin1_to_gsm v = Some (latin1_to_gsm ! nat v)" "nat v < length latin1_to_gsm"
    by (simp_all add: tab_at_def latin1_to_gsm_range)
  have "-128 < latin1_to_gsm ! nat v \<and> latin1_to_gsm ! nat v < 128"
    using latin1_to_gsm_range(1) t(2) by (simp add: list_all_length)
  with True t(1) show ?thesis by (auto simp: gsm1_def append_gsm_def oct_append_char_def)
qed (auto simp: gsm1_def append_gsm_def oct_append_char_def unicode_to_gsm_def NRP_def)

lemma oct_get_at [simp]: "oct_get (pre @ c # cs) (int (length pre)) = uint c"
  "oct_get (pre @ c # d # cs) (1 + int (length pre)) = uint d"
  "oct_get (pre @ c # d # e # cs) (2 + int (length pre)) = uint e"
  by (simp_all add: oct_get_def nth_append nat_add_distrib)

fun gsm_utf8 :: "octets \<Rightarrow> octets" where
  "gsm_utf8 [] = []"
| "gsm_utf8 (c # cs) =
     (if uint c > 127 then gsm_utf8 cs
      else if c = 27 then
        (case cs of [] \<Rightarrow> utf8 63
         | e # cs' \<Rightarrow>
             (case esc_lookup gsm_esctouni (uint e) of
                Some u \<Rightarrow> utf8 u @ gsm_utf8 cs'
              | None \<Rightarrow> utf8 63 @ gsm_utf8 cs))
      else utf8 (gsm_to_unicode ! unat c) @ gsm_utf8 cs)"

lemma esc_nonneg: "esc_lookup gsm_esctouni c = Some u \<Longrightarrow> 0 \<le> c \<Longrightarrow> 0 \<le> u"
  by (auto simp: gsm_esctouni_def split: if_splits)

lemma gsm_to_unicode_range: "list_all (\<lambda>v. 0 \<le> v) gsm_to_unicode" "length gsm_to_unicode = 128" "gsm_to_unicode ! 27 = 63"
  by code_simp+

lemma tab_at_gsm:
  assumes "uint (c :: byte) \<le> 127"
  shows "tab_at gsm_to_unicode (uint c) = Some (gsm_to_unicode ! unat c)" "0 \<le> gsm_to_unicode ! unat c"
proof -
  from assms show "tab_at gsm_to_unicode (uint c) = Some (gsm_to_unicode ! unat c)"
    by (simp add: tab_at_def gsm_to_unicode_range(2))
  have "unat c < length gsm_to_unicode"
    unfolding gsm_to_unicode_range(2) unat_eq_nat_uint using assms by linarith
  then show "0 \<le> gsm_to_unicode ! unat c" using gsm_to_unicode_range(1) by (simp add: list_all_length)
qed

lemma uint_byte_27: "uint (c :: byte) = 27 \<longleftrightarrow> c = 27"
  by (simp add: word_uint_eq_iff)

lemma gsm_to_utf8_loop_eq: "gsm_to_utf8_loop (pre @ s) (int (length pre)) os = Some (os @ gsm_utf8 s)"
proof (induction "length s" arbitrary: s pre os rule: less_induct)
  case less
  show ?case
  proof (cases s)
    case Nil
    then show ?thesis by (simp add: gsm_to_utf8_loop.simps oct_len_def)
  next
    case (Cons c cs)
    have lt: "int (length pre) < oct_len (pre @ s)" by (simp add: oct_len_def Cons)
    have one: "gsm_to_utf8_loop (pre @ s) (int (length pre) + 1) os = Some (os @ gsm_utf8 cs)" for os
      using less [of cs "pre @ [c]" os] by (simp add: Cons add.commute)
    have get: "oct_get (pre @ s) (int (length pre)) = uint c" by (simp add: Cons)
    consider "uint c > 127" | "uint c \<le> 127" "c = 27" "cs = []" | e cs' where "uint c \<le> 127" "c = 27" "cs = e # cs'" | "uint c \<le> 127" "c \<noteq> 27"
      by (cases cs) force+
    then show ?thesis
    proof cases
      case 1
      with lt get one show ?thesis by (subst gsm_to_utf8_loop.simps) (simp add: Cons)
    next
      case 2
      then have "\<not> int (length pre) + 1 < oct_len (pre @ s)" "uint c = 27" by (simp_all add: Cons oct_len_def)
      with 2 lt get one show ?thesis
        by (subst gsm_to_utf8_loop.simps) (simp add: Cons tab_at_def gsm_to_unicode_range append_utf8_eq)
    next
      case 3
      from 3(2) have c: "uint c = 27" by (simp only: uint_byte_27)
      from 3 have n: "int (length pre) + 1 < oct_len (pre @ s)" "oct_get (pre @ s) (int (length pre) + 1) = uint e"
        using oct_get_at(2) [of pre c e cs'] by (simp_all add: Cons oct_len_def add.commute)
      have two: "gsm_to_utf8_loop (pre @ s) (int (length pre) + 2) os = Some (os @ gsm_utf8 cs')" for os
        using less [of cs' "pre @ [c, e]" os] by (simp add: Cons 3 add.commute)
      show ?thesis
        using 3 c n lt get one two esc_nonneg [of "uint e"]
        by (subst gsm_to_utf8_loop.simps)
           (auto simp: Cons tab_at_def gsm_to_unicode_range append_utf8_eq split: option.splits)
    next
      case 4
      then have "uint c \<noteq> 27" by (simp add: uint_byte_27)
      with 4 lt get one show ?thesis
        by (subst gsm_to_utf8_loop.simps) (simp add: Cons tab_at_gsm append_utf8_eq)
    qed
  qed
qed

text \<open>The decoder, on lists.\<close>

fun utf8_gsm :: "octets \<Rightarrow> octets" where
  "utf8_gsm [] = []"
| "utf8_gsm (b # bs) =
     (if uint b AND 0xE0 = 0xC0 then
        (case bs of d # ds \<Rightarrow> gsm1 (push_bit 6 (uint b AND NOT 0xC0) OR (uint d AND 0x3F)) @ utf8_gsm ds | [] \<Rightarrow> [])
      else if uint b AND 0xF0 = 0xE0 then
        (case bs of d # e # ds \<Rightarrow>
           gsm1 (push_bit 6 (push_bit 6 (uint b AND NOT 0xE0) OR (uint d AND 0x3F)) OR (uint e AND 0x3F)) @ utf8_gsm ds
         | _ \<Rightarrow> [])
      else gsm1 (uint b) @ utf8_gsm bs)"

lemma utf8_to_gsm_loop_end: "int (length s) \<le> pos \<Longrightarrow> utf8_to_gsm_loop s pos os = Some os"
  by (simp add: utf8_to_gsm_loop.simps oct_len_def)

lemma utf8_to_gsm_loop_eq: "utf8_to_gsm_loop (pre @ s) (int (length pre)) os = Some (os @ utf8_gsm s)"
proof (induction "length s" arbitrary: s pre os rule: less_induct)
  case less
  show ?case
  proof (cases s)
    case Nil
    then show ?thesis by (simp add: utf8_to_gsm_loop_end)
  next
    case (Cons b bs)
    let ?s = "pre @ s" and ?p = "int (length pre)"
    have lt: "?p < oct_len ?s" by (simp add: oct_len_def Cons)
    have get: "oct_get ?s ?p = uint b" by (simp add: Cons)
    have rec: "utf8_to_gsm_loop ?s (?p + int (length xs)) os = Some (os @ utf8_gsm ys)" if "s = xs @ ys" "xs \<noteq> []" for xs ys os
      using less [of ys "pre @ xs" os] that by simp
    have nn: "0 \<le> x AND NOT 0xC0" "0 \<le> x AND NOT 0xE0" if "0 \<le> x" for x :: int
      using that by simp_all
    consider d ds where "uint b AND 0xE0 = 0xC0" "bs = d # ds" | "uint b AND 0xE0 = 0xC0" "bs = []"
      | d e ds where "uint b AND 0xE0 \<noteq> 0xC0" "uint b AND 0xF0 = 0xE0" "bs = d # e # ds"
      | "uint b AND 0xE0 \<noteq> 0xC0" "uint b AND 0xF0 = 0xE0" "length bs < 2"
      | "uint b AND 0xE0 \<noteq> 0xC0" "uint b AND 0xF0 \<noteq> 0xE0"
      by (cases bs; cases "tl bs") auto
    then show ?thesis
    proof cases
      case 1
      let ?v = "push_bit 6 (uint b AND NOT 0xC0) OR (uint d AND 0x3F)"
      have "utf8_next ?s ?p = (Some ?v, 2)"
        using 1 get oct_get_at(2) [of pre b d ds] by (simp add: utf8_next_def Cons oct_len_def Let_def add.commute)
      with 1 lt rec [of "[b, d]" ds] show ?thesis
        by (subst utf8_to_gsm_loop.simps) (simp add: append_gsm_eq Cons)
    next
      case 2
      have "utf8_next ?s ?p = (None, 2)" using 2 get by (simp add: utf8_next_def Cons oct_len_def Let_def)
      with 2 lt show ?thesis by (subst utf8_to_gsm_loop.simps) (simp add: Cons utf8_to_gsm_loop_end)
    next
      case 3
      let ?v = "push_bit 6 (push_bit 6 (uint b AND NOT 0xE0) OR (uint d AND 0x3F)) OR (uint e AND 0x3F)"
      have "utf8_next ?s ?p = (Some ?v, 3)"
        using 3 get oct_get_at(2) [of pre b d "e # ds"] oct_get_at(3) [of pre b d e ds]
        by (simp add: utf8_next_def Cons oct_len_def Let_def add.commute)
      with 3 lt rec [of "[b, d, e]" ds] show ?thesis
        by (subst utf8_to_gsm_loop.simps) (simp add: append_gsm_eq Cons)
    next
      case 4
      have "utf8_next ?s ?p = (None, 3)" using 4 get by (simp add: utf8_next_def Cons oct_len_def Let_def)
      moreover have "utf8_gsm s = []" using 4 by (cases bs; cases "tl bs") (auto simp: Cons)
      ultimately show ?thesis using 4 lt by (subst utf8_to_gsm_loop.simps) (simp add: Cons utf8_to_gsm_loop_end)
    next
      case 5
      have "utf8_next ?s ?p = (Some (uint b), 1)" using 5 get by (simp add: utf8_next_def Let_def)
      with 5 lt rec [of "[b]" bs] show ?thesis
        by (subst utf8_to_gsm_loop.simps) (simp add: append_gsm_eq Cons)
    qed
  qed
qed

section \<open>GSM text\<close>

text \<open>Septets, with every escape followed by a character of the extension table.\<close>

definition gsm_ext :: "byte list" where
  "gsm_ext = [10, 20, 40, 41, 47, 60, 61, 62, 64, 101]"

fun gsm_text :: "octets \<Rightarrow> bool" where
  "gsm_text [] \<longleftrightarrow> True"
| "gsm_text (c # cs) \<longleftrightarrow>
     (if c = 27 then (case cs of [] \<Rightarrow> False | e # cs' \<Rightarrow> e \<in> set gsm_ext \<and> gsm_text cs')
      else uint c \<le> 127 \<and> gsm_text cs)"

definition utf8_ok :: "int \<Rightarrow> bool" where
  "utf8_ok u \<longleftrightarrow> (case utf8 u of
      [b] \<Rightarrow> uint b AND 0xE0 \<noteq> 0xC0 \<and> uint b AND 0xF0 \<noteq> 0xE0 \<and> uint b = u
    | [b, d] \<Rightarrow> uint b AND 0xE0 = 0xC0 \<and> push_bit 6 (uint b AND NOT 0xC0) OR (uint d AND 0x3F) = u
    | [b, d, e] \<Rightarrow> uint b AND 0xE0 \<noteq> 0xC0 \<and> uint b AND 0xF0 = 0xE0 \<and>
        push_bit 6 (push_bit 6 (uint b AND NOT 0xE0) OR (uint d AND 0x3F)) OR (uint e AND 0x3F) = u
    | _ \<Rightarrow> False)"

lemma utf8_gsm_utf8: "utf8_ok u \<Longrightarrow> utf8_gsm (utf8 u @ rest) = gsm1 u @ utf8_gsm rest"
proof -
  assume ok: "utf8_ok u"
  then consider b where "utf8 u = [b]" | b d where "utf8 u = [b, d]" | b d e where "utf8 u = [b, d, e]"
    unfolding utf8_ok_def by (cases "utf8 u"; cases "tl (utf8 u)"; cases "tl (tl (utf8 u))"; cases "tl (tl (tl (utf8 u)))") simp_all
  then show ?thesis
  proof cases
    case 1
    with ok have "uint b AND 0xE0 \<noteq> 0xC0" "uint b AND 0xF0 \<noteq> 0xE0" "u = uint b" by (auto simp: utf8_ok_def)
    with 1 show ?thesis by simp
  next
    case 2
    with ok show ?thesis by (simp add: utf8_ok_def)
  next
    case 3
    with ok show ?thesis by (simp add: utf8_ok_def)
  qed
qed

lemma gsm_chars: "list_all (\<lambda>k. k = 27 \<or> utf8_ok (gsm_to_unicode ! k) \<and> gsm1 (gsm_to_unicode ! k) = [of_nat k]) [0..<128]"
  by code_simp

lemma ext_chars: "list_all (\<lambda>e. case esc_lookup gsm_esctouni (uint e) of None \<Rightarrow> False | Some u \<Rightarrow> utf8_ok u \<and> gsm1 u = [27, e]) gsm_ext"
  by code_simp

lemma gsm_char: "uint (c :: byte) \<le> 127 \<Longrightarrow> c \<noteq> 27 \<Longrightarrow> utf8_ok (gsm_to_unicode ! unat c) \<and> gsm1 (gsm_to_unicode ! unat c) = [c]"
proof -
  assume c: "uint c \<le> 127" "c \<noteq> 27"
  have "unat c < 128" unfolding unat_eq_nat_uint using c(1) by linarith
  moreover have "unat c \<noteq> 27" using c(2) by (simp add: word_unat_eq_iff)
  ultimately show ?thesis using gsm_chars by (auto simp: list_all_iff)
qed

lemma ext_char:
  assumes "e \<in> set gsm_ext"
  obtains u where "esc_lookup gsm_esctouni (uint e) = Some u" "utf8_ok u" "gsm1 u = [27, e]"
  using assms ext_chars unfolding list_all_iff by (auto split: option.splits)

lemma utf8_gsm_inverse: "gsm_text s \<Longrightarrow> utf8_gsm (gsm_utf8 s) = s"
proof (induction "length s" arbitrary: s rule: less_induct)
  case less
  show ?case
  proof (cases s)
    case (Cons c cs)
    show ?thesis
    proof (cases "c = 27")
      case True
      then obtain e cs' where cs: "cs = e # cs'" "e \<in> set gsm_ext" "gsm_text cs'"
        using less.prems Cons by (cases cs) auto
      from cs(2) obtain u where u: "esc_lookup gsm_esctouni (uint e) = Some u" "utf8_ok u" "gsm1 u = [27, e]" by (rule ext_char)
      have "\<not> uint c > 127" using True by simp
      then have "gsm_utf8 s = utf8 u @ gsm_utf8 cs'" using True u(1) by (simp add: Cons cs)
      with u cs less.hyps [of cs'] True show ?thesis by (simp add: utf8_gsm_utf8 Cons)
    next
      case False
      with less.prems Cons have c: "uint c \<le> 127" "gsm_text cs" by auto
      with False have "gsm_utf8 s = utf8 (gsm_to_unicode ! unat c) @ gsm_utf8 cs" by (simp add: Cons)
      with gsm_char [OF c(1) False] c less.hyps [of cs] show ?thesis by (simp add: utf8_gsm_utf8 Cons)
    qed
  qed simp
qed

text \<open>Whatever is decoded, the result is GSM text.\<close>

definition gsm_unit :: "octets \<Rightarrow> bool" where
  "gsm_unit os \<longleftrightarrow> (case os of [c] \<Rightarrow> c \<noteq> 27 \<and> uint c \<le> 127 | [c, e] \<Rightarrow> c = 27 \<and> e \<in> set gsm_ext | _ \<Rightarrow> False)"

lemma gsm_unit_text: "gsm_unit os \<Longrightarrow> gsm_text (os @ rest) \<longleftrightarrow> gsm_text rest"
  by (cases os; cases "tl os"; cases "tl (tl os)") (simp_all add: gsm_unit_def)

lemma latin_units: "list_all (\<lambda>k. gsm_unit (gsm1 (int k))) [0..<256]"
  by code_simp

lemma gsm1_unit: "0 \<le> v \<Longrightarrow> gsm_unit (gsm1 v)"
proof (cases "v \<le> 255")
  case True
  assume "0 \<le> v"
  with True have "nat v \<in> set [0..<256]" "int (nat v) = v" by auto
  then show ?thesis using latin_units by (metis list_all_iff)
next
  case False
  then show ?thesis
    by (auto simp: gsm1_def append_gsm_def oct_append_char_def unicode_to_gsm_def NRP_def gsm_unit_def gsm_ext_def)
qed

lemma gsm1_text: "0 \<le> v \<Longrightarrow> gsm_text (gsm1 v @ rest) \<longleftrightarrow> gsm_text rest"
  by (intro gsm_unit_text gsm1_unit)

lemma utf8_gsm_text: "gsm_text (utf8_gsm s)"
  by (induction s rule: utf8_gsm.induct) (auto simp: gsm1_text split: list.splits)

lemma ext_not_esc: "27 \<notin> set gsm_ext"
  by (simp add: gsm_ext_def)

lemma gsm_text_take:
  "gsm_text s \<Longrightarrow> n \<le> length s \<Longrightarrow> gsm_text (if 0 < n \<and> s ! (n - 1) = 27 then take (n - 1) s else take n s)"
proof (induction "length s" arbitrary: s n rule: less_induct)
  case less
  show ?case
  proof (cases s)
    case Nil
    with less.prems show ?thesis by simp
  next
    case (Cons c cs)
    show ?thesis
    proof (cases "c = 27")
      case True
      then obtain e cs' where cs: "cs = e # cs'" "e \<in> set gsm_ext" "gsm_text cs'" using less.prems Cons by (cases cs) auto
      have e: "e \<noteq> 27" using cs(2) ext_not_esc by auto
      consider "n = 0" | "n = 1" | "n = 2" | k where "n = Suc (Suc (Suc k))" by (cases n; cases "n - 1"; cases "n - 2") auto
      then show ?thesis
      proof cases
        case 4
        with less.prems less.hyps [of cs' "Suc k"] cs True show ?thesis by (auto simp: Cons)
      qed (use True cs e in \<open>simp_all add: Cons numeral_2_eq_2\<close>)
    next
      case False
      with less.prems Cons have c: "uint c \<le> 127" "gsm_text cs" by auto
      consider "n = 0" | "n = 1" | k where "n = Suc (Suc k)" by (cases n; cases "n - 1") auto
      then show ?thesis
      proof cases
        case 3
        with less.prems less.hyps [of cs "Suc k"] c False show ?thesis by (auto simp: Cons)
      qed (use False c in \<open>simp_all add: Cons\<close>)
    qed
  qed
qed

section \<open>Latin-1\<close>

text \<open>What a Latin-1 character becomes, and the characters that come back unchanged.\<close>

definition lat1 :: "byte \<Rightarrow> octets" where
  "lat1 c = (let v = latin1_to_gsm ! unat c in if v < 0 then [27, word_of_int (- v)] else [word_of_int v])"

definition latin_ok :: "byte \<Rightarrow> bool" where
  "latin_ok c \<longleftrightarrow> (latin1_to_gsm ! unat c \<noteq> NRP \<or> c = 63) \<and> c \<noteq> 0xE7"

lemma set_if_at: "set_if (pre @ c # cs) (int (length pre)) v (uint c) = Some (pre @ word_of_int v # cs)"
  by (auto simp: set_if_def oct_set_def list_update_append)

lemma latin1_to_gsm_loop_eq:
  "latin1_to_gsm_loop (pre @ s) (int (length (pre @ s))) (int (length pre)) = Some (pre @ concat (map lat1 s))"
proof (induction s arbitrary: pre)
  case Nil
  then show ?case by (simp add: latin1_to_gsm_loop.simps)
next
  case (Cons c cs)
  have b: "uint c \<le> 255" using uint_byte_bounds by blast
  have t: "tab_at latin1_to_gsm (uint c) = Some (latin1_to_gsm ! unat c)"
    using b by (simp add: tab_at_def latin1_to_gsm_range)
  show ?case
  proof (cases "latin1_to_gsm ! unat c < 0")
    case True
    let ?v = "- (latin1_to_gsm ! unat c)"
    have "oct_insert (pre @ c # cs) [27] (int (length pre)) = Some ((pre @ [27]) @ c # cs)" by (simp add: oct_insert_def)
    moreover have "set_if ((pre @ [27]) @ c # cs) (int (length pre) + 1) ?v (uint c) = Some ((pre @ [27]) @ word_of_int ?v # cs)"
      using set_if_at [of "pre @ [27]" c cs ?v] by (simp add: add.commute)
    ultimately show ?thesis
      using True t b Cons.IH [of "pre @ [27, word_of_int ?v]"]
      by (subst latin1_to_gsm_loop.simps) (simp add: lat1_def [of c] Let_def add.commute)
  next
    case False
    let ?v = "latin1_to_gsm ! unat c"
    show ?thesis
      using False t b Cons.IH [of "pre @ [word_of_int ?v]"] set_if_at [of pre c cs ?v]
      by (subst latin1_to_gsm_loop.simps) (simp add: lat1_def [of c] Let_def add.commute)
  qed
qed

definition comes_back :: "byte \<Rightarrow> bool" where
  "comes_back c \<longleftrightarrow>
     (case lat1 c of
        [d] \<Rightarrow> d \<noteq> 27 \<and> tab_at gsm_to_latin1 (uint d) = Some (uint c)
      | [x, e] \<Rightarrow> x = 27 \<and> esc_lookup gsm_esctolatin1 (uint e) = Some (uint c)
      | _ \<Rightarrow> False)"

lemma latin_chars: "list_all (\<lambda>k. latin_ok (of_nat k) \<longrightarrow> comes_back (of_nat k)) [0..<256]"
  by code_simp

lemma latin_comes_back: "latin_ok c \<Longrightarrow> comes_back c"
proof -
  have "unat c \<in> set [0..<256]" using unsigned_less [of c] by simp
  moreover have "of_nat (unat c) = c" by simp
  ultimately show "latin_ok c \<Longrightarrow> comes_back c" using latin_chars unfolding list_all_iff by metis
qed

lemma tab_at_less: "tab_at gsm_to_latin1 v = Some w \<Longrightarrow> v < 128"
  by (auto simp: tab_at_def gsm_to_latin1_def split: if_splits)

lemma gsm_to_latin1_loop_eq:
  "list_all comes_back s \<Longrightarrow>
   gsm_to_latin1_loop (pre @ concat (map lat1 s)) (int (length (pre @ concat (map lat1 s)))) (int (length pre)) = Some (pre @ s)"
proof (induction s arbitrary: pre)
  case Nil
  then show ?case by (simp add: gsm_to_latin1_loop.simps)
next
  case (Cons c cs)
  let ?rest = "concat (map lat1 cs)"
  have IH: "gsm_to_latin1_loop ((pre @ [c]) @ ?rest) (int (length ((pre @ [c]) @ ?rest))) (int (length (pre @ [c]))) = Some ((pre @ [c]) @ cs)"
    by (rule Cons.IH) (use Cons.prems in simp)
  consider d where "lat1 c = [d]" "d \<noteq> 27" "tab_at gsm_to_latin1 (uint d) = Some (uint c)"
    | e where "lat1 c = [27, e]" "esc_lookup gsm_esctolatin1 (uint e) = Some (uint c)"
    using Cons.prems by (auto simp: comes_back_def split: list.splits)
  then show ?case
  proof cases
    case 1
    have "uint d \<noteq> 27" "uint d < 128" using 1 tab_at_less by (auto simp: uint_byte_27)
    then show ?thesis
      using 1 IH set_if_at [of pre d ?rest "uint c"]
      by (subst gsm_to_latin1_loop.simps) (simp add: add.commute)
  next
    case 2
    have "oct_delete (pre @ 27 # e # ?rest) (int (length pre)) 1 = Some (pre @ e # ?rest)"
      by (simp add: oct_delete_def)
    moreover have "oct_get (pre @ 27 # e # ?rest) (int (length pre)) = 27" by (simp add: uint_byte_27 del: unsigned_numeral)
    ultimately show ?thesis
      using 2 IH set_if_at [of pre e ?rest "uint c"]
      by (subst gsm_to_latin1_loop.simps) (simp add: add.commute)
  qed
qed

section \<open>Properties\<close>

text \<open>
  \<^bold>\<open>C20\<close> The conversions are inverse. GSM text survives the way through UTF-8: for every string
  of the GSM 03.38 alphabet in which each escape starts a character of the extension table,
  \<open>charset_utf8_to_gsm\<close> undoes \<open>charset_gsm_to_utf8\<close>. Latin-1 text survives the way through GSM
  if all its characters have a GSM code and none is a small c with cedilla, although the
  conversions insert and delete escapes while they walk over the string.
\<close>

theorem charset_roundtrips:
  "(gsm_text s \<longrightarrow> (\<exists>t. charset_gsm_to_utf8 (Some s) = Some (Some t) \<and> charset_utf8_to_gsm (Some t) = Some (Some s))) \<and>
   (list_all latin_ok s \<longrightarrow> (\<exists>t. charset_latin1_to_gsm s = Some t \<and> charset_gsm_to_latin1 t = Some s))"
proof (intro conjI impI)
  assume "gsm_text s"
  then show "\<exists>t. charset_gsm_to_utf8 (Some s) = Some (Some t) \<and> charset_utf8_to_gsm (Some t) = Some (Some s)"
    using gsm_to_utf8_loop_eq [of "[]" s "[]"] utf8_to_gsm_loop_eq [of "[]" "gsm_utf8 s" "[]"] utf8_gsm_inverse
    by (simp add: charset_gsm_to_utf8_def charset_utf8_to_gsm_def)
next
  assume "list_all latin_ok s"
  then have "list_all comes_back s" using latin_comes_back by (simp add: list_all_iff)
  then show "\<exists>t. charset_latin1_to_gsm s = Some t \<and> charset_gsm_to_latin1 t = Some s"
    using latin1_to_gsm_loop_eq [of "[]" s] gsm_to_latin1_loop_eq [of s "[]"]
    by (simp add: charset_latin1_to_gsm_def charset_gsm_to_latin1_def oct_len_def)
qed

theorem charset_roundtrips_witness:
  "(\<exists>t. charset_gsm_to_utf8 (Some [0, 27, 101, 16]) = Some (Some t) \<and> charset_utf8_to_gsm (Some t) = Some (Some [0, 27, 101, 16])) \<and>
   (\<exists>t. charset_latin1_to_gsm [91, 64, 97] = Some t \<and> charset_gsm_to_latin1 t = Some [91, 64, 97])"
proof -
  have "gsm_text [0, 27, 101, 16]" by (simp add: gsm_ext_def)
  moreover have "list_all latin_ok [91, 64, 97]" by code_simp
  ultimately show ?thesis using charset_roundtrips [of "[0, 27, 101, 16]"] charset_roundtrips [of "[91, 64, 97]"] by blast
qed

text \<open>
  \<^bold>\<open>C33\<close> Whatever octets \<open>charset_utf8_to_gsm\<close> is given, valid UTF-8 or not, it returns GSM text:
  only septets, and an escape only before a character of the extension table.
\<close>

theorem charset_utf8_to_gsm_is_gsm:
  "\<exists>t. charset_utf8_to_gsm (Some s) = Some (Some t) \<and> gsm_text t"
  using utf8_to_gsm_loop_eq [of "[]" s "[]"] utf8_gsm_text [of s] by (simp add: charset_utf8_to_gsm_def)

text \<open>
  \<^bold>\<open>C33\<close> Truncating GSM text gives GSM text: \<open>charset_gsm_truncate\<close> returns a prefix of at most
  \<open>lim\<close> septets, at most one shorter than it could be, that does not end inside an escape
  sequence.
\<close>

theorem charset_gsm_truncate_text:
  assumes "gsm_text s" "0 \<le> lim"
  shows "\<exists>r t. charset_gsm_truncate s lim = Some (r, t) \<and> gsm_text t \<and> (\<exists>u. s = t @ u) \<and> oct_len t \<le> lim \<and>
    (r = 0 \<longrightarrow> t = s) \<and> (r = 1 \<longrightarrow> lim - 1 \<le> oct_len t)"
proof (cases "oct_len s > lim")
  case True
  obtain k where k: "lim = int k" using assms(2) nonneg_int_cases by blast
  have n: "k < length s" using True by (simp add: oct_len_def k)
  define t where "t = (if 0 < k \<and> s ! (k - 1) = 27 then take (k - 1) s else take k s)"
  have "gsm_text t" unfolding t_def by (rule gsm_text_take [OF assms(1)]) (use n in simp)
  moreover have "charset_gsm_truncate s lim = Some (1, t)"
  proof (cases k)
    case 0
    then show ?thesis using True by (simp add: charset_gsm_truncate_def oct_truncate_def t_def oct_get_def k)
  next
    case (Suc j)
    then have "oct_get s (lim - 1) = uint (s ! j)" using n by (simp add: oct_get_def k)
    then show ?thesis using True Suc
      by (simp add: charset_gsm_truncate_def oct_truncate_def t_def k uint_byte_27 nat_add_distrib)
  qed
  moreover have "\<exists>u. s = t @ u"
  proof
    have "t = take (length t) s" using n by (auto simp: t_def)
    with append_take_drop_id [of "length t" s] show "s = t @ drop (length t) s" by argo
  qed
  moreover have "oct_len t \<le> lim" "lim - 1 \<le> oct_len t" using n unfolding t_def by (auto simp: oct_len_def k)
  ultimately show ?thesis by simp
next
  case False
  with assms show ?thesis by (intro exI [of _ 0] exI [of _ s]) (simp add: charset_gsm_truncate_def)
qed

theorem charset_gsm_truncate_text_witness:
  "\<exists>r t. charset_gsm_truncate [65, 27, 101, 66] 2 = Some (r, t) \<and> gsm_text t \<and> oct_len t \<le> 2"
  using charset_gsm_truncate_text [of "[65, 27, 101, 66]" 2] by (fastforce simp: gsm_ext_def)

end
