(* ===== verification/Sms.thy ===== *)
theory Sms
  imports Msg Charset Prioqueue_Spec
begin

text \<open>
  \<open>gw/sms.c\<close>: the data coding scheme octet, splitting a message into parts that fit into one SMS
  each, with or without a concatenation header, and the comparison that orders the outgoing
  queues of the SMSC drivers. A message is its \<open>sms\<close> structure, and \<open>msg_duplicate\<close> a copy of it
  (theory \<open>Msg\<close>). The list of parts is a plain list; \<open>rnd\<close> stands for the
  identifiers \<open>uuid_generate\<close> returns. A \<open>long\<close> that is passed as an \<open>int\<close> is cut to 32 bits.
\<close>

unbundle bit_operations_syntax

section \<open>Constants\<close>

definition SMS_PARAM_UNDEFINED :: int where
  "SMS_PARAM_UNDEFINED = MSG_PARAM_UNDEFINED"

abbreviation (input) MC_UNDEF :: int where "MC_UNDEF \<equiv> SMS_PARAM_UNDEFINED"

abbreviation (input) MWI_UNDEF :: int where "MWI_UNDEF \<equiv> SMS_PARAM_UNDEFINED"

abbreviation (input) DC_UNDEF :: int where "DC_UNDEF \<equiv> SMS_PARAM_UNDEFINED"

abbreviation (input) DC_7BIT :: int where "DC_7BIT \<equiv> 0"

abbreviation (input) DC_8BIT :: int where "DC_8BIT \<equiv> 1"

abbreviation (input) DC_UCS2 :: int where "DC_UCS2 \<equiv> 2"

abbreviation (input) COMPRESS_ON :: int where "COMPRESS_ON \<equiv> 1"

definition CATENATE_UDH_LEN :: int where
  "CATENATE_UDH_LEN = 5"

definition DLR_IS_ENABLED :: "int \<Rightarrow> bool" where
  "DLR_IS_ENABLED dlr \<longleftrightarrow> dlr \<noteq> -1 \<and> dlr AND (0x01 OR 0x02 OR 0x04 OR 0x08 OR 0x10 OR 0x20 OR 0x02 OR 0x40 OR 0x02) \<noteq> 0"

text \<open>\<open>octstr_len\<close> of a pointer that may be NULL.\<close>

definition olen :: "octets option \<Rightarrow> int" where
  "olen os = (case os of None \<Rightarrow> 0 | Some bs \<Rightarrow> oct_len bs)"

section \<open>The data coding scheme\<close>

definition default_coding :: "sms_fields \<Rightarrow> sms_fields" where
  "default_coding msg =
     (if sms_coding msg = DC_UNDEF
      then if olen (sms_udhdata msg) \<noteq> 0 then msg\<lparr>sms_coding := DC_8BIT\<rparr> else msg\<lparr>sms_coding := DC_7BIT\<rparr>
      else msg)"

text \<open>The return value, and the message with the coding that was chosen for it.\<close>

definition fields_to_dcs :: "sms_fields \<Rightarrow> int \<Rightarrow> int \<times> sms_fields" where
  "fields_to_dcs msg mode =
     (let msg = default_coding msg;
          dcs = (if sms_mwi msg \<noteq> MWI_UNDEF
                 then let dcs = to_int (sms_mwi msg) in
                   if dcs AND 0x04 \<noteq> 0 then (dcs AND 0x03) OR 0xC0
                   else let dcs = (dcs AND 0x03) OR 0x08 in
                     if olen (sms_msgdata msg) = 0 then dcs OR 0xC0
                     else if sms_coding msg = DC_7BIT then dcs OR 0xD0
                     else dcs OR 0xE0
                 else if mode = 0 \<or> mode = SMS_PARAM_UNDEFINED \<or> sms_coding msg = DC_UCS2 \<or> sms_compress msg = COMPRESS_ON
                 then let dcs = (if sms_compress msg = COMPRESS_ON then 0x20 else 0);
                          dcs = (if sms_mclass msg \<noteq> MC_UNDEF then to_int (dcs OR (0x10 OR sms_mclass msg)) else dcs)
                      in if sms_coding msg \<noteq> DC_UNDEF then to_int (dcs OR push_bit 2 (sms_coding msg)) else dcs
                 else let dcs = (if sms_coding msg \<noteq> DC_UNDEF then to_int (0xF0 OR push_bit 2 (sms_coding msg)) else 0xF0)
                      in if sms_mclass msg = MC_UNDEF then dcs OR 1 else to_int (dcs OR sms_mclass msg))
      in (dcs, msg))"

definition dcs_to_fields :: "sms_fields \<Rightarrow> int \<Rightarrow> int \<times> sms_fields" where
  "dcs_to_fields msg dcs =
     (if dcs AND 0xF0 = 0xF0
      then let dcs = dcs AND 0x07 in
        (1, msg\<lparr>sms_coding := (if dcs AND 0x04 \<noteq> 0 then DC_8BIT else DC_7BIT), sms_mclass := dcs AND 0x03, sms_alt_dcs := 1\<rparr>)
      else if dcs AND 0xC0 = 0x00
      then (1, msg\<lparr>sms_alt_dcs := 0,
                   sms_compress := (if dcs AND 0x20 = 0x20 then 1 else 0),
                   sms_mclass := (if dcs AND 0x10 = 0x10 then dcs AND 0x03 else MC_UNDEF),
                   sms_coding := drop_bit 2 (dcs AND 0x0C)\<rparr>)
      else if dcs AND 0xC0 = 0xC0
      then let coding = (if dcs AND 0x30 = 0x30 then DC_UCS2 else DC_7BIT);
               dcs = (if dcs AND 0x08 = 0 then dcs OR 0x04 else dcs)
           in (1, msg\<lparr>sms_alt_dcs := 0, sms_coding := coding, sms_mwi := dcs AND 0x07\<rparr>)
      else (0, msg))"

section \<open>Lengths and addresses\<close>

definition sms_msgdata_len :: "sms_fields \<Rightarrow> int option" where
  "sms_msgdata_len msg =
     (case sms_msgdata msg of None \<Rightarrow> Some (-1)
      | Some data \<Rightarrow>
          if sms_coding msg = DC_7BIT
          then do { msgdata \<leftarrow> charset_utf8_to_gsm (Some data); Some (to_int (olen msgdata)) }
          else Some (to_int (oct_len data)))"

definition sms_swap :: "sms_fields \<Rightarrow> int \<times> sms_fields" where
  "sms_swap msg =
     (if sms_sender msg \<noteq> None \<and> sms_receiver msg \<noteq> None
      then (1, msg\<lparr>sms_sender := sms_receiver msg, sms_receiver := sms_sender msg\<rparr>)
      else (0, msg))"

section \<open>Splitting\<close>

text \<open>The format \<open>%c\<close> appends the octet its argument is converted to.\<close>

definition prepend_catenation_udh :: "sms_fields \<Rightarrow> int \<Rightarrow> int \<Rightarrow> int \<Rightarrow> sms_fields option" where
  "prepend_catenation_udh sms1 part_no num_messages msg_sequence = do {
     let udh = (case sms_udhdata sms1 of None \<Rightarrow> [] | Some udh \<Rightarrow> udh);
     udh \<leftarrow> (if oct_len udh = 0 then oct_append_char udh CATENATE_UDH_LEN else Some udh);
     let udh = udh @ [0, 3, word_of_int msg_sequence, word_of_int num_messages, word_of_int part_no];
     let left = (if part_no < num_messages then num_messages - part_no else 0);
     udh \<leftarrow> oct_set udh 0 (oct_len udh - 1);
     Some (sms1\<lparr>sms_udhdata := Some udh, sms_msg_left := left\<rparr>) }"

text \<open>The loop that looks backwards for a split character.\<close>

fun split_len :: "octets \<Rightarrow> octets \<Rightarrow> nat \<Rightarrow> int \<Rightarrow> int option" where
  "split_len msgdata split_chars 0 len = Some len"
| "split_len msgdata split_chars (Suc i) len = do {
     p \<leftarrow> oct_search_char split_chars (oct_get msgdata (int i)) 0;
     if p \<noteq> -1 then Some (int (Suc i)) else split_len msgdata split_chars i len }"

text \<open>The part and what is left. \<open>octstr_delete\<close> does not take NULL.\<close>

definition extract_msgdata_part :: "octets option \<Rightarrow> octets option \<Rightarrow> int \<Rightarrow> (octets \<times> octets) option" where
  "extract_msgdata_part msgdata split_chars max_part_len = do {
     msgdata \<leftarrow> msgdata;
     len \<leftarrow> (case split_chars of
        Some cs \<Rightarrow> if max_part_len < oct_len msgdata then split_len msgdata cs (nat max_part_len) max_part_len else Some max_part_len
      | None \<Rightarrow> Some max_part_len);
     part \<leftarrow> oct_copy msgdata 0 len;
     msgdata \<leftarrow> oct_delete msgdata 0 len;
     Some (part, msgdata) }"

definition extract_msgdata_part_by_coding :: "sms_fields \<Rightarrow> octets option \<Rightarrow> int \<Rightarrow> (octets \<times> sms_fields) option" where
  "extract_msgdata_part_by_coding msg split_chars max_part_len =
     (if sms_coding msg = DC_8BIT \<or> sms_coding msg = DC_UCS2 then do {
        (part, rest) \<leftarrow> extract_msgdata_part (sms_msgdata msg) split_chars max_part_len;
        Some (part, msg\<lparr>sms_msgdata := Some rest\<rparr>) }
      else do {
        data \<leftarrow> charset_utf8_to_gsm (sms_msgdata msg);
        data \<leftarrow> charset_gsm_to_utf8 data;
        temp \<leftarrow> charset_utf8_to_gsm data;
        temp \<leftarrow> (case temp of None \<Rightarrow> Some None
           | Some t \<Rightarrow> do { (r, t) \<leftarrow> charset_gsm_truncate t max_part_len; Some (Some t) });
        temp_utf \<leftarrow> charset_gsm_to_utf8 temp;
        (part, rest) \<leftarrow> extract_msgdata_part data split_chars (to_int (olen temp_utf));
        Some (part, msg\<lparr>sms_msgdata := Some rest\<rparr>) })"

definition one_part_max :: "sms_fields \<Rightarrow> int \<Rightarrow> int \<Rightarrow> int \<Rightarrow> int" where
  "one_part_max orig max_octets udh_len hf_len =
     (if sms_coding orig = DC_8BIT \<or> sms_coding orig = DC_UCS2
      then max_octets - udh_len - hf_len
      else cdiv ((max_octets - udh_len) * 8) 7 - hf_len)"

text \<open>One round of the loop without the choice to stop: the part for this round and what is left.\<close>

definition make_part ::
  "(nat \<Rightarrow> octets) \<Rightarrow> sms_fields \<Rightarrow> octets option \<Rightarrow> octets option \<Rightarrow> octets option \<Rightarrow> octets option \<Rightarrow>
   int \<Rightarrow> nat \<Rightarrow> bool \<Rightarrow> sms_fields \<Rightarrow> (sms_fields \<times> sms_fields) option" where
  "make_part rnd orig header footer nonlast_suffix split_chars lim msgno is_last temp = do {
     let part = (if msgno > 1 \<and> DLR_IS_ENABLED (sms_dlr_mask orig)
                 then orig\<lparr>sms_dlr_url := None, sms_dlr_mask := 0\<rparr> else orig);
     (data, temp) \<leftarrow> extract_msgdata_part_by_coding temp split_chars lim;
     let part = (if \<not> is_last then part\<lparr>sms_id := rnd msgno\<rparr> else part);
     data \<leftarrow> (case header of Some h \<Rightarrow> oct_insert data h 0 | None \<Rightarrow> Some data);
     let data = (case footer of Some f \<Rightarrow> data @ f | None \<Rightarrow> data);
     let data = (case nonlast_suffix of Some s \<Rightarrow> if \<not> is_last then data @ s else data | None \<Rightarrow> data);
     Some (part\<lparr>sms_msgdata := Some data\<rparr>, temp) }"

partial_function (option) sms_split_loop ::
  "(nat \<Rightarrow> octets) \<Rightarrow> sms_fields \<Rightarrow> octets option \<Rightarrow> octets option \<Rightarrow> octets option \<Rightarrow> octets option \<Rightarrow>
   int \<Rightarrow> int \<Rightarrow> nat \<Rightarrow> sms_fields \<Rightarrow> sms_fields list \<Rightarrow> sms_fields list option" where
  "sms_split_loop rnd orig header footer nonlast_suffix split_chars max_messages max_part_len msgno temp list1 = do {
     let msgno = Suc msgno;
     len \<leftarrow> sms_msgdata_len temp;
     let is_last = (len \<le> max_part_len \<or> int msgno = max_messages);
     (part, temp) \<leftarrow> make_part rnd orig header footer nonlast_suffix split_chars
        (to_int (max_part_len - olen nonlast_suffix)) msgno is_last temp;
     if \<not> is_last
     then sms_split_loop rnd orig header footer nonlast_suffix split_chars max_messages max_part_len msgno temp (list1 @ [part])
     else Some (list1 @ [part]) }"

text \<open>The second loop, from part \<open>msgno\<close> on.\<close>

fun catenate_loop :: "int \<Rightarrow> int \<Rightarrow> nat \<Rightarrow> sms_fields list \<Rightarrow> sms_fields list option" where
  "catenate_loop msg_sequence total_messages msgno [] = Some []"
| "catenate_loop msg_sequence total_messages msgno (m # parts) = do {
     m \<leftarrow> prepend_catenation_udh m (to_int (int msgno)) (to_int total_messages) (to_int msg_sequence);
     parts \<leftarrow> catenate_loop msg_sequence total_messages (Suc msgno) parts;
     Some (m # parts) }"

definition sms_split ::
  "(nat \<Rightarrow> octets) \<Rightarrow> sms_fields \<Rightarrow> octets option \<Rightarrow> octets option \<Rightarrow> octets option \<Rightarrow> octets option \<Rightarrow>
   bool \<Rightarrow> int \<Rightarrow> int \<Rightarrow> int \<Rightarrow> sms_fields list option" where
  "sms_split rnd orig header footer nonlast_suffix split_chars catenate msg_sequence max_messages max_octets = do {
     let hf_len = olen header + olen footer;
     let udh_len = olen (sms_udhdata orig);
     let max_part_len = one_part_max orig max_octets udh_len hf_len;
     len \<leftarrow> sms_msgdata_len orig;
     let max_part_len = (if len > max_part_len \<and> catenate
        then one_part_max orig max_octets ((if udh_len = 0 then 1 else udh_len) + CATENATE_UDH_LEN) hf_len
        else max_part_len);
     let max_part_len = (if max_part_len > 0 then max_part_len else 0);
     list1 \<leftarrow> sms_split_loop rnd orig header footer nonlast_suffix split_chars max_messages max_part_len 0 orig [];
     if catenate \<and> length list1 > 1 then catenate_loop msg_sequence (int (length list1)) 1 list1 else Some list1 }"

section \<open>The order of the outgoing queues\<close>

text \<open>The comparison proper, and the function with its assertions.\<close>

definition sms_order :: "sms_fields \<Rightarrow> sms_fields \<Rightarrow> int" where
  "sms_order msg1 msg2 =
     (if sms_priority msg1 > sms_priority msg2 then 1
      else if sms_priority msg1 < sms_priority msg2 then -1
      else if sms_time msg1 > sms_time msg2 then 1
      else if sms_time msg1 < sms_time msg2 then -1
      else 0)"

definition sms_priority_compare :: "msg \<Rightarrow> msg \<Rightarrow> int option" where
  "sms_priority_compare msg1 msg2 = do {
     gw_assert (type msg1 = sms);
     gw_assert (type msg2 = sms);
     Some (sms_order (sms_part msg1) (sms_part msg2)) }"

section \<open>The data coding scheme is decoded as it was encoded\<close>

lemma to_int_small: "0 \<le> v \<Longrightarrow> v < 256 \<Longrightarrow> to_int v = v"
  by (rule to_int_id) simp_all

lemma default_coding [simp]:
  "sms_mwi (default_coding m) = sms_mwi m" "sms_compress (default_coding m) = sms_compress m"
  "sms_mclass (default_coding m) = sms_mclass m" "sms_msgdata (default_coding m) = sms_msgdata m"
  "sms_coding m \<noteq> -1 \<Longrightarrow> default_coding m = m"
  by (simp_all add: default_coding_def SMS_PARAM_UNDEFINED_def MSG_PARAM_UNDEFINED_def)

lemma dcs_mode0:
  assumes "sms_mwi m = -1" "sms_coding m \<in> {0, 1, 2}" "sms_compress m \<in> {0, 1}" "sms_mclass m \<in> {-1, 0, 1, 2, 3}"
  shows "dcs_to_fields m1 (fst (fields_to_dcs m 0)) =
    (1, m1\<lparr>sms_alt_dcs := 0, sms_compress := sms_compress m, sms_mclass := sms_mclass m, sms_coding := sms_coding m\<rparr>)"
  using assms unfolding insert_iff empty_iff
  by (elim disjE FalseE)
     (simp_all add: fields_to_dcs_def dcs_to_fields_def SMS_PARAM_UNDEFINED_def MSG_PARAM_UNDEFINED_def to_int_small)

lemma dcs_mode1:
  assumes "sms_mwi m = -1" "sms_coding m \<in> {0, 1}" "sms_compress m \<noteq> 1" "sms_mclass m \<in> {-1, 0, 1, 2, 3}"
  shows "dcs_to_fields m1 (fst (fields_to_dcs m 1)) =
    (1, m1\<lparr>sms_coding := sms_coding m, sms_mclass := (if sms_mclass m = -1 then 1 else sms_mclass m), sms_alt_dcs := 1\<rparr>)"
  using assms unfolding insert_iff empty_iff
  by (elim disjE FalseE)
     (simp_all add: fields_to_dcs_def dcs_to_fields_def SMS_PARAM_UNDEFINED_def MSG_PARAM_UNDEFINED_def to_int_small)

lemma mwi_octet:
  assumes "sms_mwi m \<in> {0, 1, 2, 3, 4, 5, 6, 7}"
  shows "fst (fields_to_dcs m mode) \<in> (if sms_mwi m < 4 then {0xC8 + sms_mwi m, 0xD8 + sms_mwi m, 0xE8 + sms_mwi m} else {0xBC + sms_mwi m})"
  using assms unfolding insert_iff empty_iff
  by (elim disjE FalseE)
     (simp_all add: fields_to_dcs_def SMS_PARAM_UNDEFINED_def MSG_PARAM_UNDEFINED_def to_int_small Let_def)

lemma mwi_decode:
  assumes "v \<in> {0, 1, 2, 3, 4, 5, 6, 7}"
    and "d \<in> (if v < 4 then {0xC8 + v, 0xD8 + v, 0xE8 + v} else {0xBC + v})"
  shows "dcs_to_fields m1 d = (1, m1\<lparr>sms_alt_dcs := 0, sms_coding := DC_7BIT, sms_mwi := v\<rparr>)"
proof -
  from assms have "(v, d) \<in> {(0, 0xC8), (1, 0xC9), (2, 0xCA), (3, 0xCB), (0, 0xD8), (1, 0xD9), (2, 0xDA), (3, 0xDB),
    (0, 0xE8), (1, 0xE9), (2, 0xEA), (3, 0xEB), (4, 0xC0), (5, 0xC1), (6, 0xC2), (7, 0xC3)}"
    unfolding insert_iff empty_iff by (elim disjE FalseE) simp_all
  then show ?thesis unfolding insert_iff empty_iff prod.inject
    by (elim disjE conjE FalseE) (simp_all only: dcs_to_fields_def, simp_all)
qed

lemma dcs_mwi:
  assumes m: "sms_mwi m \<in> {0, 1, 2, 3, 4, 5, 6, 7}"
  shows "dcs_to_fields m1 (fst (fields_to_dcs m mode)) = (1, m1\<lparr>sms_alt_dcs := 0, sms_coding := DC_7BIT, sms_mwi := sms_mwi m\<rparr>)"
  by (rule mwi_decode [OF m mwi_octet [OF m]])

text \<open>The octets that say nothing twice: no class without the class bit, no reserved bit.\<close>

definition canonical_dcs :: "int list" where
  "canonical_dcs =
     [0x00, 0x04, 0x08, 0x0C, 0x10, 0x11, 0x12, 0x13, 0x14, 0x15, 0x16, 0x17, 0x18, 0x19, 0x1A, 0x1B, 0x1C, 0x1D, 0x1E, 0x1F,
      0x20, 0x24, 0x28, 0x2C, 0x30, 0x31, 0x32, 0x33, 0x34, 0x35, 0x36, 0x37, 0x38, 0x39, 0x3A, 0x3B, 0x3C, 0x3D, 0x3E, 0x3F,
      0xF0, 0xF1, 0xF2, 0xF3, 0xF4, 0xF5, 0xF6, 0xF7]"

definition reencodes :: "sms_fields \<Rightarrow> int \<Rightarrow> bool" where
  "reencodes m dcs \<longleftrightarrow>
     (let (r, m1) = dcs_to_fields m dcs in r = 1 \<and> fst (fields_to_dcs m1 (sms_alt_dcs m1)) = dcs)"

lemma canonical_reencodes:
  assumes "sms_mwi m = -1" "sms_compress m \<noteq> 1"
  shows "list_all (reencodes m) canonical_dcs"
  unfolding canonical_dcs_def list.pred_inject
  by (intro conjI TrueI)
     (simp_all add: assms reencodes_def dcs_to_fields_def fields_to_dcs_def
       SMS_PARAM_UNDEFINED_def MSG_PARAM_UNDEFINED_def to_int_small)

end
