(* ===== verification/Sms_Split.thy ===== *)
theory Sms_Split
  imports Sms
begin

text \<open>
  Splitting a message (\<open>sms_split\<close> of \<open>gw/sms.c\<close>). The locale \<open>cutter\<close> is the contract of the
  function that cuts the next part off the text, and holds the facts about the loop that
  follow from it. It is fulfilled by cutting octets and by cutting text that is measured in
  septets and stored in UTF-8.
\<close>

lemma ex2I: "P a b \<Longrightarrow> \<exists>x y. P x y"
  by blast

section \<open>GSM text, character by character\<close>

definition utf8_shape :: "octets \<Rightarrow> nat \<Rightarrow> bool" where
  "utf8_shape bs n \<longleftrightarrow> bs \<noteq> [] \<and> length bs \<le> n \<and> (length bs = 1 \<or> list_all (\<lambda>b. 128 \<le> uint b) bs)"

lemma utf8_shapes:
  "list_all (\<lambda>k. utf8_shape (utf8 (gsm_to_unicode ! k)) 2) [0..<128]"
  "list_all (\<lambda>e. case esc_lookup gsm_esctouni (uint e) of None \<Rightarrow> False | Some u \<Rightarrow> utf8_shape (utf8 u) 4) gsm_ext"
  by code_simp+

lemma gsm_text_split:
  assumes "gsm_text s" "s \<noteq> []"
  obtains u cs v where "s = u @ cs" "gsm_text cs" "gsm_unit u" "utf8_shape (utf8 v) (2 * length u)"
    "\<forall>rest. gsm_utf8 (u @ rest) = utf8 v @ gsm_utf8 rest"
proof -
  obtain c cs where s: "s = c # cs" using assms(2) by (cases s) auto
  show ?thesis
  proof (cases "c = 27")
    case True
    then obtain e cs' where cs: "cs = e # cs'" "e \<in> set gsm_ext" "gsm_text cs'" using assms s by (cases cs) auto
    from cs(2) obtain v where v: "esc_lookup gsm_esctouni (uint e) = Some v" "utf8_ok v" "gsm1 v = [27, e]" by (rule ext_char)
    have "utf8_shape (utf8 v) 4" using utf8_shapes(2) cs(2) v(1) by (auto simp: list_all_iff)
    then show ?thesis using that [of "[27, e]" cs' v] cs v True by (simp add: s gsm_unit_def)
  next
    case False
    with assms s have c: "uint c \<le> 127" "gsm_text cs" by auto
    have "unat c < 128" unfolding unat_eq_nat_uint using c(1) by linarith
    then have "unat c \<in> set [0..<128]" by simp
    then have "utf8_shape (utf8 (gsm_to_unicode ! unat c)) 2" using utf8_shapes(1) by (simp only: list_all_iff)
    then show ?thesis using that [of "[c]" cs "gsm_to_unicode ! unat c"] c False by (simp add: s gsm_unit_def)
  qed
qed

declare gsm_utf8.simps(2) [simp del]

lemma gsm_text_induct [consumes 1, case_names Nil char]:
  assumes "gsm_text s" "P []"
    and step: "\<And>u cs v. gsm_text cs \<Longrightarrow> gsm_unit u \<Longrightarrow> utf8_shape (utf8 v) (2 * length u) \<Longrightarrow>
      (\<And>rest. gsm_utf8 (u @ rest) = utf8 v @ gsm_utf8 rest) \<Longrightarrow> P cs \<Longrightarrow> P (u @ cs)"
  shows "P s"
  using assms(1)
proof (induction "length s" arbitrary: s rule: less_induct)
  case less
  show ?case
  proof (cases "s = []")
    case True
    then show ?thesis using assms(2) by simp
  next
    case False
    from less.prems False obtain u cs v where *: "s = u @ cs" "gsm_text cs" "gsm_unit u" "utf8_shape (utf8 v) (2 * length u)"
      "\<forall>rest. gsm_utf8 (u @ rest) = utf8 v @ gsm_utf8 rest" by (rule gsm_text_split)
    have "u \<noteq> []" using *(3) by (auto simp: gsm_unit_def)
    then have "P cs" using less.hyps [of cs] * by simp
    with step [OF *(2-4)] *(5) show ?thesis by (simp add: *(1))
  qed
qed

lemma gsm_utf8_append: "gsm_text a \<Longrightarrow> gsm_utf8 (a @ b) = gsm_utf8 a @ gsm_utf8 b"
  by (induction a rule: gsm_text_induct) (simp_all add: append_assoc)

lemma gsm_text_append: "gsm_text a \<Longrightarrow> gsm_text (a @ b) \<longleftrightarrow> gsm_text b"
  by (induction a rule: gsm_text_induct) (simp_all add: gsm_unit_text)

lemma gsm_utf8_length: "gsm_text a \<Longrightarrow> length (gsm_utf8 a) \<le> 2 * length a"
  by (induction a rule: gsm_text_induct) (auto simp: utf8_shape_def)

lemma gsm_utf8_Nil: "gsm_text a \<Longrightarrow> gsm_utf8 a = [] \<Longrightarrow> a = []"
  by (induction a rule: gsm_text_induct) (auto simp: utf8_shape_def)

text \<open>After a single-octet character there is a character boundary.\<close>

lemma gsm_utf8_boundary:
  assumes "gsm_text g" "gsm_utf8 g = a @ c # b" "uint c < 128"
  shows "\<exists>x y. g = x @ y \<and> gsm_text x \<and> gsm_text y \<and> gsm_utf8 x = a @ [c] \<and> gsm_utf8 y = b"
  using assms(1,2)
proof (induction g arbitrary: a rule: gsm_text_induct)
  case (char u cs v)
  from char(4) [of cs] char.prems have eq: "utf8 v @ gsm_utf8 cs = a @ c # b" by simp
  have u: "gsm_text u" "gsm_utf8 u = utf8 v" using char(2) char(4) [of "[]"] gsm_unit_text [of u "[]"] by simp_all
  show ?case
  proof (cases "length (utf8 v) \<le> length a")
    case True
    with eq obtain a1 where a1: "a = utf8 v @ a1" "gsm_utf8 cs = a1 @ c # b" by (auto simp: append_eq_append_conv2)
    from char.IH [OF a1(2)] obtain x y where xy: "cs = x @ y" "gsm_text x" "gsm_text y" "gsm_utf8 x = a1 @ [c]" "gsm_utf8 y = b"
      by blast
    then show ?thesis using char(2,4) a1 gsm_unit_text [of u x] by (intro exI [of _ "u @ x"] exI [of _ y]) simp
  next
    case False
    then have "c \<in> set (utf8 v)" using eq by (auto simp: append_eq_append_conv2 append_eq_Cons_conv)
    with char(3) assms(3) have "utf8 v = [c]" by (auto simp: utf8_shape_def list_all_iff length_Suc_conv)
    with eq False have "a = []" "gsm_utf8 cs = b" by (auto simp: Cons_eq_append_conv)
    then show ?thesis using u char(1) \<open>utf8 v = [c]\<close> by (intro exI [of _ u] exI [of _ cs]) simp
  qed
qed simp

section \<open>Cutting off a part\<close>

lemma search_char_mem: "\<exists>p. oct_search_char cs (uint (c :: byte)) 0 = Some p \<and> (p \<noteq> -1 \<longleftrightarrow> c \<in> set cs)"
proof -
  have e: "oct_search_char cs (uint c) 0 = Some (find_from cs [c] 0)"
    using uint_byte_bounds [of c] by (simp add: oct_search_char_def)
  show ?thesis
  proof (rule find_from_cases [of cs "[c]" 0])
    assume "find_from cs [c] 0 = -1" "\<And>j. 0 \<le> j \<Longrightarrow> \<not> match_at cs [c] j"
    then show ?thesis using e match_at_single by (auto simp: in_set_conv_nth)
  next
    fix k assume "find_from cs [c] 0 = int k" "match_at cs [c] k"
    then show ?thesis using e match_at_single by auto
  qed
qed

lemma split_len_ok:
  "i \<le> length s \<Longrightarrow> \<exists>n. split_len s cs i (int k) = Some (int n) \<and> (n = k \<or> 0 < n \<and> n \<le> i \<and> s ! (n - 1) \<in> set cs)"
proof (induction i)
  case (Suc i)
  have "oct_get s (int i) = uint (s ! i)" using Suc.prems by (simp add: oct_get_def)
  moreover obtain p where "oct_search_char cs (uint (s ! i)) 0 = Some p" "p \<noteq> -1 \<longleftrightarrow> s ! i \<in> set cs"
    using search_char_mem by blast
  ultimately have e: "split_len s cs (Suc i) (int k) = (if s ! i \<in> set cs then Some (int (Suc i)) else split_len s cs i (int k))"
    by auto
  show ?case
  proof (cases "s ! i \<in> set cs")
    case True
    then show ?thesis using e by (intro exI [of _ "Suc i"]) simp
  next
    case False
    with e Suc show ?thesis by fastforce
  qed
qed simp

lemma extract_msgdata_part_ok:
  "\<exists>n. extract_msgdata_part (Some s) split_chars (int k) = Some (take n s, drop n s) \<and>
     (length s \<le> k \<longrightarrow> n = k) \<and> (n = k \<or> 0 < n \<and> n < k \<and> (\<exists>cs. split_chars = Some cs \<and> s ! (n - 1) \<in> set cs))"
proof -
  have e: "do { part \<leftarrow> oct_copy s 0 (int n); data \<leftarrow> oct_delete s 0 (int n); Some (part, data) } = Some (take n s, drop n s)" for n
    by (simp add: oct_copy_def oct_delete_def)
  show ?thesis
  proof (cases "\<exists>cs. split_chars = Some cs \<and> k < length s")
    case True
    then obtain cs where cs: "split_chars = Some cs" "k < length s" by blast
    with split_len_ok [of k s cs k] obtain n where "split_len s cs k (int k) = Some (int n)"
      "n = k \<or> 0 < n \<and> n \<le> k \<and> s ! (n - 1) \<in> set cs" by auto
    then show ?thesis using cs e [of n] by (intro exI [of _ n]) (auto simp: extract_msgdata_part_def oct_len_def)
  next
    case False
    then show ?thesis using e [of k]
      by (intro exI [of _ k]) (auto simp: extract_msgdata_part_def oct_len_def split: option.splits)
  qed
qed

definition cut_octets :: "octets option \<Rightarrow> octets \<Rightarrow> int \<Rightarrow> (octets \<times> octets) option" where
  "cut_octets split_chars s lim = extract_msgdata_part (Some s) split_chars lim"

definition gsm_norm :: "octets \<Rightarrow> octets" where
  "gsm_norm s = gsm_utf8 (utf8_gsm s)"

definition gsm_len :: "octets \<Rightarrow> int" where
  "gsm_len s = int (length (utf8_gsm s))"

definition cut_gsm :: "octets option \<Rightarrow> octets \<Rightarrow> int \<Rightarrow> (octets \<times> octets) option" where
  "cut_gsm split_chars s lim = do {
     (r, t) \<leftarrow> charset_gsm_truncate (utf8_gsm s) lim;
     extract_msgdata_part (Some (gsm_norm s)) split_chars (to_int (int (length (gsm_utf8 t)))) }"

text \<open>
  The loop of \<open>sms_split\<close> on the text alone: the limit \<open>lim\<close> for every part, and the length
  \<open>maxlen\<close> up to which a text is the last part.
\<close>

partial_function (option) cut_loop ::
  "(octets \<Rightarrow> int) \<Rightarrow> (octets \<Rightarrow> int \<Rightarrow> (octets \<times> octets) option) \<Rightarrow> int \<Rightarrow> int \<Rightarrow> int \<Rightarrow> nat \<Rightarrow> octets \<Rightarrow> octets list option" where
  "cut_loop len cutf lim maxlen max_messages k s = do {
     (p, r) \<leftarrow> cutf s lim;
     if len s \<le> maxlen \<or> int (Suc k) = max_messages then Some [p]
     else do { ps \<leftarrow> cut_loop len cutf lim maxlen max_messages (Suc k) r; Some (p # ps) } }"

definition PART_MAX :: int where
  "PART_MAX = 2 ^ 20"

locale cutter =
  fixes norm :: "octets \<Rightarrow> octets" and len :: "octets \<Rightarrow> int" and cutf :: "octets \<Rightarrow> int \<Rightarrow> (octets \<times> octets) option"
  assumes len_nonneg: "0 \<le> len s"
    and cut_ok: "2 \<le> lim \<Longrightarrow> lim \<le> PART_MAX \<Longrightarrow> \<exists>p r. cutf s lim = Some (p, r) \<and> norm s = p @ r \<and> norm r = r \<and>
      len s = len p + len r \<and> len p \<le> lim \<and> (0 < len s \<longrightarrow> 0 < len p) \<and> (len s \<le> lim \<longrightarrow> r = [])"
begin

lemma cut_loop_ok:
  assumes "2 \<le> lim" "lim \<le> PART_MAX" "lim \<le> maxlen"
  shows "\<exists>ps lost. cut_loop len cutf lim maxlen max_messages k s = Some ps \<and> ps \<noteq> [] \<and> norm s = concat ps @ lost \<and>
    list_all (\<lambda>p. len p \<le> lim) ps \<and> (int k < max_messages \<longrightarrow> int (k + length ps) \<le> max_messages) \<and>
    (lim = maxlen \<and> int (k + length ps) \<noteq> max_messages \<longrightarrow> lost = []) \<and> int (length ps) \<le> len s + 1"
proof (induction "nat (len s)" arbitrary: k s rule: less_induct)
  case less
  from cut_ok [OF assms(1,2), of s] obtain p r where c: "cutf s lim = Some (p, r)" "norm s = p @ r" "norm r = r"
    "len s = len p + len r" "len p \<le> lim" "0 < len s \<longrightarrow> 0 < len p" "len s \<le> lim \<longrightarrow> r = []" by blast
  show ?case
  proof (cases "len s \<le> maxlen \<or> int (Suc k) = max_messages")
    case True
    then show ?thesis using c len_nonneg [of s]
      by (intro exI [of _ "[p]"] exI [of _ r]) (auto simp: cut_loop.simps [of _ _ _ _ _ k s])
  next
    case False
    then have "0 < len s" using assms by linarith
    with c len_nonneg [of r] have "nat (len r) < nat (len s)" by simp
    from less [OF this, of "Suc k"] obtain ps lost where
      ps: "cut_loop len cutf lim maxlen max_messages (Suc k) r = Some ps" "ps \<noteq> []" "r = concat ps @ lost"
      "list_all (\<lambda>p. len p \<le> lim) ps" "int (Suc k) < max_messages \<longrightarrow> int (Suc k + length ps) \<le> max_messages"
      "lim = maxlen \<and> int (Suc k + length ps) \<noteq> max_messages \<longrightarrow> lost = []" "int (length ps) \<le> len r + 1"
      by (auto simp: c(3))
    then show ?thesis using c False \<open>0 < len s\<close>
      by (intro exI [of _ "p # ps"] exI [of _ lost]) (auto simp: cut_loop.simps [of _ _ _ _ _ k s])
  qed
qed

end

section \<open>The two ways of cutting\<close>

lemma octets_cutter: "cutter (\<lambda>s. s) oct_len (cut_octets split_chars)"
proof
  fix lim s assume lim: "2 \<le> lim" "lim \<le> PART_MAX"
  then obtain k where k: "lim = int k" "2 \<le> k" by (auto dest!: zero_le_imp_eq_int [OF order_trans, rotated])
  from extract_msgdata_part_ok [of s split_chars k] obtain n where
    "extract_msgdata_part (Some s) split_chars (int k) = Some (take n s, drop n s)" "length s \<le> k \<longrightarrow> n = k"
    "n = k \<or> 0 < n \<and> n < k" by blast
  then show "\<exists>p r. cut_octets split_chars s lim = Some (p, r) \<and> s = p @ r \<and> r = r \<and> oct_len s = oct_len p + oct_len r \<and>
      oct_len p \<le> lim \<and> (0 < oct_len s \<longrightarrow> 0 < oct_len p) \<and> (oct_len s \<le> lim \<longrightarrow> r = [])"
    using k by (intro exI [of _ "take n s"] exI [of _ "drop n s"]) (auto simp: cut_octets_def oct_len_def)
qed (simp add: oct_len_def)

interpretation octs: cutter "\<lambda>s. s" oct_len "cut_octets split_chars" for split_chars
  by (rule octets_cutter)

text \<open>Split characters of more than one octet would be matched in the middle of a character.\<close>

definition ascii_only :: "octets option \<Rightarrow> bool" where
  "ascii_only split_chars \<longleftrightarrow> (case split_chars of None \<Rightarrow> True | Some cs \<Rightarrow> list_all (\<lambda>c. uint c < 128) cs)"

lemma truncate_ok:
  assumes "gsm_text g"
  shows "\<exists>r x y. charset_gsm_truncate g (int k) = Some (r, x) \<and> g = x @ y \<and> gsm_text x \<and> length x \<le> k \<and>
    (y = [] \<or> k - 1 \<le> length x) \<and> (length g \<le> k \<longrightarrow> y = [])"
proof (cases "length g \<le> k")
  case True
  with assms show ?thesis
    by (intro exI [of _ 0] ex2I [of _ g "[]"]) (simp add: charset_gsm_truncate_def oct_len_def)
next
  case False
  let ?x = "if 0 < k \<and> g ! (k - 1) = 27 then take (k - 1) g else take k g"
  have "oct_get g (int k - 1) = 27 \<longleftrightarrow> 0 < k \<and> g ! (k - 1) = 27"
    using False by (cases k) (auto simp: oct_get_def uint_byte_27)
  then have "charset_gsm_truncate g (int k) = Some (1, ?x)"
    using False by (cases k) (auto simp: charset_gsm_truncate_def oct_len_def oct_truncate_def nat_add_distrib)
  moreover have "gsm_text ?x" by (rule gsm_text_take [OF assms]) (use False in simp)
  moreover have "g = ?x @ drop (length ?x) g" using False by auto
  moreover have "length ?x \<le> k" "k - 1 \<le> length ?x" using False by auto
  ultimately show ?thesis using False by blast
qed

lemma gsm_len_utf8 [simp]: "gsm_text x \<Longrightarrow> gsm_len (gsm_utf8 x) = int (length x)"
  by (simp add: gsm_len_def utf8_gsm_inverse)

lemma gsm_norm_utf8 [simp]: "gsm_text x \<Longrightarrow> gsm_norm (gsm_utf8 x) = gsm_utf8 x"
  by (simp add: gsm_norm_def utf8_gsm_inverse)

lemma gsm_cutter:
  assumes "ascii_only split_chars"
  shows "cutter gsm_norm gsm_len (cut_gsm split_chars)"
proof
  fix lim s assume lim: "2 \<le> lim" "lim \<le> PART_MAX"
  then obtain k where k: "lim = int k" "2 \<le> k" by (auto dest!: zero_le_imp_eq_int [OF order_trans, rotated])
  let ?g = "utf8_gsm s"
  note g = utf8_gsm_text [of s]
  from truncate_ok [OF g, of k] obtain r x y where x: "charset_gsm_truncate ?g (int k) = Some (r, x)" "?g = x @ y"
    "gsm_text x" "length x \<le> k" "y = [] \<or> k - 1 \<le> length x" "length ?g \<le> k \<longrightarrow> y = []" by blast
  have y: "gsm_text y" using g gsm_text_append [OF x(3)] by (simp add: x(2))
  have n: "gsm_norm s = gsm_utf8 x @ gsm_utf8 y" by (simp add: gsm_norm_def x(2) gsm_utf8_append [OF x(3)])
  let ?m = "length (gsm_utf8 x)"
  have "to_int (int ?m) = int ?m"
    using gsm_utf8_length [OF x(3)] x(4) lim k by (intro to_int_id) (simp_all add: PART_MAX_def)
  then have cut: "cut_gsm split_chars s lim = extract_msgdata_part (Some (gsm_norm s)) split_chars (int ?m)"
    by (simp add: cut_gsm_def k x(1))
  from extract_msgdata_part_ok [of "gsm_norm s" split_chars ?m] obtain n where
    e: "cut_gsm split_chars s lim = Some (take n (gsm_norm s), drop n (gsm_norm s))" and
    nm: "n = ?m \<or> 0 < n \<and> n < ?m \<and> (\<exists>cs. split_chars = Some cs \<and> gsm_norm s ! (n - 1) \<in> set cs)"
      "length (gsm_norm s) \<le> ?m \<longrightarrow> n = ?m"
    unfolding cut by blast
  have "\<exists>a b. ?g = a @ b \<and> gsm_text a \<and> gsm_text b \<and> take n (gsm_norm s) = gsm_utf8 a \<and> drop n (gsm_norm s) = gsm_utf8 b \<and>
    length a \<le> k \<and> (?g \<noteq> [] \<longrightarrow> a \<noteq> []) \<and> (y = [] \<longrightarrow> b = [])"
  proof (cases "n = ?m")
    case True
    have "?g \<noteq> [] \<longrightarrow> x \<noteq> []" using x k(2) by auto
    then show ?thesis using True x y n by (intro exI [of _ x] exI [of _ y]) simp
  next
    case False
    with nm obtain cs where cs: "0 < n" "n < ?m" "split_chars = Some cs" "gsm_norm s ! (n - 1) \<in> set cs" by auto
    let ?c = "gsm_norm s ! (n - 1)"
    have c: "uint ?c < 128" using cs assms by (auto simp: ascii_only_def list_all_iff)
    have "gsm_utf8 x = take (n - 1) (gsm_utf8 x) @ ?c # drop n (gsm_utf8 x)"
      using cs(1,2) id_take_nth_drop [of "n - 1" "gsm_utf8 x"] less_imp_diff_less [OF cs(2), of 1] by (simp add: n nth_append)
    from gsm_utf8_boundary [OF x(3) this c] obtain a b where ab: "x = a @ b" "gsm_text a" "gsm_text b"
      "gsm_utf8 a = take (n - 1) (gsm_utf8 x) @ [?c]" "gsm_utf8 b = drop n (gsm_utf8 x)" by blast
    have la: "length (gsm_utf8 a) = n" using cs ab(4) by simp
    have "gsm_norm s = gsm_utf8 a @ gsm_utf8 b @ gsm_utf8 y" by (simp add: n ab(1) gsm_utf8_append [OF ab(2)])
    then have t: "take n (gsm_norm s) = gsm_utf8 a" "drop n (gsm_norm s) = gsm_utf8 (b @ y)"
      using la by (simp_all add: gsm_utf8_append [OF ab(3)])
    have "y \<noteq> []" using nm(2) False by (auto simp: n)
    moreover have "a \<noteq> []" using la cs(1) by auto
    ultimately show ?thesis using t ab x y gsm_text_append [OF ab(3), of y]
      by (intro exI [of _ a] exI [of _ "b @ y"]) simp
  qed
  then obtain a b where ab: "?g = a @ b" "gsm_text a" "gsm_text b" "take n (gsm_norm s) = gsm_utf8 a"
    "drop n (gsm_norm s) = gsm_utf8 b" "length a \<le> k" "?g \<noteq> [] \<longrightarrow> a \<noteq> []" "y = [] \<longrightarrow> b = []" by blast
  have "gsm_norm s = gsm_utf8 a @ gsm_utf8 b" using append_take_drop_id [of n "gsm_norm s"] by (simp only: ab(4,5))
  moreover have "gsm_len s = int (length a) + int (length b)" by (simp add: gsm_len_def ab(1))
  ultimately show "\<exists>p r. cut_gsm split_chars s lim = Some (p, r) \<and> gsm_norm s = p @ r \<and> gsm_norm r = r \<and>
      gsm_len s = gsm_len p + gsm_len r \<and> gsm_len p \<le> lim \<and> (0 < gsm_len s \<longrightarrow> 0 < gsm_len p) \<and> (gsm_len s \<le> lim \<longrightarrow> r = [])"
    using e [unfolded ab(4,5)] ab(2,3,6) x(6) k
    by (intro ex2I [of _ "gsm_utf8 a" "gsm_utf8 b"]) (use ab(1,7,8) in \<open>auto simp: gsm_len_def [of s]\<close>)
qed (simp add: gsm_len_def)

interpretation gsm: cutter gsm_norm gsm_len "cut_gsm None"
  by (rule gsm_cutter) (simp add: ascii_only_def)

section \<open>The parts of a message\<close>

definition optl :: "octets option \<Rightarrow> octets" where
  "optl os = (case os of None \<Rightarrow> [] | Some bs \<Rightarrow> bs)"

lemma olen_optl: "olen os = int (length (optl os))"
  by (simp add: olen_def optl_def oct_len_def split: option.splits)

text \<open>What a part is, besides its text: the original, with these changes.\<close>

definition dressed ::
  "(nat \<Rightarrow> octets) \<Rightarrow> sms_fields \<Rightarrow> octets option \<Rightarrow> octets option \<Rightarrow> octets option \<Rightarrow> nat \<Rightarrow> bool \<Rightarrow> octets \<Rightarrow> sms_fields" where
  "dressed rnd orig header footer suffix msgno is_last p =
     (let m = (if msgno > 1 \<and> DLR_IS_ENABLED (sms_dlr_mask orig) then orig\<lparr>sms_dlr_url := None, sms_dlr_mask := 0\<rparr> else orig);
          m = (if is_last then m else m\<lparr>sms_id := rnd msgno\<rparr>)
      in m\<lparr>sms_msgdata := Some (optl header @ p @ optl footer @ (if is_last then [] else optl suffix))\<rparr>)"

definition dress ::
  "(nat \<Rightarrow> octets) \<Rightarrow> sms_fields \<Rightarrow> octets option \<Rightarrow> octets option \<Rightarrow> octets option \<Rightarrow> nat \<Rightarrow> octets list \<Rightarrow> sms_fields list" where
  "dress rnd orig header footer suffix k ps =
     map (\<lambda>i. dressed rnd orig header footer suffix (k + Suc i) (Suc i = length ps) (ps ! i)) [0..<length ps]"

lemma dress_simps:
  "dress rnd orig header footer suffix k [p] = [dressed rnd orig header footer suffix (Suc k) True p]"
  "ps \<noteq> [] \<Longrightarrow> dress rnd orig header footer suffix k (p # ps) =
     dressed rnd orig header footer suffix (Suc k) False p # dress rnd orig header footer suffix (Suc k) ps"
  by (simp_all add: dress_def map_upt_Suc del: upt_Suc)

definition binary :: "sms_fields \<Rightarrow> bool" where
  "binary m \<longleftrightarrow> sms_coding m = DC_8BIT \<or> sms_coding m = DC_UCS2"

definition text_len :: "sms_fields \<Rightarrow> octets \<Rightarrow> int" where
  "text_len m = (if binary m then oct_len else gsm_len)"

definition text_norm :: "sms_fields \<Rightarrow> octets \<Rightarrow> octets" where
  "text_norm m = (if binary m then (\<lambda>s. s) else gsm_norm)"

definition text_cut :: "sms_fields \<Rightarrow> octets option \<Rightarrow> octets \<Rightarrow> int \<Rightarrow> (octets \<times> octets) option" where
  "text_cut m = (if binary m then cut_octets else cut_gsm)"

lemma cutter_of: "binary m \<or> ascii_only split_chars \<Longrightarrow> cutter (text_norm m) (text_len m) (text_cut m split_chars)"
  by (auto simp: text_norm_def text_len_def text_cut_def octets_cutter gsm_cutter)

lemma utf8_to_gsm [simp]: "charset_utf8_to_gsm (Some s) = Some (Some (utf8_gsm s))"
  using utf8_to_gsm_loop_eq [of "[]" s "[]"] by (simp add: charset_utf8_to_gsm_def)

lemma gsm_to_utf8 [simp]: "charset_gsm_to_utf8 (Some s) = Some (Some (gsm_utf8 s))"
  using gsm_to_utf8_loop_eq [of "[]" s "[]"] by (simp add: charset_gsm_to_utf8_def)

lemma sms_msgdata_len_of:
  assumes "sms_coding m \<in> {0, 1, 2}" "sms_msgdata m = Some s" "text_len m s < 2 ^ 31"
  shows "sms_msgdata_len m = Some (text_len m s)"
proof -
  have "to_int (text_len m s) = text_len m s"
    using assms(3) by (intro to_int_id) (auto simp: text_len_def oct_len_def gsm_len_def)
  then show ?thesis using assms(1,2)
    by (auto simp: sms_msgdata_len_def text_len_def binary_def olen_def oct_len_def gsm_len_def)
qed

lemma extract_of:
  assumes "sms_coding m \<in> {0, 1, 2}" "sms_msgdata m = Some s"
  shows "extract_msgdata_part_by_coding m split_chars lim =
    map_option (\<lambda>(p, r). (p, m\<lparr>sms_msgdata := Some r\<rparr>)) (text_cut m split_chars s lim)"
proof (cases "binary m")
  case True
  then show ?thesis using assms(2)
    by (cases "extract_msgdata_part (Some s) split_chars lim")
       (auto simp: extract_msgdata_part_by_coding_def text_cut_def cut_octets_def binary_def)
next
  case False
  then have c: "\<not> (sms_coding m = 1 \<or> sms_coding m = 2)" by (simp add: binary_def)
  have inv: "utf8_gsm (gsm_utf8 (utf8_gsm s)) = utf8_gsm s" by (rule utf8_gsm_inverse [OF utf8_gsm_text])
  show ?thesis
  proof (cases "charset_gsm_truncate (utf8_gsm s) lim")
    case None
    then show ?thesis using False c assms(2) inv by (simp add: extract_msgdata_part_by_coding_def text_cut_def cut_gsm_def)
  next
    case (Some rt)
    then show ?thesis using False c assms(2) inv
      by (cases rt; cases "extract_msgdata_part (Some (gsm_norm s)) split_chars (to_int (int (length (gsm_utf8 (snd rt)))))")
         (auto simp: extract_msgdata_part_by_coding_def text_cut_def cut_gsm_def gsm_norm_def olen_def oct_len_def)
  qed
qed

lemma make_part_of:
  assumes "sms_coding m \<in> {0, 1, 2}" "sms_msgdata m = Some s" "text_cut m split_chars s lim = Some (p, r)"
  shows "make_part rnd orig header footer suffix split_chars lim msgno is_last m =
    Some (dressed rnd orig header footer suffix msgno is_last p, m\<lparr>sms_msgdata := Some r\<rparr>)"
  unfolding make_part_def extract_of [OF assms(1,2)] assms(3)
  by (cases header; cases footer; cases suffix) (simp_all add: dressed_def optl_def oct_insert_def Let_def)

lemma sms_split_loop_of:
  assumes c: "cutter (text_norm m) (text_len m) (text_cut m split_chars)" and "sms_coding m \<in> {0, 1, 2}"
    and lim: "lim = to_int (maxlen - olen suffix)" "2 \<le> lim" "lim \<le> PART_MAX"
  shows "cut_loop (text_len m) (text_cut m split_chars) lim maxlen max_messages k s = Some ps \<Longrightarrow> text_len m s < 2 ^ 31 \<Longrightarrow>
    sms_split_loop rnd orig header footer suffix split_chars max_messages maxlen k (m\<lparr>sms_msgdata := Some s\<rparr>) acc =
      Some (acc @ dress rnd orig header footer suffix k ps)"
proof (induction ps arbitrary: k s acc)
  case Nil
  then show ?case by (subst (asm) cut_loop.simps) (auto simp: bind_eq_Some_conv split: if_splits)
next
  case (Cons q qs)
  let ?m = "m\<lparr>sms_msgdata := Some s\<rparr>"
  have eq: "text_len ?m = text_len m" "text_cut ?m = text_cut m" by (simp_all add: text_len_def text_cut_def binary_def)
  from cutter.cut_ok [OF c lim(2,3), of s] obtain p r where p: "text_cut m split_chars s lim = Some (p, r)" "text_len m s = text_len m p + text_len m r"
    by blast
  have len: "sms_msgdata_len ?m = Some (text_len m s)" using sms_msgdata_len_of [of ?m s] assms(2) Cons.prems(2) by (simp add: eq)
  have mk: "make_part rnd orig header footer suffix split_chars lim (Suc k) is_last ?m =
    Some (dressed rnd orig header footer suffix (Suc k) is_last p, m\<lparr>sms_msgdata := Some r\<rparr>)" for is_last
    using make_part_of [of ?m s split_chars lim p r] assms(2) p(1) by (simp add: eq)
  show ?case
  proof (cases "text_len m s \<le> maxlen \<or> int (Suc k) = max_messages")
    case True
    with Cons.prems(1) p(1) have "q = p" "qs = []" by (subst (asm) cut_loop.simps, auto)+
    then show ?thesis using True len mk [of True]
      by (subst sms_split_loop.simps) (auto simp: lim(1) [symmetric] dress_simps Let_def)
  next
    case False
    with Cons.prems(1) p(1) have q: "q = p" "cut_loop (text_len m) (text_cut m split_chars) lim maxlen max_messages (Suc k) r = Some qs"
      by (subst (asm) cut_loop.simps, auto simp: bind_eq_Some_conv)+
    have "text_len m r < 2 ^ 31" using p(2) Cons.prems(2) cutter.len_nonneg [OF c, of p] by linarith
    note IH = Cons.IH [OF q(2) this]
    have "qs \<noteq> []" using q(2) by (subst (asm) cut_loop.simps) (auto simp: bind_eq_Some_conv split: if_splits)
    then show ?thesis using False len mk [of False] IH q(1)
      by (subst sms_split_loop.simps) (simp add: lim(1) [symmetric] dress_simps Let_def)
  qed
qed

section \<open>The concatenation header\<close>

definition numbered :: "int \<Rightarrow> int \<Rightarrow> int \<Rightarrow> sms_fields \<Rightarrow> sms_fields" where
  "numbered msg_sequence total_messages i m =
     (let udh = optl (sms_udhdata m);
          u = (if udh = [] then [5] else udh) @ [0, 3, word_of_int msg_sequence, word_of_int total_messages, word_of_int i]
      in m\<lparr>sms_udhdata := Some (u[0 := word_of_int (int (length u) - 1)]), sms_msg_left := total_messages - i\<rparr>)"

lemma to_byte_to_int [simp]: "(word_of_int (to_int v) :: byte) = word_of_int v"
  by (rule bit_word_eqI) (simp add: to_int_def bit_word_of_int_iff bit_signed_iff)

lemma prepend_numbered:
  assumes "i \<le> total_messages"
  shows "prepend_catenation_udh m i total_messages (to_int msg_sequence) = Some (numbered msg_sequence total_messages i m)"
  using assms
  by (cases "sms_udhdata m"; cases "optl (sms_udhdata m)")
     (auto simp: prepend_catenation_udh_def numbered_def optl_def oct_len_def oct_append_char_def oct_set_def CATENATE_UDH_LEN_def
       Let_def nth_append)

lemma catenate_loop_numbered:
  assumes "total_messages < 2 ^ 31"
  shows "int (k + length ms) \<le> total_messages + 1 \<Longrightarrow>
    catenate_loop msg_sequence total_messages k ms =
      Some (map (\<lambda>i. numbered msg_sequence total_messages (int (k + i)) (ms ! i)) [0..<length ms])"
proof (induction ms arbitrary: k)
  case (Cons m ms)
  have "to_int (int k) = int k" "to_int total_messages = total_messages"
    using Cons.prems assms by (auto intro!: to_int_id)
  moreover have "int k \<le> total_messages" using Cons.prems by simp
  ultimately show ?case using Cons.IH [of "Suc k"] Cons.prems
    by (simp add: prepend_numbered map_upt_Suc add.left_commute del: upt_Suc)
qed simp

section \<open>What \<open>sms_split\<close> returns\<close>

definition cat_udh_len :: "sms_fields \<Rightarrow> int" where
  "cat_udh_len orig = (if olen (sms_udhdata orig) = 0 then 1 else olen (sms_udhdata orig)) + CATENATE_UDH_LEN"

text \<open>
  The messages and options \<open>sms_split\<close> can work with: a coding and a text are set, and next to
  the headers, header, footer and suffix there is room for two characters.
\<close>

definition split_ok :: "sms_fields \<Rightarrow> octets option \<Rightarrow> octets option \<Rightarrow> octets option \<Rightarrow> octets option \<Rightarrow> int \<Rightarrow> octets \<Rightarrow> bool" where
  "split_ok orig header footer suffix split_chars max_octets s \<longleftrightarrow>
     sms_coding orig \<in> {0, 1, 2} \<and> sms_msgdata orig = Some s \<and> oct_len s < 2 ^ 28 \<and> (binary orig \<or> ascii_only split_chars) \<and>
     max_octets \<le> 2 ^ 19 \<and> 2 + olen suffix \<le> one_part_max orig max_octets (cat_udh_len orig) (olen header + olen footer)"

text \<open>The \<open>i\<close>-th of \<open>n\<close> parts, with the text \<open>p\<close>.\<close>

definition nth_part ::
  "(nat \<Rightarrow> octets) \<Rightarrow> sms_fields \<Rightarrow> octets option \<Rightarrow> octets option \<Rightarrow> octets option \<Rightarrow> bool \<Rightarrow> int \<Rightarrow> nat \<Rightarrow> nat \<Rightarrow> octets \<Rightarrow> sms_fields" where
  "nth_part rnd orig header footer suffix catenate msg_sequence n i p =
     (let m = dressed rnd orig header footer suffix (Suc i) (Suc i = n) p
      in if catenate \<and> 1 < n then numbered msg_sequence (int n) (int (Suc i)) m else m)"

lemma utf8_gsm_length: "length (utf8_gsm s) \<le> 2 * length s"
proof -
  have g: "0 \<le> v \<Longrightarrow> length (gsm1 v) \<le> 2" for v
    using gsm1_unit [of v] by (auto simp: gsm_unit_def split: list.splits)
  show ?thesis
  proof (induction s rule: utf8_gsm.induct)
    case (2 b bs)
    show ?case
      using 2 g [of "uint b"] g [of "push_bit 6 (uint b AND NOT 0xC0) OR (uint (hd bs) AND 0x3F)"]
        g [of "push_bit 6 (push_bit 6 (uint b AND NOT 0xE0) OR (uint (hd bs) AND 0x3F)) OR (uint (hd (tl bs)) AND 0x3F)"]
      by (subst utf8_gsm.simps(2)) (auto simp del: utf8_gsm.simps(2) split: list.splits, fastforce)
  qed simp
qed

lemma one_part_max_room:
  assumes "0 < one_part_max orig max_octets u hf" "0 \<le> hf"
  shows "u \<le> max_octets" "one_part_max orig max_octets u hf = (if binary orig then max_octets - u else (max_octets - u) * 8 div 7) - hf"
proof -
  show u: "u \<le> max_octets"
    using assms by (auto simp: one_part_max_def cdiv_def sgn_if not_le split: if_splits)
  then show "one_part_max orig max_octets u hf = (if binary orig then max_octets - u else (max_octets - u) * 8 div 7) - hf"
    by (simp add: one_part_max_def binary_def)
qed

lemma one_part_max_mono:
  assumes "0 < one_part_max orig max_octets u2 hf" "u1 \<le> u2" "0 \<le> hf"
  shows "one_part_max orig max_octets u2 hf \<le> one_part_max orig max_octets u1 hf"
proof -
  from one_part_max_room(1) [OF assms(1,3)] assms(2) have "u1 \<le> max_octets" by simp
  then have "one_part_max orig max_octets u1 hf = (if binary orig then max_octets - u1 else (max_octets - u1) * 8 div 7) - hf"
    by (simp add: one_part_max_def binary_def)
  then show ?thesis using one_part_max_room(2) [OF assms(1,3)] assms(2) by (auto intro!: zdiv_mono1)
qed

text \<open>The user data header the parts must leave room for, and the room for their text.\<close>

definition split_udh :: "sms_fields \<Rightarrow> octets option \<Rightarrow> octets option \<Rightarrow> bool \<Rightarrow> int \<Rightarrow> octets \<Rightarrow> int" where
  "split_udh orig header footer catenate max_octets s =
     (if text_len orig s > one_part_max orig max_octets (olen (sms_udhdata orig)) (olen header + olen footer) \<and> catenate
      then cat_udh_len orig else olen (sms_udhdata orig))"

definition split_room :: "sms_fields \<Rightarrow> octets option \<Rightarrow> octets option \<Rightarrow> bool \<Rightarrow> int \<Rightarrow> octets \<Rightarrow> int" where
  "split_room orig header footer catenate max_octets s =
     one_part_max orig max_octets (split_udh orig header footer catenate max_octets s) (olen header + olen footer)"

lemma olen_nonneg: "0 \<le> olen x"
  by (simp add: olen_optl)

lemma split_room_ok:
  assumes ok: "split_ok orig header footer suffix split_chars max_octets s"
    and room_def: "room = split_room orig header footer catenate max_octets s"
  shows "2 + olen suffix \<le> room" "room - olen suffix \<le> PART_MAX" "to_int (room - olen suffix) = room - olen suffix"
    "text_len orig s < 2 ^ 30" "olen (sms_udhdata orig) \<le> split_udh orig header footer catenate max_octets s"
proof -
  let ?udh = "olen (sms_udhdata orig)" and ?hf = "olen header + olen footer" and ?c = "cat_udh_len orig"
  let ?u = "split_udh orig header footer catenate max_octets s"
  show u: "?udh \<le> ?u" by (simp add: split_udh_def cat_udh_len_def CATENATE_UDH_LEN_def)
  have "2 + olen suffix \<le> one_part_max orig max_octets ?c ?hf" using ok by (simp add: split_ok_def)
  then have c: "0 < one_part_max orig max_octets ?c ?hf" using olen_nonneg [of suffix] by linarith
  have "?u \<le> ?c" by (simp add: split_udh_def cat_udh_len_def CATENATE_UDH_LEN_def)
  with \<open>2 + olen suffix \<le> _\<close> show m: "2 + olen suffix \<le> room"
    using one_part_max_mono [OF c, of ?u] olen_nonneg [of header] olen_nonneg [of footer] by (simp add: room_def split_room_def)
  then have "0 < one_part_max orig max_octets ?u ?hf" using olen_nonneg [of suffix] unfolding room_def split_room_def by linarith
  note one_part_max_room [OF this add_nonneg_nonneg [OF olen_nonneg olen_nonneg]]
  moreover have "0 \<le> ?u" using u olen_nonneg [of "sms_udhdata orig"] by linarith
  moreover have "x * 8 div 7 \<le> 2 * x" if "0 \<le> x" for x :: int
    using that zdiv_mono1 [of "x * 8" "2 * x * 7" 7] by simp
  from this [of "max_octets - ?u"] have "?u \<le> max_octets \<longrightarrow> (max_octets - ?u) * 8 div 7 \<le> 2 * (max_octets - ?u)" by simp
  ultimately have "room \<le> 2 * max_octets" using olen_nonneg [of header] olen_nonneg [of footer]
    unfolding room_def split_room_def by (cases "binary orig") simp_all
  with ok have r: "room \<le> 2 ^ 20" by (simp add: split_ok_def)
  then show "room - olen suffix \<le> PART_MAX" using olen_nonneg [of suffix] unfolding PART_MAX_def by linarith
  show "to_int (room - olen suffix) = room - olen suffix"
    using r m olen_nonneg [of suffix] by (intro to_int_id) simp_all
  show "text_len orig s < 2 ^ 30"
    using ok utf8_gsm_length [of s] by (auto simp: split_ok_def text_len_def oct_len_def gsm_len_def)
qed

lemma cut_loop_single:
  "cut_loop len cutf lim maxlen max_messages k s = Some ps \<Longrightarrow> len s \<le> maxlen \<Longrightarrow> length ps = 1"
  by (subst (asm) cut_loop.simps) (auto simp: bind_eq_Some_conv)

lemma sms_split_eq:
  assumes ok: "split_ok orig header footer suffix split_chars max_octets s"
    and room_def: "room = split_room orig header footer catenate max_octets s"
  obtains ps lost where
    "sms_split rnd orig header footer suffix split_chars catenate msg_sequence max_messages max_octets =
       Some (map (\<lambda>i. nth_part rnd orig header footer suffix catenate msg_sequence (length ps) i (ps ! i)) [0..<length ps])"
    "ps \<noteq> []" "text_norm orig s = concat ps @ lost" "0 < max_messages \<longrightarrow> int (length ps) \<le> max_messages"
    "olen suffix = 0 \<and> int (length ps) \<noteq> max_messages \<longrightarrow> lost = []"
    "list_all (\<lambda>p. text_len orig p + olen suffix \<le> room) ps"
    "catenate \<and> 1 < length ps \<longrightarrow> split_udh orig header footer catenate max_octets s = cat_udh_len orig"
proof -
  note r = split_room_ok [OF ok room_def]
  have c: "cutter (text_norm orig) (text_len orig) (text_cut orig split_chars)"
    using ok by (intro cutter_of) (simp add: split_ok_def)
  have coding: "sms_coding orig \<in> {0, 1, 2}" and data: "sms_msgdata orig = Some s" using ok by (simp_all add: split_ok_def)
  have lim: "2 \<le> room - olen suffix" "room - olen suffix \<le> room" using r(1) olen_nonneg [of suffix] by linarith+
  from cutter.cut_loop_ok [OF c lim(1) r(2) lim(2), of max_messages 0 s] obtain ps lost where
    ps: "cut_loop (text_len orig) (text_cut orig split_chars) (room - olen suffix) room max_messages 0 s = Some ps" "ps \<noteq> []"
    "text_norm orig s = concat ps @ lost" "list_all (\<lambda>p. text_len orig p \<le> room - olen suffix) ps"
    "0 < max_messages \<longrightarrow> int (length ps) \<le> max_messages" "olen suffix = 0 \<and> int (length ps) \<noteq> max_messages \<longrightarrow> lost = []"
    "int (length ps) \<le> text_len orig s + 1"
    by auto
  have o: "orig\<lparr>sms_msgdata := Some s\<rparr> = orig" using data by (cases orig) simp
  have loop: "sms_split_loop rnd orig header footer suffix split_chars max_messages room 0 orig [] =
    Some (dress rnd orig header footer suffix 0 ps)"
    using sms_split_loop_of [OF c coding r(3) [symmetric] lim(1) r(2) ps(1), of rnd orig header footer "[]"] r(4) by (simp add: o)
  have cat: "catenate_loop msg_sequence (int (length ps)) 1 (dress rnd orig header footer suffix 0 ps) =
    Some (map (\<lambda>i. numbered msg_sequence (int (length ps)) (int (Suc i)) (dress rnd orig header footer suffix 0 ps ! i)) [0..<length ps])"
    using catenate_loop_numbered [of "int (length ps)" 1 "dress rnd orig header footer suffix 0 ps"] ps(7) r(4)
    by (simp add: dress_def)
  have len: "sms_msgdata_len orig = Some (text_len orig s)" using sms_msgdata_len_of [OF coding data] r(4) by simp
  have "sms_split rnd orig header footer suffix split_chars catenate msg_sequence max_messages max_octets =
    (if catenate \<and> length ps > 1 then catenate_loop msg_sequence (int (length ps)) 1 (dress rnd orig header footer suffix 0 ps)
     else Some (dress rnd orig header footer suffix 0 ps))"
  proof -
    let ?udh = "olen (sms_udhdata orig)" and ?hf = "olen header + olen footer"
    have "(if text_len orig s > one_part_max orig max_octets ?udh ?hf \<and> catenate
       then one_part_max orig max_octets ((if ?udh = 0 then 1 else ?udh) + CATENATE_UDH_LEN) ?hf
       else one_part_max orig max_octets ?udh ?hf) = room"
      by (simp add: room_def split_room_def split_udh_def cat_udh_len_def)
    moreover have "(if room > 0 then room else 0) = room" using r(1) olen_nonneg [of suffix] by auto
    moreover have "length (dress rnd orig header footer suffix 0 ps) = length ps" by (simp add: dress_def)
    ultimately show ?thesis by (simp only: sms_split_def Let_def len loop bind.bind_lunit)
  qed
  moreover have "catenate \<and> 1 < length ps \<longrightarrow> split_udh orig header footer catenate max_octets s = cat_udh_len orig"
    using cut_loop_single [OF ps(1)] by (auto simp: room_def split_room_def split_udh_def)
  moreover have "list_all (\<lambda>p. text_len orig p + olen suffix \<le> room) ps" using ps(4) by (auto simp: list_all_iff)
  moreover have "(if catenate \<and> length ps > 1 then catenate_loop msg_sequence (int (length ps)) 1 (dress rnd orig header footer suffix 0 ps)
     else Some (dress rnd orig header footer suffix 0 ps)) =
     Some (map (\<lambda>i. nth_part rnd orig header footer suffix catenate msg_sequence (length ps) i (ps ! i)) [0..<length ps])"
    unfolding cat by (auto simp: nth_part_def dress_def)
  ultimately show ?thesis using that [of ps lost] ps(2,3,5,6) by simp
qed

end
