(* ===== verification/Sms_Properties.thy ===== *)
theory Sms_Properties
  imports Sms_Split
begin

text \<open>
  The properties of \<open>gw/sms.c\<close>: the data coding scheme, the text, the size and the headers of
  the parts of a split message.
\<close>

section \<open>The data coding scheme\<close>



section \<open>Splitting\<close>

lemma nth_part_msgdata:
  "sms_msgdata (nth_part rnd orig header footer suffix catenate msg_sequence n i p) =
     Some (optl header @ p @ optl footer @ (if Suc i = n then [] else optl suffix))"
  by (simp add: nth_part_def dressed_def numbered_def Let_def)

text \<open>
  \<^bold>\<open>C9\<close> \<open>sms_split\<close> terminates, and the parts hold the text: between header and footer they have
  consecutive pieces of it, each part but the last also the suffix. Nothing of the text is
  left out unless the limit on the number of parts is reached or a suffix is given; then the
  pieces are a prefix of the text. Text in 7 bit coding is first reduced to the GSM alphabet.
\<close>

theorem sms_split_text:
  assumes "split_ok orig header footer suffix split_chars max_octets s"
  shows "\<exists>parts pieces lost.
    sms_split rnd orig header footer suffix split_chars catenate msg_sequence max_messages max_octets = Some parts \<and>
    parts \<noteq> [] \<and> length parts = length pieces \<and>
    (\<forall>i < length parts. sms_msgdata (parts ! i) =
       Some (optl header @ pieces ! i @ optl footer @ (if Suc i = length parts then [] else optl suffix))) \<and>
    text_norm orig s = concat pieces @ lost \<and>
    (olen suffix = 0 \<and> int (length parts) \<noteq> max_messages \<longrightarrow> lost = []) \<and>
    (0 < max_messages \<longrightarrow> int (length parts) \<le> max_messages)"
proof -
  obtain ps lost where ps:
    "sms_split rnd orig header footer suffix split_chars catenate msg_sequence max_messages max_octets =
       Some (map (\<lambda>i. nth_part rnd orig header footer suffix catenate msg_sequence (length ps) i (ps ! i)) [0..<length ps])"
    "ps \<noteq> []" "text_norm orig s = concat ps @ lost" "0 < max_messages \<longrightarrow> int (length ps) \<le> max_messages"
    "olen suffix = 0 \<and> int (length ps) \<noteq> max_messages \<longrightarrow> lost = []"
    by (rule sms_split_eq [OF assms refl])
  let ?parts = "map (\<lambda>i. nth_part rnd orig header footer suffix catenate msg_sequence (length ps) i (ps ! i)) [0..<length ps]"
  show ?thesis
    by (rule exI [of _ ?parts], rule exI [of _ ps], rule exI [of _ lost], simp only: ps(1))
       (use ps(2-5) in \<open>simp add: nth_part_msgdata\<close>)
qed

text \<open>An 8 bit message of ten octets that goes out in parts of two.\<close>

definition ten_octets :: sms_fields where
  "ten_octets = blank_sms\<lparr>sms_coding := 1, sms_dlr_mask := 1, sms_msgdata := Some (map of_nat [0..<10])\<rparr>"

lemma ten_octets_ok: "split_ok ten_octets None None None None 8 (map of_nat [0..<10])"
  by code_simp

theorem sms_split_text_witness:
  "\<exists>parts pieces lost. sms_split (\<lambda>_. []) ten_octets None None None None True 7 0 8 = Some parts \<and> length parts = length pieces \<and>
     text_norm ten_octets (map of_nat [0..<10]) = concat pieces @ lost \<and> parts \<noteq> []"
  using sms_split_text [OF ten_octets_ok, of "\<lambda>_. []" True 7 0] by blast



lemma nth_part_binary [simp]: "binary (nth_part rnd orig header footer suffix catenate msg_sequence n i p) = binary orig"
  by (simp add: nth_part_def dressed_def numbered_def binary_def Let_def)







text \<open>
  \<^bold>\<open>C38\<close> With a suffix for the parts that are not the last, text is lost: the last part, too, is
  cut to the room left beside the suffix, although it does not get one. An 8 bit message that
  fits into one part, but not beside the suffix, goes out as one part without its end.
\<close>

theorem sms_split_suffix_loses:
  assumes "split_ok orig None None (Some suffix) None max_octets s" "binary orig"
    and "max_octets - olen (sms_udhdata orig) - oct_len suffix < oct_len s" "oct_len s \<le> max_octets - olen (sms_udhdata orig)"
  shows "sms_split rnd orig None None (Some suffix) None catenate msg_sequence max_messages max_octets =
    Some [orig\<lparr>sms_msgdata := Some (take (nat (max_octets - olen (sms_udhdata orig) - oct_len suffix)) s)\<rparr>]"
proof -
  let ?room = "max_octets - olen (sms_udhdata orig)"
  have n: "sms_msgdata_len orig = Some (oct_len s)" and coding: "sms_coding orig \<in> {0, 1, 2}" and data: "sms_msgdata orig = Some s"
    using sms_msgdata_len_of [of orig s] assms(1,2) split_room_ok(4) [OF assms(1) refl] by (simp_all add: split_ok_def text_len_def)
  have max: "one_part_max orig max_octets (olen (sms_udhdata orig)) 0 = ?room" using assms(2) by (simp add: one_part_max_def binary_def)
  have room: "split_room orig None None catenate max_octets s = ?room"
    using assms(2,4) by (simp add: split_room_def split_udh_def max text_len_def olen_def [of None])
  note r = split_room_ok(1,3) [OF assms(1) room [symmetric]]
  have s: "0 \<le> oct_len suffix" "olen (Some suffix) = oct_len suffix" by (simp_all add: oct_len_def olen_def)
  have cut: "text_cut orig None s (?room - oct_len suffix) = Some (take (nat (?room - oct_len suffix)) s, drop (nat (?room - oct_len suffix)) s)"
    using r(1) s assms(2) by (simp add: text_cut_def cut_octets_def extract_msgdata_part_def oct_copy_def oct_delete_def)
  have "sms_split_loop rnd orig None None (Some suffix) None max_messages ?room 0 orig [] =
    Some [orig\<lparr>sms_msgdata := Some (take (nat (?room - oct_len suffix)) s)\<rparr>]"
    using make_part_of [OF coding data cut, of rnd orig None None "Some suffix" 1 True] n assms(4) r(2) s
    by (subst sms_split_loop.simps) (simp add: dressed_def optl_def Let_def)
  then show ?thesis using n assms(4) r(1) s max by (simp add: sms_split_def Let_def olen_def [of None])
qed

theorem sms_split_suffix_loses_witness:
  "sms_split (\<lambda>_. []) ten_octets None None (Some [46, 46]) None False 0 0 10 =
     Some [ten_octets\<lparr>sms_msgdata := Some (take (nat (10 - olen (sms_udhdata ten_octets) - oct_len [46, 46])) (map of_nat [0..<10]))\<rparr>]"
proof (rule sms_split_suffix_loses)
  show "split_ok ten_octets None None (Some [46, 46]) None 10 (map of_nat [0..<10])" by code_simp
  show "binary ten_octets" by code_simp
qed code_simp+

end
