(* ===== verification/Sms_Queue.thy ===== *)
theory Sms_Queue
  imports Sms_Split
begin

text \<open>
  The outgoing queue of a driver: a priority queue (\<open>gwlib/gw-prioqueue.c\<close>) of messages in the
  order of \<open>sms_priority_compare\<close> (\<open>gw/sms.c\<close>). The first section is about every priority queue:
  how long an item can wait.
\<close>

section \<open>Waiting in a priority queue\<close>

definition removes :: "'a pq_op list \<Rightarrow> nat" where
  "removes cs = length (filter (\<lambda>c. c = PRemove \<or> c = PConsume) cs)"

text \<open>The items that are taken before \<open>x\<close>, where \<open>us\<close> came before it and \<open>vs\<close> after it.\<close>

definition ahead :: "('a \<Rightarrow> 'a \<Rightarrow> int) \<Rightarrow> 'a list \<Rightarrow> 'a \<Rightarrow> 'a list \<Rightarrow> nat" where
  "ahead cmp us x vs = length (filter (\<lambda>u. cmp u x \<ge> 0) us) + length (filter (\<lambda>v. cmp v x > 0) vs)"

text \<open>The calls that put nothing of higher priority than \<open>x\<close> into the queue.\<close>

definition not_over :: "('a \<Rightarrow> 'a \<Rightarrow> int) \<Rightarrow> 'a \<Rightarrow> 'a pq_op \<Rightarrow> bool" where
  "not_over cmp x c \<longleftrightarrow> (case c of PInsert (Some y) \<Rightarrow> cmp y x \<le> 0 | _ \<Rightarrow> True)"

context comparison
begin

lemma top_exists: "xs \<noteq> [] \<Longrightarrow> \<exists>m \<in> set xs. \<forall>y \<in> set xs. cmp m y \<ge> 0"
proof (induction xs rule: list_nonempty_induct)
  case (single x)
  then show ?case by (simp add: cmp_refl)
next
  case (cons x xs)
  then obtain m where m: "m \<in> set xs" "\<forall>y \<in> set xs. cmp m y \<ge> 0" by blast
  show ?case
  proof (cases "cmp m x \<ge> 0")
    case True
    then show ?thesis using m by auto
  next
    case False
    then have "cmp x m \<ge> 0" using cmp_sym [of m x] by linarith
    then have "\<forall>y \<in> set (x # xs). cmp x y \<ge> 0" using m(2) cmp_trans_ge [of x m] by (auto simp: cmp_refl)
    then show ?thesis by auto
  qed
qed

lemma best_cases:
  assumes "xs \<noteq> []"
  obtains as m bs where "xs = as @ m # bs" "best cmp xs = length as" "\<forall>y \<in> set xs. cmp m y \<ge> 0" "\<forall>a \<in> set as. \<exists>y \<in> set xs. cmp a y < 0"
proof -
  let ?P = "\<lambda>x. \<not> list_all (\<lambda>y. cmp x y \<ge> 0) xs"
  from top_exists [OF assms] have "\<exists>x \<in> set xs. \<not> ?P x" by (simp add: list_all_iff)
  then have "dropWhile ?P xs \<noteq> []" by simp
  then obtain m bs where d: "dropWhile ?P xs = m # bs" by (cases "dropWhile ?P xs") auto
  show ?thesis
  proof (rule that [of "takeWhile ?P xs" m bs])
    show "xs = takeWhile ?P xs @ m # bs" using takeWhile_dropWhile_id [of ?P xs] by (simp only: d)
    show "best cmp xs = length (takeWhile ?P xs)" by (simp only: best_def)
    have "\<not> ?P m" using hd_dropWhile [of ?P xs] by (simp only: d) simp
    then show "\<forall>y \<in> set xs. cmp m y \<ge> 0" by (simp add: list_all_iff)
    show "\<forall>a \<in> set (takeWhile ?P xs). \<exists>y \<in> set xs. cmp a y < 0"
      by (auto dest!: set_takeWhileD simp: list_all_iff not_le)
  qed
qed

lemma pop_best_ahead:
  "fst (pop_best cmp (us @ x # vs)) = Some x \<or>
   (\<exists>us1 vs1. snd (pop_best cmp (us @ x # vs)) = us1 @ x # vs1 \<and> Suc (ahead cmp us1 x vs1) = ahead cmp us x vs)"
proof -
  let ?xs = "us @ x # vs"
  obtain as m bs where b: "?xs = as @ m # bs" "best cmp ?xs = length as" "\<forall>y \<in> set ?xs. cmp m y \<ge> 0"
    "\<forall>a \<in> set as. \<exists>y \<in> set ?xs. cmp a y < 0" by (rule best_cases [of ?xs]) auto
  have p: "pop_best cmp ?xs = (Some m, as @ bs)"
    using b(2) unfolding pop_best_def b(1) by simp
  from b(1) obtain zs where z: "us @ zs = as \<and> x # vs = zs @ m # bs \<or> us = as @ zs \<and> zs @ x # vs = m # bs"
    unfolding append_eq_append_conv2 by blast
  consider us2 where "us = as @ m # us2" "bs = us2 @ x # vs" | "us = as" "m = x" | vs1 where "vs = vs1 @ m # bs" "as = us @ x # vs1"
    using z by (cases zs) auto
  then show ?thesis
  proof cases
    case 1
    have "cmp m x \<ge> 0" using b(3) by simp
    then have "Suc (ahead cmp (as @ us2) x vs) = ahead cmp us x vs" by (simp add: ahead_def 1(1))
    then show ?thesis using p 1(2) by (intro disjI2 exI [of _ "as @ us2"] exI [of _ vs]) simp
  next
    case 2
    then show ?thesis using p by simp
  next
    case 3
    then obtain y where y: "y \<in> set ?xs" "cmp x y < 0" using b(4) by auto
    have "cmp m y \<ge> 0" using b(3) y(1) by blast
    then have "cmp y m \<le> 0" by (simp only: cmp_flip [of y m])
    moreover have "cmp y x > 0" using y(2) cmp_sym [of x y] by simp
    ultimately have "cmp m x > 0" using cmp_trans [of y m x] by linarith
    then have "Suc (ahead cmp us x (vs1 @ bs)) = ahead cmp us x vs" by (simp add: ahead_def 3(1))
    then show ?thesis using p 3(2) by (intro disjI2 exI [of _ us] exI [of _ "vs1 @ bs"]) simp
  qed
qed

lemma run_Cons:
  assumes "run_ops f (c # cs) s = Some (rs, t)"
  obtains r s1 rs1 where "f c s = Some (r, s1)" "run_ops f cs s1 = Some (rs1, t)" "rs = r # rs1"
  using assms by (auto split: option.splits)

lemma spec_serves:
  "run_ops (pq_spec cmp) cs (us @ x # vs, n) = Some (rs, t) \<Longrightarrow> list_all (not_over cmp x) cs \<Longrightarrow>
   ahead cmp us x vs < removes cs \<Longrightarrow> PItem (Some x) \<in> set rs"
proof (induction cs arbitrary: us vs n rs)
  case Nil
  then show ?case by (simp add: removes_def)
next
  case (Cons c cs)
  from Cons.prems(1) obtain r s1 rs1 where c: "pq_spec cmp c (us @ x # vs, n) = Some (r, s1)"
    "run_ops (pq_spec cmp) cs s1 = Some (rs1, t)" "rs = r # rs1" by (rule run_Cons)
  have over: "not_over cmp x c" "list_all (not_over cmp x) cs" using Cons.prems(2) by simp_all
  consider z where "c = PInsert (Some z)" "cmp z x \<le> 0" "s1 = (us @ x # (vs @ [z]), n)"
    | "c = PRemove \<or> c = PConsume" "r = PItem (fst (pop_best cmp (us @ x # vs)))" "fst s1 = snd (pop_best cmp (us @ x # vs))"
    | n1 where "c \<noteq> PRemove" "c \<noteq> PConsume" "s1 = (us @ x # vs, n1)"
    using c(1) over(1) by (cases c) (auto simp: not_over_def split: option.splits if_splits)
  then show ?case
  proof cases
    case 1
    then have "ahead cmp us x (vs @ [z]) < removes cs" using Cons.prems(3) by (simp add: ahead_def removes_def)
    then show ?thesis using Cons.IH [of us "vs @ [z]" n rs1] c 1 over by simp
  next
    case 2
    show ?thesis
    proof (cases "fst (pop_best cmp (us @ x # vs)) = Some x")
      case True
      then show ?thesis using 2 c(3) by simp
    next
      case False
      with pop_best_ahead [of us x vs] obtain us1 vs1 where p: "snd (pop_best cmp (us @ x # vs)) = us1 @ x # vs1"
        "Suc (ahead cmp us1 x vs1) = ahead cmp us x vs" by blast
      have "ahead cmp us1 x vs1 < removes cs" using Cons.prems(3) 2(1) p(2) by (auto simp: removes_def)
      then show ?thesis using Cons.IH [of us1 vs1 "snd s1" rs1] c over 2(3) p(1) by (cases s1) simp
    qed
  next
    case 3
    then show ?thesis using Cons.IH [of us vs n1 rs1] c over Cons.prems(3) by (simp add: removes_def)
  qed
qed

end

text \<open>The queue itself: whatever it returns is what the list returns.\<close>

lemma queue_serves:
  assumes "pq_rel cmp q (us @ x # vs, n)" and run: "run_ops pq_call cs q = Some (rs, q1)"
    and "list_all (not_over cmp x) cs" "ahead cmp us x vs < removes cs"
  shows "PItem (Some x) \<in> set rs"
proof -
  have c: "comparison cmp" using assms(1) by (simp add: pq_rel_def)
  obtain rs0 t where s: "run_ops (pq_spec cmp) cs (us @ x # vs, n) = Some (rs0, t)"
    using pqu.run_None [OF assms(1), of cs] run by (cases "run_ops (pq_spec cmp) cs (us @ x # vs, n)") auto
  then have "rs0 = rs" using pqu.run_Some [OF assms(1) s] run by auto
  with comparison.spec_serves [OF c s assms(3,4)] show ?thesis by simp
qed

section \<open>The order of messages\<close>

lemma sms_order_comparison: "comparison sms_order"
  by unfold_locales (auto simp: sms_order_def split: if_splits)

interpretation sms_ord: comparison sms_order
  by (rule sms_order_comparison)

text \<open>
  \<^bold>\<open>C16\<close> No message waits forever in the outgoing queue of a driver as long as no more urgent
  message arrives: if \<open>x\<close> is in the queue and no message that comes before it in the order of
  \<open>sms_priority_compare\<close> (a higher priority, or the same priority and a later time) is inserted,
  then after as many removals as there are messages before \<open>x\<close>, and one more, \<open>x\<close> has been sent,
  in whatever order insertions, removals and the other calls come.
\<close>

theorem sms_queue_serves:
  assumes "pq_rel sms_order q (us @ x # vs, n)" and "run_ops pq_call cs q = Some (rs, q1)"
    and "list_all (\<lambda>c. case c of PInsert (Some y) \<Rightarrow>
        sms_priority y < sms_priority x \<or> sms_priority y = sms_priority x \<and> sms_time y \<le> sms_time x | _ \<Rightarrow> True) cs"
    and "ahead sms_order us x vs < removes cs"
  shows "PItem (Some x) \<in> set rs"
proof (rule queue_serves [OF assms(1,2) _ assms(4)])
  show "list_all (not_over sms_order x) cs"
    using assms(3) by (auto simp: list_all_iff not_over_def sms_order_def split: pq_op.splits option.splits)
qed

text \<open>An urgent message that came later is sent first, then the other one.\<close>

theorem sms_queue_serves_witness:
  "\<exists>q q1 rs. pq_rel sms_order q ([blank_sms, blank_sms\<lparr>sms_priority := 3\<rparr>], 0) \<and>
     run_ops pq_call [PRemove, PInsert (Some blank_sms), PRemove] q = Some (rs, q1) \<and> PItem (Some blank_sms) \<in> set rs"
proof -
  let ?hi = "blank_sms\<lparr>sms_priority := 3\<rparr>" and ?cs = "[PRemove, PInsert (Some blank_sms), PRemove]"
  have b: "sms_priority blank_sms = 0" "sms_time blank_sms = 0" by (simp_all add: blank_sms_def)
  obtain q where q: "pq_rel sms_order q ([blank_sms, ?hi], 0)"
    using pq_run [OF sms_order_comparison, of "[PInsert (Some blank_sms), PInsert (Some ?hi)]"] by auto
  obtain rs0 t where s: "run_ops (pq_spec sms_order) ?cs ([blank_sms, ?hi], 0) = Some (rs0, t)" by simp
  obtain q1 where run: "run_ops pq_call ?cs q = Some (rs0, q1)" using pqu.run_Some [OF q s] by blast
  have "PItem (Some blank_sms) \<in> set rs0"
    using sms_queue_serves [of q "[]" blank_sms "[?hi]" 0 ?cs rs0 q1] q run
    by (simp add: ahead_def removes_def sms_order_def b)
  with q run show ?thesis by blast
qed

end
