(* ===== verification/Charset_Iconv.thy ===== *)
theory Charset_Iconv
  imports Charset Sms
begin

text \<open>
  The conversions of \<open>gwlib/charset.c\<close> that are done by the C library's \<open>iconv\<close>, with what they
  do around it: the output buffer, its growth, and the octets that cannot be converted. \<open>iconv\<close>
  and \<open>iconv_open\<close> are arguments; \<open>iconv_ok\<close> is what their manual says of them. Also
  \<open>octstr_recode\<close> of \<open>gwlib/octstr.c\<close> and \<open>sms_charset_processing\<close> of \<open>gw/sms.c\<close>, which call them.
\<close>

section \<open>The library function\<close>

datatype iconv_ret = Converted nat | E2BIG | EILSEQ | EINVAL | EBADF

text \<open>
  A call on a descriptor, the input that is left and the number of octets left in the output
  buffer: the result, the number of input octets consumed, the octets written and the new
  state of the descriptor.
\<close>

type_synonym 'cd iconv_fun = "'cd \<Rightarrow> octets \<Rightarrow> int \<Rightarrow> iconv_ret \<times> nat \<times> octets \<times> 'cd"

type_synonym 'cd iconv_opener = "octets \<Rightarrow> octets \<Rightarrow> 'cd option"



text \<open>The output buffer: what has been written to it and its allocated size.\<close>

record outbuf =
  ob_data :: octets
  ob_size :: int

text \<open>Writing behind what is there; behind the allocated area it corrupts the heap.\<close>

definition ob_write :: "outbuf \<Rightarrow> octets \<Rightarrow> outbuf option" where
  "ob_write b w = do { gw_assert (oct_len (ob_data b) + oct_len w \<le> ob_size b); Some (b\<lparr>ob_data := ob_data b @ w\<rparr>) }"

definition ob_malloc :: "int \<Rightarrow> outbuf option" where
  "ob_malloc n = do { gw_assert (n > 0); Some \<lparr>ob_data = [], ob_size = n\<rparr> }"

definition ob_realloc :: "outbuf \<Rightarrow> int \<Rightarrow> outbuf option" where
  "ob_realloc b n = do { gw_assert (n > 0); Some \<lparr>ob_data = take (nat n) (ob_data b), ob_size = n\<rparr> }"

section \<open>Whole strings\<close>

definition is_utf8_name :: "octets \<Rightarrow> bool" where
  "is_utf8_name charset \<longleftrightarrow> cmp_upper charset (cstr ''UTF-8'') = 0 \<or> cmp_upper charset (cstr ''UTF8'') = 0"

text \<open>The part the two functions share: the return value and what \<open>*to\<close> is set to, if it is.\<close>

definition convert_once :: "'cd iconv_fun \<Rightarrow> 'cd option \<Rightarrow> octets \<Rightarrow> (int \<times> octets option) option" where
  "convert_once iconv cd from =
     (case cd of None \<Rightarrow> Some (-2, None)
      | Some cd \<Rightarrow> do {
          let inbytesleft = oct_len from;
          let outbytesleft = inbytesleft * 4;
          to_buf \<leftarrow> ob_malloc outbytesleft;
          let (ret, k, w, cd) = iconv cd from outbytesleft;
          to_buf \<leftarrow> ob_write to_buf w;
          (case ret of Converted n \<Rightarrow> Some (0, Some (ob_data to_buf)) | _ \<Rightarrow> Some (-1, None)) })"

definition charset_to_utf8 :: "'cd iconv_opener \<Rightarrow> 'cd iconv_fun \<Rightarrow> octets \<Rightarrow> octets \<Rightarrow> (int \<times> octets option) option" where
  "charset_to_utf8 iconv_open iconv from charset_from =
     (if is_utf8_name charset_from then Some (0, Some from)
      else convert_once iconv (iconv_open (cstr ''UTF-8'') charset_from) from)"

definition charset_from_utf8 :: "'cd iconv_opener \<Rightarrow> 'cd iconv_fun \<Rightarrow> octets \<Rightarrow> octets \<Rightarrow> (int \<times> octets option) option" where
  "charset_from_utf8 iconv_open iconv utf8_str charset_to =
     (if is_utf8_name charset_to then Some (0, Some utf8_str)
      else convert_once iconv (iconv_open charset_to (cstr ''UTF-8'')) utf8_str)"

definition octstr_recode :: "'cd iconv_opener \<Rightarrow> 'cd iconv_fun \<Rightarrow> octets \<Rightarrow> octets \<Rightarrow> octets \<Rightarrow> (int \<times> octets) option" where
  "octstr_recode iconv_open iconv tocode fromcode orig =
     (if cmp_upper tocode fromcode = 0 then Some (0, orig)
      else do {
        (r, octstr_utf8) \<leftarrow> (if \<not> is_utf8_name fromcode then charset_to_utf8 iconv_open iconv orig fromcode else Some (0, Some orig));
        if r < 0 then Some (-1, orig)
        else do {
          octstr_utf8 \<leftarrow> octstr_utf8;
          (r, octstr_final) \<leftarrow> (if \<not> is_utf8_name tocode then charset_from_utf8 iconv_open iconv octstr_utf8 tocode
             else Some (0, Some octstr_utf8));
          if r < 0 then Some (-1, orig)
          else do { octstr_final \<leftarrow> octstr_final; Some (0, octstr_final) } } })"

section \<open>Converting in place\<close>

text \<open>The growth of the buffer: the new buffer and the new number of octets left in it.\<close>

definition grow :: "outbuf \<Rightarrow> octets \<Rightarrow> int \<Rightarrow> (outbuf \<times> int) option" where
  "grow to_buf inb outbytesleft = do {
     let tmp = oct_len (ob_data to_buf);
     to_buf \<leftarrow> ob_realloc to_buf (tmp + oct_len inb * 4);
     Some (to_buf, outbytesleft + oct_len inb * 4) }"

text \<open>
  One round of the loop: what \<open>ret\<close> is at its end (\<open>None\<close> for -1), the input left, the buffer,
  the octets left in it and the descriptor.
\<close>

definition iconv_round ::
  "'cd iconv_fun \<Rightarrow> 'cd \<Rightarrow> octets \<Rightarrow> outbuf \<Rightarrow> int \<Rightarrow> (nat option \<times> octets \<times> outbuf \<times> int \<times> 'cd) option" where
  "iconv_round iconv cd inb to_buf outbytesleft = do {
     let (ret, k, w, cd) = iconv cd inb outbytesleft;
     let inb = drop k inb;
     to_buf \<leftarrow> ob_write to_buf w;
     let outbytesleft = outbytesleft - oct_len w;
     case ret of
       Converted n \<Rightarrow> Some (Some n, inb, to_buf, outbytesleft, cd)
     | E2BIG \<Rightarrow> do {
         (to_buf, outbytesleft) \<leftarrow> grow to_buf inb outbytesleft;
         Some (Some 0, inb, to_buf, outbytesleft, cd) }
     | EBADF \<Rightarrow> Some (None, inb, to_buf, outbytesleft, cd)
     | _ \<Rightarrow> do {
         (to_buf, outbytesleft) \<leftarrow> (if outbytesleft = 0 then grow to_buf inb outbytesleft else Some (to_buf, outbytesleft));
         gw_assert (inb \<noteq> []);
         to_buf \<leftarrow> ob_write to_buf [hd inb];
         Some (Some 0, tl inb, to_buf, outbytesleft - 1, cd) } }"

partial_function (option) iconv_loop ::
  "'cd iconv_fun \<Rightarrow> 'cd \<Rightarrow> octets \<Rightarrow> outbuf \<Rightarrow> int \<Rightarrow> (nat option \<times> outbuf) option" where
  "iconv_loop iconv cd inb to_buf outbytesleft = do {
     (ret, inb, to_buf, outbytesleft, cd) \<leftarrow> iconv_round iconv cd inb to_buf outbytesleft;
     if inb \<noteq> [] \<and> ret = Some 0 then iconv_loop iconv cd inb to_buf outbytesleft
     else Some (ret, to_buf) }"

text \<open>The return value and the string.\<close>

definition charset_convert ::
  "'cd iconv_opener \<Rightarrow> 'cd iconv_fun \<Rightarrow> octets option \<Rightarrow> octets option \<Rightarrow> octets option \<Rightarrow> (int \<times> octets option) option" where
  "charset_convert iconv_open iconv string1 charset_from charset_to =
     (case (charset_from, charset_to, string1) of
        (Some from, Some to, Some s) \<Rightarrow>
          if oct_len s < 1 \<or> cmp_upper from to = 0 then Some (0, string1)
          else (case iconv_open to from of None \<Rightarrow> Some (-1, string1)
            | Some cd \<Rightarrow> do {
                let outbytesleft = oct_len s * 4;
                to_buf \<leftarrow> ob_malloc outbytesleft;
                (ret, to_buf) \<leftarrow> iconv_loop iconv cd s to_buf outbytesleft;
                Some (if ret \<noteq> None then (0, Some (ob_data to_buf)) else (-1, string1)) })
      | _ \<Rightarrow> Some (-1, string1))"

definition sms_charset_processing :: "'cd iconv_opener \<Rightarrow> 'cd iconv_fun \<Rightarrow> octets option \<Rightarrow> octets option \<Rightarrow> int \<Rightarrow> (int \<times> octets option) option" where
  "sms_charset_processing iconv_open iconv charset body coding =
     (if olen charset \<noteq> 0 then
        if coding = DC_7BIT then do {
          (r, body) \<leftarrow> charset_convert iconv_open iconv body charset (Some (cstr ''UTF-8''));
          Some (if r < 0 then -1 else 0, body) }
        else if coding = DC_UCS2 then do {
          (r, body) \<leftarrow> charset_convert iconv_open iconv body charset (Some (cstr ''UTF-16BE''));
          Some (if r < 0 then -1 else 0, body) }
        else Some (0, body)
      else Some (0, body))"

section \<open>Properties\<close>













end
