(* ===== verification/Date.thy ===== *)
theory Date
  imports Octets
begin

text \<open>
  Dates (\<open>gwlib/date.c\<close>): broken-down time and seconds since 1970, the date format of HTTP, and
  ISO 8601. Of the C library, \<open>gmtime\<close>, \<open>sprintf\<close> with \<open>%0kd\<close> and \<open>sscanf\<close> with \<open>%kld\<close> are
  modelled first. \<open>long\<close> is unbounded.
\<close>

section \<open>The C library\<close>

definition leap :: "int \<Rightarrow> bool" where
  "leap y \<longleftrightarrow> y mod 4 = 0 \<and> (y mod 100 \<noteq> 0 \<or> y mod 400 = 0)"

definition year_len :: "int \<Rightarrow> int" where
  "year_len y = (if leap y then 366 else 365)"

definition month_len :: "int \<Rightarrow> nat \<Rightarrow> int" where
  "month_len y m = (if m = 1 \<and> leap y then 29 else [31, 28, 31, 30, 31, 30, 31, 31, 30, 31, 30, 31] ! m)"

text \<open>The year a day number, counted from the first day of year \<open>y\<close>, falls in, and the day in it.\<close>

function year_loop :: "int \<Rightarrow> int \<Rightarrow> int \<times> int" where
  "year_loop y d = (if d \<ge> year_len y then year_loop (y + 1) (d - year_len y) else (y, d))"
  by pat_completeness auto
termination
  by (relation "measure (\<lambda>(y, d). nat d)") (auto simp: year_len_def split: if_splits)

function month_loop :: "int \<Rightarrow> nat \<Rightarrow> int \<Rightarrow> nat \<times> int" where
  "month_loop y m d = (if m < 11 \<and> d \<ge> month_len y m then month_loop y (Suc m) (d - month_len y m) else (m, d))"
  by pat_completeness auto
termination
  by (relation "measure (\<lambda>(y, m, d). 11 - m)") auto

declare year_loop.simps [simp del] month_loop.simps [simp del]

record tm =
  tm_sec :: int
  tm_min :: int
  tm_hour :: int
  tm_mday :: int
  tm_mon :: int
  tm_year :: int
  tm_wday :: int

text \<open>The calendar repeats after 400 years. The year must fit into an \<open>int\<close>.\<close>

definition gmtime :: "int \<Rightarrow> tm option" where
  "gmtime t = do {
     let days = t div 86400;
     let s = t mod 86400;
     let (y, d) = year_loop 1970 (days mod 146097);
     let year = y + 400 * (days div 146097) - 1900;
     let (m, d) = month_loop y 0 d;
     gw_assert (- (2 ^ 31) \<le> year \<and> year < 2 ^ 31);
     Some \<lparr>tm_sec = s mod 60, tm_min = s div 60 mod 60, tm_hour = s div 3600, tm_mday = d + 1, tm_mon = int m,
           tm_year = year, tm_wday = (days + 4) mod 7\<rparr> }"

text \<open>\<open>%kld%n\<close>: the number and the count of characters read; nothing if there is no number.\<close>

definition scan_long :: "nat \<Rightarrow> octets \<Rightarrow> (int \<times> nat) option" where
  "scan_long k s =
     (let s1 = dropWhile (\<lambda>c. isspace (uint c)) s;
          (n, v, e) = strtol (take k s1) 10
      in if n = 0 then None else Some (v, length s - length s1 + n))"

section \<open>Tables\<close>

definition wkday :: "octets list" where
  "wkday = map cstr [''Sun'', ''Mon'', ''Tue'', ''Wed'', ''Thu'', ''Fri'', ''Sat'']"

definition monthname :: "octets list" where
  "monthname = map cstr [''Jan'', ''Feb'', ''Mar'', ''Apr'', ''May'', ''Jun'', ''Jul'', ''Aug'', ''Sep'', ''Oct'', ''Nov'', ''Dec'']"

definition monthstart :: "int list" where
  "monthstart = [0, 31, 59, 90, 120, 151, 181, 212, 243, 273, 304, 334]"

definition MINUTE :: int where
  "MINUTE = 60"

definition HOUR :: int where
  "HOUR = 60 * MINUTE"

definition DAY :: int where
  "DAY = 24 * HOUR"

text \<open>Reading an array outside its bounds aborts.\<close>

definition at_index :: "'a list \<Rightarrow> int \<Rightarrow> 'a option" where
  "at_index xs i = (if 0 \<le> i \<and> i < int (length xs) then Some (xs ! nat i) else None)"

record universaltime =
  ut_day :: int
  ut_month :: int
  ut_year :: int
  ut_hour :: int
  ut_minute :: int
  ut_second :: int
  ut_offset_sec :: int

section \<open>Converting\<close>

text \<open>The leap years are counted, and multiplied by the seconds of a day, in an \<open>int\<close>, which must not overflow.\<close>

definition date_convert_universal :: "universaltime \<Rightarrow> int option" where
  "date_convert_universal t = do {
     let date = (ut_year t - 1970) * (365 * DAY);
     let y = (if ut_month t \<le> 1 then ut_year t - 1 else ut_year t);
     let leapyears = to_int (cdiv y 4 - cdiv y 100 + cdiv y 400 - 477);
     gw_assert (- (2 ^ 31) \<le> leapyears * DAY \<and> leapyears * DAY < 2 ^ 31);
     let date = date + leapyears * DAY;
     start \<leftarrow> at_index monthstart (ut_month t);
     let date = date + start * DAY;
     let date = date + (ut_day t - 1) * DAY;
     let date = date + ut_hour t * HOUR;
     let date = date + ut_minute t * MINUTE;
     let date = date + ut_second t;
     Some (date - ut_offset_sec t) }"

text \<open>
  \<open>unixtime\<close> is an \<open>unsigned long\<close> that is passed as a \<open>time_t\<close>. The buffer has 30 octets, the
  terminating one included.
\<close>

definition date_format_http :: "64 word \<Rightarrow> octets option option" where
  "date_format_http unixtime = do {
     tm \<leftarrow> gmtime (sint unixtime);
     if tm_wday tm < 0 \<or> tm_wday tm > 6 \<or> tm_mday tm < 0 \<or> tm_mday tm > 31 \<or> tm_mon tm < 0 \<or> tm_mon tm > 11 \<or>
        tm_year tm < 0 \<or> tm_hour tm < 0 \<or> tm_hour tm > 23 \<or> tm_min tm < 0 \<or> tm_min tm > 59 \<or> tm_sec tm < 0 \<or> tm_sec tm > 61
     then Some None
     else do {
       wd \<leftarrow> at_index wkday (tm_wday tm);
       mn \<leftarrow> at_index monthname (tm_mon tm);
       let buffer = wd @ cstr '', '' @ dec_pad 2 (tm_mday tm) @ cstr '' '' @ mn @ cstr '' '' @ dec_pad 4 (tm_year tm + 1900) @ cstr '' '' @
         dec_pad 2 (tm_hour tm) @ cstr '':'' @ dec_pad 2 (tm_min tm) @ cstr '':'' @ dec_pad 2 (tm_sec tm) @ cstr '' GMT'';
       gw_assert (length buffer < 30);
       Some (Some buffer) } }"

section \<open>Parsing HTTP dates\<close>

text \<open>
  A number that must end at a given position; the outer \<open>None\<close> of the parsers is an abort, the
  inner one the jump to \<open>error\<close>.
\<close>

definition number_at :: "octets \<Rightarrow> int \<Rightarrow> int \<Rightarrow> int option option" where
  "number_at date pos endpos = do {
     (r, v) \<leftarrow> octstr_parse_long date pos 10;
     Some (if r = endpos then v else None) }"

text \<open>Reading a number and going on with it.\<close>

definition with_number :: "octets \<Rightarrow> int \<Rightarrow> int \<Rightarrow> (int \<Rightarrow> 'a option option) \<Rightarrow> 'a option option" where
  "with_number date pos endpos f = do {
     v \<leftarrow> number_at date pos endpos;
     case v of None \<Rightarrow> Some None | Some v \<Rightarrow> f v }"

definition parse_rfc1123 :: "octets \<Rightarrow> int \<Rightarrow> (octets \<times> universaltime) option option" where
  "parse_rfc1123 date pos =
     (if oct_len date - pos < strlen (cstr ''06 Nov 1994 08:49:37 GMT'') then Some None
      else with_number date pos (pos + 2) (\<lambda>d. do {
        monthstr \<leftarrow> oct_copy date (pos + 3) 3;
        with_number date (pos + 7) (pos + 11) (\<lambda>y.
        with_number date (pos + 12) (pos + 14) (\<lambda>h.
        with_number date (pos + 15) (pos + 17) (\<lambda>mi.
        with_number date (pos + 18) (pos + 20) (\<lambda>s.
          Some (Some (monthstr, \<lparr>ut_day = d, ut_month = 0, ut_year = y, ut_hour = h, ut_minute = mi, ut_second = s, ut_offset_sec = 0\<rparr>)))))) }))"

definition parse_rfc850 :: "octets \<Rightarrow> int \<Rightarrow> (octets \<times> universaltime) option option" where
  "parse_rfc850 date pos =
     (if oct_len date - pos < strlen (cstr ''06-Nov-94 08:49:37 GMT'') then Some None
      else with_number date pos (pos + 2) (\<lambda>d. do {
        monthstr \<leftarrow> oct_copy date (pos + 3) 3;
        with_number date (pos + 7) (pos + 9) (\<lambda>y.
        let y = (if y > 60 then y + 1900 else y + 2000) in
        with_number date (pos + 10) (pos + 12) (\<lambda>h.
        with_number date (pos + 13) (pos + 15) (\<lambda>mi.
        with_number date (pos + 16) (pos + 18) (\<lambda>s.
          Some (Some (monthstr, \<lparr>ut_day = d, ut_month = 0, ut_year = y, ut_hour = h, ut_minute = mi, ut_second = s, ut_offset_sec = 0\<rparr>)))))) }))"

definition parse_asctime :: "octets \<Rightarrow> int \<Rightarrow> (octets \<times> universaltime) option option" where
  "parse_asctime date pos =
     (if oct_len date - pos < strlen (cstr '' 6 08:49:37 1994'') then Some None
      else do {
        monthstr \<leftarrow> oct_copy date pos 3;
        with_number date (pos + 4) (pos + 6) (\<lambda>d.
        with_number date (pos + 7) (pos + 9) (\<lambda>h.
        with_number date (pos + 10) (pos + 12) (\<lambda>mi.
        with_number date (pos + 13) (pos + 15) (\<lambda>s.
        with_number date (pos + 16) (pos + 20) (\<lambda>y.
          Some (Some (monthstr, \<lparr>ut_day = d, ut_month = 0, ut_year = y, ut_hour = h, ut_minute = mi, ut_second = s, ut_offset_sec = 0\<rparr>))))))) })"

text \<open>The loop over the month names; 12 if there is none.\<close>

definition month_index :: "octets \<Rightarrow> nat" where
  "month_index monthstr = length (takeWhile (\<lambda>m. oct_str_compare monthstr m \<noteq> 0) monthname)"

definition date_parse_http :: "octets \<Rightarrow> int option" where
  "date_parse_http date = do {
     pos \<leftarrow> oct_search_char date 32 0;
     if pos < 0 \<or> pos = oct_len date - 1 then Some (-1)
     else do {
       let pos = pos + 1;
       r \<leftarrow> (if isdigit (oct_get date pos) \<and> oct_get date (pos + 2) = 32 then parse_rfc1123 date pos
            else if isdigit (oct_get date pos) \<and> oct_get date (pos + 2) = 45 then parse_rfc850 date pos
            else parse_asctime date pos);
       case r of None \<Rightarrow> Some (-1)
       | Some (monthstr, t) \<Rightarrow>
           if month_index monthstr = 12 then Some (-1)
           else date_convert_universal (t\<lparr>ut_month := int (month_index monthstr), ut_offset_sec := 0\<rparr>) } }"

section \<open>ISO dates\<close>

text \<open>
  The pointers \<open>p\<close> and \<open>q\<close> into the string are positions; behind the last octet there is a NUL,
  where a scan stops.
\<close>

definition char_at :: "octets \<Rightarrow> nat \<Rightarrow> int" where
  "char_at s p = (if p < length s then uint (s ! p) else 0)"

definition text_at :: "octets \<Rightarrow> nat \<Rightarrow> octets" where
  "text_at s p = takeWhile (\<lambda>b. b \<noteq> 0) (drop p s)"

function skip_until :: "octets \<Rightarrow> nat \<Rightarrow> nat \<Rightarrow> nat" where
  "skip_until s p q = (if p < q \<and> \<not> gw_isdigit (char_at s p) then skip_until s (Suc p) q else p)"
  by pat_completeness auto
termination
  by (relation "measure (\<lambda>(s, p, q). q - p)") auto

function skip_nondigits :: "octets \<Rightarrow> nat \<Rightarrow> nat" where
  "skip_nondigits s p = (if char_at s p \<noteq> 0 \<and> \<not> gw_isdigit (char_at s p) then skip_nondigits s (Suc p) else p)"
  by pat_completeness auto
termination
  by (relation "measure (\<lambda>(s, p). length s - p)") (auto simp: char_at_def split: if_splits)

declare skip_until.simps [simp del] skip_nondigits.simps [simp del]

text \<open>The time zone, with \<open>p\<close> behind the seconds and their fraction.\<close>

definition iso_zone :: "universaltime \<Rightarrow> octets \<Rightarrow> nat \<Rightarrow> int \<times> universaltime" where
  "iso_zone ut os p =
     (if char_at os p = 0 then (0, ut)
      else let plus = char_at os p; p = Suc p in
        if plus = 90 then (0, ut)
        else (case scan_long 2 (text_at os p) of None \<Rightarrow> (-1, ut)
          | Some (hh, n) \<Rightarrow>
              let p = skip_nondigits os (p + n);
                  mi = (case scan_long 2 (text_at os p) of None \<Rightarrow> 0 | Some (mi, n) \<Rightarrow> mi);
                  off = hh * HOUR + mi * MINUTE
              in (0, ut\<lparr>ut_offset_sec := (if plus = 45 then - off else off)\<rparr>)))"

definition iso_time :: "universaltime \<Rightarrow> octets \<Rightarrow> nat \<Rightarrow> int \<times> universaltime" where
  "iso_time ut os p =
     (let p = skip_nondigits os p in
      case scan_long 2 (text_at os p) of None \<Rightarrow> (0, ut)
      | Some (h, n) \<Rightarrow>
          let ut = ut\<lparr>ut_hour := h\<rparr>; p = skip_nondigits os (p + n) in
          (case scan_long 2 (text_at os p) of None \<Rightarrow> (0, ut)
           | Some (mi, n) \<Rightarrow>
               let ut = ut\<lparr>ut_minute := mi\<rparr>; p = skip_nondigits os (p + n) in
               (case scan_long 2 (text_at os p) of None \<Rightarrow> (0, ut)
                | Some (s, n) \<Rightarrow>
                    let ut = ut\<lparr>ut_second := s\<rparr>; p = p + n in
                    if char_at os p = 46 then
                      (case scan_long (length os) (text_at os (Suc p)) of None \<Rightarrow> (0, ut)
                       | Some (fract, n) \<Rightarrow> iso_zone ut os (Suc p + n))
                    else iso_zone ut os p)))"

text \<open>The return value and the structure.\<close>

definition date_parse_iso :: "universaltime \<Rightarrow> octets \<Rightarrow> (int \<times> universaltime) option" where
  "date_parse_iso ut os = do {
     let ut = ut\<lparr>ut_month := 0, ut_day := 1, ut_hour := 0, ut_minute := 0, ut_second := 0, ut_offset_sec := 0\<rparr>;
     n \<leftarrow> oct_search_char os 84 0;
     let q = (if n \<ge> 0 then nat n else length os);
     case scan_long 4 (text_at os 0) of None \<Rightarrow> Some (-1, ut)
     | Some (y, n) \<Rightarrow>
         let ut = ut\<lparr>ut_year := (if y < 70 then y + 2000 else if y < 100 then y + 1900 else y)\<rparr>; p = skip_until os n q in
         (case scan_long 2 (text_at os p) of None \<Rightarrow> Some (0, ut)
          | Some (m, n) \<Rightarrow>
              let ut = ut\<lparr>ut_month := (if m > 0 then m - 1 else m)\<rparr>; p = skip_until os (p + n) q in
              (case scan_long 2 (text_at os p) of None \<Rightarrow> Some (0, ut)
               | Some (d, n) \<Rightarrow>
                   let ut = ut\<lparr>ut_day := d\<rparr> in
                   if char_at os q = 84 then Some (iso_time ut os (Suc q)) else Some (0, ut))) }"

definition date_create_iso :: "int \<Rightarrow> octets option" where
  "date_create_iso unixtime = do {
     tm \<leftarrow> gmtime unixtime;
     Some (decimal (tm_year tm + 1900) @ cstr ''-'' @ dec_pad 2 (tm_mon tm + 1) @ cstr ''-'' @ dec_pad 2 (tm_mday tm) @ cstr ''T'' @
       dec_pad 2 (tm_hour tm) @ cstr '':'' @ dec_pad 2 (tm_min tm) @ cstr '':'' @ dec_pad 2 (tm_sec tm) @ cstr ''Z'') }"

section \<open>The calendar\<close>

text \<open>Leap years up to a year, and days from the first day of year 1 to the first day of a year.\<close>

definition leaps :: "int \<Rightarrow> int" where
  "leaps y = y div 4 - y div 100 + y div 400"

definition days_to :: "int \<Rightarrow> int" where
  "days_to y = 365 * (y - 1) + leaps (y - 1)"

lemma div_step:
  assumes "0 < (k :: int)"
  shows "y div k = (y - 1) div k + (if y mod k = 0 then 1 else 0)"
proof (cases "y mod k = 0")
  case True
  have "y - 1 = k * (y div k - 1) + (k - 1)" using True mult_div_mod_eq [of k y] by (simp add: right_diff_distrib)
  then have "(y - 1) div k = y div k - 1" by (rule int_div_pos_eq) (use assms in simp_all)
  then show ?thesis using True by simp
next
  case False
  have "y - 1 = k * (y div k) + (y mod k - 1)" using mult_div_mod_eq [of k y] by simp
  then have "(y - 1) div k = y div k"
    by (rule int_div_pos_eq) (use False assms pos_mod_bound [of k y] pos_mod_sign [of k y] in linarith)+
  then show ?thesis using False by simp
qed

lemma mod_400: "y mod 400 = 0 \<Longrightarrow> y mod 100 = 0" "y mod 100 = 0 \<Longrightarrow> y mod 4 = 0" for y :: int
  using mod_mod_cancel [of 100 400 y] mod_mod_cancel [of 4 100 y] by simp_all

lemma leaps_arith:
  "a1 = a + x \<Longrightarrow> b1 = b + y \<Longrightarrow> c1 = c + z \<Longrightarrow> a1 - b1 + c1 = (a - b + c) + (x - y + z)" for a b c :: int
  by simp

lemma leaps_step: "leaps y = leaps (y - 1) + (if leap y then 1 else 0)"
proof -
  define p4 p100 p400 where "p4 = (y mod 4 = 0)" "p100 = (y mod 100 = 0)" "p400 = (y mod 400 = 0)"
  have "leaps y = leaps (y - 1) + ((if p4 then 1 else 0) - (if p100 then 1 else 0) + (if p400 then 1 else 0))"
    unfolding leaps_def p4_p100_p400_def by (rule leaps_arith; rule div_step, simp)
  moreover have "p400 \<longrightarrow> p100" "p100 \<longrightarrow> p4" unfolding p4_p100_p400_def by (intro impI, erule mod_400)+
  moreover have "leap y \<longleftrightarrow> p4 \<and> (\<not> p100 \<or> p400)" by (simp only: leap_def p4_p100_p400_def)
  ultimately show ?thesis by (cases p4; cases p100; cases p400) simp_all
qed

lemma days_to_step: "days_to (y + 1) = days_to y + year_len y"
  using leaps_step [of y] by (simp add: days_to_def year_len_def)

lemma leap_cycle: "leap (y + 400 * c) = leap y" "leaps (y + 400 * c) = leaps y + 97 * c"
proof -
  have "(y + 400 * c) mod 4 = y mod 4" "(y + 400 * c) mod 100 = y mod 100" "(y + 400 * c) mod 400 = y mod 400"
    using mod_mult_self2 [of y 4 "100 * c"] mod_mult_self2 [of y 100 "4 * c"] mod_mult_self2 [of y 400 c] by simp_all
  then show "leap (y + 400 * c) = leap y" by (simp only: leap_def)
  have "(y + 400 * c) div 4 = 100 * c + y div 4" "(y + 400 * c) div 100 = 4 * c + y div 100" "(y + 400 * c) div 400 = c + y div 400"
    using div_mult_self2 [of 4 y "100 * c"] div_mult_self2 [of 100 y "4 * c"] div_mult_self2 [of 400 y c] by simp_all
  then show "leaps (y + 400 * c) = leaps y + 97 * c" by (simp only: leaps_def)
qed

lemma year_loop_days:
  "0 \<le> d \<Longrightarrow> year_loop y d = (y1, d1) \<Longrightarrow> days_to y1 + d1 = days_to y + d \<and> 0 \<le> d1 \<and> d1 < year_len y1 \<and> y \<le> y1"
proof (induction y d rule: year_loop.induct)
  case (1 y d)
  show ?case
  proof (cases "d \<ge> year_len y")
    case True
    then have "year_loop (y + 1) (d - year_len y) = (y1, d1)" using 1(3) by (simp add: year_loop.simps [of y d])
    with 1(1) [OF True] True days_to_step [of y] show ?thesis by simp
  next
    case False
    then show ?thesis using 1(2,3) by (simp add: year_loop.simps [of y d])
  qed
qed

text \<open>Day of the year of the first day of a month.\<close>

definition month_day :: "int \<Rightarrow> nat \<Rightarrow> int" where
  "month_day y m = monthstart ! m + (if 2 \<le> m \<and> leap y then 1 else 0)"

lemma month_cases: "m < 11 \<Longrightarrow> m = 0 \<or> m = 1 \<or> m = 2 \<or> m = 3 \<or> m = 4 \<or> m = 5 \<or> m = 6 \<or> m = 7 \<or> m = 8 \<or> m = 9 \<or> m = 10" for m :: nat
  by arith

lemma month_day_step:
  assumes "m < 11"
  shows "month_day y (Suc m) = month_day y m + month_len y m"
  using month_cases [OF assms] by (elim disjE) (simp_all add: month_day_def monthstart_def month_len_def)

lemma month_loop_days:
  "month_loop y m d = (m1, d1) \<Longrightarrow> m \<le> 11 \<Longrightarrow> 0 \<le> d \<Longrightarrow> d < year_len y - month_day y m \<Longrightarrow>
   month_day y m1 + d1 = month_day y m + d \<and> m1 \<le> 11 \<and> 0 \<le> d1 \<and> d1 < month_len y m1"
proof (induction y m d rule: month_loop.induct)
  case (1 y m d)
  show ?case
  proof (cases "m < 11 \<and> d \<ge> month_len y m")
    case True
    with 1 month_day_step [of m y] show ?thesis by (auto simp: month_loop.simps [of y m d])
  next
    case False
    then have r: "m1 = m" "d1 = d" using 1(2) by (auto simp: month_loop.simps [of y m d])
    have "d < month_len y m"
    proof (cases "m = 11")
      case True
      then show ?thesis using 1(5) by (simp add: month_day_def monthstart_def month_len_def year_len_def split: if_splits)
    next
      case F: False
      then show ?thesis using False 1(3) by simp
    qed
    then show ?thesis using 1 by (simp add: r)
  qed
qed

section \<open>Breaking down and converting back\<close>

definition good_tm :: "tm \<Rightarrow> bool" where
  "good_tm tm \<longleftrightarrow> 0 \<le> tm_wday tm \<and> tm_wday tm \<le> 6 \<and> 1 \<le> tm_mday tm \<and> tm_mday tm \<le> 31 \<and> 0 \<le> tm_mon tm \<and> tm_mon tm \<le> 11 \<and>
     0 \<le> tm_hour tm \<and> tm_hour tm \<le> 23 \<and> 0 \<le> tm_min tm \<and> tm_min tm \<le> 59 \<and> 0 \<le> tm_sec tm \<and> tm_sec tm \<le> 59"

definition ut_of :: "tm \<Rightarrow> universaltime" where
  "ut_of tm = \<lparr>ut_day = tm_mday tm, ut_month = tm_mon tm, ut_year = tm_year tm + 1900, ut_hour = tm_hour tm,
     ut_minute = tm_min tm, ut_second = tm_sec tm, ut_offset_sec = 0\<rparr>"

text \<open>Days since 1970 of a date.\<close>

definition days_of :: "int \<Rightarrow> nat \<Rightarrow> int \<Rightarrow> int" where
  "days_of y m d = days_to y + month_day y m + d - days_to 1970"

lemma days_to_1970: "days_to 1970 = 719162"
  by (simp add: days_to_def leaps_def)

lemma leaps_bound: "0 \<le> y \<Longrightarrow> 0 \<le> leaps y \<and> leaps y \<le> y"
proof (induction y rule: int_ge_induct)
  case (step y)
  then show ?case using leaps_step [of "y + 1"] by (simp split: if_splits)
qed (simp add: leaps_def)

lemma convert_days:
  assumes "1 \<le> ut_year u" "ut_year u \<le> 9999" "ut_month u = int m" "m \<le> 11" "ut_offset_sec u = 0"
  shows "date_convert_universal u =
    Some (days_of (ut_year u) m (ut_day u - 1) * 86400 + ut_hour u * 3600 + ut_minute u * 60 + ut_second u)"
proof -
  let ?y = "if ut_month u \<le> 1 then ut_year u - 1 else ut_year u"
  have l: "cdiv ?y 4 - cdiv ?y 100 + cdiv ?y 400 = leaps ?y" using assms(1) by (simp add: leaps_def)
  have "0 \<le> ?y" "?y \<le> 9999" using assms(1,2) by simp_all
  then have b: "0 \<le> leaps ?y \<and> leaps ?y \<le> 9999" using leaps_bound [of ?y] by linarith
  then have ti: "to_int (leaps ?y - 477) = leaps ?y - 477" by (intro to_int_id) simp_all
  have "at_index monthstart (ut_month u) = Some (monthstart ! m)"
    using assms(3,4) by (simp add: at_index_def monthstart_def)
  then have "date_convert_universal u = Some ((ut_year u - 1970) * (365 * DAY) + (leaps ?y - 477) * DAY +
    monthstart ! m * DAY + (ut_day u - 1) * DAY + ut_hour u * HOUR + ut_minute u * MINUTE + ut_second u)"
    using assms(5) b by (simp only: date_convert_universal_def Let_def l ti gw_assert_def bind.bind_lunit) (simp add: DAY_def HOUR_def MINUTE_def)
  moreover have "leaps ?y = leaps (ut_year u - 1) + (if 2 \<le> m \<and> leap (ut_year u) then 1 else 0)"
    using leaps_step [of "ut_year u"] assms(3) by auto
  ultimately show ?thesis
    by (simp only: days_of_def days_to_1970 month_day_def DAY_def HOUR_def MINUTE_def) (simp add: days_to_def)
qed

lemma month_len_31: "m \<le> 11 \<Longrightarrow> month_len y m \<le> 31"
  using month_cases [of m] by (cases "m = 11") (auto simp: month_len_def)

lemma mod_le: "0 < k \<Longrightarrow> x mod k \<le> k - 1" for x k :: int
  by simp

lemma sixties: "a * 60 + b = q \<Longrightarrow> a * 3600 + b * 60 = q * 60" for a b q :: int
  by (auto simp: algebra_simps)

lemma hms_ok:
  assumes "0 \<le> s" "s < (86400 :: int)"
  shows "0 \<le> s div 3600" "s div 3600 \<le> 23" "s div 3600 * 3600 + s div 60 mod 60 * 60 + s mod 60 = s"
proof -
  show "0 \<le> s div 3600" using assms(1) by (simp add: pos_imp_zdiv_nonneg_iff)
  show "s div 3600 \<le> 23" using zdiv_mono1 [of s 86399 3600] assms(2) by simp
  have "s div 3600 = s div 60 div 60" using zdiv_zmult2_eq [of 60 s 60] by simp
  moreover have "q div 60 * 3600 + q mod 60 * 60 = q * 60" for q :: int
    using sixties [OF div_mult_mod_eq [of q 60]] .
  ultimately show "s div 3600 * 3600 + s div 60 mod 60 * 60 + s mod 60 = s" using div_mult_mod_eq [of s 60] by simp
qed

lemma days_of_cycle: "days_of (y + 400 * c) m e = days_of y m e + 146097 * c"
proof -
  have "leaps (y + 400 * c - 1) = leaps (y - 1) + 97 * c" using leap_cycle(2) [of "y - 1" c] by (simp add: algebra_simps)
  then show ?thesis using leap_cycle(1) [of y c] by (simp add: days_of_def month_day_def days_to_def algebra_simps)
qed

text \<open>The second a broken-down time stands for.\<close>

definition secs_of :: "tm \<Rightarrow> int" where
  "secs_of tm = days_of (tm_year tm + 1900) (nat (tm_mon tm)) (tm_mday tm - 1) * 86400 + tm_hour tm * 3600 + tm_min tm * 60 + tm_sec tm"

lemma secs_parts:
  "days_of y m e = days \<Longrightarrow> h * 3600 + mi * 60 + sec = s \<Longrightarrow> days * 86400 + s = t \<Longrightarrow>
   secs_of \<lparr>tm_sec = sec, tm_min = mi, tm_hour = h, tm_mday = e + 1, tm_mon = int m, tm_year = y - 1900, tm_wday = w\<rparr> = t"
  by (simp add: secs_of_def)

lemma good_parts:
  "0 \<le> w \<Longrightarrow> w \<le> 6 \<Longrightarrow> 0 \<le> e \<Longrightarrow> e + 1 \<le> 31 \<Longrightarrow> m \<le> 11 \<Longrightarrow> 0 \<le> h \<Longrightarrow> h \<le> 23 \<Longrightarrow>
   0 \<le> mi \<Longrightarrow> mi \<le> 59 \<Longrightarrow> 0 \<le> sec \<Longrightarrow> sec \<le> 59 \<Longrightarrow>
   good_tm \<lparr>tm_sec = sec, tm_min = mi, tm_hour = h, tm_mday = e + 1, tm_mon = int m, tm_year = y, tm_wday = w\<rparr>"
  by (simp add: good_tm_def)

lemma split_time:
  assumes "0 \<le> (t :: int)"
  obtains D S C R where "t div 86400 = D" "t mod 86400 = S" "D div 146097 = C" "D mod 146097 = R"
    "D * 86400 + S = t" "0 \<le> S" "S < 86400" "C * 146097 + R = D" "0 \<le> R" "R < 146097" "0 \<le> C"
proof -
  have "0 \<le> t div 86400" by (rule div_int_pos_iff [THEN iffD2]) (use assms in simp)
  then have "0 \<le> t div 86400 div 146097" by (intro div_int_pos_iff [THEN iffD2]) simp
  then show ?thesis
    by (rule that [OF refl refl refl refl div_mult_mod_eq pos_mod_sign pos_mod_bound div_mult_mod_eq pos_mod_sign pos_mod_bound, rotated 4]) simp_all
qed

lemma gmtime_ok:
  assumes "0 \<le> t" "gmtime t = Some tm"
  shows "good_tm tm \<and> 70 \<le> tm_year tm \<and> secs_of tm = t"
proof -
  obtain D S C R where e: "t div 86400 = D" "t mod 86400 = S" "D div 146097 = C" "D mod 146097 = R"
    and t: "D * 86400 + S = t" "0 \<le> S" "S < 86400" "C * 146097 + R = D" "0 \<le> R" "R < 146097" "0 \<le> C"
    using assms(1) by (rule split_time)
  obtain y d where yd: "year_loop 1970 R = (y, d)" by (cases "year_loop 1970 R")
  obtain m e where me: "month_loop y 0 d = (m, e)" by (cases "month_loop y 0 d")
  have tm: "tm = \<lparr>tm_sec = S mod 60, tm_min = S div 60 mod 60, tm_hour = S div 3600, tm_mday = e + 1, tm_mon = int m,
    tm_year = y + 400 * C - 1900, tm_wday = (D + 4) mod 7\<rparr>"
    using assms(2) by (auto simp: gmtime_def e yd me gw_assert_def Let_def split: if_splits)
  have Y: "days_to y + d = days_to 1970 + R" "0 \<le> d" "d < year_len y" "1970 \<le> y"
    using year_loop_days [OF t(5) yd] by simp_all
  have M: "month_day y m + e = d" "m \<le> 11" "0 \<le> e" "e < month_len y m"
    using month_loop_days [OF me] Y by (simp_all add: month_day_def monthstart_def)
  have e31: "e + 1 \<le> 31" using M(4) month_len_31 [OF M(2), of y] by linarith
  have r: "0 \<le> x mod 60" "x mod 60 \<le> 59" "0 \<le> x mod 7" "x mod 7 \<le> 6" for x :: int
    using mod_le [of 60 x] mod_le [of 7 x] by simp_all
  note hms = hms_ok [OF t(2,3)]
  have good: "good_tm tm" unfolding tm by (rule good_parts [OF r(3,4) M(3) e31 M(2) hms(1,2) r(1,2) r(1,2)])
  have "days_of (y + 400 * C) m e = days_of y m e + 146097 * C" by (rule days_of_cycle)
  moreover have "days_of y m e = R" using Y(1) M(1) by (simp add: days_of_def)
  ultimately have "days_of (y + 400 * C) m e = D" using t(4) by simp
  then have "secs_of tm = t" unfolding tm using hms(3) t(1) by (rule secs_parts)
  moreover have "70 \<le> tm_year tm" unfolding tm using Y(4) t(7) by simp
  ultimately show ?thesis using good by blast
qed

lemma gmtime_convert:
  assumes "0 \<le> t" "gmtime t = Some tm" "tm_year tm + 1900 \<le> 9999"
  shows "date_convert_universal (ut_of tm) = Some t"
proof -
  have "nat (tm_mon tm) \<le> 11" using gmtime_ok [OF assms(1,2)] by (simp add: good_tm_def nat_le_iff)
  then show ?thesis using convert_days [of "ut_of tm" "nat (tm_mon tm)"] gmtime_ok [OF assms(1,2)] assms(3)
    by (simp add: ut_of_def good_tm_def secs_of_def)
qed

section \<open>Reading back the formatted date\<close>

lemma with_number_digits:
  assumes "drop p s = ds @ ys" "digits ds" "ds \<noteq> []" "length ds \<le> 9" "ys = [] \<or> \<not> isdigit (uint (hd ys))"
  shows "with_number s (int p) (int (p + length ds)) f = f (dv ds)"
proof -
  have "p < length s" using assms(1,3) by (metis append_is_Nil_conv drop_all not_le)
  then have "octstr_parse_long s (int p) 10 = Some (int p + int (length ds), Some (dv ds))"
    using assms(3) by (simp add: octstr_parse_long_def assms(1) strtol_digits [OF assms(2-5)])
  then show ?thesis by (simp add: with_number_def number_at_def)
qed

lemma date_parse_http_digits:
  assumes "32 \<notin> set [w1, w2, w3]" "month_index [m1, m2, m3] \<noteq> 12"
    and "digits [a, b]" "digits [y1, y2, y3, y4]" "digits [h1, h2]" "digits [i1, i2]" "digits [s1, s2]"
  shows "date_parse_http [w1, w2, w3, 0x2C, 0x20, a, b, 0x20, m1, m2, m3, 0x20, y1, y2, y3, y4, 0x20, h1, h2, 0x3A, i1, i2, 0x3A, s1, s2,
      0x20, 0x47, 0x4D, 0x54] =
    date_convert_universal \<lparr>ut_day = dv [a, b], ut_month = int (month_index [m1, m2, m3]), ut_year = dv [y1, y2, y3, y4],
      ut_hour = dv [h1, h2], ut_minute = dv [i1, i2], ut_second = dv [s1, s2], ut_offset_sec = 0\<rparr>"
    (is "date_parse_http ?s = _")
proof -
  have "oct_search_char ?s 32 0 = Some 4"
    using find_char_first [of 32 "[w1, w2, w3, 0x2C]" "drop 5 ?s"] assms(1) by (simp add: oct_search_char_def)
  moreover have "isdigit (oct_get ?s 5)" "oct_get ?s 7 = 32" "oct_len ?s = 29" using assms(3) by (simp_all add: oct_get_def oct_len_def)
  moreover have "parse_rfc1123 ?s 5 = Some (Some ([m1, m2, m3], \<lparr>ut_day = dv [a, b], ut_month = 0, ut_year = dv [y1, y2, y3, y4],
      ut_hour = dv [h1, h2], ut_minute = dv [i1, i2], ut_second = dv [s1, s2], ut_offset_sec = 0\<rparr>))"
  proof -
    have n: "with_number ?s 5 7 f = f (dv [a, b])" "with_number ?s 12 16 f = f (dv [y1, y2, y3, y4])"
      "with_number ?s 17 19 f = f (dv [h1, h2])" "with_number ?s 20 22 f = f (dv [i1, i2])" "with_number ?s 23 25 f = f (dv [s1, s2])"
      for f :: "int \<Rightarrow> (octets \<times> universaltime) option option"
      using with_number_digits [of 5 ?s "[a, b]" "drop 7 ?s" f] with_number_digits [of 12 ?s "[y1, y2, y3, y4]" "drop 16 ?s" f]
        with_number_digits [of 17 ?s "[h1, h2]" "drop 19 ?s" f] with_number_digits [of 20 ?s "[i1, i2]" "drop 22 ?s" f]
        with_number_digits [of 23 ?s "[s1, s2]" "drop 25 ?s" f] assms(3-7)
      by (simp_all add: isdigit_def)
    show ?thesis by (simp add: parse_rfc1123_def oct_len_def strlen_def cstr_def n oct_copy_def)
  qed
  ultimately show ?thesis using assms(2) by (simp add: date_parse_http_def)
qed

text \<open>Of the tables, every week day and every month has three letters, and the months are found.\<close>

lemma wkday_ok:
  assumes "0 \<le> w" "w \<le> 6"
  obtains w1 w2 w3 where "at_index wkday w = Some [w1, w2, w3]" "32 \<notin> set [w1, w2, w3]"
proof -
  have "w = 0 \<or> w = 1 \<or> w = 2 \<or> w = 3 \<or> w = 4 \<or> w = 5 \<or> w = 6" using assms by arith
  then show ?thesis by (elim disjE) (use that in \<open>simp_all add: at_index_def wkday_def cstr_def\<close>)
qed

lemma monthname_ok:
  assumes "0 \<le> m" "m \<le> 11"
  obtains m1 m2 m3 where "at_index monthname m = Some [m1, m2, m3]" "int (month_index [m1, m2, m3]) = m"
proof -
  have "m = 0 \<or> m = 1 \<or> m = 2 \<or> m = 3 \<or> m = 4 \<or> m = 5 \<or> m = 6 \<or> m = 7 \<or> m = 8 \<or> m = 9 \<or> m = 10 \<or> m = 11" using assms by arith
  then show ?thesis
    by (elim disjE) (use that in \<open>simp_all add: at_index_def monthname_def month_index_def oct_str_compare_def strcmp_def cstr_def\<close>)
qed

lemma days_to_mono: "x \<le> y \<Longrightarrow> days_to x \<le> days_to y"
proof (induction y rule: int_ge_induct)
  case (step y)
  then show ?case using days_to_step [of y] by (simp add: year_len_def split: if_splits)
qed simp

lemma month_day_bounds:
  "m \<le> 11 \<Longrightarrow> 0 \<le> month_day y m \<and> month_day y m + 31 \<le> year_len y"
  using month_cases [of m] by (cases "m = 11") (auto simp: month_day_def monthstart_def year_len_def)

text \<open>The first second of the year 10000 separates the years of four digits from the longer ones.\<close>

lemma year_10000:
  assumes "0 \<le> t" "gmtime t = Some tm"
  shows "t < 253402300800 \<longleftrightarrow> tm_year tm + 1900 \<le> 9999"
proof -
  have g: "good_tm tm" "70 \<le> tm_year tm" "secs_of tm = t" using gmtime_ok [OF assms] by simp_all
  let ?y = "tm_year tm + 1900" and ?m = "nat (tm_mon tm)"
  have t: "t = days_of ?y ?m (tm_mday tm - 1) * 86400 + tm_hour tm * 3600 + tm_min tm * 60 + tm_sec tm"
    using g(3) by (simp add: secs_of_def)
  have "nat (tm_mon tm) \<le> 11" using g(1) by (simp add: good_tm_def nat_le_iff)
  note month_day_bounds [OF this, of ?y]
  then have d: "days_to ?y \<le> days_of ?y ?m (tm_mday tm - 1) + 719162" "days_of ?y ?m (tm_mday tm - 1) + 719162 < days_to (?y + 1)"
    using g(1) days_to_step [of ?y] by (simp_all add: days_of_def days_to_1970 good_tm_def year_len_def split: if_splits)
  have e: "days_to 10000 = 3652059" by (simp add: days_to_def leaps_def)
  show ?thesis
  proof (cases "?y \<le> 9999")
    case True
    then have "days_to (?y + 1) \<le> 3652059" using days_to_mono [of "?y + 1" 10000] e by simp
    then show ?thesis using True d g(1) unfolding good_tm_def t by linarith
  next
    case False
    then have "3652059 \<le> days_to ?y" using days_to_mono [of 10000 ?y] e by simp
    then show ?thesis using False d g(1) unfolding good_tm_def t by linarith
  qed
qed

lemma gmtime_some:
  assumes "0 \<le> t" "t < 253402300800"
  shows "\<exists>tm. gmtime t = Some tm"
proof -
  obtain D S C R where e: "t div 86400 = D" "t mod 86400 = S" "D div 146097 = C" "D mod 146097 = R"
    and t: "D * 86400 + S = t" "0 \<le> S" "S < 86400" "C * 146097 + R = D" "0 \<le> R" "R < 146097" "0 \<le> C"
    using assms(1) by (rule split_time)
  obtain y d where yd: "year_loop 1970 R = (y, d)" by (cases "year_loop 1970 R")
  have Y: "days_to y + d = 719162 + R" "0 \<le> d" "1970 \<le> y" using year_loop_days [OF t(5) yd] days_to_1970 by simp_all
  have "C \<le> 20" using t(1,2,4,5) assms(2) by linarith
  moreover have "y \<le> 2400"
  proof (rule ccontr)
    assume "\<not> y \<le> 2400"
    then have "days_to 2401 \<le> days_to y" by (intro days_to_mono) simp
    moreover have "days_to 2401 = 876582" by (simp add: days_to_def leaps_def)
    ultimately show False using Y t(6) by linarith
  qed
  ultimately show ?thesis using Y(3) t(7) by (simp add: gmtime_def e yd gw_assert_def Let_def split: prod.splits)
qed

lemma format_http_ok:
  assumes "0 \<le> sint u" "gmtime (sint u) = Some tm" "tm_year tm + 1900 \<le> 9999"
  shows "\<exists>s. date_format_http u = Some (Some s) \<and> length s = 29 \<and> date_parse_http s = Some (sint u)"
proof -
  have g: "good_tm tm" "70 \<le> tm_year tm" "date_convert_universal (ut_of tm) = Some (sint u)"
    using gmtime_ok [OF assms(1,2)] gmtime_convert [OF assms] by simp_all
  obtain w1 w2 w3 where w: "at_index wkday (tm_wday tm) = Some [w1, w2, w3]" "32 \<notin> set [w1, w2, w3]"
    using g(1) by (auto simp: good_tm_def intro: wkday_ok)
  obtain m1 m2 m3 where m: "at_index monthname (tm_mon tm) = Some [m1, m2, m3]" "int (month_index [m1, m2, m3]) = tm_mon tm"
    using g(1) by (auto simp: good_tm_def intro: monthname_ok)
  have b: "0 \<le> tm_mday tm" "tm_mday tm \<le> 99" "0 \<le> tm_hour tm" "tm_hour tm \<le> 99" "0 \<le> tm_min tm" "tm_min tm \<le> 99"
    "0 \<le> tm_sec tm" "tm_sec tm \<le> 99" "0 \<le> tm_year tm + 1900" using g(1,2) by (simp_all add: good_tm_def)
  obtain a c where d: "dec_pad 2 (tm_mday tm) = [a, c]" "digits [a, c]" "dv [a, c] = tm_mday tm" using b(1,2) by (rule dec_pad2)
  obtain y1 y2 y3 y4 where y: "dec_pad 4 (tm_year tm + 1900) = [y1, y2, y3, y4]" "digits [y1, y2, y3, y4]"
    "dv [y1, y2, y3, y4] = tm_year tm + 1900" using b(9) assms(3) by (rule dec_pad4)
  obtain h1 h2 where h: "dec_pad 2 (tm_hour tm) = [h1, h2]" "digits [h1, h2]" "dv [h1, h2] = tm_hour tm" using b(3,4) by (rule dec_pad2)
  obtain i1 i2 where i: "dec_pad 2 (tm_min tm) = [i1, i2]" "digits [i1, i2]" "dv [i1, i2] = tm_min tm" using b(5,6) by (rule dec_pad2)
  obtain s1 s2 where s: "dec_pad 2 (tm_sec tm) = [s1, s2]" "digits [s1, s2]" "dv [s1, s2] = tm_sec tm" using b(7,8) by (rule dec_pad2)
  let ?s = "[w1, w2, w3, 0x2C, 0x20, a, c, 0x20, m1, m2, m3, 0x20, y1, y2, y3, y4, 0x20, h1, h2, 0x3A, i1, i2, 0x3A, s1, s2, 0x20, 0x47, 0x4D, 0x54]"
  have "date_format_http u = Some (Some ?s)"
    using g(1,2) unfolding date_format_http_def assms(2) good_tm_def
    by (simp add: w(1) m(1) d(1) y(1) h(1) i(1) s(1) cstr_def)
  moreover have "month_index [m1, m2, m3] \<noteq> 12" using m(2) g(1) by (simp add: good_tm_def)
  then have "date_parse_http ?s = Some (sint u)"
    using date_parse_http_digits [OF w(2) _ d(2) y(2) h(2) i(2) s(2), of m1 m2 m3] g(3) by (simp add: ut_of_def d(3) y(3) h(3) i(3) s(3) m(2))
  ultimately show ?thesis by simp
qed

lemma format_http_overflow:
  assumes "0 \<le> sint u" "gmtime (sint u) = Some tm" "10000 \<le> tm_year tm + 1900"
  shows "date_format_http u = None"
proof -
  have g: "good_tm tm" "70 \<le> tm_year tm" using gmtime_ok [OF assms(1,2)] by simp_all
  obtain w1 w2 w3 where w: "at_index wkday (tm_wday tm) = Some [w1, w2, w3]"
    using g(1) by (auto simp: good_tm_def intro: wkday_ok)
  obtain m1 m2 m3 where m: "at_index monthname (tm_mon tm) = Some [m1, m2, m3]"
    using g(1) by (auto simp: good_tm_def intro: monthname_ok)
  have b: "length (dec_pad 2 (tm_mday tm)) = 2" "length (dec_pad 2 (tm_hour tm)) = 2" "length (dec_pad 2 (tm_min tm)) = 2"
    "length (dec_pad 2 (tm_sec tm)) = 2" using g by (simp_all add: good_tm_def dec_pad_digits(1))
  have "4 < length (dec_pad 4 (tm_year tm + 1900))" using dec_pad_4 [of 4 "tm_year tm + 1900"] assms(3) by simp
  then show ?thesis
    using g unfolding date_format_http_def assms(2) good_tm_def
    by (simp add: w m b cstr_def gw_assert_def)
qed

lemma scan_digits:
  assumes "digits ds" "ds \<noteq> []" "length ds = k" "k \<le> 9"
  shows "scan_long k (ds @ ys) = Some (dv ds, k)"
proof -
  have "\<not> isspace (uint (hd ds))" using assms(1,2) by (cases ds) (auto simp: isdigit_def isspace_def)
  then have d: "dropWhile (\<lambda>c. isspace (uint c)) (ds @ ys) = ds @ ys" using assms(2) by (cases ds) auto
  have "0 < k" using assms(2,3) by auto
  then show ?thesis using strtol_digits [OF assms(1,2), of "[]"] assms(3,4) by (simp add: scan_long_def d Let_def)
qed

lemma date_parse_iso_digits:
  assumes "digits [y1, y2, y3, y4]" "digits [m1, m2]" "digits [a, b]" "digits [h1, h2]" "digits [i1, i2]" "digits [s1, s2]"
    and "100 \<le> dv [y1, y2, y3, y4]" "0 < dv [m1, m2]"
  shows "date_parse_iso ut [y1, y2, y3, y4, 0x2D, m1, m2, 0x2D, a, b, 0x54, h1, h2, 0x3A, i1, i2, 0x3A, s1, s2, 0x5A] =
    Some (0, \<lparr>ut_day = dv [a, b], ut_month = dv [m1, m2] - 1, ut_year = dv [y1, y2, y3, y4], ut_hour = dv [h1, h2],
      ut_minute = dv [i1, i2], ut_second = dv [s1, s2], ut_offset_sec = 0\<rparr>)"
    (is "date_parse_iso ut ?s = _")
proof -
  have nz: "c \<noteq> 0" "c \<noteq> 84" if "isdigit (uint c)" for c :: byte using that by (auto simp: isdigit_def)
  have T: "oct_search_char ?s 84 0 = Some 10"
    using find_char_first [of 84 "[y1, y2, y3, y4, 0x2D, m1, m2, 0x2D, a, b]" "drop 11 ?s"] assms(1-3) nz
    by (simp add: oct_search_char_def)
  have full: "takeWhile (\<lambda>b. b \<noteq> 0) (drop p ?s) = drop p ?s" for p
  proof -
    have "0 \<notin> set ?s" using assms(1-6) nz(1) by auto
    then show ?thesis using set_drop_subset [of p ?s] by (subst takeWhile_eq_all_conv) blast
  qed
  have sc: "scan_long 4 (text_at ?s 0) = Some (dv [y1, y2, y3, y4], 4)" "scan_long 2 (text_at ?s 5) = Some (dv [m1, m2], 2)"
    "scan_long 2 (text_at ?s 8) = Some (dv [a, b], 2)" "scan_long 2 (text_at ?s 11) = Some (dv [h1, h2], 2)"
    "scan_long 2 (text_at ?s 14) = Some (dv [i1, i2], 2)" "scan_long 2 (text_at ?s 17) = Some (dv [s1, s2], 2)"
    using scan_digits [OF assms(1), of 4 "drop 4 ?s"] scan_digits [OF assms(2), of 2 "drop 7 ?s"] scan_digits [OF assms(3), of 2 "drop 10 ?s"]
      scan_digits [OF assms(4), of 2 "drop 13 ?s"] scan_digits [OF assms(5), of 2 "drop 16 ?s"] scan_digits [OF assms(6), of 2 "drop 19 ?s"]
    unfolding text_at_def full by simp_all
  have dg: "gw_isdigit (char_at ?s 5)" "gw_isdigit (char_at ?s 8)" "gw_isdigit (char_at ?s 11)" "gw_isdigit (char_at ?s 14)"
    "gw_isdigit (char_at ?s 17)" using assms(2-6) by (simp_all add: char_at_def gw_isdigit_def isdigit_def)
  have sk: "skip_until ?s 4 10 = 5" "skip_until ?s 7 10 = 8" "skip_nondigits ?s 11 = 11" "skip_nondigits ?s 13 = 14" "skip_nondigits ?s 16 = 17"
    using dg by (simp_all add: skip_until.simps [of _ 4] skip_until.simps [of _ 5] skip_until.simps [of _ 7] skip_until.simps [of _ 8]
      skip_nondigits.simps [of _ 11] skip_nondigits.simps [of _ 13] skip_nondigits.simps [of _ 14] skip_nondigits.simps [of _ 16]
      skip_nondigits.simps [of _ 17] char_at_def gw_isdigit_def)
      (simp_all add: isdigit_def)
  have ch: "char_at ?s 10 = 84" "char_at ?s 19 = 90" by (simp_all add: char_at_def)
  have "iso_time u ?s 11 = (0, u\<lparr>ut_hour := dv [h1, h2], ut_minute := dv [i1, i2], ut_second := dv [s1, s2]\<rparr>)" for u
    by (simp add: iso_time_def iso_zone_def sk sc ch)
  then show ?thesis using assms(7,8) by (simp add: date_parse_iso_def T sk sc ch)
qed

text \<open>
  C22: \<open>date_parse_http\<close> reads back the second that \<open>date_format_http\<close> has printed, for every time
  from 1970 to the end of the year 9999; from the year 10000 on the date is longer than the buffer of
  \<open>date_format_http\<close>, which is overrun.
\<close>

theorem date_http_roundtrip:
  assumes "0 \<le> sint unixtime"
  shows "if sint unixtime < 253402300800
    then \<exists>s. date_format_http unixtime = Some (Some s) \<and> length s = 29 \<and> date_parse_http s = Some (sint unixtime)
    else date_format_http unixtime = None"
proof (cases "gmtime (sint unixtime)")
  case None
  then show ?thesis using gmtime_some [OF assms] by (auto simp: date_format_http_def)
next
  case (Some tm)
  show ?thesis
  proof (cases "sint unixtime < 253402300800")
    case True
    then show ?thesis using format_http_ok [OF assms Some] year_10000 [OF assms Some] by simp
  next
    case False
    then show ?thesis using format_http_overflow [OF assms Some] year_10000 [OF assms Some] by simp
  qed
qed

theorem date_http_roundtrip_witness:
  "0 \<le> sint (784111777 :: 64 word) \<and> (\<exists>s. date_format_http 784111777 = Some (Some s) \<and> date_parse_http s = Some 784111777)"
  using date_http_roundtrip [of 784111777] by auto

text \<open>
  C30: \<open>date_parse_iso\<close> reads back what \<open>date_create_iso\<close> has printed: it returns 0 and sets the
  fields, whatever they were, to the time printed, for every time from 1970 to the end of 9999.
\<close>

theorem date_iso_roundtrip:
  assumes "0 \<le> t" and "t < 253402300800"
  shows "\<exists>s ut'. date_create_iso t = Some s \<and> date_parse_iso ut s = Some (0, ut') \<and> date_convert_universal ut' = Some t"
proof -
  obtain tm where tm: "gmtime t = Some tm" using gmtime_some [OF assms] by blast
  have y9: "tm_year tm + 1900 \<le> 9999" using year_10000 [OF assms(1) tm] assms(2) by simp
  have g: "good_tm tm" "70 \<le> tm_year tm" "date_convert_universal (ut_of tm) = Some t"
    using gmtime_ok [OF assms(1) tm] gmtime_convert [OF assms(1) tm y9] by simp_all
  have b: "0 \<le> tm_mday tm" "tm_mday tm \<le> 99" "0 \<le> tm_hour tm" "tm_hour tm \<le> 99" "0 \<le> tm_min tm" "tm_min tm \<le> 99"
    "0 \<le> tm_sec tm" "tm_sec tm \<le> 99" "0 \<le> tm_mon tm + 1" "tm_mon tm + 1 \<le> 99" "0 \<le> tm_year tm + 1900"
    using g(1,2) by (simp_all add: good_tm_def)
  obtain a c where d: "dec_pad 2 (tm_mday tm) = [a, c]" "digits [a, c]" "dv [a, c] = tm_mday tm" using b(1,2) by (rule dec_pad2)
  obtain m1 m2 where m: "dec_pad 2 (tm_mon tm + 1) = [m1, m2]" "digits [m1, m2]" "dv [m1, m2] = tm_mon tm + 1" using b(9,10) by (rule dec_pad2)
  obtain y1 y2 y3 y4 where y: "dec_pad 4 (tm_year tm + 1900) = [y1, y2, y3, y4]" "digits [y1, y2, y3, y4]"
    "dv [y1, y2, y3, y4] = tm_year tm + 1900" using b(11) y9 by (rule dec_pad4)
  obtain h1 h2 where h: "dec_pad 2 (tm_hour tm) = [h1, h2]" "digits [h1, h2]" "dv [h1, h2] = tm_hour tm" using b(3,4) by (rule dec_pad2)
  obtain i1 i2 where i: "dec_pad 2 (tm_min tm) = [i1, i2]" "digits [i1, i2]" "dv [i1, i2] = tm_min tm" using b(5,6) by (rule dec_pad2)
  obtain s1 s2 where s: "dec_pad 2 (tm_sec tm) = [s1, s2]" "digits [s1, s2]" "dv [s1, s2] = tm_sec tm" using b(7,8) by (rule dec_pad2)
  let ?s = "[y1, y2, y3, y4, 0x2D, m1, m2, 0x2D, a, c, 0x54, h1, h2, 0x3A, i1, i2, 0x3A, s1, s2, 0x5A]"
  have "date_create_iso t = Some ?s"
    using g(2) by (simp add: date_create_iso_def tm decimal_4 d(1) m(1) y(1) h(1) i(1) s(1) cstr_def)
  moreover have "date_parse_iso ut ?s = Some (0, ut_of tm)"
    using date_parse_iso_digits [OF y(2) m(2) d(2) h(2) i(2) s(2), of ut] g by (simp add: ut_of_def d(3) m(3) y(3) h(3) i(3) s(3) good_tm_def)
  ultimately show ?thesis using g(3) by auto
qed

theorem date_iso_roundtrip_witness:
  "\<exists>s ut'. date_create_iso 784111777 = Some s \<and>
    date_parse_iso \<lparr>ut_day = 0, ut_month = 0, ut_year = 0, ut_hour = 0, ut_minute = 0, ut_second = 0, ut_offset_sec = 0\<rparr> s = Some (0, ut') \<and>
    date_convert_universal ut' = Some 784111777"
  by (rule date_iso_roundtrip) simp_all

end
