(* ===== verification/Smpp_Def.thy ===== *)
theory Smpp_Def
  imports Main
begin

text \<open>
  The declarations of the SMPP protocol data units: \<open>gw/smsc/smpp_pdu.def\<close>, one definition for every
  \<open>PDU\<close> entry, and the tags of the optional parameters, \<open>gw/smsc/smpp_pdu_opt.def\<close>. Where the C code
  expands an entry with macros, the operations of theory \<open>Smpp_Pdu\<close> go through the list.
\<close>

text \<open>
  The field of an optional parameter is identified by the tag of the parameter, \<open>SMPP_##name\<close>, the
  other fields by numbers behind the tags. In one structure no two names have the same number.
\<close>

type_synonym smpp_name = int

abbreviation (input) SMPP_dest_addr_subunit :: smpp_name where "SMPP_dest_addr_subunit \<equiv> 0x0005"
abbreviation (input) SMPP_dest_network_type :: smpp_name where "SMPP_dest_network_type \<equiv> 0x0006"
abbreviation (input) SMPP_dest_bearer_type :: smpp_name where "SMPP_dest_bearer_type \<equiv> 0x0007"
abbreviation (input) SMPP_dest_telematics_id :: smpp_name where "SMPP_dest_telematics_id \<equiv> 0x0008"
abbreviation (input) SMPP_source_addr_subunit :: smpp_name where "SMPP_source_addr_subunit \<equiv> 0x000D"
abbreviation (input) SMPP_source_network_type :: smpp_name where "SMPP_source_network_type \<equiv> 0x000E"
abbreviation (input) SMPP_source_bearer_type :: smpp_name where "SMPP_source_bearer_type \<equiv> 0x000F"
abbreviation (input) SMPP_source_telematics_id :: smpp_name where "SMPP_source_telematics_id \<equiv> 0x0010"
abbreviation (input) SMPP_qos_time_to_live :: smpp_name where "SMPP_qos_time_to_live \<equiv> 0x0017"
abbreviation (input) SMPP_payload_type :: smpp_name where "SMPP_payload_type \<equiv> 0x0019"
abbreviation (input) SMPP_additional_status_info_text :: smpp_name where "SMPP_additional_status_info_text \<equiv> 0x001D"
abbreviation (input) SMPP_receipted_message_id :: smpp_name where "SMPP_receipted_message_id \<equiv> 0x001E"
abbreviation (input) SMPP_ms_msg_wait_facilities :: smpp_name where "SMPP_ms_msg_wait_facilities \<equiv> 0x0030"
abbreviation (input) SMPP_privacy_indicator :: smpp_name where "SMPP_privacy_indicator \<equiv> 0x0201"
abbreviation (input) SMPP_source_subaddress :: smpp_name where "SMPP_source_subaddress \<equiv> 0x0202"
abbreviation (input) SMPP_dest_subaddress :: smpp_name where "SMPP_dest_subaddress \<equiv> 0x0203"
abbreviation (input) SMPP_user_message_reference :: smpp_name where "SMPP_user_message_reference \<equiv> 0x0204"
abbreviation (input) SMPP_user_response_code :: smpp_name where "SMPP_user_response_code \<equiv> 0x0205"
abbreviation (input) SMPP_source_port :: smpp_name where "SMPP_source_port \<equiv> 0x020A"
abbreviation (input) SMPP_destination_port :: smpp_name where "SMPP_destination_port \<equiv> 0x020B"
abbreviation (input) SMPP_sar_msg_ref_num :: smpp_name where "SMPP_sar_msg_ref_num \<equiv> 0x020C"
abbreviation (input) SMPP_language_indicator :: smpp_name where "SMPP_language_indicator \<equiv> 0x020D"
abbreviation (input) SMPP_sar_total_segments :: smpp_name where "SMPP_sar_total_segments \<equiv> 0x020E"
abbreviation (input) SMPP_sar_segment_seqnum :: smpp_name where "SMPP_sar_segment_seqnum \<equiv> 0x020F"
abbreviation (input) SMPP_sc_interface_version :: smpp_name where "SMPP_sc_interface_version \<equiv> 0x0210"
abbreviation (input) SMPP_callback_num_pres_ind :: smpp_name where "SMPP_callback_num_pres_ind \<equiv> 0x0302"
abbreviation (input) SMPP_callback_num_atag :: smpp_name where "SMPP_callback_num_atag \<equiv> 0x0303"
abbreviation (input) SMPP_number_of_messages :: smpp_name where "SMPP_number_of_messages \<equiv> 0x0304"
abbreviation (input) SMPP_callback_num :: smpp_name where "SMPP_callback_num \<equiv> 0x0381"
abbreviation (input) SMPP_dpf_result :: smpp_name where "SMPP_dpf_result \<equiv> 0x0420"
abbreviation (input) SMPP_set_dpf :: smpp_name where "SMPP_set_dpf \<equiv> 0x0421"
abbreviation (input) SMPP_ms_availability_status :: smpp_name where "SMPP_ms_availability_status \<equiv> 0x0422"
abbreviation (input) SMPP_network_error_code :: smpp_name where "SMPP_network_error_code \<equiv> 0x0423"
abbreviation (input) SMPP_message_payload :: smpp_name where "SMPP_message_payload \<equiv> 0x0424"
abbreviation (input) SMPP_delivery_failure_reason :: smpp_name where "SMPP_delivery_failure_reason \<equiv> 0x0425"
abbreviation (input) SMPP_more_messages_to_send :: smpp_name where "SMPP_more_messages_to_send \<equiv> 0x0426"
abbreviation (input) SMPP_message_state :: smpp_name where "SMPP_message_state \<equiv> 0x0427"
abbreviation (input) SMPP_congestion_state :: smpp_name where "SMPP_congestion_state \<equiv> 0x0428"
abbreviation (input) SMPP_ussd_service_op :: smpp_name where "SMPP_ussd_service_op \<equiv> 0x0501"
abbreviation (input) SMPP_broadcast_channel_indicator :: smpp_name where "SMPP_broadcast_channel_indicator \<equiv> 0x0600"
abbreviation (input) SMPP_broadcast_content_type :: smpp_name where "SMPP_broadcast_content_type \<equiv> 0x0601"
abbreviation (input) SMPP_broadcast_content_type_info :: smpp_name where "SMPP_broadcast_content_type_info \<equiv> 0x0602"
abbreviation (input) SMPP_broadcast_message_class :: smpp_name where "SMPP_broadcast_message_class \<equiv> 0x0603"
abbreviation (input) SMPP_broadcast_rep_num :: smpp_name where "SMPP_broadcast_rep_num \<equiv> 0x0604"
abbreviation (input) SMPP_broadcast_frequency_interval :: smpp_name where "SMPP_broadcast_frequency_interval \<equiv> 0x0605"
abbreviation (input) SMPP_broadcast_area_identifier :: smpp_name where "SMPP_broadcast_area_identifier \<equiv> 0x0606"
abbreviation (input) SMPP_failed_broadcast_area_identifier :: smpp_name where "SMPP_failed_broadcast_area_identifier \<equiv> 0x0606"
abbreviation (input) SMPP_broadcast_error_status :: smpp_name where "SMPP_broadcast_error_status \<equiv> 0x0607"
abbreviation (input) SMPP_broadcast_area_success :: smpp_name where "SMPP_broadcast_area_success \<equiv> 0x0608"
abbreviation (input) SMPP_broadcast_end_time :: smpp_name where "SMPP_broadcast_end_time \<equiv> 0x0609"
abbreviation (input) SMPP_broadcast_service_group :: smpp_name where "SMPP_broadcast_service_group \<equiv> 0x060A"
abbreviation (input) SMPP_billing_identification :: smpp_name where "SMPP_billing_identification \<equiv> 0x060B"
abbreviation (input) SMPP_source_network_id :: smpp_name where "SMPP_source_network_id \<equiv> 0x060D"
abbreviation (input) SMPP_dest_network_id :: smpp_name where "SMPP_dest_network_id \<equiv> 0x060E"
abbreviation (input) SMPP_source_node_id :: smpp_name where "SMPP_source_node_id \<equiv> 0x060F"
abbreviation (input) SMPP_dest_node_id :: smpp_name where "SMPP_dest_node_id \<equiv> 0x0610"
abbreviation (input) SMPP_dest_addr_np_resolution :: smpp_name where "SMPP_dest_addr_np_resolution \<equiv> 0x0611"
abbreviation (input) SMPP_dest_addr_np_information :: smpp_name where "SMPP_dest_addr_np_information \<equiv> 0x0612"
abbreviation (input) SMPP_dest_addr_np_country :: smpp_name where "SMPP_dest_addr_np_country \<equiv> 0x0613"
abbreviation (input) SMPP_display_time :: smpp_name where "SMPP_display_time \<equiv> 0x1201"
abbreviation (input) SMPP_sms_signal :: smpp_name where "SMPP_sms_signal \<equiv> 0x1203"
abbreviation (input) SMPP_ms_validity :: smpp_name where "SMPP_ms_validity \<equiv> 0x1204"
abbreviation (input) SMPP_alert_on_message_delivery :: smpp_name where "SMPP_alert_on_message_delivery \<equiv> 0x130C"
abbreviation (input) SMPP_its_reply_type :: smpp_name where "SMPP_its_reply_type \<equiv> 0x1380"
abbreviation (input) SMPP_its_session_info :: smpp_name where "SMPP_its_session_info \<equiv> 0x1383"

abbreviation (input) command_id :: smpp_name where "command_id \<equiv> 65536"
abbreviation (input) command_status :: smpp_name where "command_status \<equiv> 65537"
abbreviation (input) sequence_number :: smpp_name where "sequence_number \<equiv> 65538"
abbreviation (input) system_id :: smpp_name where "system_id \<equiv> 65539"
abbreviation (input) password :: smpp_name where "password \<equiv> 65540"
abbreviation (input) system_type :: smpp_name where "system_type \<equiv> 65541"
abbreviation (input) interface_version :: smpp_name where "interface_version \<equiv> 65542"
abbreviation (input) addr_ton :: smpp_name where "addr_ton \<equiv> 65543"
abbreviation (input) addr_npi :: smpp_name where "addr_npi \<equiv> 65544"
abbreviation (input) address_range :: smpp_name where "address_range \<equiv> 65545"
abbreviation (input) service_type :: smpp_name where "service_type \<equiv> 65546"
abbreviation (input) source_addr_ton :: smpp_name where "source_addr_ton \<equiv> 65547"
abbreviation (input) source_addr_npi :: smpp_name where "source_addr_npi \<equiv> 65548"
abbreviation (input) source_addr :: smpp_name where "source_addr \<equiv> 65549"
abbreviation (input) dest_addr_ton :: smpp_name where "dest_addr_ton \<equiv> 65550"
abbreviation (input) dest_addr_npi :: smpp_name where "dest_addr_npi \<equiv> 65551"
abbreviation (input) destination_addr :: smpp_name where "destination_addr \<equiv> 65552"
abbreviation (input) esm_class :: smpp_name where "esm_class \<equiv> 65553"
abbreviation (input) protocol_id :: smpp_name where "protocol_id \<equiv> 65554"
abbreviation (input) priority_flag :: smpp_name where "priority_flag \<equiv> 65555"
abbreviation (input) schedule_delivery_time :: smpp_name where "schedule_delivery_time \<equiv> 65556"
abbreviation (input) validity_period :: smpp_name where "validity_period \<equiv> 65557"
abbreviation (input) registered_delivery :: smpp_name where "registered_delivery \<equiv> 65558"
abbreviation (input) replace_if_present_flag :: smpp_name where "replace_if_present_flag \<equiv> 65559"
abbreviation (input) data_coding :: smpp_name where "data_coding \<equiv> 65560"
abbreviation (input) sm_default_msg_id :: smpp_name where "sm_default_msg_id \<equiv> 65561"
abbreviation (input) sm_length :: smpp_name where "sm_length \<equiv> 65562"
abbreviation (input) short_message :: smpp_name where "short_message \<equiv> 65563"
abbreviation (input) message_id :: smpp_name where "message_id \<equiv> 65564"
abbreviation (input) number_of_dests :: smpp_name where "number_of_dests \<equiv> 65565"
abbreviation (input) dest_address_es :: smpp_name where "dest_address_es \<equiv> 65566"
abbreviation (input) no_unsuccess :: smpp_name where "no_unsuccess \<equiv> 65567"
abbreviation (input) final_date :: smpp_name where "final_date \<equiv> 65568"
abbreviation (input) message_state :: smpp_name where "message_state \<equiv> 65569"
abbreviation (input) error_code :: smpp_name where "error_code \<equiv> 65570"
abbreviation (input) esme_addr_ton :: smpp_name where "esme_addr_ton \<equiv> 65571"
abbreviation (input) esme_addr_npi :: smpp_name where "esme_addr_npi \<equiv> 65572"
abbreviation (input) esme_addr :: smpp_name where "esme_addr \<equiv> 65573"

datatype smpp_tlv_decl =
    TLV_INTEGER smpp_name int
  | TLV_NULTERMINATED smpp_name int
  | TLV_OCTETS smpp_name int int

text \<open>\<open>OPTIONAL\<close> holds what stands between \<open>OPTIONAL_BEGIN\<close> and \<open>OPTIONAL_END\<close>.\<close>

datatype smpp_field =
    INTEGER smpp_name int
  | NULTERMINATED smpp_name int
  | OCTETS smpp_name smpp_name
  | OPTIONAL "smpp_tlv_decl list"

definition HEADER :: "smpp_field list" where
  "HEADER = [INTEGER command_id 4, INTEGER command_status 4, INTEGER sequence_number 4]"

definition bind_transmitter :: "smpp_field list" where
  "bind_transmitter = HEADER @ [
     NULTERMINATED system_id 16,
     NULTERMINATED password 9,
     NULTERMINATED system_type 13,
     INTEGER interface_version 1,
     INTEGER addr_ton 1,
     INTEGER addr_npi 1,
     NULTERMINATED address_range 41]"

definition bind_transmitter_resp :: "smpp_field list" where
  "bind_transmitter_resp = HEADER @ [
     NULTERMINATED system_id 16,
     OPTIONAL [
       TLV_INTEGER SMPP_sc_interface_version 1]]"

definition bind_receiver :: "smpp_field list" where
  "bind_receiver = HEADER @ [
     NULTERMINATED system_id 16,
     NULTERMINATED password 9,
     NULTERMINATED system_type 13,
     INTEGER interface_version 1,
     INTEGER addr_ton 1,
     INTEGER addr_npi 1,
     NULTERMINATED address_range 41]"

definition bind_receiver_resp :: "smpp_field list" where
  "bind_receiver_resp = HEADER @ [
     NULTERMINATED system_id 16,
     OPTIONAL [
       TLV_INTEGER SMPP_sc_interface_version 1]]"

definition bind_transceiver :: "smpp_field list" where
  "bind_transceiver = HEADER @ [
     NULTERMINATED system_id 16,
     NULTERMINATED password 9,
     NULTERMINATED system_type 13,
     INTEGER interface_version 1,
     INTEGER addr_ton 1,
     INTEGER addr_npi 1,
     NULTERMINATED address_range 41]"

definition bind_transceiver_resp :: "smpp_field list" where
  "bind_transceiver_resp = HEADER @ [
     NULTERMINATED system_id 16,
     OPTIONAL [
       TLV_INTEGER SMPP_sc_interface_version 1]]"

definition outbind :: "smpp_field list" where
  "outbind = HEADER @ [
     NULTERMINATED system_id 16,
     NULTERMINATED password 9]"

definition unbind :: "smpp_field list" where
  "unbind = HEADER"

definition unbind_resp :: "smpp_field list" where
  "unbind_resp = HEADER"

definition generic_nack :: "smpp_field list" where
  "generic_nack = HEADER"

definition submit_sm :: "smpp_field list" where
  "submit_sm = HEADER @ [
     NULTERMINATED service_type 6,
     INTEGER source_addr_ton 1,
     INTEGER source_addr_npi 1,
     NULTERMINATED source_addr 21,
     INTEGER dest_addr_ton 1,
     INTEGER dest_addr_npi 1,
     NULTERMINATED destination_addr 21,
     INTEGER esm_class 1,
     INTEGER protocol_id 1,
     INTEGER priority_flag 1,
     NULTERMINATED schedule_delivery_time 17,
     NULTERMINATED validity_period 17,
     INTEGER registered_delivery 1,
     INTEGER replace_if_present_flag 1,
     INTEGER data_coding 1,
     INTEGER sm_default_msg_id 1,
     INTEGER sm_length 1,
     OCTETS short_message sm_length,
     OPTIONAL [
       TLV_INTEGER SMPP_user_message_reference 2,
       TLV_INTEGER SMPP_source_port 2,
       TLV_INTEGER SMPP_source_addr_subunit 1,
       TLV_INTEGER SMPP_destination_port 2,
       TLV_INTEGER SMPP_dest_addr_subunit 1,
       TLV_INTEGER SMPP_sar_msg_ref_num 2,
       TLV_INTEGER SMPP_sar_total_segments 1,
       TLV_INTEGER SMPP_sar_segment_seqnum 1,
       TLV_INTEGER SMPP_more_messages_to_send 1,
       TLV_INTEGER SMPP_payload_type 1,
       TLV_OCTETS SMPP_message_payload 0 65536,
       TLV_INTEGER SMPP_privacy_indicator 1,
       TLV_OCTETS SMPP_callback_num 4 19,
       TLV_INTEGER SMPP_callback_num_pres_ind 1,
       TLV_OCTETS SMPP_callback_num_atag 0 65,
       TLV_OCTETS SMPP_source_subaddress 2 23,
       TLV_OCTETS SMPP_dest_subaddress 2 23,
       TLV_INTEGER SMPP_user_response_code 1,
       TLV_INTEGER SMPP_display_time 1,
       TLV_INTEGER SMPP_sms_signal 2,
       TLV_INTEGER SMPP_ms_validity 1,
       TLV_INTEGER SMPP_ms_msg_wait_facilities 1,
       TLV_INTEGER SMPP_number_of_messages 1,
       TLV_INTEGER SMPP_alert_on_message_delivery 0,
       TLV_INTEGER SMPP_language_indicator 1,
       TLV_INTEGER SMPP_its_reply_type 1,
       TLV_OCTETS SMPP_its_session_info 2 2,
       TLV_OCTETS SMPP_ussd_service_op 1 1,
       TLV_OCTETS SMPP_billing_identification 1 1024,
       TLV_INTEGER SMPP_dest_addr_np_country 5,
       TLV_OCTETS SMPP_dest_addr_np_information 10 10,
       TLV_INTEGER SMPP_dest_addr_np_resolution 1,
       TLV_INTEGER SMPP_dest_bearer_type 1,
       TLV_NULTERMINATED SMPP_dest_network_id 65,
       TLV_INTEGER SMPP_dest_network_type 1,
       TLV_OCTETS SMPP_dest_node_id 6 6,
       TLV_INTEGER SMPP_dest_telematics_id 2,
       TLV_INTEGER SMPP_qos_time_to_live 4,
       TLV_INTEGER SMPP_set_dpf 1,
       TLV_INTEGER SMPP_source_bearer_type 1,
       TLV_NULTERMINATED SMPP_source_network_id 65,
       TLV_INTEGER SMPP_source_network_type 1,
       TLV_OCTETS SMPP_source_node_id 6 6,
       TLV_INTEGER SMPP_source_telematics_id 1]]"

definition submit_sm_resp :: "smpp_field list" where
  "submit_sm_resp = HEADER @ [
     NULTERMINATED message_id 65,
     OPTIONAL [
       TLV_NULTERMINATED SMPP_additional_status_info_text 256,
       TLV_INTEGER SMPP_delivery_failure_reason 1,
       TLV_INTEGER SMPP_dpf_result 1,
       TLV_OCTETS SMPP_network_error_code 3 3]]"

definition submit_multi :: "smpp_field list" where
  "submit_multi = HEADER @ [
     NULTERMINATED service_type 6,
     INTEGER source_addr_ton 1,
     INTEGER source_addr_npi 1,
     NULTERMINATED source_addr 21,
     INTEGER number_of_dests 1,
     NULTERMINATED dest_address_es (254 * 24),
     INTEGER esm_class 1,
     INTEGER protocol_id 1,
     INTEGER priority_flag 1,
     NULTERMINATED schedule_delivery_time 17,
     NULTERMINATED validity_period 17,
     INTEGER registered_delivery 1,
     INTEGER replace_if_present_flag 1,
     INTEGER data_coding 1,
     INTEGER sm_default_msg_id 1,
     INTEGER sm_length 1,
     OCTETS short_message sm_length,
     OPTIONAL [
       TLV_INTEGER SMPP_user_message_reference 2,
       TLV_INTEGER SMPP_source_port 2,
       TLV_INTEGER SMPP_source_addr_subunit 1,
       TLV_INTEGER SMPP_destination_port 2,
       TLV_INTEGER SMPP_dest_addr_subunit 1,
       TLV_INTEGER SMPP_sar_msg_ref_num 2,
       TLV_INTEGER SMPP_sar_total_segments 1,
       TLV_INTEGER SMPP_sar_segment_seqnum 1,
       TLV_INTEGER SMPP_payload_type 1,
       TLV_OCTETS SMPP_message_payload 0 65536,
       TLV_INTEGER SMPP_privacy_indicator 1,
       TLV_OCTETS SMPP_callback_num 4 19,
       TLV_INTEGER SMPP_callback_num_pres_ind 1,
       TLV_OCTETS SMPP_callback_num_atag 0 65,
       TLV_OCTETS SMPP_source_subaddress 2 23,
       TLV_OCTETS SMPP_dest_subaddress 2 23,
       TLV_INTEGER SMPP_display_time 1,
       TLV_INTEGER SMPP_sms_signal 2,
       TLV_INTEGER SMPP_ms_validity 1,
       TLV_INTEGER SMPP_ms_msg_wait_facilities 1,
       TLV_INTEGER SMPP_alert_on_message_delivery 0,
       TLV_INTEGER SMPP_language_indicator 1,
       TLV_OCTETS SMPP_billing_identification 1 1024,
       TLV_INTEGER SMPP_dest_addr_np_country 5,
       TLV_OCTETS SMPP_dest_addr_np_information 10 10,
       TLV_INTEGER SMPP_dest_addr_np_resolution 1,
       TLV_INTEGER SMPP_dest_bearer_type 1,
       TLV_NULTERMINATED SMPP_dest_network_id 65,
       TLV_INTEGER SMPP_dest_network_type 1,
       TLV_OCTETS SMPP_dest_node_id 6 6,
       TLV_INTEGER SMPP_dest_telematics_id 2,
       TLV_INTEGER SMPP_its_reply_type 1,
       TLV_OCTETS SMPP_its_session_info 2 2,
       TLV_INTEGER SMPP_more_messages_to_send 1,
       TLV_INTEGER SMPP_number_of_messages 1,
       TLV_INTEGER SMPP_qos_time_to_live 4,
       TLV_INTEGER SMPP_set_dpf 1,
       TLV_INTEGER SMPP_source_bearer_type 1,
       TLV_NULTERMINATED SMPP_source_network_id 65,
       TLV_INTEGER SMPP_source_network_type 1,
       TLV_OCTETS SMPP_source_node_id 6 6,
       TLV_INTEGER SMPP_source_telematics_id 1,
       TLV_INTEGER SMPP_user_response_code 1]]"

definition submit_multi_resp :: "smpp_field list" where
  "submit_multi_resp = HEADER @ [
     NULTERMINATED message_id 65,
     INTEGER no_unsuccess 1,
     OPTIONAL [
       TLV_NULTERMINATED SMPP_additional_status_info_text 256,
       TLV_INTEGER SMPP_delivery_failure_reason 1,
       TLV_INTEGER SMPP_dpf_result 1,
       TLV_OCTETS SMPP_network_error_code 3 3]]"

definition deliver_sm :: "smpp_field list" where
  "deliver_sm = HEADER @ [
     NULTERMINATED service_type 6,
     INTEGER source_addr_ton 1,
     INTEGER source_addr_npi 1,
     NULTERMINATED source_addr 21,
     INTEGER dest_addr_ton 1,
     INTEGER dest_addr_npi 1,
     NULTERMINATED destination_addr 21,
     INTEGER esm_class 1,
     INTEGER protocol_id 1,
     INTEGER priority_flag 1,
     NULTERMINATED schedule_delivery_time 17,
     NULTERMINATED validity_period 17,
     INTEGER registered_delivery 1,
     INTEGER replace_if_present_flag 1,
     INTEGER data_coding 1,
     INTEGER sm_default_msg_id 1,
     INTEGER sm_length 1,
     OCTETS short_message sm_length,
     OPTIONAL [
       TLV_INTEGER SMPP_user_message_reference 2,
       TLV_INTEGER SMPP_source_port 2,
       TLV_INTEGER SMPP_destination_port 2,
       TLV_INTEGER SMPP_sar_msg_ref_num 2,
       TLV_INTEGER SMPP_sar_total_segments 1,
       TLV_INTEGER SMPP_sar_segment_seqnum 1,
       TLV_INTEGER SMPP_user_response_code 1,
       TLV_INTEGER SMPP_privacy_indicator 1,
       TLV_INTEGER SMPP_payload_type 1,
       TLV_OCTETS SMPP_message_payload 0 65536,
       TLV_OCTETS SMPP_callback_num 4 19,
       TLV_OCTETS SMPP_source_subaddress 2 23,
       TLV_OCTETS SMPP_dest_subaddress 2 23,
       TLV_INTEGER SMPP_language_indicator 1,
       TLV_OCTETS SMPP_its_session_info 2 2,
       TLV_OCTETS SMPP_network_error_code 3 3,
       TLV_INTEGER SMPP_message_state 1,
       TLV_NULTERMINATED SMPP_receipted_message_id 65,
       TLV_OCTETS SMPP_callback_num_atag 0 65,
       TLV_INTEGER SMPP_callback_num_pres_ind 1,
       TLV_INTEGER SMPP_dest_addr_np_country 5,
       TLV_OCTETS SMPP_dest_addr_np_information 10 10,
       TLV_INTEGER SMPP_dest_addr_np_resolution 1,
       TLV_INTEGER SMPP_dest_addr_subunit 1,
       TLV_NULTERMINATED SMPP_dest_network_id 65,
       TLV_INTEGER SMPP_dpf_result 1,
       TLV_INTEGER SMPP_its_reply_type 1,
       TLV_INTEGER SMPP_source_addr_subunit 1,
       TLV_NULTERMINATED SMPP_source_network_id 65,
       TLV_OCTETS SMPP_source_node_id 6 6,
       TLV_OCTETS SMPP_ussd_service_op 1 1]]"

definition deliver_sm_resp :: "smpp_field list" where
  "deliver_sm_resp = HEADER @ [
     NULTERMINATED message_id 1,
     OPTIONAL [
       TLV_NULTERMINATED SMPP_additional_status_info_text 256,
       TLV_INTEGER SMPP_delivery_failure_reason 1,
       TLV_OCTETS SMPP_network_error_code 3 3]]"

definition data_sm :: "smpp_field list" where
  "data_sm = HEADER @ [
     NULTERMINATED service_type 6,
     INTEGER source_addr_ton 1,
     INTEGER source_addr_npi 1,
     NULTERMINATED source_addr 65,
     INTEGER dest_addr_ton 1,
     INTEGER dest_addr_npi 1,
     NULTERMINATED destination_addr 65,
     INTEGER esm_class 1,
     INTEGER registered_delivery 1,
     INTEGER data_coding 1,
     OPTIONAL [
       TLV_INTEGER SMPP_source_port 2,
       TLV_INTEGER SMPP_source_addr_subunit 1,
       TLV_INTEGER SMPP_source_network_type 1,
       TLV_INTEGER SMPP_source_bearer_type 1,
       TLV_INTEGER SMPP_source_telematics_id 1,
       TLV_INTEGER SMPP_destination_port 2,
       TLV_INTEGER SMPP_dest_addr_subunit 1,
       TLV_INTEGER SMPP_dest_network_type 1,
       TLV_INTEGER SMPP_dest_bearer_type 1,
       TLV_INTEGER SMPP_dest_telematics_id 2,
       TLV_INTEGER SMPP_sar_msg_ref_num 2,
       TLV_INTEGER SMPP_sar_total_segments 1,
       TLV_INTEGER SMPP_sar_segment_seqnum 1,
       TLV_INTEGER SMPP_more_messages_to_send 1,
       TLV_INTEGER SMPP_qos_time_to_live 4,
       TLV_INTEGER SMPP_payload_type 1,
       TLV_OCTETS SMPP_message_payload 0 65536,
       TLV_INTEGER SMPP_set_dpf 1,
       TLV_NULTERMINATED SMPP_receipted_message_id 65,
       TLV_INTEGER SMPP_message_state 1,
       TLV_OCTETS SMPP_network_error_code 3 3,
       TLV_INTEGER SMPP_user_message_reference 2,
       TLV_INTEGER SMPP_privacy_indicator 1,
       TLV_OCTETS SMPP_callback_num 4 19,
       TLV_INTEGER SMPP_callback_num_pres_ind 1,
       TLV_OCTETS SMPP_callback_num_atag 0 65,
       TLV_OCTETS SMPP_source_subaddress 2 23,
       TLV_OCTETS SMPP_dest_subaddress 2 23,
       TLV_INTEGER SMPP_user_response_code 1,
       TLV_INTEGER SMPP_display_time 1,
       TLV_INTEGER SMPP_sms_signal 2,
       TLV_INTEGER SMPP_ms_validity 1,
       TLV_INTEGER SMPP_ms_msg_wait_facilities 1,
       TLV_INTEGER SMPP_number_of_messages 1,
       TLV_INTEGER SMPP_alert_on_message_delivery 0,
       TLV_INTEGER SMPP_language_indicator 1,
       TLV_INTEGER SMPP_its_reply_type 1,
       TLV_OCTETS SMPP_its_session_info 2 2,
       TLV_OCTETS SMPP_billing_identification 1 1024,
       TLV_INTEGER SMPP_dest_addr_np_country 5,
       TLV_OCTETS SMPP_dest_addr_np_information 10 10,
       TLV_INTEGER SMPP_dest_addr_np_resolution 1,
       TLV_NULTERMINATED SMPP_dest_network_id 65,
       TLV_OCTETS SMPP_dest_node_id 6 6,
       TLV_NULTERMINATED SMPP_source_network_id 65,
       TLV_OCTETS SMPP_source_node_id 6 6,
       TLV_OCTETS SMPP_ussd_service_op 1 1]]"

definition data_sm_resp :: "smpp_field list" where
  "data_sm_resp = HEADER @ [
     NULTERMINATED message_id 65,
     OPTIONAL [
       TLV_NULTERMINATED SMPP_additional_status_info_text 256,
       TLV_INTEGER SMPP_delivery_failure_reason 1,
       TLV_INTEGER SMPP_dpf_result 1,
       TLV_OCTETS SMPP_network_error_code 3 3]]"

definition query_sm :: "smpp_field list" where
  "query_sm = HEADER @ [
     NULTERMINATED message_id 65,
     INTEGER source_addr_ton 1,
     INTEGER source_addr_npi 1,
     NULTERMINATED source_addr 21]"

definition query_sm_resp :: "smpp_field list" where
  "query_sm_resp = HEADER @ [
     NULTERMINATED message_id 65,
     NULTERMINATED final_date 17,
     INTEGER message_state 1,
     INTEGER error_code 1]"

definition cancel_sm :: "smpp_field list" where
  "cancel_sm = HEADER @ [
     NULTERMINATED service_type 6,
     NULTERMINATED message_id 65,
     INTEGER source_addr_ton 1,
     INTEGER source_addr_npi 1,
     NULTERMINATED source_addr 21,
     INTEGER dest_addr_ton 1,
     INTEGER dest_addr_npi 1,
     NULTERMINATED destination_addr 65]"

definition cancel_sm_resp :: "smpp_field list" where
  "cancel_sm_resp = HEADER"

definition replace_sm :: "smpp_field list" where
  "replace_sm = HEADER @ [
     NULTERMINATED service_type 6,
     NULTERMINATED message_id 65,
     INTEGER source_addr_ton 1,
     INTEGER source_addr_npi 1,
     NULTERMINATED source_addr 21,
     NULTERMINATED schedule_delivery_time 17,
     NULTERMINATED validity_period 17,
     INTEGER registered_delivery 1,
     INTEGER sm_default_msg_id 1,
     INTEGER sm_length 1,
     OCTETS short_message sm_length,
     OPTIONAL [
       TLV_OCTETS SMPP_message_payload 0 65536]]"

definition replace_sm_resp :: "smpp_field list" where
  "replace_sm_resp = HEADER"

definition enquire_link :: "smpp_field list" where
  "enquire_link = HEADER"

definition enquire_link_resp :: "smpp_field list" where
  "enquire_link_resp = HEADER"

definition alert_notification :: "smpp_field list" where
  "alert_notification = HEADER @ [
     INTEGER source_addr_ton 1,
     INTEGER source_addr_npi 1,
     NULTERMINATED source_addr 21,
     INTEGER esme_addr_ton 1,
     INTEGER esme_addr_npi 1,
     NULTERMINATED esme_addr 65,
     OPTIONAL [
       TLV_INTEGER SMPP_ms_availability_status 1]]"

definition broadcast_sm :: "smpp_field list" where
  "broadcast_sm = HEADER @ [
     NULTERMINATED service_type 6,
     INTEGER source_addr_ton 1,
     INTEGER source_addr_npi 1,
     NULTERMINATED source_addr 21,
     NULTERMINATED message_id 65,
     INTEGER priority_flag 1,
     NULTERMINATED schedule_delivery_time 17,
     NULTERMINATED validity_period 17,
     INTEGER registered_delivery 1,
     INTEGER replace_if_present_flag 1,
     INTEGER data_coding 1,
     INTEGER sm_default_msg_id 1,
     OPTIONAL [
       TLV_OCTETS SMPP_broadcast_area_identifier 1 101,
       TLV_OCTETS SMPP_broadcast_content_type 3 3,
       TLV_OCTETS SMPP_broadcast_rep_num 3 3,
       TLV_OCTETS SMPP_broadcast_frequency_interval 3 3,
       TLV_INTEGER SMPP_alert_on_message_delivery 0,
       TLV_INTEGER SMPP_broadcast_channel_indicator 1,
       TLV_OCTETS SMPP_broadcast_content_type_info 1 254,
       TLV_INTEGER SMPP_broadcast_message_class 1,
       TLV_OCTETS SMPP_broadcast_service_group 1 254,
       TLV_OCTETS SMPP_callback_num 4 19,
       TLV_OCTETS SMPP_callback_num_atag 0 65,
       TLV_INTEGER SMPP_callback_num_pres_ind 1,
       TLV_INTEGER SMPP_dest_addr_subunit 1,
       TLV_OCTETS SMPP_dest_subaddress 2 23,
       TLV_INTEGER SMPP_destination_port 2,
       TLV_INTEGER SMPP_display_time 1,
       TLV_INTEGER SMPP_language_indicator 1,
       TLV_OCTETS SMPP_message_payload 0 65536,
       TLV_INTEGER SMPP_ms_validity 1,
       TLV_INTEGER SMPP_payload_type 1,
       TLV_INTEGER SMPP_privacy_indicator 1,
       TLV_INTEGER SMPP_sms_signal 2,
       TLV_INTEGER SMPP_source_addr_subunit 1,
       TLV_INTEGER SMPP_source_port 2,
       TLV_OCTETS SMPP_source_subaddress 2 23,
       TLV_INTEGER SMPP_user_message_reference 2]]"

definition broadcast_sm_resp :: "smpp_field list" where
  "broadcast_sm_resp = HEADER @ [
     NULTERMINATED message_id 65,
     OPTIONAL [
       TLV_INTEGER SMPP_broadcast_error_status 4,
       TLV_OCTETS SMPP_failed_broadcast_area_identifier 1 101]]"

definition query_broadcast_sm :: "smpp_field list" where
  "query_broadcast_sm = HEADER @ [
     NULTERMINATED message_id 65,
     INTEGER source_addr_ton 1,
     INTEGER source_addr_npi 1,
     NULTERMINATED source_addr 21,
     OPTIONAL [
       TLV_INTEGER SMPP_user_message_reference 2]]"

definition query_broadcast_sm_resp :: "smpp_field list" where
  "query_broadcast_sm_resp = HEADER @ [
     NULTERMINATED message_id 65,
     OPTIONAL [
       TLV_INTEGER SMPP_message_state 1,
       TLV_OCTETS SMPP_broadcast_area_identifier 1 101,
       TLV_INTEGER SMPP_broadcast_area_success 1,
       TLV_NULTERMINATED SMPP_broadcast_end_time 16,
       TLV_INTEGER SMPP_user_message_reference 2]]"

definition cancel_broadcast_sm :: "smpp_field list" where
  "cancel_broadcast_sm = HEADER @ [
     NULTERMINATED service_type 6,
     NULTERMINATED message_id 65,
     INTEGER source_addr_ton 1,
     INTEGER source_addr_npi 1,
     NULTERMINATED source_addr 21,
     OPTIONAL [
       TLV_OCTETS SMPP_broadcast_content_type 3 3,
       TLV_INTEGER SMPP_user_message_reference 2]]"

definition cancel_broadcast_sm_resp :: "smpp_field list" where
  "cancel_broadcast_sm_resp = HEADER"

text \<open>The cases of the switches over the type, with the type's name.\<close>

definition smpp_pdus :: "(int \<times> string \<times> smpp_field list) list" where
  "smpp_pdus = [
     (0x00000002, ''bind_transmitter'', bind_transmitter),
     (0x80000002, ''bind_transmitter_resp'', bind_transmitter_resp),
     (0x00000001, ''bind_receiver'', bind_receiver),
     (0x80000001, ''bind_receiver_resp'', bind_receiver_resp),
     (0x00000009, ''bind_transceiver'', bind_transceiver),
     (0x80000009, ''bind_transceiver_resp'', bind_transceiver_resp),
     (0x0000000B, ''outbind'', outbind),
     (0x00000006, ''unbind'', unbind),
     (0x80000006, ''unbind_resp'', unbind_resp),
     (0x80000000, ''generic_nack'', generic_nack),
     (0x00000004, ''submit_sm'', submit_sm),
     (0x80000004, ''submit_sm_resp'', submit_sm_resp),
     (0x00000021, ''submit_multi'', submit_multi),
     (0x80000021, ''submit_multi_resp'', submit_multi_resp),
     (0x00000005, ''deliver_sm'', deliver_sm),
     (0x80000005, ''deliver_sm_resp'', deliver_sm_resp),
     (0x00000103, ''data_sm'', data_sm),
     (0x80000103, ''data_sm_resp'', data_sm_resp),
     (0x00000003, ''query_sm'', query_sm),
     (0x80000003, ''query_sm_resp'', query_sm_resp),
     (0x00000008, ''cancel_sm'', cancel_sm),
     (0x80000008, ''cancel_sm_resp'', cancel_sm_resp),
     (0x00000007, ''replace_sm'', replace_sm),
     (0x80000007, ''replace_sm_resp'', replace_sm_resp),
     (0x00000015, ''enquire_link'', enquire_link),
     (0x80000015, ''enquire_link_resp'', enquire_link_resp),
     (0x00000102, ''alert_notification'', alert_notification),
     (0x00000111, ''broadcast_sm'', broadcast_sm),
     (0x80000111, ''broadcast_sm_resp'', broadcast_sm_resp),
     (0x00000112, ''query_broadcast_sm'', query_broadcast_sm),
     (0x80000112, ''query_broadcast_sm_resp'', query_broadcast_sm_resp),
     (0x00000113, ''cancel_broadcast_sm'', cancel_broadcast_sm),
     (0x80000113, ''cancel_broadcast_sm_resp'', cancel_broadcast_sm_resp)]"

end
