(* ===== verification/Smpp_Pdu.thy ===== *)
theory Smpp_Pdu
  imports Smpp_Def Dict_Spec
begin

text \<open>
  Packing and unpacking of SMPP protocol data units (\<open>gw/smsc/smpp_pdu.c\<close>). The outer \<open>None\<close> of a
  result is an abort (a failed assertion, a call with a NULL pointer the callee does not accept, an
  undefined shift), the inner one a NULL that is returned. The union of structures is a pair of maps
  from field names to the numeric fs (\<open>long\<close> or \<open>unsigned long\<close>, 64 bits) and to the octet
  strings.
\<close>

unbundle bit_operations_syntax

section \<open>State\<close>

datatype smpp_tlv_type = SMPP_TLV_OCTETS | SMPP_TLV_NULTERMINATED | SMPP_TLV_INTEGER

record smpp_tlv =
  tlv_name :: octets
  tlv_tag :: int
  tlv_length :: int
  tlv_constant :: "octets option"
  tlv_type :: smpp_tlv_type

text \<open>The static tables of the configured parameters: from the id of a connection to the parameters by tag or name.\<close>

record smpp_tables =
  tlvs_by_tag :: "smpp_tlv dict dict option"
  tlvs_by_name :: "smpp_tlv dict dict option"
  tlvs_by_const :: "smpp_tlv dict dict option"

record SMPP_PDU =
  pdu_type :: "64 word"
  pdu_type_name :: string
  pdu_int :: "smpp_name \<Rightarrow> 64 word"
  pdu_oct :: "smpp_name \<Rightarrow> octets option"
  pdu_tlv :: "octets dict option"

definition DEFAULT_SMSC_ID :: octets where
  "DEFAULT_SMSC_ID = cstr ''def;ault''"

definition MIN_SMPP_PDU_LEN :: int where
  "MIN_SMPP_PDU_LEN = 4 * 4"

definition MAX_SMPP_PDU_LEN :: int where
  "MAX_SMPP_PDU_LEN = 7424"

section \<open>Configured parameters\<close>

text \<open>One of the two attempts: the table of a connection, and the parameter in it.\<close>

definition find_tlv :: "smpp_tlv dict dict \<Rightarrow> octets \<Rightarrow> octets \<Rightarrow> smpp_tlv option option" where
  "find_tlv tab smsc_id key = do {
     tmp_dict \<leftarrow> dict_get tab smsc_id;
     case tmp_dict of None \<Rightarrow> Some None | Some d \<Rightarrow> dict_get d key }"

text \<open>The attempt with the id of the connection, then the one with the default id.\<close>

definition find_tlv_default :: "smpp_tlv dict dict \<Rightarrow> octets option \<Rightarrow> octets \<Rightarrow> smpp_tlv option option" where
  "find_tlv_default tab smsc_id key = do {
     res \<leftarrow> (case smsc_id of None \<Rightarrow> Some None | Some smsc_id \<Rightarrow> find_tlv tab smsc_id key);
     case res of None \<Rightarrow> find_tlv tab DEFAULT_SMSC_ID key | Some tlv \<Rightarrow> Some (Some tlv) }"

definition smpp_tlv_get_by_name :: "smpp_tables \<Rightarrow> octets option \<Rightarrow> octets \<Rightarrow> smpp_tlv option option" where
  "smpp_tlv_get_by_name T smsc_id name = (case tlvs_by_name T of None \<Rightarrow> Some None | Some tab \<Rightarrow> find_tlv_default tab smsc_id name)"

definition smpp_tlv_get_by_tag :: "smpp_tables \<Rightarrow> octets option \<Rightarrow> int \<Rightarrow> smpp_tlv option option" where
  "smpp_tlv_get_by_tag T smsc_id tag = (case tlvs_by_tag T of None \<Rightarrow> Some None | Some tab \<Rightarrow> find_tlv_default tab smsc_id (decimal tag))"

text \<open>\<open>smpp_tlv_add_constant\<close>: its loop over the keys, and the call.\<close>

partial_function (option) add_constant_loop :: "smpp_tlv dict \<Rightarrow> octets gwlist \<Rightarrow> octets dict option \<Rightarrow> octets dict option option" where
  "add_constant_loop constant keys tlvs = do {
     (key, keys) \<leftarrow> gwlist_extract_first keys;
     case key of None \<Rightarrow> Some tlvs
     | Some key \<Rightarrow> do {
         tlv \<leftarrow> dict_get constant key;
         tlvs \<leftarrow> (case (case tlv of None \<Rightarrow> None | Some tlv \<Rightarrow> tlv_constant tlv) of None \<Rightarrow> Some tlvs
           | Some c \<Rightarrow>
               (case tlvs of
                  Some d \<Rightarrow> do {
                    old \<leftarrow> dict_get d key;
                    case old of None \<Rightarrow> do { (d, ds) \<leftarrow> dict_put d key (Some c); Some (Some d) } | Some v \<Rightarrow> Some (Some d) }
                | None \<Rightarrow> do { d \<leftarrow> dict_create 1024 True; (d, ds) \<leftarrow> dict_put d key (Some c); Some (Some d) }));
         add_constant_loop constant keys tlvs } }"

definition smpp_tlv_add_constant :: "smpp_tables \<Rightarrow> octets \<Rightarrow> octets dict option \<Rightarrow> octets dict option option" where
  "smpp_tlv_add_constant T smsc_id tlvs = do {
     tab \<leftarrow> tlvs_by_const T;
     constant \<leftarrow> dict_get tab smsc_id;
     case constant of None \<Rightarrow> Some tlvs
     | Some constant \<Rightarrow> do {
         keys \<leftarrow> dict_keys constant;
         add_constant_loop constant keys tlvs } }"

section \<open>Integers and strings\<close>

definition decode_integer :: "octets \<Rightarrow> int \<Rightarrow> int \<Rightarrow> 64 word" where
  "decode_integer os pos octs =
     (if oct_len os < pos + octs then -1
      else foldl (\<lambda>u i. push_bit 8 u OR word_of_int (oct_get os (pos + int i))) 0 [0..<nat octs])"

text \<open>A shift by 64 bits or more is undefined.\<close>

definition append_encoded_integer :: "octets \<Rightarrow> 64 word \<Rightarrow> int \<Rightarrow> octets option" where
  "append_encoded_integer os u octs = do {
     gw_assert (octs \<le> 8);
     Some (os @ map (\<lambda>i. ucast (drop_bit ((nat octs - i - 1) * 8) u AND 0xFF)) [0..<nat octs]) }"

text \<open>The result is the return value, the new position and the string.\<close>

definition copy_until_nul :: "octets \<Rightarrow> int \<Rightarrow> int \<Rightarrow> (int \<times> int \<times> octets option) option" where
  "copy_until_nul os pos max_octets = do {
     nul \<leftarrow> oct_search_char os 0 pos;
     if nul = -1 then Some (-1, pos, None)
     else if pos + max_octets < nul then Some (-1, pos, None)
     else do {
       data \<leftarrow> (if nul - pos > 0 then do { c \<leftarrow> oct_copy os pos (nul - pos); Some (Some c) } else Some None);
       Some (0, nul + 1, data) } }"

section \<open>Creating\<close>

definition set_int :: "smpp_name \<Rightarrow> 64 word \<Rightarrow> SMPP_PDU \<Rightarrow> SMPP_PDU" where
  "set_int name v p = p\<lparr>pdu_int := (pdu_int p)(name := v)\<rparr>"

definition set_oct :: "smpp_name \<Rightarrow> octets option \<Rightarrow> SMPP_PDU \<Rightarrow> SMPP_PDU" where
  "set_oct name v p = p\<lparr>pdu_oct := (pdu_oct p)(name := v)\<rparr>"

fun create_tlv :: "smpp_tlv_decl \<Rightarrow> SMPP_PDU \<Rightarrow> SMPP_PDU" where
  "create_tlv (TLV_INTEGER name octs) p = set_int name (-1) p"
| "create_tlv (TLV_NULTERMINATED name max_len) p = set_oct name None p"
| "create_tlv (TLV_OCTETS name min_len max_len) p = set_oct name None p"

fun smpp_create_field :: "smpp_field \<Rightarrow> SMPP_PDU \<Rightarrow> SMPP_PDU option" where
  "smpp_create_field (INTEGER name octs) p = Some (set_int name 0 p)"
| "smpp_create_field (NULTERMINATED name max_octs) p = Some (set_oct name None p)"
| "smpp_create_field (OCTETS name field_giving_octs) p = Some (set_oct name None p)"
| "smpp_create_field (OPTIONAL ts) p = do {
     d \<leftarrow> dict_create 1024 True;
     Some ((fold create_tlv ts p)\<lparr>pdu_tlv := Some d\<rparr>) }"

fun smpp_create_fields :: "smpp_field list \<Rightarrow> SMPP_PDU \<Rightarrow> SMPP_PDU option" where
  "smpp_create_fields [] p = Some p"
| "smpp_create_fields (f # fs) p = do { p \<leftarrow> smpp_create_field f p; smpp_create_fields fs p }"

text \<open>The \<open>case\<close> of a type in a \<open>switch\<close>.\<close>

definition smpp_case :: "64 word \<Rightarrow> (string \<times> smpp_field list) option" where
  "smpp_case ty = map_of smpp_pdus (uint ty)"

text \<open>Memory of the structure that is not set; it has no field of that name.\<close>

definition smpp_pdu_blank :: "64 word \<Rightarrow> SMPP_PDU" where
  "smpp_pdu_blank ty = \<lparr>pdu_type = ty, pdu_type_name = '''', pdu_int = (\<lambda>_. 0), pdu_oct = (\<lambda>_. None), pdu_tlv = None\<rparr>"

definition smpp_pdu_create :: "64 word \<Rightarrow> 64 word \<Rightarrow> SMPP_PDU option option" where
  "smpp_pdu_create ty seq_no = (case smpp_case ty of
     None \<Rightarrow> Some None
   | Some (name, fs) \<Rightarrow> do {
       p \<leftarrow> smpp_create_fields fs ((smpp_pdu_blank ty)\<lparr>pdu_type_name := name\<rparr>);
       Some (Some (set_int sequence_number seq_no (set_int command_id ty p))) })"

section \<open>Packing\<close>

fun fix_length :: "smpp_field \<Rightarrow> SMPP_PDU \<Rightarrow> SMPP_PDU" where
  "fix_length (OCTETS name field_giving_octs) p =
     set_int field_giving_octs (word_of_int (case pdu_oct p name of None \<Rightarrow> 0 | Some s \<Rightarrow> oct_len s)) p"
| "fix_length _ p = p"

definition pack_nulterminated :: "octets option \<Rightarrow> int \<Rightarrow> octets \<Rightarrow> octets option" where
  "pack_nulterminated val max_octs os = do {
     os \<leftarrow> (case val of None \<Rightarrow> Some os
       | Some s \<Rightarrow> if oct_len s \<ge> max_octs then do { temp \<leftarrow> oct_copy s 0 (max_octs - 1); Some (os @ temp) } else Some (os @ s));
     oct_append_char os 0 }"

text \<open>\<open>TL(name, octets)\<close>\<close>

definition pack_TL :: "int \<Rightarrow> int \<Rightarrow> octets \<Rightarrow> octets option" where
  "pack_TL tag len os = do {
     os \<leftarrow> append_encoded_integer os (word_of_int tag) 2;
     append_encoded_integer os (word_of_int len) 2 }"

fun pack_tlv :: "SMPP_PDU \<Rightarrow> smpp_tlv_decl \<Rightarrow> octets \<Rightarrow> octets option" where
  "pack_tlv p (TLV_INTEGER name octs) os =
     (if sint (pdu_int p name) \<ge> 0 then do {
        os \<leftarrow> pack_TL (name) octs os;
        append_encoded_integer os (pdu_int p name) octs }
      else Some os)"
| "pack_tlv p (TLV_NULTERMINATED name max_len) os = (case pdu_oct p name of None \<Rightarrow> Some os
     | Some s \<Rightarrow> do {
         os \<leftarrow> pack_TL (name) (if oct_len s > max_len then max_len else oct_len s + 1) os;
         pack_nulterminated (Some s) max_len os })"
| "pack_tlv p (TLV_OCTETS name min_len max_len) os = (case pdu_oct p name of None \<Rightarrow> Some os
     | Some s \<Rightarrow>
         if oct_len s > max_len \<or> oct_len s < min_len then Some os
         else do {
           os \<leftarrow> pack_TL (name) (oct_len s) os;
           Some (os @ s) })"

fun pack_tlvs :: "SMPP_PDU \<Rightarrow> smpp_tlv_decl list \<Rightarrow> octets \<Rightarrow> octets option" where
  "pack_tlvs p [] os = Some os"
| "pack_tlvs p (t # ts) os = do { os \<leftarrow> pack_tlv p t os; pack_tlvs p ts os }"

text \<open>
  A configured parameter. \<open>tlv->length\<close> is compared as an \<open>unsigned long\<close>; the value of a key of the
  table is in the table.
\<close>

definition pack_configured :: "octets dict \<Rightarrow> octets \<Rightarrow> smpp_tlv \<Rightarrow> octets \<Rightarrow> octets option" where
  "pack_configured d key tlv os = do {
     val \<leftarrow> dict_get d key;
     val \<leftarrow> val;
     case tlv_type tlv of
       SMPP_TLV_INTEGER \<Rightarrow> do {
         let v = fst (snd (strtol val 10));
         os \<leftarrow> pack_TL (tlv_tag tlv) (tlv_length tlv) os;
         append_encoded_integer os (word_of_int v) (tlv_length tlv) }
     | _ \<Rightarrow>
         if oct_len val > tlv_length tlv mod 2 ^ 64 then Some os
         else do {
           os \<leftarrow> pack_TL (tlv_tag tlv) (if tlv_type tlv = SMPP_TLV_NULTERMINATED then oct_len val + 1 else oct_len val) os;
           if tlv_type tlv = SMPP_TLV_NULTERMINATED then oct_append_char (os @ val) 0 else Some (os @ val) } }"

partial_function (option) pack_keys :: "smpp_tables \<Rightarrow> octets option \<Rightarrow> octets dict \<Rightarrow> octets gwlist \<Rightarrow> octets \<Rightarrow> octets option" where
  "pack_keys T smsc_id d keys os = do {
     (key, keys) \<leftarrow> gwlist_extract_first keys;
     case key of None \<Rightarrow> Some os
     | Some key \<Rightarrow> do {
         tlv \<leftarrow> smpp_tlv_get_by_name T smsc_id key;
         os \<leftarrow> (case tlv of None \<Rightarrow> Some os | Some tlv \<Rightarrow> pack_configured d key tlv os);
         pack_keys T smsc_id d keys os } }"

fun smpp_pack_field :: "smpp_tables \<Rightarrow> octets option \<Rightarrow> SMPP_PDU \<Rightarrow> smpp_field \<Rightarrow> octets \<Rightarrow> octets option" where
  "smpp_pack_field T smsc_id p (INTEGER name octs) os = append_encoded_integer os (pdu_int p name) octs"
| "smpp_pack_field T smsc_id p (NULTERMINATED name max_octs) os = pack_nulterminated (pdu_oct p name) max_octs os"
| "smpp_pack_field T smsc_id p (OCTETS name field_giving_octs) os = Some (case pdu_oct p name of None \<Rightarrow> os | Some s \<Rightarrow> os @ s)"
| "smpp_pack_field T smsc_id p (OPTIONAL ts) os = do {
     os \<leftarrow> pack_tlvs p ts os;
     case pdu_tlv p of None \<Rightarrow> Some os
     | Some d \<Rightarrow> do {
         keys \<leftarrow> dict_keys d;
         pack_keys T smsc_id d keys os } }"

fun smpp_pack_fields :: "smpp_tables \<Rightarrow> octets option \<Rightarrow> SMPP_PDU \<Rightarrow> smpp_field list \<Rightarrow> octets \<Rightarrow> octets option" where
  "smpp_pack_fields T smsc_id p [] os = Some os"
| "smpp_pack_fields T smsc_id p (f # fs) os = do { os \<leftarrow> smpp_pack_field T smsc_id p f os; smpp_pack_fields T smsc_id p fs os }"

text \<open>The packet, and the structure with its lengths set.\<close>

definition smpp_pdu_pack :: "smpp_tables \<Rightarrow> octets option \<Rightarrow> SMPP_PDU \<Rightarrow> (octets \<times> SMPP_PDU) option" where
  "smpp_pdu_pack T smsc_id p = do {
     let fs = (case smpp_case (pdu_type p) of None \<Rightarrow> [] | Some (name, fs) \<Rightarrow> fs);
     let p = fold fix_length fs p;
     os \<leftarrow> smpp_pack_fields T smsc_id p fs [];
     temp \<leftarrow> append_encoded_integer [] (word_of_int (oct_len os + 4)) 4;
     Some (temp @ os, p) }"

section \<open>Unpacking\<close>

definition tlv_put :: "smpp_tlv option \<Rightarrow> octets option \<Rightarrow> SMPP_PDU \<Rightarrow> SMPP_PDU option" where
  "tlv_put tlv val p = (case tlv of None \<Rightarrow> Some p
     | Some tlv \<Rightarrow> do {
         d \<leftarrow> pdu_tlv p;
         (d, ds) \<leftarrow> dict_put d (tlv_name tlv) val;
         Some (p\<lparr>pdu_tlv := Some d\<rparr>) })"

text \<open>The test of a tag against a declared parameter.\<close>

fun tlv_decl_name :: "smpp_tlv_decl \<Rightarrow> smpp_name" where
  "tlv_decl_name (TLV_INTEGER name octs) = name"
| "tlv_decl_name (TLV_NULTERMINATED name max_len) = name"
| "tlv_decl_name (TLV_OCTETS name min_len max_len) = name"

text \<open>The body for a declared parameter; the inner \<open>None\<close> is the jump to \<open>err\<close>.\<close>

fun unpack_tlv ::
    "octets \<Rightarrow> smpp_tlv option \<Rightarrow> int \<Rightarrow> smpp_tlv_decl \<Rightarrow> SMPP_PDU \<Rightarrow> int \<Rightarrow> (SMPP_PDU \<times> int) option option" where
  "unpack_tlv data tlv opt_len (TLV_INTEGER name octs) p pos =
     (if opt_len > octs then Some (Some (p, pos + opt_len))
      else do {
        let v = decode_integer data pos opt_len;
        let p = set_int name v p;
        if v = -1 then Some None
        else do {
          p \<leftarrow> tlv_put tlv (Some (decimal (sint v))) p;
          Some (Some (p, pos + opt_len)) } })"
| "unpack_tlv data tlv opt_len (TLV_NULTERMINATED name max_len) p pos =
     (if opt_len > max_len \<or> pos + opt_len > oct_len data then Some (Some (p, pos + opt_len))
      else do {
        (r, pos, s) \<leftarrow> copy_until_nul data pos opt_len;
        p \<leftarrow> tlv_put tlv s (set_oct name s p);
        Some (Some (p, pos)) })"
| "unpack_tlv data tlv opt_len (TLV_OCTETS name min_len max_len) p pos =
     (if opt_len < min_len \<or> opt_len > max_len \<or> pos + opt_len > oct_len data then Some (Some (p, pos + opt_len))
      else do {
        s \<leftarrow> oct_copy data pos opt_len;
        p \<leftarrow> tlv_put tlv (Some s) (set_oct name (Some s) p);
        Some (Some (p, pos + opt_len)) })"

text \<open>The last \<open>else\<close> branch: a configured or an unknown parameter.\<close>

definition unpack_configured ::
    "octets \<Rightarrow> smpp_tlv option \<Rightarrow> int \<Rightarrow> SMPP_PDU \<Rightarrow> int \<Rightarrow> (SMPP_PDU \<times> int) option option" where
  "unpack_configured data tlv opt_len p pos = (case tlv of
     None \<Rightarrow> do { val \<leftarrow> oct_copy data pos opt_len; Some (Some (p, pos + opt_len)) }
   | Some t \<Rightarrow>
       if opt_len > tlv_length t mod 2 ^ 64 then Some (Some (p, pos + opt_len))
       else (case tlv_type t of
         SMPP_TLV_INTEGER \<Rightarrow>
           (let val_i = decode_integer data pos opt_len in
            if val_i = -1 then Some None
            else do {
              p \<leftarrow> tlv_put tlv (Some (decimal (sint val_i))) p;
              Some (Some (p, pos + opt_len)) })
       | SMPP_TLV_OCTETS \<Rightarrow> do {
           val \<leftarrow> oct_copy data pos opt_len;
           p \<leftarrow> tlv_put tlv (Some val) p;
           Some (Some (p, pos + opt_len)) }
       | SMPP_TLV_NULTERMINATED \<Rightarrow> do {
           (r, pos, val) \<leftarrow> copy_until_nul data pos opt_len;
           p \<leftarrow> (if r = 0 then tlv_put tlv val p else Some p);
           Some (Some (p, pos)) }))"

text \<open>One turn of the loop over the optional parameters.\<close>

definition tlv_step ::
    "smpp_tables \<Rightarrow> octets option \<Rightarrow> octets \<Rightarrow> smpp_tlv_decl list \<Rightarrow> SMPP_PDU \<Rightarrow> int \<Rightarrow> (SMPP_PDU \<times> int) option option" where
  "tlv_step T smsc_id data ts p pos = do {
     let opt_tag = uint (decode_integer data pos 2);
     let pos = pos + 2;
     let opt_len = uint (decode_integer data pos 2);
     let pos = pos + 2;
     tlv \<leftarrow> smpp_tlv_get_by_tag T smsc_id opt_tag;
     case find (\<lambda>t. tlv_decl_name t = opt_tag) ts of
       Some t \<Rightarrow> unpack_tlv data tlv opt_len t p pos
     | None \<Rightarrow> unpack_configured data tlv opt_len p pos }"

partial_function (option) tlv_loop ::
    "smpp_tables \<Rightarrow> octets option \<Rightarrow> octets \<Rightarrow> smpp_tlv_decl list \<Rightarrow> SMPP_PDU \<Rightarrow> int \<Rightarrow> (SMPP_PDU \<times> int) option option" where
  "tlv_loop T smsc_id data ts p pos =
     (if pos + 4 \<le> oct_len data then do {
        r \<leftarrow> tlv_step T smsc_id data ts p pos;
        case r of None \<Rightarrow> Some None | Some (p, pos) \<Rightarrow> tlv_loop T smsc_id data ts p pos }
      else Some (Some (p, pos)))"

fun smpp_unpack_field ::
    "smpp_tables \<Rightarrow> octets option \<Rightarrow> octets \<Rightarrow> smpp_field \<Rightarrow> SMPP_PDU \<Rightarrow> int \<Rightarrow> (SMPP_PDU \<times> int) option option" where
  "smpp_unpack_field T smsc_id data (INTEGER name octs) p pos =
     (let v = decode_integer data pos octs in
      Some (if v = -1 then None else Some (set_int name v p, pos + octs)))"
| "smpp_unpack_field T smsc_id data (NULTERMINATED name max_octs) p pos = do {
     (r, pos, s) \<leftarrow> copy_until_nul data pos max_octs;
     Some (Some (set_oct name s p, pos)) }"
| "smpp_unpack_field T smsc_id data (OCTETS name field_giving_octs) p pos = do {
     s \<leftarrow> oct_copy data pos (sint (pdu_int p field_giving_octs));
     Some (if uint (pdu_int p field_giving_octs) \<noteq> oct_len s then None
           else Some (set_oct name (Some s) p, pos + uint (pdu_int p field_giving_octs))) }"
| "smpp_unpack_field T smsc_id data (OPTIONAL ts) p pos = tlv_loop T smsc_id data ts p pos"

fun smpp_unpack_fields ::
    "smpp_tables \<Rightarrow> octets option \<Rightarrow> octets \<Rightarrow> smpp_field list \<Rightarrow> SMPP_PDU \<Rightarrow> int \<Rightarrow> (SMPP_PDU \<times> int) option option" where
  "smpp_unpack_fields T smsc_id data [] p pos = Some (Some (p, pos))"
| "smpp_unpack_fields T smsc_id data (f # fs) p pos = do {
     r \<leftarrow> smpp_unpack_field T smsc_id data f p pos;
     case r of None \<Rightarrow> Some None | Some (p, pos) \<Rightarrow> smpp_unpack_fields T smsc_id data fs p pos }"

definition smpp_pdu_unpack :: "smpp_tables \<Rightarrow> octets option \<Rightarrow> octets \<Rightarrow> SMPP_PDU option option" where
  "smpp_pdu_unpack T smsc_id data_without_len =
     (if oct_len data_without_len < 4 then Some None
      else do {
        let ty = decode_integer data_without_len 0 4;
        if ty = -1 then Some None
        else do {
          pdu \<leftarrow> smpp_pdu_create ty 0;
          case pdu of None \<Rightarrow> Some None
          | Some p \<Rightarrow> do {
              let fs = (case smpp_case ty of None \<Rightarrow> [] | Some (name, fs) \<Rightarrow> fs);
              r \<leftarrow> smpp_unpack_fields T smsc_id data_without_len fs p 0;
              Some (map_option fst r) } } })"

text \<open>
  The length that precedes a packet, from the four octets read from the connection (\<open>None\<close>: not yet
  there).
\<close>

definition smpp_pdu_read_len :: "octets option \<Rightarrow> int option" where
  "smpp_pdu_read_len read = (case read of None \<Rightarrow> Some 0
     | Some os \<Rightarrow> do {
         gw_assert (length os = 4);
         let len = decode_network_long os;
         Some (if len < MIN_SMPP_PDU_LEN then -1 else if len > MAX_SMPP_PDU_LEN then -1 else len) })"

text \<open>
  The texts of \<open>smpp_error_to_string\<close>, with the numbers of \<open>enum SMPP_ERROR_MESSAGES\<close>.
\<close>

definition smpp_errors :: "(int \<times> string) list" where
  "smpp_errors = [
     (0x00000000, ''OK''),
     (0x00000001, ''Message Length is invalid''),
     (0x00000002, ''Command Length is invalid''),
     (0x00000003, ''Invalid Command ID''),
     (0x00000004, ''Incorrect BIND Status for given command''),
     (0x00000005, ''ESME Already in Bound State''),
     (0x00000006, ''Invalid Priority Flag''),
     (0x00000007, ''Invalid Registered Delivery Flag''),
     (0x00000008, ''System Error''),
     (0x0000000A, ''Invalid Source Address''),
     (0x0000000B, ''Invalid Destination Address''),
     (0x0000000D, ''Bind Failed''),
     (0x0000000E, ''Invalid Password''),
     (0x0000000F, ''Invalid System ID''),
     (0x00000011, ''Cancel SM Failed''),
     (0x00000013, ''Replace SM Failed''),
     (0x00000014, ''Message Queue Full''),
     (0x00000015, ''Invalid Service Type''),
     (0x00000033, ''Invalid number of destinations''),
     (0x00000034, ''Invalid Distribution List Name''),
     (0x00000040, ''Destination flag is invalid''),
     (0x00000042, ''Submit w/replace not supported/allowed''),
     (0x00000043, ''Invalid esm_class field data''),
     (0x00000044, ''Cannot Submit to Distribution List''),
     (0x00000045, ''Submit failed''),
     (0x00000048, ''Invalid Source address TON''),
     (0x00000049, ''Invalid Source address NPI''),
     (0x00000050, ''Invalid Destination address TON''),
     (0x00000051, ''Invalid Destination address NPI''),
     (0x00000053, ''Invalid system_type field''),
     (0x00000054, ''Invalid replace_if_present flag''),
     (0x00000055, ''Invalid number of messages''),
     (0x00000058, ''Throttling error''),
     (0x00000061, ''Invalid Scheduled Delivery Time''),
     (0x00000062, ''Invalid message validity period''),
     (0x00000063, ''Predefined Message ID is Invalid or specific predefined message was not found''),
     (0x00000064, ''ESME Receiver Temporary App Error Code''),
     (0x00000065, ''ESME Receiver Permanent App Error Code''),
     (0x00000066, ''ESME Receiver Reject Message Error Code''),
     (0x00000067, ''query_sm request failed''),
     (0x000000C0, ''Error in optional part of the PDU Body''),
     (0x000000C1, ''TLV not allowed''),
     (0x000000C2, ''Invalid Parameter Length''),
     (0x000000C3, ''Expected TLV missing''),
     (0x000000C4, ''Invalid TLV value''),
     (0x000000FE, ''Transaction Delivery Failure''),
     (0x000000FF, ''Unknown Error''),
     (0x00000100, ''ESME Not authorized to use specified service_type''),
     (0x00000101, ''ESME Prohibited from using specified operation''),
     (0x00000102, ''Specified service_type is unavailable''),
     (0x00000103, ''Specified service_type is denied''),
     (0x00000104, ''Invalid Data Coding Scheme''),
     (0x00000105, ''Source Address Sub unit is invalid''),
     (0x00000106, ''Destination Address Sub unit is invalid''),
     (0x00000107, ''Broadcast Frequency Interval is invalid''),
     (0x00000108, ''Broadcast Alias Name is invalid''),
     (0x00000109, ''Broadcast Area Format is invalid''),
     (0x0000010A, ''Number of Broadcast Areas is invalid''),
     (0x0000010B, ''Broadcast Content Type is invalid''),
     (0x0000010C, ''Broadcast Message Class is invalid''),
     (0x0000010D, ''broadcast_sm operation failed''),
     (0x0000010E, ''broadcast_query_sm operation failed''),
     (0x0000010F, ''broadcast_cancel_sm operation failed''),
     (0x00000110, ''Number of Repeated Broadcasts is invalid''),
     (0x00000111, ''Broadcast Service Group is invalid''),
     (0x00000112, ''Broadcast Channel Indicator is invalid'')]"

definition smpp_error_to_string :: "int \<Rightarrow> string" where
  "smpp_error_to_string err = (case map_of smpp_errors err of Some s \<Rightarrow> s
     | None \<Rightarrow> if err \<ge> 0x0400 \<and> err \<le> 0x04FF then ''Vendor-specific error, please refer to your SMPP provider''
               else ''Unknown/Reserved'')"

end
