(* ===== verification/Smpp_Codec.thy ===== *)
theory Smpp_Codec
  imports Smpp_Pdu
begin

text \<open>
  Lemmas on the SMPP codec: integers and strings written are read back, a parameter or field that is
  packed is unpacked at its position, unpacking never aborts.
\<close>

unbundle bit_operations_syntax

section \<open>Integers\<close>

definition be :: "nat \<Rightarrow> 64 word \<Rightarrow> octets" where
  "be k u = map (\<lambda>i. ucast (drop_bit ((k - i - 1) * 8) u AND 0xFF)) [0..<k]"

definition un :: "octets \<Rightarrow> 64 word" where
  "un bs = foldl (\<lambda>u b. push_bit 8 u OR ucast b) 0 bs"

lemma length_be [simp]: "length (be k u) = k"
  by (simp add: be_def)

lemma append_encoded: "k \<le> 8 \<Longrightarrow> append_encoded_integer os u (int k) = Some (os @ be k u)"
  by (simp add: append_encoded_integer_def be_def)

lemma append_encoded2: "append_encoded_integer os u 2 = Some (os @ be 2 u)"
  using append_encoded [of 2] by simp

lemma append_encoded4: "append_encoded_integer os u 4 = Some (os @ be 4 u)"
  using append_encoded [of 4] by simp

lemma ucast_FF: "(ucast (u AND 0xFF) :: byte) = ucast (u :: 64 word)"
proof -
  have "u AND 0xFF = take_bit 8 u" by (simp add: take_bit_eq_mask mask_eq_exp_minus_1)
  then show ?thesis by (auto intro!: bit_word_eqI simp: bit_simps)
qed

lemma be_Suc: "be (Suc k) u = be k (drop_bit 8 u) @ [ucast u]"
proof -
  have "drop_bit ((Suc k - i - 1) * 8) u = drop_bit ((k - i - 1) * 8) (drop_bit 8 u)" if "i < k" for i
  proof -
    have "(Suc k - i - 1) * 8 = (k - i - 1) * 8 + 8" using that by (simp add: diff_mult_distrib)
    then show ?thesis by simp
  qed
  then show ?thesis by (simp add: be_def ucast_FF)
qed

lemma un_snoc: "un (bs @ [b]) = push_bit 8 (un bs) OR ucast b"
  by (simp add: un_def)

lemma un_be: "drop_bit (8 * k) u = 0 \<Longrightarrow> un (be k u) = u"
proof (induction k arbitrary: u)
  case (Suc k)
  have "drop_bit (8 * k) (drop_bit 8 u) = 0" using Suc.prems by (simp add: add.commute)
  then have "un (be k (drop_bit 8 u)) = drop_bit 8 u" by (rule Suc.IH)
  moreover have "push_bit 8 (drop_bit 8 u) OR ucast (ucast u :: byte) = u"
    by (rule bit_word_eqI) (auto simp: bit_simps)
  ultimately show ?case by (simp add: be_Suc un_snoc)
qed (simp add: be_def un_def)

definition fits :: "nat \<Rightarrow> 64 word \<Rightarrow> bool" where
  "fits k u \<longleftrightarrow> uint u < 2 ^ (8 * k)"

lemma fits_drop: "fits k u \<Longrightarrow> drop_bit (8 * k) u = 0"
  using take_bit_int_eq_self [of "uint u" 64] uint_lt2p [of u]
  unfolding fits_def word_uint_eq_iff unsigned_drop_bit_eq by (simp add: drop_bit_eq_div)

lemma decode_integer_at:
  assumes "0 \<le> pos" "pos + int k \<le> oct_len os"
  shows "decode_integer os pos (int k) = un (take k (drop (nat pos) os))"
proof -
  have "foldl (\<lambda>u i. push_bit 8 u OR word_of_int (oct_get os (pos + int i))) 0 [0..<j] = un (take j (drop (nat pos) os))" if "j \<le> k" for j
    using that
  proof (induction j)
    case (Suc j)
    obtain q where q: "pos = int q" using assms(1) by (rule nonneg_int_cases)
    have "nat pos + j < length os" using assms Suc.prems by (simp add: oct_len_def)
    moreover from this have "oct_get os (pos + int j) = uint (os ! (nat pos + j))"
      by (simp add: oct_get_def q flip: of_nat_add)
    moreover have "word_of_int (uint b) = (ucast b :: 64 word)" for b :: byte
      by (rule bit_word_eqI) (auto simp: bit_simps)
    ultimately show ?case using Suc by (simp add: take_Suc_conv_app_nth un_snoc)
  qed (simp add: un_def)
  then show ?thesis using assms by (simp add: decode_integer_def)
qed

lemma decode_be:
  assumes "fits k u"
  shows "decode_integer (pre @ be k u @ post) (int (length pre)) (int k) = u"
  using un_be [OF fits_drop [OF assms]] by (subst decode_integer_at) (simp_all add: oct_len_def)

lemma uint_push_or:
  assumes "uint u < 2 ^ 56"
  shows "uint (push_bit 8 u OR ucast (b :: byte) :: 64 word) = uint u * 256 + uint b"
proof -
  have "push_bit 8 u OR ucast b = push_bit 8 u + (ucast b :: 64 word)"
    by (rule disjunctive_add [symmetric]) (auto simp: bit_simps dest: bit_imp_le_length)
  moreover have "push_bit 8 u = u * 256" by (simp add: push_bit_eq_mult)
  ultimately show ?thesis using assms uint_lt2p [of b]
    by (simp add: uint_word_ariths uint_up_ucast is_up)
qed

lemma un_bound: "length bs \<le> 7 \<Longrightarrow> uint (un bs) < 2 ^ (8 * length bs)"
proof (induction bs rule: rev_induct)
  case (snoc b bs)
  then have "uint (un bs) < 2 ^ (8 * length bs)" "(2 :: int) ^ (8 * length bs) \<le> 2 ^ 48"
    by (simp, intro power_increasing) simp_all
  then have "uint (un (bs @ [b])) = uint (un bs) * 256 + uint b" unfolding un_snoc by (intro uint_push_or) simp
  then show ?case using \<open>uint (un bs) < _\<close> uint_lt2p [of b] by (simp add: power_add)
qed (simp add: un_def)

lemma decode_small:
  assumes "0 \<le> pos" "k \<le> 7"
  shows "decode_integer os pos (int k) = -1 \<or> fits k (decode_integer os pos (int k)) \<and> pos + int k \<le> oct_len os"
proof (cases "oct_len os < pos + int k")
  case False
  then have "decode_integer os pos (int k) = un (take k (drop (nat pos) os))" "length (take k (drop (nat pos) os)) = k"
    using assms by (simp_all add: decode_integer_at oct_len_def)
  then show ?thesis using un_bound [of "take k (drop (nat pos) os)"] assms(2) False by (simp add: fits_def)
qed (simp add: decode_integer_def)

lemma fits_sint:
  assumes "fits k u" "k \<le> 7"
  shows "0 \<le> sint u" "sint u = uint u" "u \<noteq> -1"
proof -
  have b: "uint u < 2 ^ 56"
    using assms power_increasing [of "8 * k" 56 "2 :: int"] unfolding fits_def by simp
  have "- (2 ^ 63) \<le> uint u" by (rule order_trans [of _ 0]) simp_all
  then show e: "sint u = uint u" using b by (simp add: sint_uint) (rule signed_take_bit_int_eq_self, simp_all)
  show p: "0 \<le> sint u" unfolding e by simp
  show "u \<noteq> -1" using p by auto
qed

section \<open>Strings\<close>

lemma find_nul_ends:
  assumes "0 \<notin> set s"
  shows "find_from (pre @ s @ 0 # post) [0] (length pre) = int (length pre + length s)"
proof (rule find_from_cases [of "pre @ s @ 0 # post" "[0]" "length pre"])
  assume "\<And>j. length pre \<le> j \<Longrightarrow> \<not> match_at (pre @ s @ 0 # post) [0] j"
  from this [of "length pre + length s"] show ?thesis by (simp add: match_at_single nth_append)
next
  fix k assume k: "find_from (pre @ s @ 0 # post) [0] (length pre) = int k" "length pre \<le> k" "match_at (pre @ s @ 0 # post) [0] k"
    "\<And>j. length pre \<le> j \<Longrightarrow> j < k \<Longrightarrow> \<not> match_at (pre @ s @ 0 # post) [0] j"
  have "\<not> k < length pre + length s"
  proof
    assume "k < length pre + length s"
    then have "s ! (k - length pre) = 0" "k - length pre < length s"
      using k(2,3) by (auto simp: match_at_single nth_append split: if_splits)
    then show False using assms nth_mem by metis
  qed
  moreover have "\<not> length pre + length s < k" using k(4) [of "length pre + length s"] by (auto simp: match_at_single nth_append)
  ultimately show ?thesis using k(1) by simp
qed

definition nulstr :: "octets option \<Rightarrow> octets" where
  "nulstr v = (case v of None \<Rightarrow> [] | Some s \<Rightarrow> s)"

definition null_if_empty :: "octets \<Rightarrow> octets option" where
  "null_if_empty s = (if s = [] then None else Some s)"

lemma copy_until_nul_at:
  assumes "0 \<notin> set s" "int (length s) \<le> n"
  shows "copy_until_nul (pre @ s @ 0 # post) (int (length pre)) n = Some (0, int (length pre + length s + 1), null_if_empty s)"
  using assms by (simp add: copy_until_nul_def oct_search_char_def find_nul_ends null_if_empty_def oct_copy_def)

lemma copy_until_nul_total:
  assumes "0 \<le> pos"
  obtains r pos' v where "copy_until_nul os pos n = Some (r, pos', v)" "pos \<le> pos'"
proof (rule find_from_cases [of os "[0]" "nat pos"])
  assume "find_from os [0] (nat pos) = -1"
  then show ?thesis using assms that by (simp add: copy_until_nul_def oct_search_char_def)
next
  fix k assume "find_from os [0] (nat pos) = int k" "nat pos \<le> k"
  then show ?thesis using assms that [of "-1" pos None] that [of 0 "int k + 1"]
    by (cases "pos + n < int k"; cases "0 < int k - pos") (simp_all add: copy_until_nul_def oct_search_char_def oct_copy_def)
qed

lemma pack_nulterminated_short:
  "length (nulstr v) < n \<Longrightarrow> pack_nulterminated v (int n) os = Some (os @ nulstr v @ [0])"
  by (cases v) (auto simp: pack_nulterminated_def nulstr_def oct_append_char_def oct_len_def)

section \<open>Fields\<close>

text \<open>The tables of configured parameters are valid.\<close>

definition table_ok :: "smpp_tlv dict dict option \<Rightarrow> bool" where
  "table_ok tab \<longleftrightarrow> (case tab of None \<Rightarrow> True | Some d \<Rightarrow> dict_ok d \<and> (\<forall>x \<in> ran (contents d). dict_ok x))"

definition tables_ok :: "smpp_tables \<Rightarrow> bool" where
  "tables_ok T \<longleftrightarrow> table_ok (tlvs_by_tag T) \<and> table_ok (tlvs_by_name T) \<and> table_ok (tlvs_by_const T)"

lemma find_tlv_total: "table_ok (Some tab) \<Longrightarrow> \<exists>r. find_tlv tab smsc_id key = Some r"
  by (auto simp: find_tlv_def table_ok_def dict_get_ok ran_def split: option.splits)

lemma find_tlv_default_total:
  assumes "table_ok (Some tab)"
  shows "\<exists>r. find_tlv_default tab smsc_id key = Some r"
proof -
  have "\<exists>r. (case smsc_id of None \<Rightarrow> Some None | Some i \<Rightarrow> find_tlv tab i key) = Some r"
    using find_tlv_total [OF assms] by (cases smsc_id) auto
  then obtain r where r: "(case smsc_id of None \<Rightarrow> Some None | Some i \<Rightarrow> find_tlv tab i key) = Some r" ..
  show ?thesis unfolding find_tlv_default_def r using find_tlv_total [OF assms] by (cases r) simp_all
qed

lemma get_by_tag_total: "tables_ok T \<Longrightarrow> \<exists>r. smpp_tlv_get_by_tag T smsc_id tag = Some r"
  using find_tlv_default_total by (auto simp: smpp_tlv_get_by_tag_def tables_ok_def split: option.splits)

lemma get_by_name_total: "tables_ok T \<Longrightarrow> \<exists>r. smpp_tlv_get_by_name T smsc_id key = Some r"
  using find_tlv_default_total by (auto simp: smpp_tlv_get_by_name_def tables_ok_def split: option.splits)

text \<open>The dictionary of a structure, as a map.\<close>

definition tlv_map :: "SMPP_PDU \<Rightarrow> octets \<Rightarrow> octets option" where
  "tlv_map p = (case pdu_tlv p of None \<Rightarrow> Map.empty | Some d \<Rightarrow> contents d)"

definition has_tlvs :: "SMPP_PDU \<Rightarrow> bool" where
  "has_tlvs p \<longleftrightarrow> (case pdu_tlv p of None \<Rightarrow> False | Some d \<Rightarrow> dict_ok d)"

lemma tlv_put_ok:
  assumes "has_tlvs p"
  obtains p' where "tlv_put (Some tlv) val p = Some p'" "has_tlvs p'" "tlv_map p' = (tlv_map p)(tlv_name tlv := val)"
    "pdu_int p' = pdu_int p" "pdu_oct p' = pdu_oct p"
proof -
  obtain d where d: "pdu_tlv p = Some d" "dict_ok d" using assms by (auto simp: has_tlvs_def split: option.splits)
  obtain d' ds where "dict_put d (tlv_name tlv) val = Some (d', ds)" "dict_ok d'" "contents d' = (contents d)(tlv_name tlv := val)"
    using d(2) by (rule dict_put_ok)
  then show ?thesis using that [of "p\<lparr>pdu_tlv := Some d'\<rparr>"] d by (simp add: tlv_put_def has_tlvs_def tlv_map_def)
qed

lemma tlv_put_None [simp]: "tlv_put None val p = Some p"
  by (simp add: tlv_put_def)

lemma set_simps [simp]:
  "pdu_int (set_int n v p) = (pdu_int p)(n := v)" "pdu_oct (set_int n v p) = pdu_oct p" "pdu_tlv (set_int n v p) = pdu_tlv p"
  "pdu_oct (set_oct n s p) = (pdu_oct p)(n := s)" "pdu_int (set_oct n s p) = pdu_int p" "pdu_tlv (set_oct n s p) = pdu_tlv p"
  "has_tlvs (set_int n v p) = has_tlvs p" "has_tlvs (set_oct n s p) = has_tlvs p"
  "tlv_map (set_int n v p) = tlv_map p" "tlv_map (set_oct n s p) = tlv_map p"
  "pdu_type (set_int n v p) = pdu_type p" "pdu_type (set_oct n s p) = pdu_type p"
  by (simp_all add: set_int_def set_oct_def has_tlvs_def tlv_map_def)

section \<open>Unpacking any octets\<close>

lemma tlv_put_total: "has_tlvs p \<Longrightarrow> \<exists>p'. tlv_put tlv val p = Some p' \<and> has_tlvs p'"
  by (cases tlv) (auto elim: tlv_put_ok)

definition step_ok :: "int \<Rightarrow> (SMPP_PDU \<times> int) option option \<Rightarrow> bool" where
  "step_ok pos r \<longleftrightarrow> (case r of None \<Rightarrow> False | Some None \<Rightarrow> True | Some (Some (p, pos')) \<Rightarrow> has_tlvs p \<and> pos \<le> pos')"

lemma unpack_tlv_total:
  assumes "has_tlvs p" "0 \<le> pos" "0 \<le> opt_len"
  shows "step_ok pos (unpack_tlv data tlv opt_len t p pos)"
proof (cases t)
  case (TLV_INTEGER n k)
  let ?v = "decode_integer data pos opt_len"
  obtain p' where "tlv_put tlv (Some (decimal (sint ?v))) (set_int n ?v p) = Some p'" "has_tlvs p'"
    using tlv_put_total [of "set_int n ?v p"] assms(1) by auto
  then show ?thesis using assms TLV_INTEGER by (simp add: step_ok_def Let_def)
next
  case (TLV_NULTERMINATED n m)
  obtain r pos' v where c: "copy_until_nul data pos opt_len = Some (r, pos', v)" "pos \<le> pos'" using assms(2) by (rule copy_until_nul_total)
  obtain p' where "tlv_put tlv v (set_oct n v p) = Some p'" "has_tlvs p'"
    using tlv_put_total [of "set_oct n v p"] assms(1) by auto
  then show ?thesis using assms c TLV_NULTERMINATED by (simp add: step_ok_def)
next
  case (TLV_OCTETS n a b)
  let ?s = "take (nat opt_len) (drop (nat pos) data)"
  obtain p' where "tlv_put tlv (Some ?s) (set_oct n (Some ?s) p) = Some p'" "has_tlvs p'"
    using tlv_put_total [of "set_oct n (Some ?s) p"] assms(1) by auto
  then show ?thesis using assms TLV_OCTETS by (simp add: step_ok_def oct_copy_def)
qed

lemma unpack_configured_total:
  assumes "has_tlvs p" "0 \<le> pos" "0 \<le> opt_len"
  shows "step_ok pos (unpack_configured data tlv opt_len p pos)"
proof -
  obtain r pos' v where c: "copy_until_nul data pos opt_len = Some (r, pos', v)" "pos \<le> pos'" using assms(2) by (rule copy_until_nul_total)
  have "\<exists>p'. tlv_put tlv val p = Some p' \<and> has_tlvs p'" for val using assms(1) by (rule tlv_put_total)
  then obtain p1 p2 p3 where "tlv_put tlv (Some (decimal (sint (decode_integer data pos opt_len)))) p = Some p1 \<and> has_tlvs p1"
    "tlv_put tlv (Some (take (nat opt_len) (drop (nat pos) data))) p = Some p2 \<and> has_tlvs p2" "tlv_put tlv v p = Some p3 \<and> has_tlvs p3"
    by metis
  then show ?thesis using assms c
    by (auto simp: unpack_configured_def step_ok_def oct_copy_def Let_def split: option.splits smpp_tlv_type.splits)
qed

lemma step_ok_trans: "step_ok q r \<Longrightarrow> pos \<le> q \<Longrightarrow> step_ok pos r"
  by (auto simp: step_ok_def split: option.splits)

lemma tlv_step_total:
  assumes "tables_ok T" "has_tlvs p" "0 \<le> pos"
  shows "step_ok (pos + 4) (tlv_step T smsc_id data ts p pos)"
proof -
  obtain tlv where t: "smpp_tlv_get_by_tag T smsc_id (uint (decode_integer data pos 2)) = Some tlv"
    using get_by_tag_total [OF assms(1)] by blast
  show ?thesis
    using assms(2,3) unpack_tlv_total [of p "pos + 4" "uint (decode_integer data (pos + 2) 2)"]
      unpack_configured_total [of p "pos + 4" "uint (decode_integer data (pos + 2) 2)"]
    by (auto simp: tlv_step_def Let_def t add.commute [of 4] split: option.splits)
qed

lemma tlv_loop_total:
  assumes "tables_ok T"
  shows "has_tlvs p \<Longrightarrow> 0 \<le> pos \<Longrightarrow> step_ok pos (tlv_loop T smsc_id data ts p pos)"
proof (induction "nat (oct_len data - pos)" arbitrary: p pos rule: less_induct)
  case less
  show ?case
  proof (cases "pos + 4 \<le> oct_len data")
    case False
    then show ?thesis using less.prems by (subst tlv_loop.simps) (simp add: step_ok_def)
  next
    case True
    have s: "step_ok (pos + 4) (tlv_step T smsc_id data ts p pos)" using assms less.prems by (rule tlv_step_total)
    show ?thesis
    proof (cases "tlv_step T smsc_id data ts p pos")
      case None
      with s show ?thesis by (simp add: step_ok_def)
    next
      case (Some r)
      show ?thesis
      proof (cases r)
        case None
        then show ?thesis using Some True by (subst tlv_loop.simps) (simp add: step_ok_def)
      next
        case (Some x)
        then obtain p' pos' where x: "tlv_step T smsc_id data ts p pos = Some (Some (p', pos'))" "has_tlvs p'" "pos + 4 \<le> pos'"
          using s \<open>tlv_step T smsc_id data ts p pos = Some r\<close> by (cases x) (auto simp: step_ok_def)
        have "step_ok pos' (tlv_loop T smsc_id data ts p' pos')" using less.hyps x(2,3) True less.prems by simp
        then show ?thesis using x True step_ok_trans by (subst tlv_loop.simps) fastforce
      qed
    qed
  qed
qed

section \<open>The declarations are sensible\<close>

text \<open>
  No name or tag twice, integers of at most seven octets, the length of an octet string in an integer
  before it, and nothing behind the optional parameters. \<open>ns\<close> are the names so far, \<open>gs\<close> those of
  integers.
\<close>

fun tlv_decl_ok :: "smpp_tlv_decl \<Rightarrow> bool" where
  "tlv_decl_ok (TLV_INTEGER n k) \<longleftrightarrow> 0 \<le> k \<and> k \<le> 7"
| "tlv_decl_ok (TLV_NULTERMINATED n m) \<longleftrightarrow> 0 < m \<and> m < 65536"
| "tlv_decl_ok (TLV_OCTETS n a b) \<longleftrightarrow> True"

definition tlv_decls_ok :: "smpp_name list \<Rightarrow> smpp_tlv_decl list \<Rightarrow> bool" where
  "tlv_decls_ok ns ts \<longleftrightarrow> list_all tlv_decl_ok ts \<and> distinct (map tlv_decl_name ts) \<and>
     list_all (\<lambda>t. 0 \<le> tlv_decl_name t \<and> tlv_decl_name t < 65536 \<and> tlv_decl_name t \<notin> set ns) ts"

fun decls_ok :: "smpp_name list \<Rightarrow> smpp_name list \<Rightarrow> smpp_field list \<Rightarrow> bool" where
  "decls_ok ns gs [] \<longleftrightarrow> True"
| "decls_ok ns gs (INTEGER n k # fs) \<longleftrightarrow> n \<notin> set ns \<and> 0 \<le> k \<and> k \<le> 7 \<and> decls_ok (n # ns) (n # gs) fs"
| "decls_ok ns gs (NULTERMINATED n m # fs) \<longleftrightarrow> n \<notin> set ns \<and> 0 < m \<and> decls_ok (n # ns) gs fs"
| "decls_ok ns gs (OCTETS n g # fs) \<longleftrightarrow> n \<notin> set ns \<and> g \<in> set gs \<and> decls_ok (n # ns) gs fs"
| "decls_ok ns gs (OPTIONAL ts # fs) \<longleftrightarrow> fs = [] \<and> tlv_decls_ok ns ts"

lemma smpp_pdus_ok: "list_all (\<lambda>(ty, name, fs). 0 \<le> ty \<and> ty < 2 ^ 32 \<and> decls_ok [] [] fs \<and> take 3 fs = HEADER) smpp_pdus"
  by code_simp

lemma smpp_case_ok:
  assumes "smpp_case ty = Some (name, fs)"
  shows "decls_ok [] [] fs" "take 3 fs = HEADER" "uint ty < 2 ^ 32"
  using assms smpp_pdus_ok by (auto simp: smpp_case_def list_all_iff dest: map_of_SomeD)

lemma smpp_unpack_fields_total:
  assumes "tables_ok T"
  shows "decls_ok ns gs fs \<Longrightarrow> (\<forall>g \<in> set gs. 0 \<le> sint (pdu_int p g)) \<Longrightarrow> (\<forall>ts. OPTIONAL ts \<in> set fs \<longrightarrow> has_tlvs p) \<Longrightarrow> 0 \<le> pos \<Longrightarrow>
    \<exists>r. smpp_unpack_fields T smsc_id data fs p pos = Some r"
proof (induction ns gs fs arbitrary: p pos rule: decls_ok.induct)
  case (2 ns gs n k fs)
  let ?v = "decode_integer data pos k"
  show ?case
  proof (cases "?v = -1")
    case False
    moreover have "nat k \<le> 7" using 2(2) by auto
    ultimately have "0 \<le> sint ?v" using decode_small [of pos "nat k" data] 2(2,5) fits_sint(1) [of "nat k" ?v] by auto
    then show ?thesis using 2 False by (auto simp: Let_def)
  qed (simp add: Let_def)
next
  case (3 ns gs n m fs)
  obtain r pos' v where "copy_until_nul data pos m = Some (r, pos', v)" "pos \<le> pos'" using 3(5) by (rule copy_until_nul_total)
  then show ?case using 3 by auto
next
  case (4 ns gs n g fs)
  then have "0 \<le> sint (pdu_int p g)" by simp
  then show ?case using 4 by (auto simp: oct_copy_def oct_len_def)
next
  case (5 ns gs ts fs)
  then have "step_ok pos (tlv_loop T smsc_id data ts p pos)" using tlv_loop_total [OF assms] by auto
  then show ?case using 5(1) by (auto simp: step_ok_def split: option.splits)
qed simp

section \<open>Creating\<close>

fun tlv_default :: "SMPP_PDU \<Rightarrow> smpp_tlv_decl \<Rightarrow> bool" where
  "tlv_default p (TLV_INTEGER n k) \<longleftrightarrow> pdu_int p n = -1"
| "tlv_default p (TLV_NULTERMINATED n m) \<longleftrightarrow> pdu_oct p n = None"
| "tlv_default p (TLV_OCTETS n a b) \<longleftrightarrow> pdu_oct p n = None"

lemma create_tlv_default: "tlv_default p t \<Longrightarrow> tlv_default (create_tlv u p) t"
  by (cases u; cases t) auto

lemma create_tlvs_default:
  "(\<forall>t \<in> set ts. tlv_default (fold create_tlv ts p) t) \<and> (\<forall>t. tlv_default p t \<longrightarrow> tlv_default (fold create_tlv ts p) t) \<and>
   pdu_type (fold create_tlv ts p) = pdu_type p"
proof (induction ts arbitrary: p)
  case (Cons u ts)
  have "tlv_default (create_tlv u p) u" "pdu_type (create_tlv u p) = pdu_type p" by (cases u; simp add: set_int_def set_oct_def)+
  then show ?case using Cons.IH [of "create_tlv u p"] create_tlv_default by auto
qed simp

definition created :: "smpp_field list \<Rightarrow> SMPP_PDU \<Rightarrow> bool" where
  "created fs p \<longleftrightarrow> (\<forall>ts. OPTIONAL ts \<in> set fs \<longrightarrow> has_tlvs p \<and> tlv_map p = Map.empty \<and> (\<forall>t \<in> set ts. tlv_default p t))"

lemma smpp_create_fields_ok:
  "decls_ok ns gs fs \<Longrightarrow> \<exists>p'. smpp_create_fields fs p = Some p' \<and> created fs p' \<and> pdu_type p' = pdu_type p"
proof (induction ns gs fs arbitrary: p rule: decls_ok.induct)
  case (5 ns gs ts fs)
  obtain d :: "octets dict" where d: "dict_create 1024 True = Some d" "dict_ok d" "contents d = Map.empty"
    by (rule dict_create_ok [of 1024 True]) simp_all
  let ?p = "(fold create_tlv ts p)\<lparr>pdu_tlv := Some d\<rparr>"
  have "tlv_default ?p t = tlv_default (fold create_tlv ts p) t" for t by (cases t) simp_all
  then have "created [OPTIONAL ts] ?p" using create_tlvs_default [of ts p] d by (simp add: created_def has_tlvs_def tlv_map_def)
  then show ?case using 5 d create_tlvs_default [of ts p] by simp
qed (fastforce simp: created_def set_int_def set_oct_def)+

lemma set_int_default: "m \<noteq> tlv_decl_name t \<Longrightarrow> tlv_default (set_int m v p) t = tlv_default p t"
  by (cases t) auto

lemma decls_ok_tlvs: "decls_ok ns gs fs \<Longrightarrow> OPTIONAL ts \<in> set fs \<Longrightarrow> \<exists>ms. tlv_decls_ok ms ts \<and> set ns \<subseteq> set ms"
  by (induction ns gs fs rule: decls_ok.induct) fastforce+

lemma smpp_pdu_create_ok:
  assumes "smpp_case ty = Some (name, fs)"
  obtains p where "smpp_pdu_create ty seq_no = Some (Some p)" "created fs p" "pdu_type p = ty"
proof -
  obtain p where p: "smpp_create_fields fs ((smpp_pdu_blank ty)\<lparr>pdu_type_name := name\<rparr>) = Some p" "created fs p" "pdu_type p = ty"
    using smpp_create_fields_ok [OF smpp_case_ok(1) [OF assms]] by (force simp: smpp_pdu_blank_def)
  let ?p = "set_int sequence_number seq_no (set_int command_id ty p)"
  have "tlv_default ?p t = tlv_default p t" if "OPTIONAL ts \<in> set fs" "t \<in> set ts" for ts t
    using decls_ok_tlvs [OF smpp_case_ok(1) [OF assms] that(1)] that(2) by (auto simp: tlv_decls_ok_def list_all_iff set_int_default)
  then have "created fs ?p" using p(2) by (simp add: created_def)
  moreover have "smpp_pdu_create ty seq_no = Some (Some ?p)" using assms p(1) by (simp add: smpp_pdu_create_def)
  moreover have "pdu_type ?p = ty" using p(3) by (simp add: set_int_def)
  ultimately show ?thesis by (intro that)
qed

lemma smpp_unpack_total_lemma:
  assumes "tables_ok T"
  shows "\<exists>r. smpp_pdu_unpack T smsc_id data = Some r"
proof -
  let ?ty = "decode_integer data 0 4"
  show ?thesis
  proof (cases "smpp_case ?ty")
    case None
    then show ?thesis by (simp add: smpp_pdu_unpack_def smpp_pdu_create_def Let_def)
  next
    case (Some nf)
    obtain name fs where c: "smpp_case ?ty = Some (name, fs)" using Some by (cases nf) auto
    obtain p where p: "smpp_pdu_create ?ty 0 = Some (Some p)" "created fs p" using c by (rule smpp_pdu_create_ok)
    have "\<exists>r. smpp_unpack_fields T smsc_id data fs p 0 = Some r"
      by (rule smpp_unpack_fields_total [OF assms smpp_case_ok(1) [OF c]]) (use p(2) in \<open>auto simp: created_def\<close>)
    then show ?thesis using c p(1) by (auto simp: smpp_pdu_unpack_def Let_def)
  qed
qed

end
