(* ===== verification/Smpp_Roundtrip.thy ===== *)
theory Smpp_Roundtrip
  imports Smpp_Codec
begin

text \<open>
  Unpacking inverts packing: what a PDU must satisfy so that nothing is cut (\<open>smpp_pdu_ok\<close>), what is the
  same after the two (\<open>same_field\<close>), and the induction over the fields, the declared and the configured
  optional parameters.
\<close>

section \<open>PDUs that are packed without loss\<close>

fun tlv_ok :: "SMPP_PDU \<Rightarrow> smpp_tlv_decl \<Rightarrow> bool" where
  "tlv_ok p (TLV_INTEGER n k) \<longleftrightarrow> pdu_int p n = -1 \<or> fits (nat k) (pdu_int p n)"
| "tlv_ok p (TLV_NULTERMINATED n m) \<longleftrightarrow> 0 \<notin> set (nulstr (pdu_oct p n)) \<and> int (length (nulstr (pdu_oct p n))) < m"
| "tlv_ok p (TLV_OCTETS n a b) \<longleftrightarrow> (case pdu_oct p n of None \<Rightarrow> True
     | Some s \<Rightarrow> a \<le> int (length s) \<and> int (length s) \<le> b \<and> length s < 65536)"

fun smpp_field_ok :: "SMPP_PDU \<Rightarrow> smpp_field \<Rightarrow> bool" where
  "smpp_field_ok p (INTEGER n k) \<longleftrightarrow> fits (nat k) (pdu_int p n)"
| "smpp_field_ok p (NULTERMINATED n m) \<longleftrightarrow> 0 \<notin> set (nulstr (pdu_oct p n)) \<and> int (length (nulstr (pdu_oct p n))) < m"
| "smpp_field_ok p (OCTETS n g) \<longleftrightarrow> int (length (nulstr (pdu_oct p n))) < 2 ^ 63"
| "smpp_field_ok p (OPTIONAL ts) \<longleftrightarrow> list_all (tlv_ok p) ts"

text \<open>A configured parameter \<open>k\<close> with value \<open>v\<close> that is sent and recognised again.\<close>

fun conf_value_ok :: "smpp_tlv_type \<Rightarrow> int \<Rightarrow> octets \<Rightarrow> bool" where
  "conf_value_ok SMPP_TLV_INTEGER l v \<longleftrightarrow> l \<le> 7 \<and> (let i = fst (snd (strtol v 10)) in v = decimal i \<and> 0 \<le> i \<and> i < 2 ^ (8 * nat l))"
| "conf_value_ok SMPP_TLV_OCTETS l v \<longleftrightarrow> int (length v) \<le> l"
| "conf_value_ok SMPP_TLV_NULTERMINATED l v \<longleftrightarrow> v \<noteq> [] \<and> 0 \<notin> set v \<and> int (length v) + 1 \<le> l"

definition conf_ok :: "smpp_tables \<Rightarrow> octets option \<Rightarrow> smpp_tlv_decl list \<Rightarrow> octets \<Rightarrow> octets \<Rightarrow> smpp_tlv \<Rightarrow> bool" where
  "conf_ok T smsc_id ts k v tlv \<longleftrightarrow> tlv_name tlv = k \<and> smpp_tlv_get_by_tag T smsc_id (tlv_tag tlv) = Some (Some tlv) \<and>
     0 \<le> tlv_tag tlv \<and> tlv_tag tlv < 65536 \<and> tlv_tag tlv \<notin> tlv_decl_name ` set ts \<and>
     0 \<le> tlv_length tlv \<and> tlv_length tlv < 65536 \<and> conf_value_ok (tlv_type tlv) (tlv_length tlv) v"

definition options_ok :: "smpp_tables \<Rightarrow> octets option \<Rightarrow> SMPP_PDU \<Rightarrow> smpp_tlv_decl list \<Rightarrow> bool" where
  "options_ok T smsc_id p ts \<longleftrightarrow>
     list_all (\<lambda>t. smpp_tlv_get_by_tag T smsc_id (tlv_decl_name t) = Some None) ts \<and>
     (case pdu_tlv p of None \<Rightarrow> True
      | Some d \<Rightarrow> dict_ok d \<and> (\<forall>k v tlv. contents d k = Some v \<and> smpp_tlv_get_by_name T smsc_id k = Some (Some tlv) \<longrightarrow> conf_ok T smsc_id ts k v tlv))"

definition smpp_pdu_ok :: "smpp_tables \<Rightarrow> octets option \<Rightarrow> smpp_field list \<Rightarrow> SMPP_PDU \<Rightarrow> bool" where
  "smpp_pdu_ok T smsc_id fs p \<longleftrightarrow> pdu_int p command_id = pdu_type p \<and> list_all (smpp_field_ok p) fs \<and>
     list_all (\<lambda>f. case f of OPTIONAL ts \<Rightarrow> options_ok T smsc_id p ts | _ \<Rightarrow> True) fs"

section \<open>What is the same after packing and unpacking\<close>

text \<open>An empty NUL-terminated string comes back as NULL, a missing octet string as an empty one.\<close>

fun same_tlv :: "SMPP_PDU \<Rightarrow> SMPP_PDU \<Rightarrow> smpp_tlv_decl \<Rightarrow> bool" where
  "same_tlv q p (TLV_INTEGER n k) \<longleftrightarrow> pdu_int q n = pdu_int p n"
| "same_tlv q p (TLV_NULTERMINATED n m) \<longleftrightarrow> pdu_oct q n = null_if_empty (nulstr (pdu_oct p n))"
| "same_tlv q p (TLV_OCTETS n a b) \<longleftrightarrow> pdu_oct q n = pdu_oct p n"

fun same_field :: "SMPP_PDU \<Rightarrow> SMPP_PDU \<Rightarrow> smpp_field \<Rightarrow> bool" where
  "same_field q p (INTEGER n k) \<longleftrightarrow> pdu_int q n = pdu_int p n"
| "same_field q p (NULTERMINATED n m) \<longleftrightarrow> pdu_oct q n = null_if_empty (nulstr (pdu_oct p n))"
| "same_field q p (OCTETS n g) \<longleftrightarrow> pdu_oct q n = Some (nulstr (pdu_oct p n))"
| "same_field q p (OPTIONAL ts) \<longleftrightarrow> list_all (same_tlv q p) ts"

section \<open>The octets of a parameter\<close>

definition block :: "int \<Rightarrow> int \<Rightarrow> octets \<Rightarrow> octets" where
  "block tag len v = be 2 (word_of_int tag) @ be 2 (word_of_int len) @ v"

fun enc_tlv :: "SMPP_PDU \<Rightarrow> smpp_tlv_decl \<Rightarrow> octets" where
  "enc_tlv p (TLV_INTEGER n k) = (if pdu_int p n = -1 then [] else block n k (be (nat k) (pdu_int p n)))"
| "enc_tlv p (TLV_NULTERMINATED n m) = (case pdu_oct p n of None \<Rightarrow> [] | Some s \<Rightarrow> block n (int (length s) + 1) (s @ [0]))"
| "enc_tlv p (TLV_OCTETS n a b) = (case pdu_oct p n of None \<Rightarrow> [] | Some s \<Rightarrow> block n (int (length s)) s)"

lemma pack_TL_block: "pack_TL tag len os = Some (os @ block tag len [])"
  by (simp add: pack_TL_def append_encoded2 block_def)

lemma block_append: "block tag len v = block tag len [] @ v"
  by (simp add: block_def)

lemma length_block [simp]: "length (block tag len v) = 4 + length v"
  by (simp add: block_def)

lemma block_not_Nil [simp]: "block tag len v \<noteq> []"
  using length_block [of tag len v] by fastforce

lemma append_encoded_int: "0 \<le> k \<Longrightarrow> k \<le> 8 \<Longrightarrow> append_encoded_integer os u k = Some (os @ be (nat k) u)"
  using append_encoded [of "nat k"] by simp

lemma pack_tlv_enc:
  assumes "tlv_ok p t" "tlv_decl_ok t"
  shows "pack_tlv p t os = Some (os @ enc_tlv p t)"
proof (cases t)
  case (TLV_INTEGER n k)
  show ?thesis
  proof (cases "pdu_int p n = -1")
    case False
    then have "0 \<le> sint (pdu_int p n)" using assms TLV_INTEGER fits_sint(1) [of "nat k" "pdu_int p n"] nat_le_iff [of k 7] by simp
    then show ?thesis using assms TLV_INTEGER False
      by (simp add: pack_TL_block append_encoded_int block_append [of n k "be (nat k) (pdu_int p n)"])
  qed (simp add: TLV_INTEGER)
next
  case (TLV_NULTERMINATED n m)
  then show ?thesis using assms pack_nulterminated_short [of "pdu_oct p n" "nat m"]
    by (auto simp: pack_TL_block nulstr_def oct_len_def block_append [of n _ "_ @ _"] split: option.splits)
next
  case (TLV_OCTETS n a b)
  then show ?thesis using assms
    by (auto simp: pack_TL_block oct_len_def block_append [of n _ "_ # _"] split: option.splits) (simp add: block_def)
qed

lemma pack_tlvs_enc:
  "list_all (tlv_ok p) ts \<Longrightarrow> list_all tlv_decl_ok ts \<Longrightarrow> pack_tlvs p ts os = Some (os @ concat (map (enc_tlv p) ts))"
  by (induction ts arbitrary: os) (simp_all add: pack_tlv_enc)

lemma fits_word: "0 \<le> i \<Longrightarrow> i < 2 ^ (8 * k) \<Longrightarrow> k \<le> 7 \<Longrightarrow> fits k (word_of_int i) \<and> uint (word_of_int i :: 64 word) = i"
proof -
  assume i: "0 \<le> i" "i < 2 ^ (8 * k)" "k \<le> 7"
  have "(2 :: int) ^ (8 * k) \<le> 2 ^ 64" using i(3) by (intro power_increasing) simp_all
  then have "uint (word_of_int i :: 64 word) = i" using i by (simp add: uint_word_of_int)
  then show ?thesis using i(2) by (simp add: fits_def)
qed

text \<open>One turn of the loop over a parameter that is at the position.\<close>

lemma tlv_step_block:
  assumes "data = pre @ block tag len v @ post" "0 \<le> tag" "tag < 65536" "0 \<le> len" "len < 65536"
    and "smpp_tlv_get_by_tag T smsc_id tag = Some tlv"
  shows "tlv_step T smsc_id data ts q (int (length pre)) =
    (case find (\<lambda>t. tlv_decl_name t = tag) ts of
       Some t \<Rightarrow> unpack_tlv data tlv len t q (int (length pre) + 4)
     | None \<Rightarrow> unpack_configured data tlv len q (int (length pre) + 4))"
proof -
  have t: "fits 2 (word_of_int tag)" "uint (word_of_int tag :: 64 word) = tag" using fits_word [of tag 2] assms by simp_all
  have l: "fits 2 (word_of_int len)" "uint (word_of_int len :: 64 word) = len" using fits_word [of len 2] assms by simp_all
  have "decode_integer data (int (length pre)) 2 = word_of_int tag"
    using decode_be [OF t(1), of pre "be 2 (word_of_int len) @ v @ post"] by (simp add: assms(1) block_def)
  moreover have "decode_integer data (int (length pre) + 2) 2 = word_of_int len"
    using decode_be [OF l(1), of "pre @ be 2 (word_of_int tag)" "v @ post"] by (simp add: assms(1) block_def add.commute [of 2])
  ultimately show ?thesis using assms(6) by (simp add: tlv_step_def Let_def t(2) l(2) add.commute [of 4] split: option.split)
qed

section \<open>Declared parameters\<close>

fun put_tlv :: "SMPP_PDU \<Rightarrow> smpp_tlv_decl \<Rightarrow> SMPP_PDU \<Rightarrow> SMPP_PDU" where
  "put_tlv p (TLV_INTEGER n k) q = set_int n (pdu_int p n) q"
| "put_tlv p (TLV_NULTERMINATED n m) q = set_oct n (null_if_empty (nulstr (pdu_oct p n))) q"
| "put_tlv p (TLV_OCTETS n a b) q = set_oct n (pdu_oct p n) q"

lemma unpack_tlv_enc:
  assumes "data = pre @ enc_tlv p t @ post" "enc_tlv p t \<noteq> []" "tlv_ok p t" "tlv_decl_ok t" "t \<in> set ts" "tlv_decls_ok ns ts"
    and "smpp_tlv_get_by_tag T smsc_id (tlv_decl_name t) = Some None"
  shows "tlv_step T smsc_id data ts q (int (length pre)) = Some (Some (put_tlv p t q, int (length (pre @ enc_tlv p t))))"
proof -
  have d: "0 \<le> tlv_decl_name t" "tlv_decl_name t < 65536" "distinct (map tlv_decl_name ts)"
    using assms(5,6) by (auto simp: tlv_decls_ok_def list_all_iff)
  have f: "find (\<lambda>u. tlv_decl_name u = tlv_decl_name t) ts = Some t"
    using assms(5) d(3) by (induction ts) (auto simp: image_iff)
  note step = tlv_step_block [OF _ d(1,2) _ _ assms(7), where ts = ts]
  show ?thesis
  proof (cases t)
    case (TLV_INTEGER n k)
    let ?v = "pdu_int p n"
    have v: "?v \<noteq> -1" "fits (nat k) ?v" "0 \<le> k" "k \<le> 7" using assms(2-4) TLV_INTEGER by (auto split: if_splits)
    have "decode_integer data (int (length pre) + 4) k = ?v"
      using decode_be [OF v(2), of "pre @ block n k []" post] v(1,3) by (simp add: assms(1) TLV_INTEGER block_def add.commute [of 4])
    then show ?thesis using step [of data pre k "be (nat k) ?v" post q] v f
      by (simp add: assms(1) TLV_INTEGER Let_def)
  next
    case (TLV_NULTERMINATED n m)
    obtain s where s: "pdu_oct p n = Some s" using assms(2) TLV_NULTERMINATED by (auto split: option.splits)
    have b: "0 \<notin> set s" "int (length s) < m" "m < 65536" using assms(3,4) TLV_NULTERMINATED s by (simp_all add: nulstr_def)
    have "copy_until_nul data (int (length pre) + 4) (int (length s) + 1) = Some (0, int (length pre) + 5 + int (length s), null_if_empty s)"
      using copy_until_nul_at [OF b(1), of "int (length s) + 1" "pre @ block n (int (length s) + 1) []" post]
      by (simp add: assms(1) TLV_NULTERMINATED s block_def add.commute [of 4] algebra_simps)
    moreover have "int (length pre) + 4 + (int (length s) + 1) \<le> oct_len data"
      by (simp add: assms(1) TLV_NULTERMINATED s oct_len_def)
    ultimately show ?thesis using step [of data pre "int (length s) + 1" "s @ [0]" post q] f b
      by (simp add: assms(1) TLV_NULTERMINATED s nulstr_def)
  next
    case (TLV_OCTETS n a b)
    obtain s where s: "pdu_oct p n = Some s" using assms(2) TLV_OCTETS by (auto split: option.splits)
    have b: "a \<le> int (length s)" "int (length s) \<le> b" "length s < 65536" using assms(3) TLV_OCTETS s by simp_all
    have "oct_copy data (int (length pre) + 4) (int (length s)) = Some s"
      by (simp add: assms(1) TLV_OCTETS s oct_copy_def block_def nat_add_distrib)
    moreover have "int (length pre) + 4 + int (length s) \<le> oct_len data"
      by (simp add: assms(1) TLV_OCTETS s oct_len_def)
    ultimately show ?thesis using step [of data pre "int (length s)" s post q] f b
      by (simp add: assms(1) TLV_OCTETS s)
  qed
qed

definition put_present :: "SMPP_PDU \<Rightarrow> smpp_tlv_decl \<Rightarrow> SMPP_PDU \<Rightarrow> SMPP_PDU" where
  "put_present p t q = (if enc_tlv p t = [] then q else put_tlv p t q)"

lemma enc_tlv_length: "enc_tlv p t \<noteq> [] \<Longrightarrow> 4 \<le> length (enc_tlv p t)"
  by (cases t) (auto split: option.splits if_splits)

lemma loop_declared:
  assumes "tlv_decls_ok ns ts" "list_all (tlv_ok p) ts" "list_all (\<lambda>t. smpp_tlv_get_by_tag T smsc_id (tlv_decl_name t) = Some None) ts"
  shows "set us \<subseteq> set ts \<Longrightarrow> data = pre @ concat (map (enc_tlv p) us) @ post \<Longrightarrow>
    tlv_loop T smsc_id data ts q (int (length pre)) =
    tlv_loop T smsc_id data ts (fold (put_present p) us q) (int (length (pre @ concat (map (enc_tlv p) us))))"
proof (induction us arbitrary: pre q)
  case (Cons u us)
  show ?case
  proof (cases "enc_tlv p u = []")
    case True
    then show ?thesis using Cons by (simp add: put_present_def)
  next
    case False
    have u: "u \<in> set ts" "tlv_ok p u" "tlv_decl_ok u" "smpp_tlv_get_by_tag T smsc_id (tlv_decl_name u) = Some None"
      using Cons.prems(1) assms by (auto simp: tlv_decls_ok_def list_all_iff)
    have d: "data = pre @ enc_tlv p u @ (concat (map (enc_tlv p) us) @ post)" using Cons.prems(2) by simp
    have "tlv_step T smsc_id data ts q (int (length pre)) = Some (Some (put_tlv p u q, int (length (pre @ enc_tlv p u))))"
      by (rule unpack_tlv_enc [OF d False u(2,3,1) assms(1) u(4)])
    moreover have "int (length pre) + 4 \<le> oct_len data" using enc_tlv_length [OF False] by (simp add: d oct_len_def)
    ultimately have "tlv_loop T smsc_id data ts q (int (length pre)) =
        tlv_loop T smsc_id data ts (put_tlv p u q) (int (length (pre @ enc_tlv p u)))"
      by (subst tlv_loop.simps) simp
    then show ?thesis using Cons.IH [of "pre @ enc_tlv p u" "put_tlv p u q"] Cons.prems False by (simp add: put_present_def algebra_simps)
  qed
qed simp

lemma put_present_other:
  "tlv_decl_name t \<noteq> n \<Longrightarrow> pdu_int (put_present p t q) n = pdu_int q n \<and> pdu_oct (put_present p t q) n = pdu_oct q n"
  by (cases t) (auto simp: put_present_def)

lemma put_present_tlvs [simp]:
  "has_tlvs (put_present p t q) = has_tlvs q" "tlv_map (put_present p t q) = tlv_map q" "pdu_type (put_present p t q) = pdu_type q"
  by (cases t; simp add: put_present_def set_int_def set_oct_def has_tlvs_def tlv_map_def)+

lemma put_present_same: "tlv_default q t \<Longrightarrow> same_tlv (put_present p t q) p t"
  by (cases t) (auto simp: put_present_def null_if_empty_def nulstr_def split: option.splits)

lemma same_tlv_cong:
  "pdu_int q (tlv_decl_name t) = pdu_int q' (tlv_decl_name t) \<Longrightarrow> pdu_oct q (tlv_decl_name t) = pdu_oct q' (tlv_decl_name t) \<Longrightarrow>
   same_tlv q p t = same_tlv q' p t \<and> tlv_default q t = tlv_default q' t"
  by (cases t) auto

lemma put_all_other:
  "n \<notin> tlv_decl_name ` set ts \<Longrightarrow> pdu_int (fold (put_present p) ts q) n = pdu_int q n \<and> pdu_oct (fold (put_present p) ts q) n = pdu_oct q n"
  by (induction ts arbitrary: q) (auto simp: put_present_other)

lemma put_all_tlvs:
  "has_tlvs (fold (put_present p) ts q) = has_tlvs q \<and> tlv_map (fold (put_present p) ts q) = tlv_map q \<and> pdu_type (fold (put_present p) ts q) = pdu_type q"
  by (induction ts arbitrary: q) simp_all

lemma put_all_same:
  "distinct (map tlv_decl_name ts) \<Longrightarrow> \<forall>t \<in> set ts. tlv_default q t \<Longrightarrow> \<forall>t \<in> set ts. same_tlv (fold (put_present p) ts q) p t"
proof (induction ts arbitrary: q)
  case (Cons u ts)
  have "tlv_default (put_present p u q) t" if "t \<in> set ts" for t
    using that Cons.prems same_tlv_cong [of "put_present p u q" t q] put_present_other [of u "tlv_decl_name t" p q]
    by (auto simp: image_iff)
  then have "\<forall>t \<in> set ts. same_tlv (fold (put_present p) ts (put_present p u q)) p t" using Cons by simp
  moreover have "same_tlv (fold (put_present p) ts (put_present p u q)) p u"
    using put_present_same [of q u p] Cons.prems put_all_other [of "tlv_decl_name u" ts p "put_present p u q"]
      same_tlv_cong [of "fold (put_present p) ts (put_present p u q)" u "put_present p u q"] by auto
  ultimately show ?case by simp
qed simp

section \<open>Configured parameters\<close>

definition conf_block :: "smpp_tlv \<Rightarrow> octets \<Rightarrow> octets" where
  "conf_block tlv v = (case tlv_type tlv of
     SMPP_TLV_INTEGER \<Rightarrow> block (tlv_tag tlv) (tlv_length tlv) (be (nat (tlv_length tlv)) (word_of_int (fst (snd (strtol v 10)))))
   | SMPP_TLV_OCTETS \<Rightarrow> block (tlv_tag tlv) (int (length v)) v
   | SMPP_TLV_NULTERMINATED \<Rightarrow> block (tlv_tag tlv) (int (length v) + 1) (v @ [0]))"

definition enc_key :: "smpp_tables \<Rightarrow> octets option \<Rightarrow> (octets \<Rightarrow> octets option) \<Rightarrow> octets \<Rightarrow> octets" where
  "enc_key T smsc_id M k = (case smpp_tlv_get_by_name T smsc_id k of Some (Some tlv) \<Rightarrow> conf_block tlv (nulstr (M k)) | _ \<Rightarrow> [])"

lemma pack_configured_enc:
  assumes "dict_ok d" "contents d k = Some v" "conf_ok T smsc_id ts k v tlv"
  shows "pack_configured d k tlv os = Some (os @ conf_block tlv v)"
proof -
  have g: "dict_get d k = Some (Some v)" using assms(1,2) by (simp add: dict_get_ok)
  have c: "0 \<le> tlv_length tlv" "tlv_length tlv < 65536" "conf_value_ok (tlv_type tlv) (tlv_length tlv) v" using assms(3) by (simp_all add: conf_ok_def)
  have m: "tlv_length tlv mod 2 ^ 64 = tlv_length tlv" using c(1,2) by simp
  show ?thesis
  proof (cases "tlv_type tlv")
    case SMPP_TLV_INTEGER
    then show ?thesis using g c
      by (simp add: pack_configured_def pack_TL_block append_encoded_int conf_block_def block_append [of _ _ "be _ _"])
  next
    case SMPP_TLV_OCTETS
    then show ?thesis using g c m by (simp add: pack_configured_def pack_TL_block oct_len_def conf_block_def block_def)
  next
    case SMPP_TLV_NULTERMINATED
    then show ?thesis using g c m
      by (simp add: pack_configured_def pack_TL_block oct_len_def conf_block_def block_def oct_append_char_def)
  qed
qed

definition dict_fits :: "smpp_tables \<Rightarrow> octets option \<Rightarrow> smpp_tlv_decl list \<Rightarrow> octets dict \<Rightarrow> bool" where
  "dict_fits T smsc_id ts d \<longleftrightarrow> dict_ok d \<and>
     (\<forall>k v tlv. contents d k = Some v \<and> smpp_tlv_get_by_name T smsc_id k = Some (Some tlv) \<longrightarrow> conf_ok T smsc_id ts k v tlv)"

lemma pack_keys_enc:
  assumes "tables_ok T" "dict_fits T smsc_id ts d"
  shows "rep keys ks \<Longrightarrow> set ks \<subseteq> dom (contents d) \<Longrightarrow>
    pack_keys T smsc_id d keys os = Some (os @ concat (map (enc_key T smsc_id (contents d)) ks))"
proof (induction ks arbitrary: keys os)
  case Nil
  then show ?case using gwlist_extract_first_rep [OF Nil(1)] by (subst pack_keys.simps) (auto elim!: runsE)
next
  case (Cons k ks)
  obtain keys' where e: "gwlist_extract_first keys = Some (Some k, keys')" "rep keys' ks"
    using gwlist_extract_first_rep [OF Cons.prems(1)] by (auto elim!: runsE)
  obtain tlv where t: "smpp_tlv_get_by_name T smsc_id k = Some tlv" using get_by_name_total [OF assms(1)] by blast
  obtain v where v: "contents d k = Some v" using Cons.prems(2) by auto
  have "(case tlv of None \<Rightarrow> Some os | Some tlv \<Rightarrow> pack_configured d k tlv os) = Some (os @ enc_key T smsc_id (contents d) k)"
    using assms(2) t v pack_configured_enc [of d k v T smsc_id ts] by (auto simp: dict_fits_def enc_key_def nulstr_def split: option.splits)
  then show ?case using e t Cons by (subst pack_keys.simps) simp
qed

lemma unpack_conf_block:
  assumes "data = pre @ conf_block tlv v @ post" "conf_ok T smsc_id ts k v tlv" "has_tlvs q"
  obtains q' where "tlv_step T smsc_id data ts q (int (length pre)) = Some (Some (q', int (length (pre @ conf_block tlv v))))"
    "has_tlvs q'" "tlv_map q' = (tlv_map q)(k \<mapsto> v)" "pdu_int q' = pdu_int q" "pdu_oct q' = pdu_oct q" "pdu_type q' = pdu_type q"
proof -
  have c: "tlv_name tlv = k" "smpp_tlv_get_by_tag T smsc_id (tlv_tag tlv) = Some (Some tlv)" "0 \<le> tlv_tag tlv" "tlv_tag tlv < 65536"
    "tlv_tag tlv \<notin> tlv_decl_name ` set ts" "0 \<le> tlv_length tlv" "tlv_length tlv < 65536" "conf_value_ok (tlv_type tlv) (tlv_length tlv) v"
    using assms(2) by (simp_all add: conf_ok_def)
  obtain q' where q': "tlv_put (Some tlv) (Some v) q = Some q'" "has_tlvs q'" "tlv_map q' = (tlv_map q)(k \<mapsto> v)"
    "pdu_int q' = pdu_int q" "pdu_oct q' = pdu_oct q" using tlv_put_ok [OF assms(3), of tlv "Some v"] c(1) by metis
  have ty: "pdu_type q' = pdu_type q" using q'(1) by (auto simp: tlv_put_def bind_eq_Some_conv)
  have m: "tlv_length tlv mod 2 ^ 64 = tlv_length tlv" using c(6,7) by simp
  have nf: "find (\<lambda>t. tlv_decl_name t = tlv_tag tlv) ts = None" using c(5) by (force simp: find_None_iff)
  note step = tlv_step_block [OF _ c(3,4) _ _ c(2), where ts = ts, unfolded nf option.case]
  have "tlv_step T smsc_id data ts q (int (length pre)) = Some (Some (q', int (length (pre @ conf_block tlv v))))"
  proof (cases "tlv_type tlv")
    case SMPP_TLV_INTEGER
    define i where "i = fst (snd (strtol v 10))"
    have i: "v = decimal i" "0 \<le> i" "i < 2 ^ (8 * nat (tlv_length tlv))" "nat (tlv_length tlv) \<le> 7"
      using c(8) SMPP_TLV_INTEGER by (simp_all add: i_def Let_def nat_le_iff)
    have w: "fits (nat (tlv_length tlv)) (word_of_int i)" "uint (word_of_int i :: 64 word) = i" using fits_word [OF i(2-4)] by simp_all
    have cb: "conf_block tlv v = block (tlv_tag tlv) (tlv_length tlv) (be (nat (tlv_length tlv)) (word_of_int i))"
      unfolding conf_block_def SMPP_TLV_INTEGER i_def by simp
    have d: "decode_integer data (int (length pre) + 4) (tlv_length tlv) = word_of_int i"
      using decode_be [OF w(1), of "pre @ block (tlv_tag tlv) (tlv_length tlv) []" post] c(6)
      unfolding assms(1) cb by (simp add: block_def add.commute [of 4])
    have "sint (word_of_int i :: 64 word) = i" "(word_of_int i :: 64 word) \<noteq> -1" using fits_sint(2,3) [OF w(1) i(4)] w(2) by simp_all
    then have u: "unpack_configured data (Some tlv) (tlv_length tlv) q (int (length pre) + 4) = Some (Some (q', int (length pre) + 4 + tlv_length tlv))"
      unfolding unpack_configured_def option.case SMPP_TLV_INTEGER smpp_tlv_type.case Let_def d using m q'(1) i(1) by simp
    have "data = pre @ block (tlv_tag tlv) (tlv_length tlv) (be (nat (tlv_length tlv)) (word_of_int i)) @ post" using assms(1) cb by simp
    from step [OF this c(6,7), of q] u show ?thesis using c(6) by (simp add: cb)
  next
    case SMPP_TLV_OCTETS
    have "oct_copy data (int (length pre) + 4) (int (length v)) = Some v"
      by (simp add: assms(1) conf_block_def SMPP_TLV_OCTETS oct_copy_def block_def nat_add_distrib)
    then show ?thesis using step [of data pre "int (length v)" v post q] SMPP_TLV_OCTETS c(7,8) m q'(1)
      by (simp add: assms(1) conf_block_def unpack_configured_def)
  next
    case SMPP_TLV_NULTERMINATED
    have b: "0 \<notin> set v" "v \<noteq> []" "int (length v) + 1 \<le> tlv_length tlv" using c(8) SMPP_TLV_NULTERMINATED by simp_all
    have "copy_until_nul data (int (length pre) + 4) (int (length v) + 1) = Some (0, int (length pre) + 5 + int (length v), Some v)"
      using copy_until_nul_at [OF b(1), of "int (length v) + 1" "pre @ block (tlv_tag tlv) (int (length v) + 1) []" post] b(2)
      by (simp add: assms(1) conf_block_def SMPP_TLV_NULTERMINATED block_def null_if_empty_def add.commute [of 4] algebra_simps)
    then show ?thesis using step [of data pre "int (length v) + 1" "v @ [0]" post q] SMPP_TLV_NULTERMINATED c(7) b m q'(1)
      by (simp add: assms(1) conf_block_def unpack_configured_def)
  qed
  then show ?thesis using q'(2-5) ty by (rule that)
qed

text \<open>The configured parameters among the keys of a dictionary.\<close>

definition sent_map :: "smpp_tables \<Rightarrow> octets option \<Rightarrow> (octets \<Rightarrow> octets option) \<Rightarrow> octets \<Rightarrow> octets option" where
  "sent_map T smsc_id M k = (if smpp_tlv_get_by_name T smsc_id k = Some None then None else M k)"

lemma loop_configured:
  assumes "tables_ok T" "dict_fits T smsc_id ts d"
  shows "set ks \<subseteq> dom (contents d) \<Longrightarrow> has_tlvs q \<Longrightarrow> data = pre @ concat (map (enc_key T smsc_id (contents d)) ks) @ post \<Longrightarrow>
    \<exists>q'. tlv_loop T smsc_id data ts q (int (length pre)) =
        tlv_loop T smsc_id data ts q' (int (length (pre @ concat (map (enc_key T smsc_id (contents d)) ks)))) \<and>
      has_tlvs q' \<and> tlv_map q' = tlv_map q ++ (sent_map T smsc_id (contents d) |` set ks) \<and>
      pdu_int q' = pdu_int q \<and> pdu_oct q' = pdu_oct q \<and> pdu_type q' = pdu_type q"
proof (induction ks arbitrary: q pre)
  case (Cons k ks)
  obtain tlv where t: "smpp_tlv_get_by_name T smsc_id k = Some tlv" using get_by_name_total [OF assms(1)] by blast
  obtain v where v: "contents d k = Some v" using Cons.prems(1) by auto
  show ?case
  proof (cases tlv)
    case None
    then have e: "enc_key T smsc_id (contents d) k = []" "sent_map T smsc_id (contents d) k = None" using t by (simp_all add: enc_key_def sent_map_def)
    then have "sent_map T smsc_id (contents d) |` set (k # ks) = sent_map T smsc_id (contents d) |` set ks"
      by (auto simp: restrict_map_def)
    then show ?thesis using Cons.IH [of q pre] Cons.prems e by simp
  next
    case (Some tl)
    then have e: "enc_key T smsc_id (contents d) k = conf_block tl v" "sent_map T smsc_id (contents d) k = Some v"
      using t v by (simp_all add: enc_key_def sent_map_def nulstr_def)
    have c: "conf_ok T smsc_id ts k v tl" using assms(2) t v Some by (simp add: dict_fits_def)
    have d: "data = pre @ conf_block tl v @ (concat (map (enc_key T smsc_id (contents d)) ks) @ post)" using Cons.prems(3) e by simp
    obtain q1 where q1: "tlv_step T smsc_id data ts q (int (length pre)) = Some (Some (q1, int (length (pre @ conf_block tl v))))"
      "has_tlvs q1" "tlv_map q1 = (tlv_map q)(k \<mapsto> v)" "pdu_int q1 = pdu_int q" "pdu_oct q1 = pdu_oct q" "pdu_type q1 = pdu_type q"
      using d c Cons.prems(2) by (rule unpack_conf_block)
    have "int (length pre) + 4 \<le> oct_len data" unfolding d by (cases "tlv_type tl") (simp_all add: oct_len_def conf_block_def)
    then have "tlv_loop T smsc_id data ts q (int (length pre)) = tlv_loop T smsc_id data ts q1 (int (length (pre @ conf_block tl v)))"
      using q1(1) by (subst tlv_loop.simps) simp
    moreover obtain q' where "tlv_loop T smsc_id data ts q1 (int (length (pre @ conf_block tl v))) =
        tlv_loop T smsc_id data ts q' (int (length ((pre @ conf_block tl v) @ concat (map (enc_key T smsc_id (contents d)) ks))))"
      "has_tlvs q'" "tlv_map q' = tlv_map q1 ++ (sent_map T smsc_id (contents d) |` set ks)" "pdu_int q' = pdu_int q1" "pdu_oct q' = pdu_oct q1"
      "pdu_type q' = pdu_type q1"
      using Cons.IH [of q1 "pre @ conf_block tl v"] Cons.prems(1) q1(2) d by auto
    moreover have "(tlv_map q)(k \<mapsto> v) ++ (sent_map T smsc_id (contents d) |` set ks) = tlv_map q ++ (sent_map T smsc_id (contents d) |` set (k # ks))"
      using e(2) by (auto simp: map_add_def restrict_map_def fun_eq_iff split: option.splits)
    ultimately show ?thesis using q1 e by (intro exI [of _ q']) (simp add: algebra_simps)
  qed
qed auto

section \<open>All fields\<close>

text \<open>The keys of the dictionary, in the order of \<open>dict_keys\<close>.\<close>

definition tlv_keys :: "SMPP_PDU \<Rightarrow> octets list" where
  "tlv_keys p = (case pdu_tlv p of None \<Rightarrow> [] | Some d \<Rightarrow> (case dict_keys d of None \<Rightarrow> [] | Some l \<Rightarrow> items l))"

fun enc_field :: "smpp_tables \<Rightarrow> octets option \<Rightarrow> SMPP_PDU \<Rightarrow> smpp_field \<Rightarrow> octets" where
  "enc_field T smsc_id p (INTEGER n k) = be (nat k) (pdu_int p n)"
| "enc_field T smsc_id p (NULTERMINATED n m) = nulstr (pdu_oct p n) @ [0]"
| "enc_field T smsc_id p (OCTETS n g) = nulstr (pdu_oct p n)"
| "enc_field T smsc_id p (OPTIONAL ts) = concat (map (enc_tlv p) ts) @ concat (map (enc_key T smsc_id (tlv_map p)) (tlv_keys p))"

lemma keys_of:
  assumes "pdu_tlv p = Some d" "dict_ok d"
  obtains l where "dict_keys d = Some l" "rep l (tlv_keys p)" "set (tlv_keys p) = dom (tlv_map p)"
  using dict_keys_ok [OF assms(2)] assms(1) that by (auto simp: tlv_keys_def tlv_map_def rep_iff)

lemma options_fit: "options_ok T smsc_id p ts \<Longrightarrow> pdu_tlv p = Some d \<Longrightarrow> dict_fits T smsc_id ts d"
  by (auto simp: options_ok_def dict_fits_def)

lemma smpp_pack_field_enc:
  assumes "tables_ok T" "smpp_field_ok p f" "decls_ok ns gs (f # fs)" "\<And>ts. f = OPTIONAL ts \<Longrightarrow> options_ok T smsc_id p ts"
  shows "smpp_pack_field T smsc_id p f os = Some (os @ enc_field T smsc_id p f)"
proof (cases f)
  case (INTEGER n k)
  then show ?thesis using assms(3) by (simp add: append_encoded_int)
next
  case (NULTERMINATED n m)
  then show ?thesis using assms(2,3) pack_nulterminated_short [of "pdu_oct p n" "nat m"] by (simp add: zless_nat_eq_int_zless)
next
  case (OCTETS n g)
  then show ?thesis by (simp add: nulstr_def split: option.splits)
next
  case (OPTIONAL ts)
  then have ts: "list_all (tlv_ok p) ts" "list_all tlv_decl_ok ts" using assms(2,3) by (auto simp: tlv_decls_ok_def)
  show ?thesis
  proof (cases "pdu_tlv p")
    case None
    then show ?thesis using OPTIONAL ts by (simp add: pack_tlvs_enc tlv_keys_def)
  next
    case (Some d)
    have f: "dict_fits T smsc_id ts d" using assms(4) OPTIONAL Some by (simp add: options_fit)
    then obtain l where "dict_keys d = Some l" "rep l (tlv_keys p)" "set (tlv_keys p) = dom (tlv_map p)"
      using keys_of [OF Some] by (auto simp: dict_fits_def)
    then show ?thesis using OPTIONAL ts Some pack_keys_enc [OF assms(1) f] by (simp add: pack_tlvs_enc tlv_map_def)
  qed
qed

definition fields_ok :: "smpp_tables \<Rightarrow> octets option \<Rightarrow> SMPP_PDU \<Rightarrow> smpp_field list \<Rightarrow> bool" where
  "fields_ok T smsc_id p fs \<longleftrightarrow> list_all (\<lambda>f. smpp_field_ok p f \<and> (case f of OPTIONAL ts \<Rightarrow> options_ok T smsc_id p ts | _ \<Rightarrow> True)) fs"

lemma smpp_pack_fields_enc:
  "tables_ok T \<Longrightarrow> decls_ok ns gs fs \<Longrightarrow> fields_ok T smsc_id p fs \<Longrightarrow>
   smpp_pack_fields T smsc_id p fs os = Some (os @ concat (map (enc_field T smsc_id p) fs))"
proof (induction ns gs fs arbitrary: os rule: decls_ok.induct)
  case (5 ns gs ts fs)
  then show ?case using smpp_pack_field_enc [of T p "OPTIONAL ts" ns gs fs smsc_id] by (auto simp: fields_ok_def)
next
  case (2 ns gs n k fs)
  then show ?case using smpp_pack_field_enc [of T p "INTEGER n k" ns gs fs smsc_id] by (simp add: fields_ok_def)
next
  case (3 ns gs n m fs)
  then show ?case using smpp_pack_field_enc [of T p "NULTERMINATED n m" ns gs fs smsc_id] by (simp add: fields_ok_def)
next
  case (4 ns gs n g fs)
  then show ?case using smpp_pack_field_enc [of T p "OCTETS n g" ns gs fs smsc_id] by (simp add: fields_ok_def)
qed simp

lemma unpack_options:
  assumes "tables_ok T" "tlv_decls_ok ns ts" "list_all (tlv_ok p) ts" "options_ok T smsc_id p ts"
    and "data = pre @ enc_field T smsc_id p (OPTIONAL ts)" "has_tlvs q" "tlv_map q = Map.empty" "\<forall>t \<in> set ts. tlv_default q t"
  obtains q' where "tlv_loop T smsc_id data ts q (int (length pre)) = Some (Some (q', oct_len data))"
    "\<forall>t \<in> set ts. same_tlv q' p t" "tlv_map q' = sent_map T smsc_id (tlv_map p)"
    "\<And>n. n \<in> set ns \<Longrightarrow> pdu_int q' n = pdu_int q n \<and> pdu_oct q' n = pdu_oct q n" "pdu_type q' = pdu_type q"
proof -
  let ?e1 = "concat (map (enc_tlv p) ts)" and ?e2 = "concat (map (enc_key T smsc_id (tlv_map p)) (tlv_keys p))"
  let ?q = "fold (put_present p) ts q"
  have ds: "distinct (map tlv_decl_name ts)" "\<And>n. n \<in> set ns \<Longrightarrow> n \<notin> tlv_decl_name ` set ts"
    using assms(2) by (auto simp: tlv_decls_ok_def list_all_iff)
  have 1: "tlv_loop T smsc_id data ts q (int (length pre)) = tlv_loop T smsc_id data ts ?q (int (length (pre @ ?e1)))"
    using assms(4) by (intro loop_declared [OF assms(2,3), of T smsc_id ts data pre ?e2]) (simp_all add: options_ok_def assms(5))
  have 2: "\<exists>q'. tlv_loop T smsc_id data ts ?q (int (length (pre @ ?e1))) = tlv_loop T smsc_id data ts q' (int (length (pre @ ?e1 @ ?e2))) \<and>
      tlv_map q' = sent_map T smsc_id (tlv_map p) \<and> pdu_int q' = pdu_int ?q \<and> pdu_oct q' = pdu_oct ?q \<and> pdu_type q' = pdu_type ?q"
  proof (cases "pdu_tlv p")
    case None
    then show ?thesis using put_all_tlvs [of p ts q] assms(7) by (intro exI [of _ ?q]) (auto simp: tlv_keys_def tlv_map_def sent_map_def)
  next
    case (Some d)
    have f: "dict_fits T smsc_id ts d" using assms(4) Some by (rule options_fit)
    then obtain l where k: "set (tlv_keys p) = dom (tlv_map p)" using keys_of [OF Some] by (auto simp: dict_fits_def)
    have m: "tlv_map p = contents d" by (simp add: tlv_map_def Some)
    have "sent_map T smsc_id (contents d) |` dom (contents d) = sent_map T smsc_id (contents d)"
      by (auto simp: restrict_map_def sent_map_def domIff fun_eq_iff)
    then show ?thesis
      using loop_configured [OF assms(1) f, of "tlv_keys p" ?q data "pre @ ?e1" "[]"] put_all_tlvs [of p ts q] assms(5-7) k
      by (simp add: m) metis
  qed
  then obtain q' where q': "tlv_loop T smsc_id data ts ?q (int (length (pre @ ?e1))) = tlv_loop T smsc_id data ts q' (int (length (pre @ ?e1 @ ?e2)))"
    "tlv_map q' = sent_map T smsc_id (tlv_map p)" "pdu_int q' = pdu_int ?q" "pdu_oct q' = pdu_oct ?q" "pdu_type q' = pdu_type ?q" by blast
  have "tlv_loop T smsc_id data ts q' (int (length (pre @ ?e1 @ ?e2))) = Some (Some (q', oct_len data))"
    by (subst tlv_loop.simps) (simp add: assms(5) oct_len_def)
  then have "tlv_loop T smsc_id data ts q (int (length pre)) = Some (Some (q', oct_len data))" using 1 q'(1) by simp
  moreover have "\<forall>t \<in> set ts. same_tlv q' p t"
    using put_all_same [OF ds(1) assms(8), of p] same_tlv_cong [of q' _ ?q] q'(3,4) by simp
  moreover have "pdu_int q' n = pdu_int q n \<and> pdu_oct q' n = pdu_oct q n" if "n \<in> set ns" for n
    using put_all_other [OF ds(2) [OF that], of p q] q'(3,4) by simp
  moreover have "pdu_type q' = pdu_type q" using q'(5) put_all_tlvs [of p ts q] by simp
  ultimately show ?thesis using q'(2) by (intro that [of q']) simp_all
qed

definition fixed :: "smpp_field list \<Rightarrow> SMPP_PDU \<Rightarrow> bool" where
  "fixed fs p \<longleftrightarrow> (\<forall>n g. OCTETS n g \<in> set fs \<longrightarrow> uint (pdu_int p g) = oct_len (nulstr (pdu_oct p n)))"

text \<open>What the rest of the unpacking leaves alone: the fields already read, with their names \<open>ns\<close>.\<close>

definition unpacked :: "smpp_tables \<Rightarrow> octets option \<Rightarrow> smpp_name list \<Rightarrow> smpp_field list \<Rightarrow> SMPP_PDU \<Rightarrow> SMPP_PDU \<Rightarrow> SMPP_PDU \<Rightarrow> bool" where
  "unpacked T smsc_id ns fs p q q' \<longleftrightarrow> (\<forall>f \<in> set fs. same_field q' p f) \<and> pdu_type q' = pdu_type q \<and>
     (\<forall>n \<in> set ns. pdu_int q' n = pdu_int q n \<and> pdu_oct q' n = pdu_oct q n) \<and>
     (\<forall>ts. OPTIONAL ts \<in> set fs \<longrightarrow> tlv_map q' = sent_map T smsc_id (tlv_map p))"

lemma created_set: "decls_ok (n # ns) gs fs \<Longrightarrow> created fs q \<Longrightarrow> created fs (set_int n v q) \<and> created fs (set_oct n w q)"
proof -
  assume d: "decls_ok (n # ns) gs fs" and c: "created fs q"
  have "tlv_default (set_int n v q) t = tlv_default q t \<and> tlv_default (set_oct n w q) t = tlv_default q t"
    if "OPTIONAL ts \<in> set fs" "t \<in> set ts" for ts t
  proof -
    have "tlv_decl_name t \<noteq> n" using decls_ok_tlvs [OF d that(1)] that(2) by (auto simp: tlv_decls_ok_def list_all_iff)
    then show ?thesis by (cases t) auto
  qed
  then show ?thesis using c by (simp add: created_def)
qed

lemma created_Cons: "created (f # fs) q \<Longrightarrow> created fs q"
  by (simp add: created_def)

lemma smpp_unpack_fields_enc:
  assumes "tables_ok T"
  shows "decls_ok ns gs fs \<Longrightarrow> fields_ok T smsc_id p fs \<Longrightarrow> fixed fs p \<Longrightarrow> created fs q \<Longrightarrow> (\<forall>g \<in> set gs. pdu_int q g = pdu_int p g \<and> sint (pdu_int p g) = uint (pdu_int p g)) \<Longrightarrow>
    set gs \<subseteq> set ns \<Longrightarrow> data = pre @ concat (map (enc_field T smsc_id p) fs) \<Longrightarrow>
    \<exists>q'. smpp_unpack_fields T smsc_id data fs q (int (length pre)) = Some (Some (q', oct_len data)) \<and> unpacked T smsc_id ns fs p q q'"
proof (induction ns gs fs arbitrary: q pre rule: decls_ok.induct)
  case (1 ns gs)
  then show ?case by (auto simp: unpacked_def oct_len_def)
next
  case (2 ns gs n k fs)
  let ?v = "pdu_int p n" and ?q = "set_int n (pdu_int p n) q" and ?pre = "pre @ be (nat k) (pdu_int p n)"
  have k: "fits (nat k) ?v" "0 \<le> k" "nat k \<le> 7" "n \<notin> set ns" "decls_ok (n # ns) (n # gs) fs"
    using 2(2,3) by (auto simp: fields_ok_def nat_le_iff)
  have d: "decode_integer data (int (length pre)) k = ?v"
    using decode_be [OF k(1), of pre "concat (map (enc_field T smsc_id p) fs)"] k(2) 2(8) by simp
  have "\<exists>q'. smpp_unpack_fields T smsc_id data fs ?q (int (length ?pre)) = Some (Some (q', oct_len data)) \<and> unpacked T smsc_id (n # ns) fs p ?q q'"
    using 2(3-8) k fits_sint(2) [OF k(1,3)] created_set [OF k(5) created_Cons [OF 2(5)]]
    by (intro 2(1)) (auto simp: fields_ok_def fixed_def)
  then show ?case using d k fits_sint(3) [OF k(1,3)] by (auto simp: Let_def unpacked_def)
next
  case (3 ns gs n m fs)
  let ?s = "nulstr (pdu_oct p n)"
  let ?q = "set_oct n (null_if_empty ?s) q" and ?pre = "pre @ ?s @ [0]"
  have k: "0 \<notin> set ?s" "int (length ?s) < m" "n \<notin> set ns" "decls_ok (n # ns) gs fs" using 3(2,3) by (auto simp: fields_ok_def)
  have d: "copy_until_nul data (int (length pre)) m = Some (0, int (length ?pre), null_if_empty ?s)"
    using copy_until_nul_at [OF k(1), of m pre "concat (map (enc_field T smsc_id p) fs)"] k(2) 3(8) by (simp add: algebra_simps)
  have "\<exists>q'. smpp_unpack_fields T smsc_id data fs ?q (int (length ?pre)) = Some (Some (q', oct_len data)) \<and> unpacked T smsc_id (n # ns) fs p ?q q'"
    using 3(3-8) k created_set [OF k(4) created_Cons [OF 3(5)]] by (intro 3(1)) (auto simp: fields_ok_def fixed_def)
  then show ?case using d k by (auto simp: unpacked_def)
next
  case (4 ns gs n g fs)
  let ?s = "nulstr (pdu_oct p n)"
  let ?q = "set_oct n (Some ?s) q" and ?pre = "pre @ ?s"
  have k: "n \<notin> set ns" "g \<in> set gs" "decls_ok (n # ns) gs fs" using 4(2) by auto
  have l: "uint (pdu_int q g) = oct_len ?s" "sint (pdu_int q g) = oct_len ?s" using 4(4,6) k(2) by (auto simp: fixed_def)
  then have d: "oct_copy data (int (length pre)) (sint (pdu_int q g)) = Some ?s"
    using 4(8) by (simp add: oct_copy_def oct_len_def)
  have "\<exists>q'. smpp_unpack_fields T smsc_id data fs ?q (int (length ?pre)) = Some (Some (q', oct_len data)) \<and> unpacked T smsc_id (n # ns) fs p ?q q'"
    using 4(3-8) k created_set [OF k(3) created_Cons [OF 4(5)]] by (intro 4(1)) (auto simp: fields_ok_def fixed_def)
  then show ?case using d k l(1) by (auto simp: unpacked_def oct_len_def)
next
  case (5 ns gs ts fs)
  have k: "fs = []" "tlv_decls_ok ns ts" "list_all (tlv_ok p) ts" "options_ok T smsc_id p ts" "data = pre @ enc_field T smsc_id p (OPTIONAL ts)"
    "has_tlvs q" "tlv_map q = Map.empty" "\<forall>t \<in> set ts. tlv_default q t"
    using 5(1,2,4,7) by (auto simp: fields_ok_def created_def)
  obtain q' where "tlv_loop T smsc_id data ts q (int (length pre)) = Some (Some (q', oct_len data))"
    "\<forall>t \<in> set ts. same_tlv q' p t" "tlv_map q' = sent_map T smsc_id (tlv_map p)"
    "\<And>n. n \<in> set ns \<Longrightarrow> pdu_int q' n = pdu_int q n \<and> pdu_oct q' n = pdu_oct q n" "pdu_type q' = pdu_type q"
    using unpack_options [OF assms k(2-8)] by metis
  then show ?case using k(1) by (intro exI [of _ q']) (auto simp: unpacked_def list_all_iff)
qed

text \<open>\<open>fix_length\<close> establishes \<open>fixed\<close> if no two octet strings share a length field.\<close>

fun length_fields :: "smpp_field list \<Rightarrow> smpp_name list" where
  "length_fields [] = []"
| "length_fields (OCTETS n g # fs) = g # length_fields fs"
| "length_fields (_ # fs) = length_fields fs"

lemma length_fields_ok: "list_all (\<lambda>(ty, name, fs). distinct (length_fields fs)) smpp_pdus"
  by code_simp

lemma length_fields_mem: "OCTETS n g \<in> set fs \<Longrightarrow> g \<in> set (length_fields fs)"
  by (induction fs rule: length_fields.induct) auto

lemma fix_length_simps [simp]: "pdu_oct (fix_length f p) = pdu_oct p" "pdu_type (fix_length f p) = pdu_type p" "pdu_tlv (fix_length f p) = pdu_tlv p"
  by (cases f; simp)+

lemma fix_lengths_simps: "pdu_oct (fold fix_length fs p) = pdu_oct p \<and> pdu_type (fold fix_length fs p) = pdu_type p \<and> pdu_tlv (fold fix_length fs p) = pdu_tlv p"
  by (induction fs arbitrary: p) simp_all

lemma fix_lengths_other: "g \<notin> set (length_fields fs) \<Longrightarrow> pdu_int (fold fix_length fs p) g = pdu_int p g"
  by (induction fs arbitrary: p rule: length_fields.induct) auto

lemma fix_length_fixed:
  "distinct (length_fields fs) \<Longrightarrow> OCTETS n g \<in> set fs \<Longrightarrow>
   pdu_int (fold fix_length fs p) g = word_of_int (oct_len (nulstr (pdu_oct p n)))"
proof (induction fs arbitrary: p)
  case (Cons f fs)
  show ?case
  proof (cases "f = OCTETS n g")
    case True
    then show ?thesis using Cons.prems(1) fix_lengths_other [of g fs "fix_length f p"]
      by (cases "pdu_oct p n") (simp_all add: nulstr_def oct_len_def)
  next
    case False
    then show ?thesis using Cons by (cases f) auto
  qed
qed simp

lemma fixed_fields:
  assumes "distinct (length_fields fs)" "list_all (smpp_field_ok (fold fix_length fs p)) fs"
  shows "fixed fs (fold fix_length fs p)"
  unfolding fixed_def
proof (intro allI impI)
  fix n g assume o: "OCTETS n g \<in> set fs"
  then have "int (length (nulstr (pdu_oct p n))) < 2 ^ 63" using assms(2) fix_lengths_simps [of fs p] by (force simp: list_all_iff)
  then have "uint (word_of_int (int (length (nulstr (pdu_oct p n)))) :: 64 word) = int (length (nulstr (pdu_oct p n)))"
    by (simp only: uint_word_of_int) simp
  then show "uint (pdu_int (fold fix_length fs p) g) = oct_len (nulstr (pdu_oct (fold fix_length fs p) n))"
    using fix_length_fixed [OF assms(1) o, of p] fix_lengths_simps [of fs p] by (simp add: oct_len_def)
qed

lemma smpp_pack_unpack_lemma:
  assumes "tables_ok T" "smpp_case (pdu_type p) = Some (name, fs)" "smpp_pdu_ok T smsc_id fs (fold fix_length fs p)"
  obtains os q where "smpp_pdu_pack T smsc_id p = Some (be 4 (word_of_int (oct_len os + 4)) @ os, fold fix_length fs p)"
    "smpp_pdu_unpack T smsc_id os = Some (Some q)" "pdu_type q = pdu_type p" "\<forall>f \<in> set fs. same_field q (fold fix_length fs p) f"
    "\<forall>ts. OPTIONAL ts \<in> set fs \<longrightarrow> tlv_map q = sent_map T smsc_id (tlv_map p)"
proof -
  let ?p = "fold fix_length fs p"
  let ?os = "concat (map (enc_field T smsc_id ?p) fs)"
  have d: "decls_ok [] [] fs" "take 3 fs = HEADER" "uint (pdu_type p) < 2 ^ 32" by (rule smpp_case_ok [OF assms(2)])+
  have ok: "pdu_int ?p command_id = pdu_type p" "list_all (smpp_field_ok ?p) fs" "fields_ok T smsc_id ?p fs"
    using assms(3) fix_lengths_simps [of fs p] by (auto simp: smpp_pdu_ok_def fields_ok_def list_all_iff)
  have "distinct (length_fields fs)"
    using assms(2) length_fields_ok by (auto simp: smpp_case_def list_all_iff dest: map_of_SomeD)
  then have fx: "fixed fs ?p" using ok(2) by (rule fixed_fields)
  have "smpp_pdu_pack T smsc_id p = Some (be 4 (word_of_int (oct_len ?os + 4)) @ ?os, ?p)"
    using smpp_pack_fields_enc [OF assms(1) d(1) ok(3), of "[]"] assms(2) by (simp add: smpp_pdu_pack_def Let_def append_encoded4)
  moreover have "\<exists>q. smpp_pdu_unpack T smsc_id ?os = Some (Some q) \<and> unpacked T smsc_id [] fs ?p q q \<and> pdu_type q = pdu_type p"
  proof -
    obtain rest where fs: "fs = INTEGER command_id 4 # rest" using d(2) by (cases fs) (auto simp: HEADER_def)
    have t: "fits 4 (pdu_type p)" using d(3) by (simp add: fits_def)
    have ty: "decode_integer ?os 0 4 = pdu_type p" "4 \<le> oct_len ?os"
      using decode_be [OF t, of "[]" "concat (map (enc_field T smsc_id ?p) rest)"] ok(1) unfolding fs by (simp_all add: oct_len_def)
    obtain q0 where q0: "smpp_pdu_create (pdu_type p) 0 = Some (Some q0)" "created fs q0" "pdu_type q0 = pdu_type p"
      using assms(2) by (rule smpp_pdu_create_ok)
    obtain q where q: "smpp_unpack_fields T smsc_id ?os fs q0 (int (length ([] :: octets))) = Some (Some (q, oct_len ?os))"
      "unpacked T smsc_id [] fs ?p q0 q"
      using smpp_unpack_fields_enc [OF assms(1) d(1) ok(3) fx q0(2), of ?os "[]"] by auto
    have "pdu_type p \<noteq> -1" using fits_sint(3) [OF t] by simp
    then have "smpp_pdu_unpack T smsc_id ?os = Some (Some q)"
      using ty q0(1) q(1) assms(2) by (simp add: smpp_pdu_unpack_def Let_def)
    then show ?thesis using q(2) q0(3) by (auto simp: unpacked_def)
  qed
  ultimately show ?thesis using that fix_lengths_simps [of fs p] by (auto simp: unpacked_def tlv_map_def)
qed

end
