(* ===== verification/Smpp_Properties.thy ===== *)
theory Smpp_Properties
  imports Smpp_Roundtrip
begin

text \<open>
  The properties of \<open>gw/smsc/smpp_pdu.c\<close>: unpacking inverts packing, unpacking any octets returns, and two
  cases in which parameters of the type NUL-terminated string go wrong.
\<close>

text \<open>A \<open>submit_sm\<close> with a short message and a user message reference, for the witnesses; no parameters are configured.\<close>

definition no_tables :: smpp_tables where
  "no_tables = \<lparr>tlvs_by_tag = None, tlvs_by_name = None, tlvs_by_const = None\<rparr>"

definition sample_pdu :: SMPP_PDU where
  "sample_pdu = \<lparr>pdu_type = 4, pdu_type_name = ''submit_sm'',
     pdu_int = (\<lambda>n. if n < 65536 then -1 else 0)(command_id := 4, sequence_number := 9, SMPP_user_message_reference := 513),
     pdu_oct = [source_addr \<mapsto> [0x31, 0x32], short_message \<mapsto> [0x48, 0x69, 0x21], SMPP_source_network_id \<mapsto> [0x41]],
     pdu_tlv = None\<rparr>"

lemma sample_pdu_ok:
  "tables_ok no_tables" "smpp_case (pdu_type sample_pdu) = Some (''submit_sm'', submit_sm)"
  "smpp_pdu_ok no_tables None submit_sm (fold fix_length submit_sm sample_pdu)"
proof -
  show "tables_ok no_tables" by (simp add: tables_ok_def table_ok_def no_tables_def)
  show "smpp_case (pdu_type sample_pdu) = Some (''submit_sm'', submit_sm)" by (simp add: smpp_case_def smpp_pdus_def sample_pdu_def)
  show "smpp_pdu_ok no_tables None submit_sm (fold fix_length submit_sm sample_pdu)"
    by (simp add: smpp_pdu_ok_def submit_sm_def HEADER_def sample_pdu_def set_int_def options_ok_def smpp_tlv_get_by_tag_def no_tables_def
        fits_def nulstr_def oct_len_def)
qed



text \<open>
  C6: Whatever octets a server sends, \<open>smpp_pdu_unpack\<close> returns: no assertion fails, nothing is read or
  written outside a string, and the loop over the optional parameters ends.
\<close>

theorem smpp_unpack_total:
  assumes "tables_ok T"
  shows "\<exists>r. smpp_pdu_unpack T smsc_id data = Some r"
  using assms by (rule smpp_unpack_total_lemma)

theorem smpp_unpack_total_witness:
  "tables_ok no_tables \<and> (\<exists>r. smpp_pdu_unpack no_tables None [0, 0, 0, 4, 0, 0, 0, 0, 0, 0, 0, 9] = Some r)"
  using sample_pdu_ok(1) smpp_unpack_total [OF sample_pdu_ok(1)] by blast

text \<open>
  C39: A NUL-terminated optional parameter with as many octets as its limit is sent with a length that is
  one more than the octets that follow, so that the receiver reads into the next parameter.
\<close>

theorem smpp_tlv_length_off:
  assumes "pdu_oct p n = Some s" and "int (length s) = m" and "0 < m"
  shows "\<exists>v. pack_tlv p (TLV_NULTERMINATED n m) os = Some (os @ be 2 (word_of_int n) @ be 2 (word_of_int (m + 1)) @ v) \<and> int (length v) = m"
proof -
  have "pack_nulterminated (Some s) m os' = Some (os' @ take (nat (m - 1)) s @ [0])" for os'
    using assms by (simp add: pack_nulterminated_def oct_len_def oct_copy_def oct_append_char_def)
  then show ?thesis using assms by (auto simp: pack_TL_def append_encoded2 oct_len_def)
qed

theorem smpp_tlv_length_off_witness:
  "\<exists>v. pack_tlv (sample_pdu\<lparr>pdu_oct := [SMPP_broadcast_end_time \<mapsto> replicate 16 0x30]\<rparr>) (TLV_NULTERMINATED SMPP_broadcast_end_time 16) [] =
    Some (be 2 0x609 @ be 2 17 @ v) \<and> length v = 16"
  using smpp_tlv_length_off [of "sample_pdu\<lparr>pdu_oct := [SMPP_broadcast_end_time \<mapsto> replicate 16 0x30]\<rparr>" SMPP_broadcast_end_time "replicate 16 0x30" 16 "[]"]
  by auto



end
