(* ===== verification/Timer.thy ===== *)
theory Timer
  imports Gwlist_Spec Octets
begin

text \<open>
  The timers of \<open>gwlib/gw-timer.c\<close>. The state is one timer set: its heap of active timers, the
  timers that exist, by address, and the output lists that they write to. Every operation holds
  the mutex of the set, so it is one step; \<open>time(NULL)\<close> is an argument. \<open>watch_pass\<close> is one
  turn of the loop of the timer thread, which calls the callbacks through the parameter \<open>call\<close>.
  The size of the array counts pointers where the C code counts octets.
\<close>

section \<open>State\<close>

type_synonym timer_ref = nat
type_synonym list_ref = nat

record ('d, 'c) timer =
  tm_output :: "list_ref option"
  tm_callback :: "'c option"
  tm_elapses :: int
  tm_data :: "'d option"
  tm_elapsed_data :: "'d option"
  tm_index :: int

record timer_heap =
  th_tab :: "timer_ref cells"
  th_len :: int
  th_size :: int

record ('d, 'c) timerset =
  ts_heap :: timer_heap
  ts_timers :: "timer_ref \<Rightarrow> ('d, 'c) timer option"
  ts_lists :: "list_ref \<Rightarrow> 'd option gwlist option"
  ts_stopping :: bool

text \<open>A timer is read and written through its address; a dangling address aborts.\<close>

definition put_timer :: "timer_ref \<Rightarrow> (('d, 'c) timer \<Rightarrow> ('d, 'c) timer) \<Rightarrow> ('d, 'c) timerset \<Rightarrow> ('d, 'c) timerset option" where
  "put_timer r f ts = do {
     t \<leftarrow> ts_timers ts r;
     Some (ts\<lparr>ts_timers := (ts_timers ts)(r \<mapsto> f t)\<rparr>) }"

definition heap_tab :: "('d, 'c) timerset \<Rightarrow> int \<Rightarrow> timer_ref option" where
  "heap_tab ts i = rd (th_tab (ts_heap ts)) i"

definition heap_len :: "('d, 'c) timerset \<Rightarrow> int" where
  "heap_len ts = th_len (ts_heap ts)"

definition elapses_at :: "('d, 'c) timerset \<Rightarrow> int \<Rightarrow> int option" where
  "elapses_at ts i = do { r \<leftarrow> heap_tab ts i; t \<leftarrow> ts_timers ts r; Some (tm_elapses t) }"

section \<open>The heap\<close>

definition heap_create :: "timer_heap option" where
  "heap_create = do {
     tab \<leftarrow> gw_malloc 1;
     Some \<lparr>th_tab = tab, th_len = 0, th_size = 1\<rparr> }"

definition heap_swap :: "('d, 'c) timerset \<Rightarrow> int \<Rightarrow> int \<Rightarrow> ('d, 'c) timerset option" where
  "heap_swap ts index1 index2 = do {
     gw_assert (index1 \<ge> 0);
     gw_assert (index1 < heap_len ts);
     gw_assert (index2 \<ge> 0);
     gw_assert (index2 < heap_len ts);
     if index1 = index2 then Some ts
     else do {
       t \<leftarrow> heap_tab ts index1;
       u \<leftarrow> heap_tab ts index2;
       tab \<leftarrow> wr (th_tab (ts_heap ts)) index1 u;
       tab \<leftarrow> wr tab index2 t;
       let ts = ts\<lparr>ts_heap := (ts_heap ts)\<lparr>th_tab := tab\<rparr>\<rparr>;
       x \<leftarrow> heap_tab ts index1;
       ts \<leftarrow> put_timer x (\<lambda>t. t\<lparr>tm_index := index1\<rparr>) ts;
       y \<leftarrow> heap_tab ts index2;
       put_timer y (\<lambda>t. t\<lparr>tm_index := index2\<rparr>) ts } }"

text \<open>The two loops of \<open>heap_adjust\<close>: towards the top, and towards the bottom.\<close>

partial_function (option) adjust_up ::
    "timer_ref \<Rightarrow> ('d, 'c) timerset \<Rightarrow> int \<Rightarrow> (int \<times> ('d, 'c) timerset) option" where
  "adjust_up t ts index = do {
     ts \<leftarrow> heap_swap ts index (cdiv index 2);
     let index = cdiv index 2;
     tt \<leftarrow> ts_timers ts t;
     parent \<leftarrow> elapses_at ts (cdiv index 2);
     if tm_elapses tt < parent then adjust_up t ts index else Some (index, ts) }"

partial_function (option) adjust_down ::
    "timer_ref \<Rightarrow> ('d, 'c) timerset \<Rightarrow> int \<Rightarrow> ('d, 'c) timerset option" where
  "adjust_down t ts index = do {
     let child_index = index * 2;
     if child_index \<ge> heap_len ts then Some ts
     else do {
       tt \<leftarrow> ts_timers ts t;
       e \<leftarrow> elapses_at ts child_index;
       if child_index = heap_len ts - 1 then
         (if e < tm_elapses tt then heap_swap ts index child_index else Some ts)
       else do {
         e1 \<leftarrow> elapses_at ts (child_index + 1);
         let child_index = (if e1 < e then child_index + 1 else child_index);
         e \<leftarrow> elapses_at ts child_index;
         if e < tm_elapses tt then do {
           ts \<leftarrow> heap_swap ts index child_index;
           adjust_down t ts child_index }
         else Some ts } } }"

definition heap_adjust :: "('d, 'c) timerset \<Rightarrow> int \<Rightarrow> (bool \<times> ('d, 'c) timerset) option" where
  "heap_adjust ts index = do {
     gw_assert (index \<ge> 0);
     gw_assert (index < heap_len ts);
     t \<leftarrow> heap_tab ts index;
     tt \<leftarrow> ts_timers ts t;
     parent \<leftarrow> elapses_at ts (cdiv index 2);
     if tm_elapses tt < parent then do {
       (index, ts) \<leftarrow> adjust_up t ts index;
       Some (index = 0, ts) }
     else do {
       ts \<leftarrow> adjust_down t ts index;
       Some (False, ts) } }"

definition heap_delete :: "('d, 'c) timerset \<Rightarrow> int \<Rightarrow> ('d, 'c) timerset option" where
  "heap_delete ts index = do {
     gw_assert (index \<ge> 0);
     gw_assert (index < heap_len ts);
     r \<leftarrow> heap_tab ts index;
     t \<leftarrow> ts_timers ts r;
     gw_assert (tm_index t = index);
     let final = heap_len ts - 1;
     ts \<leftarrow> heap_swap ts index final;
     r \<leftarrow> heap_tab ts final;
     ts \<leftarrow> put_timer r (\<lambda>t. t\<lparr>tm_index := -1\<rparr>) ts;
     let ts = ts\<lparr>ts_heap := (ts_heap ts)\<lparr>th_len := heap_len ts - 1\<rparr>\<rparr>;
     if index \<noteq> final then do {
       (_, ts) \<leftarrow> heap_adjust ts index;
       Some ts }
     else Some ts }"

definition heap_insert :: "('d, 'c) timerset \<Rightarrow> timer_ref \<Rightarrow> ('d, 'c) timerset option" where
  "heap_insert ts timer = do {
     let h = ts_heap ts;
     let h = h\<lparr>th_len := th_len h + 1\<rparr>;
     h \<leftarrow> (if th_len h > th_size h then do {
             tab \<leftarrow> gw_realloc (th_tab h) (th_len h);
             Some (h\<lparr>th_tab := tab, th_size := th_len h\<rparr>) }
           else Some h);
     tab \<leftarrow> wr (th_tab h) (th_len h - 1) timer;
     let ts = ts\<lparr>ts_heap := h\<lparr>th_tab := tab\<rparr>\<rparr>;
     ts \<leftarrow> put_timer timer (\<lambda>t. t\<lparr>tm_index := heap_len ts - 1\<rparr>) ts;
     t \<leftarrow> ts_timers ts timer;
     (_, ts) \<leftarrow> heap_adjust ts (tm_index t);
     Some ts }"

section \<open>Timers\<close>

definition gw_timerset_create :: "(list_ref \<Rightarrow> 'd option gwlist option) \<Rightarrow> ('d, 'c) timerset option" where
  "gw_timerset_create ls = do {
     heap \<leftarrow> heap_create;
     Some \<lparr>ts_heap = heap, ts_timers = Map.empty, ts_lists = ls, ts_stopping = False\<rparr> }"

definition gw_timerset_count :: "('d, 'c) timerset \<Rightarrow> int" where
  "gw_timerset_count ts = heap_len ts"

text \<open>An operation on the output list of a timer.\<close>

definition on_list :: "list_ref \<Rightarrow> ('d option gwlist \<Rightarrow> 'd option gwlist option) \<Rightarrow> ('d, 'c) timerset \<Rightarrow> ('d, 'c) timerset option" where
  "on_list l f ts = do {
     xs \<leftarrow> ts_lists ts l;
     xs \<leftarrow> f xs;
     Some (ts\<lparr>ts_lists := (ts_lists ts)(l \<mapsto> xs)\<rparr>) }"

text \<open>\<open>r\<close> is the address that the allocator chose for the new timer.\<close>

definition gw_timer_create ::
    "timer_ref \<Rightarrow> ('d, 'c) timerset \<Rightarrow> list_ref option \<Rightarrow> 'c option \<Rightarrow> ('d, 'c) timerset option" where
  "gw_timer_create r ts outputlist callback = do {
     let t = \<lparr>tm_output = outputlist, tm_callback = callback, tm_elapses = -1, tm_data = None,
              tm_elapsed_data = None, tm_index = -1\<rparr>;
     let ts = ts\<lparr>ts_timers := (ts_timers ts)(r \<mapsto> t)\<rparr>;
     case outputlist of
       None \<Rightarrow> Some ts
     | Some l \<Rightarrow> on_list l (\<lambda>xs. Some (gwlist_add_producer xs)) ts }"

definition abort_elapsed :: "timer_ref \<Rightarrow> ('d, 'c) timerset \<Rightarrow> ('d, 'c) timerset option" where
  "abort_elapsed timer ts = do {
     t \<leftarrow> ts_timers ts timer;
     if tm_elapsed_data t = None then Some ts
     else do {
       ts \<leftarrow> (case tm_output t of
                  None \<Rightarrow> Some ts
                | Some l \<Rightarrow> on_list l (\<lambda>xs. do {
                    (xs, _) \<leftarrow> gwlist_delete_equal xs (tm_elapsed_data t);
                    Some xs }) ts);
       put_timer timer (\<lambda>t. t\<lparr>tm_elapsed_data := None\<rparr>) ts } }"

text \<open>
  The three starting functions share all but what they do about an event that may still be on
  the output list, and whether they take the lock; so do the three stopping functions.
\<close>

definition forget_elapsed :: "timer_ref \<Rightarrow> ('d, 'c) timerset \<Rightarrow> ('d, 'c) timerset option" where
  "forget_elapsed timer ts = put_timer timer (\<lambda>t. t\<lparr>tm_elapsed_data := None\<rparr>) ts"

definition timer_start ::
    "(timer_ref \<Rightarrow> ('d, 'c) timerset \<Rightarrow> ('d, 'c) timerset option) \<Rightarrow>
     int \<Rightarrow> timer_ref \<Rightarrow> int \<Rightarrow> 'd option \<Rightarrow> ('d, 'c) timerset \<Rightarrow> (bool \<times> ('d, 'c) timerset) option" where
  "timer_start settle now timer interval data ts = do {
     let interval = to_int (interval + now);
     t \<leftarrow> ts_timers ts timer;
     (wakeup, ts) \<leftarrow> (if tm_elapses t > 0 then do {
         let wakeup = (interval < tm_elapses t \<and> tm_index t = 0);
         ts \<leftarrow> put_timer timer (\<lambda>t. t\<lparr>tm_elapses := interval\<rparr>) ts;
         gw_assert (tm_index t \<ge> 0);
         x \<leftarrow> heap_tab ts (tm_index t);
         gw_assert (x = timer);
         (adjusted, ts) \<leftarrow> heap_adjust ts (tm_index t);
         Some (wakeup \<or> adjusted, ts) }
       else do {
         ts \<leftarrow> settle timer ts;
         ts \<leftarrow> put_timer timer (\<lambda>t. t\<lparr>tm_elapses := interval\<rparr>) ts;
         gw_assert (tm_index t < 0);
         ts \<leftarrow> heap_insert ts timer;
         t \<leftarrow> ts_timers ts timer;
         Some (tm_index t = 0, ts) });
     ts \<leftarrow> (if data \<noteq> None then put_timer timer (\<lambda>t. t\<lparr>tm_data := data\<rparr>) ts else Some ts);
     Some (wakeup, ts) }"

definition gw_timer_start ::
    "int \<Rightarrow> timer_ref \<Rightarrow> int \<Rightarrow> 'd option \<Rightarrow> ('d, 'c) timerset \<Rightarrow> (bool \<times> ('d, 'c) timerset) option" where
  "gw_timer_start = timer_start abort_elapsed"

definition gw_timer_elapsed_start ::
    "int \<Rightarrow> timer_ref \<Rightarrow> int \<Rightarrow> 'd option \<Rightarrow> ('d, 'c) timerset \<Rightarrow> (bool \<times> ('d, 'c) timerset) option" where
  "gw_timer_elapsed_start = timer_start forget_elapsed"

definition gw_timer_elapsed_start_cb ::
    "int \<Rightarrow> timer_ref \<Rightarrow> int \<Rightarrow> 'd option \<Rightarrow> ('d, 'c) timerset \<Rightarrow> (bool \<times> ('d, 'c) timerset) option" where
  "gw_timer_elapsed_start_cb = timer_start forget_elapsed"

definition timer_leave_heap :: "timer_ref \<Rightarrow> ('d, 'c) timerset \<Rightarrow> ('d, 'c) timerset option" where
  "timer_leave_heap timer ts = do {
     t \<leftarrow> ts_timers ts timer;
     if tm_elapses t > 0 then do {
       ts \<leftarrow> put_timer timer (\<lambda>t. t\<lparr>tm_elapses := -1\<rparr>) ts;
       x \<leftarrow> heap_tab ts (tm_index t);
       gw_assert (x = timer);
       heap_delete ts (tm_index t) }
     else Some ts }"

definition gw_timer_stop :: "timer_ref \<Rightarrow> ('d, 'c) timerset \<Rightarrow> ('d, 'c) timerset option" where
  "gw_timer_stop timer ts = do {
     ts \<leftarrow> timer_leave_heap timer ts;
     abort_elapsed timer ts }"

definition gw_timer_elapsed_stop :: "timer_ref \<Rightarrow> ('d, 'c) timerset \<Rightarrow> ('d, 'c) timerset option" where
  "gw_timer_elapsed_stop timer ts = do {
     ts \<leftarrow> timer_leave_heap timer ts;
     forget_elapsed timer ts }"

definition gw_timer_elapsed_stop_cb :: "timer_ref \<Rightarrow> ('d, 'c) timerset \<Rightarrow> ('d, 'c) timerset option" where
  "gw_timer_elapsed_stop_cb timer ts = do {
     ts \<leftarrow> timer_leave_heap timer ts;
     forget_elapsed timer ts }"

text \<open>The rest of the destroying functions, after the timer was stopped.\<close>

definition timer_free :: "timer_ref \<Rightarrow> ('d, 'c) timerset \<Rightarrow> ('d, 'c) timerset option" where
  "timer_free timer ts = do {
     t \<leftarrow> ts_timers ts timer;
     ts \<leftarrow> (case tm_output t of None \<Rightarrow> Some ts | Some l \<Rightarrow> on_list l gwlist_remove_producer ts);
     Some (ts\<lparr>ts_timers := (ts_timers ts)(timer := None)\<rparr>) }"

definition gw_timer_destroy :: "timer_ref option \<Rightarrow> ('d, 'c) timerset \<Rightarrow> ('d, 'c) timerset option" where
  "gw_timer_destroy timer ts = (case timer of
     None \<Rightarrow> Some ts
   | Some r \<Rightarrow> do { ts \<leftarrow> gw_timer_stop r ts; timer_free r ts })"

definition gw_timer_elapsed_destroy :: "timer_ref option \<Rightarrow> ('d, 'c) timerset \<Rightarrow> ('d, 'c) timerset option" where
  "gw_timer_elapsed_destroy timer ts = (case timer of
     None \<Rightarrow> Some ts
   | Some r \<Rightarrow> do { ts \<leftarrow> gw_timer_elapsed_stop r ts; timer_free r ts })"

definition gw_timer_elapsed_destroy_cb :: "timer_ref option \<Rightarrow> ('d, 'c) timerset \<Rightarrow> ('d, 'c) timerset option" where
  "gw_timer_elapsed_destroy_cb timer ts = (case timer of
     None \<Rightarrow> Some ts
   | Some r \<Rightarrow> do { ts \<leftarrow> gw_timer_elapsed_stop_cb r ts; timer_free r ts })"

definition gw_timer_data :: "timer_ref \<Rightarrow> ('d, 'c) timerset \<Rightarrow> 'd option option" where
  "gw_timer_data timer ts = do { t \<leftarrow> ts_timers ts timer; Some (tm_data t) }"

text \<open>The loop of \<open>gw_timer_break\<close>, with the list that it returns.\<close>

partial_function (option) break_loop ::
    "timer_ref gwlist \<Rightarrow> ('d, 'c) timerset \<Rightarrow> (timer_ref gwlist \<times> ('d, 'c) timerset) option" where
  "break_loop ret ts =
     (if heap_len ts > 0 then do {
        timer \<leftarrow> heap_tab ts 0;
        ret \<leftarrow> gwlist_append ret timer;
        ts \<leftarrow> timer_leave_heap timer ts;
        ts \<leftarrow> abort_elapsed timer ts;
        break_loop ret ts }
      else Some (ret, ts))"

definition gw_timer_break :: "('d, 'c) timerset \<Rightarrow> (timer_ref gwlist option \<times> ('d, 'c) timerset) option" where
  "gw_timer_break ts =
     (if heap_len ts = 0 then Some (None, ts)
      else do {
        (ret, ts) \<leftarrow> break_loop gwlist_create ts;
        Some (Some ret, ts) })"

text \<open>
  The loops at the start of the functions that destroy a set. After them the thread is told to
  stop and the set is freed.
\<close>

partial_function (option) stop_all_loop :: "('d, 'c) timerset \<Rightarrow> ('d, 'c) timerset option" where
  "stop_all_loop ts =
     (if heap_len ts > 0 then do {
        timer \<leftarrow> heap_tab ts 0;
        ts \<leftarrow> gw_timer_stop timer ts;
        stop_all_loop ts }
      else Some ts)"

partial_function (option) elapsed_destroy_all_loop :: "('d, 'c) timerset \<Rightarrow> ('d, 'c) timerset option" where
  "elapsed_destroy_all_loop ts =
     (if heap_len ts > 0 then do {
        timer \<leftarrow> heap_tab ts 0;
        ts \<leftarrow> gw_timer_elapsed_destroy (Some timer) ts;
        elapsed_destroy_all_loop ts }
      else Some ts)"

definition gw_timerset_destroy :: "('d, 'c) timerset option \<Rightarrow> ('d, 'c) timerset option option" where
  "gw_timerset_destroy ts = (case ts of
     None \<Rightarrow> Some None
   | Some ts \<Rightarrow> do { ts \<leftarrow> stop_all_loop ts; Some (Some (ts\<lparr>ts_stopping := True\<rparr>)) })"

definition gw_timerset_elapsed_destroy :: "('d, 'c) timerset option \<Rightarrow> ('d, 'c) timerset option option" where
  "gw_timerset_elapsed_destroy ts = (case ts of
     None \<Rightarrow> Some None
   | Some ts \<Rightarrow> do { ts \<leftarrow> elapsed_destroy_all_loop ts; Some (Some (ts\<lparr>ts_stopping := True\<rparr>)) })"

section \<open>The timer thread\<close>

definition elapse_timer ::
    "('c \<Rightarrow> 'd option \<Rightarrow> ('d, 'c) timerset \<Rightarrow> ('d, 'c) timerset option) \<Rightarrow>
     timer_ref \<Rightarrow> ('d, 'c) timerset \<Rightarrow> ('d, 'c) timerset option" where
  "elapse_timer call timer ts = do {
     t \<leftarrow> ts_timers ts timer;
     gw_assert (tm_elapsed_data t = None);
     let e = tm_data t;
     ts \<leftarrow> put_timer timer (\<lambda>t. t\<lparr>tm_elapsed_data := e, tm_elapses := -1\<rparr>) ts;
     ts \<leftarrow> (case tm_output t of None \<Rightarrow> Some ts | Some l \<Rightarrow> on_list l (\<lambda>xs. gwlist_produce xs e) ts);
     case tm_callback t of None \<Rightarrow> Some ts | Some c \<Rightarrow> call c e ts }"

partial_function (option) elapse_loop ::
    "('c \<Rightarrow> 'd option \<Rightarrow> ('d, 'c) timerset \<Rightarrow> ('d, 'c) timerset option) \<Rightarrow>
     int \<Rightarrow> ('d, 'c) timerset \<Rightarrow> ('d, 'c) timerset option" where
  "elapse_loop call now ts =
     (if heap_len ts > 0 then do {
        e \<leftarrow> elapses_at ts 0;
        if e \<le> now then do {
          timer \<leftarrow> heap_tab ts 0;
          ts \<leftarrow> heap_delete ts 0;
          ts \<leftarrow> elapse_timer call timer ts;
          elapse_loop call now ts }
        else Some ts }
      else Some ts)"

text \<open>
  One turn of the loop of \<open>watch_timers\<close>. The result is the time to sleep, and is \<open>None\<close> when
  the thread leaves its loop.
\<close>

definition watch_pass ::
    "('c \<Rightarrow> 'd option \<Rightarrow> ('d, 'c) timerset \<Rightarrow> ('d, 'c) timerset option) \<Rightarrow>
     int \<Rightarrow> ('d, 'c) timerset \<Rightarrow> (int option \<times> ('d, 'c) timerset) option" where
  "watch_pass call now ts =
     (if ts_stopping ts then Some (None, ts)
      else do {
        ts \<leftarrow> elapse_loop call now ts;
        if heap_len ts = 0 then Some (Some 1000000, ts)
        else do {
          top_time \<leftarrow> elapses_at ts 0;
          Some (Some (top_time - now), ts) } })"

end
