(* ===== verification/Timer_Heap.thy ===== *)
theory Timer_Heap
  imports Timer
begin

text \<open>
  The heap of \<open>gwlib/gw-timer.c\<close>: position \<open>j\<close> has the parent \<open>j div 2\<close>, so that position 0 is
  its own parent and has the one child 1. \<open>harr s xs\<close> says that the heap of \<open>s\<close> is the list \<open>xs\<close>,
  that every timer knows its position and that no timer is there twice. Every operation keeps it,
  and restores the order \<open>heap_ord\<close>.
\<close>

section \<open>Lists ordered as a heap\<close>

definition swp :: "'a list \<Rightarrow> nat \<Rightarrow> nat \<Rightarrow> 'a list" where
  "swp xs i j = xs[i := xs ! j, j := xs ! i]"

lemma length_swp [simp]: "length (swp xs i j) = length xs"
  by (simp add: swp_def)

lemma mset_swp [simp]: "i < length xs \<Longrightarrow> j < length xs \<Longrightarrow> mset (swp xs i j) = mset xs"
  by (simp add: swp_def mset_swap)

lemma nth_swp:
  "i < length xs \<Longrightarrow> j < length xs \<Longrightarrow> l < length xs \<Longrightarrow>
   swp xs i j ! l = (if l = i then xs ! j else if l = j then xs ! i else xs ! l)"
  by (auto simp: swp_def nth_list_update)

definition heap_ord :: "('a \<Rightarrow> int) \<Rightarrow> 'a list \<Rightarrow> bool" where
  "heap_ord k xs \<longleftrightarrow> (\<forall>j. 0 < j \<and> j < length xs \<longrightarrow> k (xs ! (j div 2)) \<le> k (xs ! j))"

text \<open>The order holds but around position \<open>i\<close>, whose children do not elapse before its parent.\<close>

definition hole :: "('a \<Rightarrow> int) \<Rightarrow> 'a list \<Rightarrow> nat \<Rightarrow> bool" where
  "hole k xs i \<longleftrightarrow>
     (\<forall>j. 0 < j \<and> j < length xs \<and> j \<noteq> i \<and> j div 2 \<noteq> i \<longrightarrow> k (xs ! (j div 2)) \<le> k (xs ! j)) \<and>
     (0 < i \<longrightarrow> (\<forall>j. j < length xs \<and> j div 2 = i \<longrightarrow> k (xs ! (i div 2)) \<le> k (xs ! j)))"

text \<open>The order may fail only between \<open>i\<close> and its parent, or only between \<open>i\<close> and its children.\<close>

definition up_ok :: "('a \<Rightarrow> int) \<Rightarrow> 'a list \<Rightarrow> nat \<Rightarrow> bool" where
  "up_ok k xs i \<longleftrightarrow> hole k xs i \<and>
     (\<forall>j. 0 < j \<and> j < length xs \<and> j \<noteq> i \<and> j div 2 = i \<longrightarrow> k (xs ! i) \<le> k (xs ! j))"

definition down_ok :: "('a \<Rightarrow> int) \<Rightarrow> 'a list \<Rightarrow> nat \<Rightarrow> bool" where
  "down_ok k xs i \<longleftrightarrow> hole k xs i \<and> k (xs ! (i div 2)) \<le> k (xs ! i)"

lemma top_le:
  "(\<And>j. 0 < j \<Longrightarrow> j \<le> m \<Longrightarrow> k (xs ! (j div 2)) \<le> (k (xs ! j) :: int)) \<Longrightarrow> k (xs ! 0) \<le> k (xs ! m)"
proof (induction m rule: less_induct)
  case (less m)
  show ?case
  proof (cases "m = 0")
    case False
    then have "k (xs ! 0) \<le> k (xs ! (m div 2))" using less by simp
    also have "\<dots> \<le> k (xs ! m)" using less.prems [of m] False by simp
    finally show ?thesis .
  qed simp
qed

lemma heap_ord_top: "heap_ord k xs \<Longrightarrow> x \<in> set xs \<Longrightarrow> k (xs ! 0) \<le> k x"
  by (auto simp: heap_ord_def in_set_conv_nth intro!: top_le)

lemma hole_top: "hole k xs i \<Longrightarrow> i < length xs \<Longrightarrow> k (xs ! 0) \<le> k (xs ! (i div 2))"
  by (rule top_le) (auto simp: hole_def)

lemma up_ok_done:
  assumes "up_ok k xs i" "i < length xs" "\<not> k (xs ! i) < k (xs ! (i div 2))"
  shows "heap_ord k xs"
  unfolding heap_ord_def
proof (intro allI impI)
  fix j assume "0 < j \<and> j < length xs"
  then show "k (xs ! (j div 2)) \<le> k (xs ! j)"
    using assms by (cases "j = i"; cases "j div 2 = i") (auto simp: up_ok_def hole_def)
qed

lemma half_pos: "0 < i \<Longrightarrow> i div 2 < (i::nat)"
  by simp

lemma up_ok_step:
  assumes "up_ok k xs i" "i < length xs" "k (xs ! i) < k (xs ! (i div 2))"
  shows "up_ok k (swp xs i (i div 2)) (i div 2)"
proof -
  let ?p = "i div 2" and ?ys = "swp xs i (i div 2)"
  have i: "0 < i" using assms(3) by (cases i) auto
  then have p: "?p < i" "?p < length xs" using assms(2) by auto
  have ys: "?ys ! l = (if l = i then xs ! ?p else if l = ?p then xs ! i else xs ! l)" if "l < length xs" for l
    using that p assms(2) by (simp add: nth_swp)
  have ord: "k (xs ! (j div 2)) \<le> k (xs ! j)" if "0 < j" "j < length xs" "j \<noteq> i" for j
    using assms(1) that by (cases "j div 2 = i") (auto simp: up_ok_def hole_def)
  have gap: "k (xs ! ?p) \<le> k (xs ! j)" if "j < length xs" "j div 2 = i" for j
    using assms(1) that i by (auto simp: up_ok_def hole_def)
  have pp: "k (xs ! (?p div 2)) \<le> k (xs ! ?p)"
    using ord [of ?p] p by (cases "?p = 0") auto
  have half: "j div 2 < length xs" if "j < length xs" for j using that by simp
  have A: "k (?ys ! (j div 2)) \<le> k (?ys ! j)" if j: "0 < j" "j < length xs" "j \<noteq> ?p" for j
  proof -
    consider "j = i" | "j \<noteq> i" "j div 2 = ?p" | "j div 2 = i" | "j \<noteq> i" "j div 2 \<noteq> ?p" "j div 2 \<noteq> i" by blast
    then show ?thesis
    proof cases
      case 1
      then show ?thesis using assms(2,3) p by (simp add: ys)
    next
      case 2
      then have "k (xs ! ?p) \<le> k (xs ! j)" using ord [of j] j by simp
      then show ?thesis using 2 j p assms(3) by (simp add: ys)
    next
      case 3
      then show ?thesis using gap [of j] j i p assms(2) by (auto simp: ys)
    next
      case 4
      then show ?thesis using ord [of j] j half [of j] by (simp add: ys)
    qed
  qed
  have B: "k (?ys ! (?p div 2)) \<le> k (?ys ! j)" if j: "0 < ?p" "j < length xs" "j div 2 = ?p" for j
  proof -
    have ne: "?p div 2 \<noteq> i" "?p div 2 \<noteq> ?p" using j p by auto
    show ?thesis
    proof (cases "j = i")
      case True
      then show ?thesis using pp ne p assms(2) by (simp add: ys half)
    next
      case False
      then have "k (xs ! ?p) \<le> k (xs ! j)" using ord [of j] j by (cases "j = 0") auto
      then show ?thesis using pp ne p j False by (auto simp: ys half)
    qed
  qed
  have C: "k (?ys ! ?p) \<le> k (?ys ! j)" if j: "0 < j" "j < length xs" "j \<noteq> ?p" "j div 2 = ?p" for j
    using A [of j] j by simp
  show ?thesis unfolding up_ok_def hole_def using A B C by auto
qed

lemma down_ok_done:
  assumes "down_ok k xs i" "i < length xs"
    and "\<And>j. 0 < j \<Longrightarrow> j < length xs \<Longrightarrow> j div 2 = i \<Longrightarrow> k (xs ! i) \<le> k (xs ! j)"
  shows "heap_ord k xs"
  unfolding heap_ord_def
proof (intro allI impI)
  fix j assume j: "0 < j \<and> j < length xs"
  show "k (xs ! (j div 2)) \<le> k (xs ! j)"
  proof (cases "j div 2 = i")
    case True
    then show ?thesis using assms(3) j by simp
  next
    case False
    then show ?thesis using assms(1) j by (cases "j = i") (auto simp: down_ok_def hole_def)
  qed
qed

lemma down_ok_step:
  assumes "down_ok k xs i" "i < length xs" and c: "c < length xs" "c div 2 = i" "c \<noteq> i" "k (xs ! c) < k (xs ! i)"
    and least: "\<And>j. 0 < j \<Longrightarrow> j < length xs \<Longrightarrow> j div 2 = i \<Longrightarrow> k (xs ! c) \<le> k (xs ! j)"
  shows "down_ok k (swp xs i c) c"
proof -
  let ?ys = "swp xs i c"
  have c0: "0 < c" "i < c" using c by (cases c, auto)+
  have ys: "?ys ! l = (if l = i then xs ! c else if l = c then xs ! i else xs ! l)" if "l < length xs" for l
    using that assms(2) c by (simp add: nth_swp)
  have half: "j div 2 < length xs" if "j < length xs" for j using that by simp
  have ord: "k (xs ! (j div 2)) \<le> k (xs ! j)" if "0 < j" "j < length xs" "j div 2 \<noteq> i" for j
    using assms(1) that by (cases "j = i") (auto simp: down_ok_def hole_def)
  have gap: "k (xs ! (i div 2)) \<le> k (xs ! j)" if "0 < i" "j < length xs" "j div 2 = i" for j
    using assms(1) that by (auto simp: down_ok_def hole_def)
  have A: "k (?ys ! (j div 2)) \<le> k (?ys ! j)" if j: "0 < j" "j < length xs" "j \<noteq> c" "j div 2 \<noteq> c" for j
  proof (cases "j div 2 = i")
    case True
    then show ?thesis using least [of j] j assms(2) c by (cases "j = i") (auto simp: ys)
  next
    case False
    show ?thesis
    proof (cases "j = i")
      case True
      then have "k (xs ! (i div 2)) \<le> k (xs ! c)" using gap [of c] c j by simp
      moreover have "i div 2 \<noteq> i" "i div 2 \<noteq> c" using True j c0 by auto
      ultimately show ?thesis using True j by (simp add: ys half)
    next
      case False2: False
      then show ?thesis using ord [of j] False j half [of j] by (simp add: ys)
    qed
  qed
  have B: "k (?ys ! (c div 2)) \<le> k (?ys ! j)" if j: "j < length xs" "j div 2 = c" for j
  proof -
    have "0 < j" "j \<noteq> c" "j \<noteq> i" using j c0 by (cases j, auto)+
    then have "k (xs ! c) \<le> k (xs ! j)" using ord [of j] j c0 by simp
    then show ?thesis using c j assms(2) \<open>j \<noteq> c\<close> \<open>j \<noteq> i\<close> by (simp add: ys)
  qed
  have "k (?ys ! (c div 2)) \<le> k (?ys ! c)" using c assms(2) by (simp add: ys)
  then show ?thesis unfolding down_ok_def hole_def using A B by auto
qed

lemma hole_up: "hole k xs i \<Longrightarrow> k (xs ! i) < k (xs ! (i div 2)) \<Longrightarrow> up_ok k xs i"
  unfolding up_ok_def hole_def by (cases "i = 0") force+

lemma hole_down: "hole k xs i \<Longrightarrow> \<not> k (xs ! i) < k (xs ! (i div 2)) \<Longrightarrow> down_ok k xs i"
  by (simp add: down_ok_def)

lemma hole_change:
  assumes "heap_ord k xs" "distinct xs" "i < length xs" "\<And>x. x \<noteq> xs ! i \<Longrightarrow> k' x = k x"
  shows "hole k' xs i"
proof -
  have k': "k' (xs ! j) = k (xs ! j)" if "j < length xs" "j \<noteq> i" for j
    using assms that by (simp add: nth_eq_iff_index_eq)
  have A: "k' (xs ! (j div 2)) \<le> k' (xs ! j)" if "0 < j" "j < length xs" "j \<noteq> i" "j div 2 \<noteq> i" for j
    using k' [of j] k' [of "j div 2"] that assms(1) by (auto simp: heap_ord_def)
  have B: "k' (xs ! (i div 2)) \<le> k' (xs ! j)" if "0 < i" "j < length xs" "j div 2 = i" for j
  proof -
    have "j \<noteq> i" "0 < j" "i div 2 \<noteq> i" "i div 2 < length xs" using that assms(3) by auto
    moreover have "k (xs ! (i div 2)) \<le> k (xs ! i)" "k (xs ! i) \<le> k (xs ! j)"
      using assms(1,3) that calculation(2) by (auto simp: heap_ord_def)
    ultimately show ?thesis using k' [of j] k' [of "i div 2"] that by simp
  qed
  show ?thesis unfolding hole_def using A B by blast
qed

lemma half_self [simp]: "n div 2 = n \<longleftrightarrow> n = (0::nat)"
  by (cases n) auto

lemma hole_snoc: "heap_ord k xs \<Longrightarrow> hole k (xs @ [x]) (length xs)"
  by (auto simp: heap_ord_def hole_def nth_append less_Suc_eq)

lemma heap_ord_butlast: "hole k (xs @ [x]) (length xs) \<Longrightarrow> heap_ord k xs"
  unfolding heap_ord_def hole_def by (auto simp: nth_append split: if_splits) (metis div_le_dividend leD less_SucI less_or_eq_imp_le nat_neq_iff order_le_less_trans)

section \<open>The array and the timers\<close>

definition key :: "('d, 'c) timerset \<Rightarrow> timer_ref \<Rightarrow> int" where
  "key s r = (case ts_timers s r of None \<Rightarrow> 0 | Some t \<Rightarrow> tm_elapses t)"

definition index_of :: "('d, 'c) timerset \<Rightarrow> timer_ref \<Rightarrow> int option" where
  "index_of s r = map_option tm_index (ts_timers s r)"

definition harr :: "('d, 'c) timerset \<Rightarrow> timer_ref list \<Rightarrow> bool" where
  "harr s xs \<longleftrightarrow>
     heap_len s = int (length xs) \<and> th_size (ts_heap s) = int (length (th_tab (ts_heap s))) \<and>
     length xs \<le> length (th_tab (ts_heap s)) \<and> distinct xs \<and>
     (\<forall>i < length xs. th_tab (ts_heap s) ! i = Some (xs ! i)) \<and>
     (\<forall>i < length xs. index_of s (xs ! i) = Some (int i))"

text \<open>\<open>moved A s s'\<close>: nothing but the positions of the timers in \<open>A\<close>, and the array, is different.\<close>

definition unplaced :: "('d, 'c) timer \<Rightarrow> ('d, 'c) timer" where
  "unplaced t = t\<lparr>tm_index := 0\<rparr>"

definition moved :: "timer_ref set \<Rightarrow> ('d, 'c) timerset \<Rightarrow> ('d, 'c) timerset \<Rightarrow> bool" where
  "moved A s s' \<longleftrightarrow>
     ts_lists s' = ts_lists s \<and> ts_stopping s' = ts_stopping s \<and>
     (\<forall>r. r \<notin> A \<longrightarrow> ts_timers s' r = ts_timers s r) \<and>
     (\<forall>r. map_option unplaced (ts_timers s' r) = map_option unplaced (ts_timers s r))"

lemma moved_refl [simp]: "moved A s s"
  by (simp add: moved_def)

lemma moved_trans: "moved A s s1 \<Longrightarrow> moved A s1 s2 \<Longrightarrow> moved A s s2"
  by (simp add: moved_def)

lemma moved_mono: "moved A s s' \<Longrightarrow> A \<subseteq> B \<Longrightarrow> moved B s s'"
  by (auto simp: moved_def)

lemma unplaced_elapses: "unplaced t = unplaced u \<Longrightarrow> tm_elapses t = tm_elapses u"
  by (metis unplaced_def timer.ext_inject timer.surjective timer.update_convs(6))

lemma moved_key:
  assumes "moved A s s'"
  shows "key s' = key s"
proof
  fix r
  have "map_option unplaced (ts_timers s' r) = map_option unplaced (ts_timers s r)"
    using assms by (simp add: moved_def)
  then show "key s' r = key s r"
    by (cases "ts_timers s' r"; cases "ts_timers s r") (auto simp: key_def dest: unplaced_elapses)
qed

lemma harr_timer: "harr s xs \<Longrightarrow> x \<in> set xs \<Longrightarrow> \<exists>t. ts_timers s x = Some t \<and> tm_elapses t = key s x"
  by (auto simp: harr_def in_set_conv_nth index_of_def key_def)

lemma heap_tab_at: "harr s xs \<Longrightarrow> i < length xs \<Longrightarrow> heap_tab s (int i) = Some (xs ! i)"
  by (simp add: harr_def heap_tab_def rd_nat)

lemma elapses_at_ok: "harr s xs \<Longrightarrow> i < length xs \<Longrightarrow> elapses_at s (int i) = Some (key s (xs ! i))"
  using harr_timer [of s xs "xs ! i"] by (auto simp: elapses_at_def heap_tab_at)

lemma heap_swap_ok:
  assumes "harr s xs" "i < length xs" "j < length xs"
  shows "runs (heap_swap s (int i) (int j)) (\<lambda>s'. harr s' (swp xs i j) \<and> moved (set xs) s s')"
proof (cases "i = j")
  case True
  then have "swp xs i j = xs" by (simp add: swp_def)
  then show ?thesis using assms True by (simp add: heap_swap_def runs_simps harr_def)
next
  case False
  let ?a = "th_tab (ts_heap s)"
  have a: "i < length ?a" "j < length ?a" "?a ! i = Some (xs ! i)" "?a ! j = Some (xs ! j)"
    using assms by (auto simp: harr_def)
  have ne: "xs ! i \<noteq> xs ! j" using assms False by (simp add: harr_def nth_eq_iff_index_eq)
  obtain ti tj where t: "ts_timers s (xs ! i) = Some ti" "ts_timers s (xs ! j) = Some tj"
    using harr_timer [OF assms(1)] assms by (meson nth_mem)
  let ?b = "?a[i := Some (xs ! j), j := Some (xs ! i)]"
  let ?s = "s\<lparr>ts_heap := (ts_heap s)\<lparr>th_tab := ?b\<rparr>,
    ts_timers := (ts_timers s)(xs ! j \<mapsto> tj\<lparr>tm_index := int i\<rparr>, xs ! i \<mapsto> ti\<lparr>tm_index := int j\<rparr>)\<rparr>"
  have eq: "heap_swap s (int i) (int j) = Some ?s"
    using assms a ne t False
    by (simp add: heap_swap_def harr_def heap_tab_def cell_simps put_timer_def Let_def)
  have "harr ?s (swp xs i j)"
    unfolding harr_def
  proof (intro conjI allI impI)
    show "heap_len ?s = int (length (swp xs i j))" using assms by (simp add: harr_def heap_len_def)
    show "distinct (swp xs i j)" using assms by (simp add: harr_def swp_def distinct_swap)
    fix l assume l: "l < length (swp xs i j)"
    show "th_tab (ts_heap ?s) ! l = Some (swp xs i j ! l)"
      using l assms a by (auto simp: nth_swp nth_list_update harr_def)
    have "index_of s (xs ! l) = Some (int l)" using assms l by (simp add: harr_def)
    moreover have "xs ! l = xs ! i \<longleftrightarrow> l = i" "xs ! l = xs ! j \<longleftrightarrow> l = j"
      using assms l by (auto simp: harr_def nth_eq_iff_index_eq)
    ultimately show "index_of ?s (swp xs i j ! l) = Some (int l)"
      using l assms ne False by (auto simp: nth_swp index_of_def)
  qed (use assms in \<open>auto simp: harr_def\<close>)
  moreover have "moved (set xs) s ?s"
    using assms t by (auto simp: moved_def unplaced_def)
  ultimately show ?thesis by (simp add: eq)
qed

lemma cdiv_half: "cdiv (int i) 2 = int (i div 2)"
  by (simp add: zdiv_int)

lemma set_swp: "i < length xs \<Longrightarrow> j < length xs \<Longrightarrow> set (swp xs i j) = set xs"
  by (metis mset_swp set_mset_mset)

section \<open>Moving an element to its place\<close>

text \<open>The heap of the result is the list \<open>ys\<close>, a rearrangement of \<open>xs\<close>.\<close>

definition settled :: "('d, 'c) timerset \<Rightarrow> timer_ref list \<Rightarrow> timer_ref list \<Rightarrow> ('d, 'c) timerset \<Rightarrow> bool" where
  "settled s xs ys s' \<longleftrightarrow> harr s' ys \<and> heap_ord (key s) ys \<and> mset ys = mset xs \<and> moved (set xs) s s'"

lemma settled_step:
  assumes "moved (set xs) s s1" "settled s1 (swp xs i j) ys s'" "i < length xs" "j < length xs"
  shows "settled s xs ys s'"
  using assms moved_key [OF assms(1)] by (auto simp: settled_def set_swp elim: moved_trans)

lemma adjust_up_ok:
  assumes "harr s xs" "i < length xs" "up_ok (key s) xs i" "key s (xs ! i) < key s (xs ! (i div 2))"
  shows "runs (adjust_up (xs ! i) s (int i)) (\<lambda>(l, s'). \<exists>ys. settled s xs ys s' \<and>
    (l = 0 \<longleftrightarrow> key s (xs ! i) < key s (xs ! 0)) \<and> (ys ! 0 = xs ! i \<longleftrightarrow> l = 0))"
  using assms
proof (induction i arbitrary: s xs rule: less_induct)
  case (less i)
  let ?p = "i div 2" and ?ys = "swp xs i (i div 2)"
  have i: "0 < i" using less.prems(4) by (cases i) auto
  then have p: "?p < i" "?p < length xs" "xs \<noteq> []" using less.prems(2) by auto
  obtain s1 where s1: "heap_swap s (int i) (int ?p) = Some s1" "harr s1 ?ys" "moved (set xs) s s1"
    using heap_swap_ok [OF less.prems(1,2) p(2)] by (auto elim: runsE)
  have k: "key s1 = key s" by (rule moved_key [OF s1(3)])
  have at: "?ys ! ?p = xs ! i" using p less.prems(2) by (simp add: nth_swp)
  have top: "?ys ! 0 = (if ?p = 0 then xs ! i else xs ! 0)" using p less.prems(2) i by (auto simp: nth_swp)
  have up: "up_ok (key s) ?ys ?p" by (rule up_ok_step [OF less.prems(3,2,4)])
  obtain t where t: "ts_timers s1 (xs ! i) = Some t" "tm_elapses t = key s (xs ! i)"
    using harr_timer [OF s1(2), of "xs ! i"] less.prems(2) p k by (auto simp: set_swp)
  have e: "elapses_at s1 (int (?p div 2)) = Some (key s (?ys ! (?p div 2)))"
    using elapses_at_ok [OF s1(2), of "?p div 2"] p k by simp
  show ?case
  proof (cases "key s (xs ! i) < key s (?ys ! (?p div 2))")
    case True
    then have "?p \<noteq> 0" using at by (cases "?p = 0") auto
    have "runs (adjust_up (xs ! i) s1 (int ?p)) (\<lambda>(l, s'). \<exists>ys. settled s1 ?ys ys s' \<and>
        (l = 0 \<longleftrightarrow> key s (xs ! i) < key s (xs ! 0)) \<and> (ys ! 0 = xs ! i \<longleftrightarrow> l = 0))"
      using less.IH [OF p(1) s1(2)] up True k at top p \<open>?p \<noteq> 0\<close> by simp
    then have "runs (adjust_up (xs ! i) s1 (int ?p)) (\<lambda>(l, s'). \<exists>ys. settled s xs ys s' \<and>
        (l = 0 \<longleftrightarrow> key s (xs ! i) < key s (xs ! 0)) \<and> (ys ! 0 = xs ! i \<longleftrightarrow> l = 0))"
      by (rule runs_mono) (use settled_step [OF s1(3)] less.prems(2) p in blast)
    then show ?thesis
      using s1(1) t e True by (subst adjust_up.simps) (simp add: cdiv_half Let_def)
  next
    case False
    have ord: "heap_ord (key s) ?ys" using up_ok_done [OF up] p at False by simp
    have "settled s xs ?ys s1" using s1 ord p less.prems(2) by (simp add: settled_def)
    moreover have "?p = 0 \<longleftrightarrow> key s (xs ! i) < key s (xs ! 0)"
    proof (cases "?p = 0")
      case True
      then show ?thesis using less.prems(4) by simp
    next
      case False
      then have "key s (xs ! 0) \<le> key s (xs ! i)"
        using heap_ord_top [OF ord, of "xs ! i"] p less.prems(2) top by (simp add: set_swp)
      then show ?thesis using False by simp
    qed
    moreover have "?ys ! 0 = xs ! i \<longleftrightarrow> ?p = 0"
      using top less.prems(1,2) i p by (auto simp: harr_def nth_eq_iff_index_eq)
    ultimately show ?thesis
      using s1(1) t e False by (subst adjust_up.simps) (auto simp: cdiv_half Let_def intro!: exI [of _ ?ys])
  qed
qed

lemma child_cases: "j div 2 = i \<Longrightarrow> j = 2 * i \<or> j = 2 * i + (1::nat)"
  by presburger

lemma adjust_down_ok:
  assumes "harr s xs" "i < length xs" "down_ok (key s) xs i"
  shows "runs (adjust_down (xs ! i) s (int i)) (\<lambda>s'. \<exists>ys. settled s xs ys s' \<and> (0 < i \<longrightarrow> ys ! 0 = xs ! 0))"
  using assms
proof (induction "length xs - i" arbitrary: i s xs rule: less_induct)
  case less
  let ?k = "key s"
  obtain t where t: "ts_timers s (xs ! i) = Some t" "tm_elapses t = ?k (xs ! i)"
    using harr_timer [OF less.prems(1), of "xs ! i"] less.prems(2) by auto
  have len: "heap_len s = int (length xs)" using less.prems(1) by (simp add: harr_def)
  have e: "elapses_at s (int c) = Some (?k (xs ! c))" if "c < length xs" for c
    using elapses_at_ok [OF less.prems(1) that] .
  have stay: "runs (Some s) (\<lambda>s'. \<exists>ys. settled s xs ys s' \<and> (0 < i \<longrightarrow> ys ! 0 = xs ! 0))"
    if "\<And>j. 0 < j \<Longrightarrow> j < length xs \<Longrightarrow> j div 2 = i \<Longrightarrow> ?k (xs ! i) \<le> ?k (xs ! j)"
  proof -
    have "settled s xs xs s"
      unfolding settled_def using down_ok_done [OF less.prems(3,2) that] less.prems(1) by (intro conjI moved_refl refl)
    then show ?thesis unfolding runs_Some by blast
  qed
  have swap: "\<exists>s1. heap_swap s (int i) (int c) = Some s1 \<and> heap_len s1 = int (length xs) \<and>
      runs (adjust_down (xs ! i) s1 (int c)) (\<lambda>s'. \<exists>ys. settled s xs ys s' \<and> (0 < i \<longrightarrow> ys ! 0 = xs ! 0))"
    if c: "c < length xs" "c div 2 = i" "c \<noteq> i" "?k (xs ! c) < ?k (xs ! i)"
      "\<And>j. 0 < j \<Longrightarrow> j < length xs \<Longrightarrow> j div 2 = i \<Longrightarrow> ?k (xs ! c) \<le> ?k (xs ! j)" for c
  proof -
    let ?ys = "swp xs i c"
    obtain s1 where s1: "heap_swap s (int i) (int c) = Some s1" "harr s1 ?ys" "moved (set xs) s s1"
      using heap_swap_ok [OF less.prems(1,2) c(1)] by (auto elim: runsE)
    have ic: "i < c" "0 < length xs" using c by (cases c, auto)+
    have ys: "?ys ! c = xs ! i" "0 < i \<Longrightarrow> ?ys ! 0 = xs ! 0"
      using ic c(1) less.prems(2) by (simp_all only: nth_swp) auto
    have keep: "settled s1 ?ys zs s' \<Longrightarrow> settled s xs zs s'" for zs s'
      by (rule settled_step [OF s1(3) _ less.prems(2) c(1)])
    have "runs (adjust_down (?ys ! c) s1 (int c)) (\<lambda>s'. \<exists>ys. settled s1 ?ys ys s' \<and> (0 < c \<longrightarrow> ys ! 0 = ?ys ! 0))"
    proof (rule less.hyps [OF _ s1(2)])
      show "length ?ys - c < length xs - i" using ic c(1) by simp
      show "c < length ?ys" using c(1) by simp
      show "down_ok (key s1) ?ys c"
        unfolding moved_key [OF s1(3)] by (rule down_ok_step [OF less.prems(3,2) c])
    qed
    then have "runs (adjust_down (xs ! i) s1 (int c)) (\<lambda>s'. \<exists>ys. settled s xs ys s' \<and> (0 < i \<longrightarrow> ys ! 0 = xs ! 0))"
      unfolding ys(1) by (rule runs_mono) (use keep ys(2) ic in fastforce)
    then show ?thesis using s1 by (auto simp: harr_def)
  qed
  show ?case
  proof (cases "2 * i < length xs")
    case False
    then have "\<not> (0 < j \<and> j < length xs \<and> j div 2 = i)" for j by presburger
    then have "runs (Some s) (\<lambda>s'. \<exists>ys. settled s xs ys s' \<and> (0 < i \<longrightarrow> ys ! 0 = xs ! 0))"
      using stay by blast
    then show ?thesis using False len by (subst adjust_down.simps) (simp add: Let_def)
  next
    case c: True
    show ?thesis
    proof (cases "2 * i + 1 < length xs")
      case False
      then have only: "length xs = 2 * i + 1" using c by simp
      have kids: "j = 2 * i" if "j < length xs" "j div 2 = i" for j using that only by presburger
      show ?thesis
      proof (cases "?k (xs ! (2 * i)) < ?k (xs ! i)")
        case True
        then have "2 * i \<noteq> i" by (cases i) auto
        then obtain s1 where s1: "heap_swap s (int i) (int (2 * i)) = Some s1" "heap_len s1 = int (length xs)"
            "runs (adjust_down (xs ! i) s1 (int (2 * i))) (\<lambda>s'. \<exists>ys. settled s xs ys s' \<and> (0 < i \<longrightarrow> ys ! 0 = xs ! 0))"
          using swap [of "2 * i", OF c _ _ True] kids by fastforce
        moreover have "adjust_down (xs ! i) s1 (int (2 * i)) = Some s1"
          using s1(2) only \<open>2 * i \<noteq> i\<close> by (subst adjust_down.simps) (simp add: Let_def)
        ultimately show ?thesis
          using True t e [OF c] only len by (subst adjust_down.simps) (simp add: Let_def mult.commute)
      next
        case False
        have "runs (Some s) (\<lambda>s'. \<exists>ys. settled s xs ys s' \<and> (0 < i \<longrightarrow> ys ! 0 = xs ! 0))"
        proof (rule stay)
          fix j assume "j < length xs" "j div 2 = i"
          then have "j = 2 * i" by (rule kids)
          then show "?k (xs ! i) \<le> ?k (xs ! j)" using False by simp
        qed
        then show ?thesis
          using False t e [OF c] only len by (subst adjust_down.simps) (simp add: Let_def mult.commute)
      qed
    next
      case c1: True
      define c where "c = (if ?k (xs ! (2 * i + 1)) < ?k (xs ! (2 * i)) then 2 * i + 1 else 2 * i)"
      have cl: "c < length xs" "c div 2 = i" using c1 by (auto simp: c_def)
      have least: "?k (xs ! c) \<le> ?k (xs ! j)" if "j < length xs" "j div 2 = i" for j
        using child_cases [OF that(2)] by (auto simp: c_def)
      have step: "adjust_down (xs ! i) s (int i) =
          (if ?k (xs ! c) < ?k (xs ! i) then do { s1 \<leftarrow> heap_swap s (int i) (int c); adjust_down (xs ! i) s1 (int c) }
           else Some s)"
        using t e [OF c] e [OF c1] len c c1
        by (subst adjust_down.simps, cases "?k (xs ! (2 * i + 1)) < ?k (xs ! (2 * i))")
          (simp_all add: c_def Let_def mult.commute add.commute)
      show ?thesis
      proof (cases "?k (xs ! c) < ?k (xs ! i)")
        case True
        then have "c \<noteq> i" by auto
        then obtain s1 where "heap_swap s (int i) (int c) = Some s1"
            "runs (adjust_down (xs ! i) s1 (int c)) (\<lambda>s'. \<exists>ys. settled s xs ys s' \<and> (0 < i \<longrightarrow> ys ! 0 = xs ! 0))"
          using swap [OF cl _ True least] by blast
        then show ?thesis unfolding step using True by simp
      next
        case False
        have "runs (Some s) (\<lambda>s'. \<exists>ys. settled s xs ys s' \<and> (0 < i \<longrightarrow> ys ! 0 = xs ! 0))"
        proof (rule stay)
          fix j assume "j < length xs" "j div 2 = i"
          then have "?k (xs ! c) \<le> ?k (xs ! j)" by (rule least)
          then show "?k (xs ! i) \<le> ?k (xs ! j)" using False by simp
        qed
        then show ?thesis unfolding step using False by simp
      qed
    qed
  qed
qed

lemma heap_adjust_ok:
  assumes "harr s xs" "i < length xs" "hole (key s) xs i"
  shows "runs (heap_adjust s (int i)) (\<lambda>(b, s'). \<exists>ys. settled s xs ys s' \<and>
    (b \<longleftrightarrow> 0 < i \<and> key s (xs ! i) < key s (xs ! 0)) \<and> (0 < i \<longrightarrow> (ys ! 0 = xs ! i \<longleftrightarrow> b)))"
proof -
  obtain t where t: "ts_timers s (xs ! i) = Some t" "tm_elapses t = key s (xs ! i)"
    using harr_timer [OF assms(1), of "xs ! i"] assms(2) by auto
  have e: "elapses_at s (int (i div 2)) = Some (key s (xs ! (i div 2)))"
    using elapses_at_ok [OF assms(1), of "i div 2"] assms(2) by simp
  have len: "heap_len s = int (length xs)" using assms(1) by (simp add: harr_def)
  note start = heap_tab_at [OF assms(1,2)] t e len assms(2)
  show ?thesis
  proof (cases "key s (xs ! i) < key s (xs ! (i div 2))")
    case True
    then have i: "0 < i" by (cases i) auto
    have "runs (adjust_up (xs ! i) s (int i)) (\<lambda>(l, s'). \<exists>ys. settled s xs ys s' \<and>
        (l = 0 \<longleftrightarrow> key s (xs ! i) < key s (xs ! 0)) \<and> (ys ! 0 = xs ! i \<longleftrightarrow> l = 0))"
      by (rule adjust_up_ok [OF assms(1,2) hole_up [OF assms(3) True] True])
    then show ?thesis
      using start True i by (auto simp: heap_adjust_def cdiv_half runs_bind split_def elim!: runs_mono)
  next
    case False
    have "runs (adjust_down (xs ! i) s (int i)) (\<lambda>s'. \<exists>ys. settled s xs ys s' \<and> (0 < i \<longrightarrow> ys ! 0 = xs ! 0))"
      by (rule adjust_down_ok [OF assms(1,2) hole_down [OF assms(3) False]])
    moreover have "\<not> key s (xs ! i) < key s (xs ! 0)"
      using hole_top [OF assms(3,2)] False by simp
    moreover have "xs ! 0 \<noteq> xs ! i" if "0 < i"
      using assms(1,2) that by (cases xs) (auto simp: harr_def nth_Cons')
    ultimately show ?thesis
      using start False by (auto simp: heap_adjust_def cdiv_half runs_bind elim!: runs_mono)
  qed
qed

section \<open>Deleting and inserting\<close>

lemma hole_prefix:
  assumes "hole k xs i" "length zs \<le> length xs" "\<And>j. j < length zs \<Longrightarrow> j \<noteq> i \<Longrightarrow> zs ! j = xs ! j"
  shows "hole k zs i"
proof -
  have A: "k (zs ! (j div 2)) \<le> k (zs ! j)" if j: "0 < j" "j < length zs" "j \<noteq> i" "j div 2 \<noteq> i" for j
  proof -
    have "zs ! j = xs ! j" "zs ! (j div 2) = xs ! (j div 2)" using j assms(3) by auto
    then show ?thesis using assms(1,2) j by (simp add: hole_def)
  qed
  have B: "k (zs ! (i div 2)) \<le> k (zs ! j)" if j: "0 < i" "j < length zs" "j div 2 = i" for j
  proof -
    have "j \<noteq> i" "i div 2 \<noteq> i" "i div 2 < length zs" using j by auto
    then have "zs ! j = xs ! j" "zs ! (i div 2) = xs ! (i div 2)" using j assms(3) by auto
    then show ?thesis using assms(1,2) j by (simp add: hole_def)
  qed
  show ?thesis unfolding hole_def using A B by blast
qed

lemma harr_shorter:
  assumes "harr s (xs @ [x])" "ts_timers s x = Some t"
  shows "harr (s\<lparr>ts_timers := (ts_timers s)(x \<mapsto> t\<lparr>tm_index := -1\<rparr>), ts_heap := (ts_heap s)\<lparr>th_len := th_len (ts_heap s) - 1\<rparr>\<rparr>) xs"
proof -
  have "xs ! i \<noteq> x" if "i < length xs" for i using assms(1) that by (auto simp: harr_def)
  moreover have "index_of s (xs ! i) = Some (int i)" "th_tab (ts_heap s) ! i = Some (xs ! i)" if "i < length xs" for i
    using assms(1) that unfolding harr_def by (metis nth_append length_append_singleton less_SucI)+
  ultimately show ?thesis using assms by (auto simp: harr_def heap_len_def index_of_def)
qed

text \<open>What is left when the timer \<open>r\<close> has been taken out.\<close>

definition taken :: "('d, 'c) timerset \<Rightarrow> timer_ref list \<Rightarrow> timer_ref \<Rightarrow> ('d, 'c) timerset \<Rightarrow> bool" where
  "taken s xs r s' \<longleftrightarrow> (\<exists>ys. harr s' ys \<and> heap_ord (key s) ys \<and> mset xs = add_mset r (mset ys)) \<and>
     moved (set xs) s s' \<and> index_of s' r = Some (-1)"

lemma heap_delete_ok:
  assumes "harr s xs" "i < length xs" "hole (key s) xs i"
  shows "runs (heap_delete s (int i)) (taken s xs (xs ! i))"
proof -
  let ?r = "xs ! i"
  obtain n where n: "length xs = Suc n" using assms(2) by (cases "length xs") auto
  define zs where "zs = butlast (swp xs i n)"
  have len: "heap_len s = int (Suc n)" using n assms(1) by (simp add: harr_def)
  obtain t0 where t0: "ts_timers s ?r = Some t0" "tm_index t0 = int i"
    using assms(1,2) by (auto simp: harr_def index_of_def)
  obtain s1 where s1: "heap_swap s (int i) (int n) = Some s1" "harr s1 (swp xs i n)" "moved (set xs) s s1"
    using heap_swap_ok [OF assms(1,2), of n] n by (auto elim: runsE)
  have last: "swp xs i n ! n = ?r" using assms(2) n by (simp add: nth_swp)
  have "swp xs i n \<noteq> []" "last (swp xs i n) = ?r"
    using n last by (cases "swp xs i n = []"; force simp: last_conv_nth dest: arg_cong [of _ _ length])+
  then have zs: "swp xs i n = zs @ [?r]" unfolding zs_def by (metis append_butlast_last_id)
  have lz: "length zs = n" by (simp add: zs_def n)
  have ms: "mset xs = add_mset ?r (mset zs)"
    using arg_cong [OF zs, of mset] assms(2) n by simp
  obtain t where t: "ts_timers s1 ?r = Some t"
    using harr_timer [OF s1(2), of ?r] unfolding zs by auto
  let ?s = "s1\<lparr>ts_timers := (ts_timers s1)(?r \<mapsto> t\<lparr>tm_index := -1\<rparr>), ts_heap := (ts_heap s1)\<lparr>th_len := th_len (ts_heap s1) - 1\<rparr>\<rparr>"
  have h: "harr ?s zs" using harr_shorter [OF _ t] s1(2) zs by simp
  have mv: "moved (set xs) s ?s"
    by (rule moved_trans [OF s1(3)]) (use t assms(2) in \<open>auto simp: moved_def unplaced_def\<close>)
  have ix: "index_of ?s ?r = Some (-1)" by (simp add: index_of_def)
  have rz: "?r \<notin> set zs" using s1(2) zs by (simp add: harr_def)
  have run: "heap_delete s (int i) = (if i \<noteq> n then do { (_, s') \<leftarrow> heap_adjust ?s (int i); Some s' } else Some ?s)"
    using t0 heap_tab_at [OF assms(1,2)] len assms(2) n s1(1) heap_tab_at [OF s1(2), of n] last t
    by (simp add: heap_delete_def Let_def put_timer_def heap_len_def)
  show ?thesis
  proof (cases "i = n")
    case True
    have "swp xs i n = xs" using True by (simp add: swp_def)
    then have "heap_ord (key s) zs"
      using heap_ord_butlast [of "key s" zs ?r] assms(3) zs True lz by simp
    then show ?thesis using True run h mv ix ms by (auto simp: taken_def)
  next
    case False
    then have i: "i < length zs" using assms(2) lz n by simp
    have "hole (key s) zs i"
    proof (rule hole_prefix [OF assms(3)])
      fix j assume "j < length zs" "j \<noteq> i"
      then show "zs ! j = xs ! j"
        using arg_cong [OF zs, of "\<lambda>ys. ys ! j"] lz n assms(2) by (simp add: nth_swp nth_append)
    qed (simp add: lz n)
    then have "runs (heap_adjust ?s (int i)) (\<lambda>(b, s'). \<exists>ys. settled ?s zs ys s')"
      using heap_adjust_ok [OF h i] moved_key [OF mv] by (auto elim!: runs_mono)
    moreover have "taken s xs ?r s'" if s': "settled ?s zs ys s'" for ys s'
    proof -
      have "set zs \<subseteq> set xs" using arg_cong [OF ms, of set_mset] by auto
      then have "moved (set xs) ?s s'" using s' moved_mono unfolding settled_def by blast
      then have "moved (set xs) s s'" using mv moved_trans by blast
      moreover have "ts_timers s' ?r = ts_timers ?s ?r" using s' rz by (auto simp: settled_def moved_def)
      ultimately show ?thesis
        using s' ms ix moved_key [OF mv] by (auto simp: taken_def settled_def index_of_def)
    qed
    ultimately show ?thesis
      using run False by (auto simp: runs_bind split_def elim!: runs_mono)
  qed
qed

lemma heap_room:
  assumes "harr s xs"
  obtains tab where "length xs < length tab" "\<And>i. i < length xs \<Longrightarrow> tab ! i = Some (xs ! i)"
    "heap_insert s r = do {
       tab \<leftarrow> wr tab (int (length xs)) r;
       s \<leftarrow> put_timer r (\<lambda>t. t\<lparr>tm_index := int (length xs)\<rparr>)
             (s\<lparr>ts_heap := \<lparr>th_tab = tab, th_len = int (Suc (length xs)), th_size = int (length tab)\<rparr>\<rparr>);
       t \<leftarrow> ts_timers s r;
       (_, s) \<leftarrow> heap_adjust s (tm_index t);
       Some s }"
proof -
  obtain a m z where hp: "ts_heap s = \<lparr>th_tab = a, th_len = m, th_size = z\<rparr>"
    by (cases "ts_heap s") auto
  have h: "m = int (length xs)" "z = int (length a)" "length xs \<le> length a"
      "\<And>i. i < length xs \<Longrightarrow> a ! i = Some (xs ! i)"
    using assms hp by (auto simp: harr_def heap_len_def)
  show ?thesis
  proof (cases "length xs < length a")
    case True
    show ?thesis
      by (rule that [of a]) (use h hp True in \<open>simp_all add: heap_insert_def heap_len_def wr_def add.commute\<close>)
  next
    case False
    then have l: "length a = length xs" using h(3) by simp
    have "nat (int (length xs) + 1) - length a = 1" using l by simp
    then have "gw_realloc a (int (length xs) + 1) = Some (a @ [None])"
      using l by (subst gw_realloc_grow) simp_all
    then show ?thesis
      by (intro that [of "a @ [None]"])
        (use h hp l in \<open>simp_all add: heap_insert_def heap_len_def wr_def add.commute nth_append\<close>)
  qed
qed

lemma heap_insert_ok:
  assumes "harr s xs" "heap_ord (key s) xs" "r \<notin> set xs" "ts_timers s r = Some t"
  shows "runs (heap_insert s r) (\<lambda>s'. (\<exists>ys. harr s' ys \<and> heap_ord (key s) ys \<and> mset ys = add_mset r (mset xs)) \<and>
    moved (insert r (set xs)) s s' \<and> (index_of s' r = Some 0 \<longleftrightarrow> (\<forall>x \<in> set xs. key s r < key s x)))"
proof -
  let ?n = "length xs"
  obtain tab where tab: "?n < length tab" "\<And>i. i < ?n \<Longrightarrow> tab ! i = Some (xs ! i)"
    and run: "heap_insert s r = do {
       tab \<leftarrow> wr tab (int ?n) r;
       s \<leftarrow> put_timer r (\<lambda>t. t\<lparr>tm_index := int ?n\<rparr>)
             (s\<lparr>ts_heap := \<lparr>th_tab = tab, th_len = int (Suc ?n), th_size = int (length tab)\<rparr>\<rparr>);
       t \<leftarrow> ts_timers s r;
       (_, s) \<leftarrow> heap_adjust s (tm_index t);
       Some s }"
    using heap_room [OF assms(1)] by blast
  let ?s = "s\<lparr>ts_heap := \<lparr>th_tab = tab[?n := Some r], th_len = int (Suc ?n), th_size = int (length tab)\<rparr>,
    ts_timers := (ts_timers s)(r \<mapsto> t\<lparr>tm_index := int ?n\<rparr>)\<rparr>"
  have run': "heap_insert s r = do { (_, s) \<leftarrow> heap_adjust ?s (int ?n); Some s }"
    using run tab assms(4) by (simp add: cell_simps put_timer_def)
  have ix: "index_of s (xs ! i) = Some (int i)" if "i < ?n" for i
    using assms(1) that by (simp add: harr_def)
  have ne: "xs ! i \<noteq> r" if "i < ?n" for i using assms(3) that by auto
  have h: "harr ?s (xs @ [r])"
    unfolding harr_def
  proof (intro conjI allI impI)
    show "distinct (xs @ [r])" using assms by (simp add: harr_def)
    fix i assume "i < length (xs @ [r])"
    then consider "i < ?n" | "i = ?n" by fastforce
    then have "th_tab (ts_heap ?s) ! i = Some ((xs @ [r]) ! i) \<and> index_of ?s ((xs @ [r]) ! i) = Some (int i)"
    proof cases
      case 1
      then show ?thesis
        using tab(2) [OF 1] ix [OF 1] ne [OF 1] by (simp add: nth_append index_of_def)
    next
      case 2
      then show ?thesis using tab(1) by (simp add: index_of_def)
    qed
    then show "th_tab (ts_heap ?s) ! i = Some ((xs @ [r]) ! i)" "index_of ?s ((xs @ [r]) ! i) = Some (int i)"
      by blast+
  qed (use tab in \<open>auto simp: heap_len_def\<close>)
  have mv: "moved (insert r (set xs)) s ?s"
    using assms(4) by (auto simp: moved_def unplaced_def)
  note k = moved_key [OF mv]
  have hole: "hole (key ?s) (xs @ [r]) ?n"
    unfolding k by (rule hole_snoc [OF assms(2)])
  have "runs (heap_adjust ?s (int ?n)) (\<lambda>(b, s'). \<exists>ys. settled ?s (xs @ [r]) ys s' \<and>
      (b \<longleftrightarrow> 0 < ?n \<and> key s r < key s ((xs @ [r]) ! 0)) \<and> (0 < ?n \<longrightarrow> (ys ! 0 = r \<longleftrightarrow> b)))"
    using heap_adjust_ok [OF h _ hole] unfolding k by simp
  then obtain b s' ys where adj: "heap_adjust ?s (int ?n) = Some (b, s')" and s': "settled ?s (xs @ [r]) ys s'"
    and b: "b \<longleftrightarrow> 0 < ?n \<and> key s r < key s ((xs @ [r]) ! 0)" "0 < ?n \<Longrightarrow> ys ! 0 = r \<longleftrightarrow> b"
    unfolding runs_def by blast
  have ys: "harr s' ys" "heap_ord (key s) ys" "mset ys = add_mset r (mset xs)" "moved (insert r (set xs)) s s'"
    using s' k mv by (auto simp: settled_def intro: moved_trans)
  have len: "length ys = Suc ?n" using arg_cong [OF ys(3), of size] by simp
  have r: "r \<in> set ys" using arg_cong [OF ys(3), of set_mset] by auto
  then obtain l where l: "l < length ys" "ys ! l = r" by (auto simp: in_set_conv_nth)
  have "index_of s' r = Some (int l)" using ys(1) l by (auto simp: harr_def)
  moreover have "ys ! 0 = r \<longleftrightarrow> l = 0" using ys(1) l len by (auto simp: harr_def nth_eq_iff_index_eq)
  ultimately have top: "index_of s' r = Some 0 \<longleftrightarrow> ys ! 0 = r" by simp
  have "ys ! 0 = r \<longleftrightarrow> (\<forall>x \<in> set xs. key s r < key s x)"
  proof (cases xs)
    case Nil
    then show ?thesis using l len by (auto simp: less_Suc_eq)
  next
    case (Cons x zs)
    then have "(\<forall>x \<in> set xs. key s r < key s x) \<longleftrightarrow> key s r < key s (xs ! 0)"
      using heap_ord_top [OF assms(2)] by (metis le_less_trans less_le_trans list.set_intros(1) nth_Cons_0)
    then show ?thesis using b Cons by simp
  qed
  then show ?thesis using run' adj ys top by auto
qed

end
