(* ===== verification/Timer_Spec.thy ===== *)
theory Timer_Spec
  imports Timer_Heap
begin

text \<open>
  What \<open>gwlib/gw-timer.h\<close> promises. The abstract state knows of every timer its deadline, its data
  and the event it has put on its output list, and of every output list its items. \<open>allows\<close> says
  which results an operation may give; where timers with the same deadline elapse together, their
  order is left open. The operations of the code are shown to stay within it and never to abort.
\<close>

section \<open>Abstract timers\<close>

record ('d, 'c) atimer =
  at_output :: "list_ref option"
  at_callback :: "'c option"
  at_deadline :: "int option"
  at_data :: "'d option"
  at_event :: "'d option"

record ('d, 'c) atimers =
  a_timers :: "timer_ref \<Rightarrow> ('d, 'c) atimer option"
  a_lists :: "list_ref \<Rightarrow> 'd option list option"
  a_stopping :: bool

definition a_set :: "timer_ref \<Rightarrow> (('d, 'c) atimer \<Rightarrow> ('d, 'c) atimer) \<Rightarrow> ('d, 'c) atimers \<Rightarrow> ('d, 'c) atimers" where
  "a_set r f a = a\<lparr>a_timers := (a_timers a)(r := map_option f (a_timers a r))\<rparr>"

definition a_on_list :: "list_ref option \<Rightarrow> ('d option list \<Rightarrow> 'd option list) \<Rightarrow> ('d, 'c) atimers \<Rightarrow> ('d, 'c) atimers" where
  "a_on_list out f a = (case out of None \<Rightarrow> a
     | Some l \<Rightarrow> a\<lparr>a_lists := (a_lists a)(l := map_option f (a_lists a l))\<rparr>)"

definition a_off :: "timer_ref \<Rightarrow> ('d, 'c) atimers \<Rightarrow> ('d, 'c) atimers" where
  "a_off r = a_set r (\<lambda>t. t\<lparr>at_deadline := None\<rparr>)"

definition a_forget :: "timer_ref \<Rightarrow> ('d, 'c) atimers \<Rightarrow> ('d, 'c) atimers" where
  "a_forget r = a_set r (\<lambda>t. t\<lparr>at_event := None\<rparr>)"

text \<open>An event that is still on the output list is taken back.\<close>

definition a_abort :: "timer_ref \<Rightarrow> ('d, 'c) atimers \<Rightarrow> ('d, 'c) atimers" where
  "a_abort r a = (case a_timers a r of None \<Rightarrow> a
     | Some t \<Rightarrow> if at_event t = None then a
         else a_forget r (a_on_list (at_output t) (filter (\<lambda>x. x \<noteq> at_event t)) a))"

definition a_elapse :: "timer_ref \<Rightarrow> ('d, 'c) atimers \<Rightarrow> ('d, 'c) atimers" where
  "a_elapse r a = (case a_timers a r of None \<Rightarrow> a
     | Some t \<Rightarrow> a_on_list (at_output t) (\<lambda>xs. xs @ [at_data t])
         (a_set r (\<lambda>t. t\<lparr>at_deadline := None, at_event := at_data t\<rparr>) a))"

definition a_free :: "timer_ref \<Rightarrow> ('d, 'c) atimers \<Rightarrow> ('d, 'c) atimers" where
  "a_free r a = a\<lparr>a_timers := (a_timers a)(r := None)\<rparr>"

definition deadline :: "('d, 'c) atimers \<Rightarrow> timer_ref \<Rightarrow> int option" where
  "deadline a r = Option.bind (a_timers a r) at_deadline"

definition active :: "('d, 'c) atimers \<Rightarrow> timer_ref set" where
  "active a = {r. deadline a r \<noteq> None}"

section \<open>The timers of a set\<close>

definition abs_timer :: "('d, 'c) timer \<Rightarrow> ('d, 'c) atimer" where
  "abs_timer t = \<lparr>at_output = tm_output t, at_callback = tm_callback t,
     at_deadline = (if tm_elapses t > 0 then Some (tm_elapses t) else None),
     at_data = tm_data t, at_event = tm_elapsed_data t\<rparr>"

definition timers_abs :: "('d, 'c) timerset \<Rightarrow> ('d, 'c) atimers" where
  "timers_abs s = \<lparr>a_timers = \<lambda>r. map_option abs_timer (ts_timers s r),
     a_lists = \<lambda>l. map_option items (ts_lists s l), a_stopping = ts_stopping s\<rparr>"

definition status_ok :: "bool \<Rightarrow> ('d, 'c) timer \<Rightarrow> bool" where
  "status_ok b t \<longleftrightarrow> (if b then 0 < tm_elapses t \<and> tm_elapsed_data t = None else tm_elapses t = -1)"

definition users :: "('d, 'c) timerset \<Rightarrow> list_ref \<Rightarrow> timer_ref set" where
  "users s l = {r. \<exists>t. ts_timers s r = Some t \<and> tm_output t = Some l}"

text \<open>Every output list is well formed, and every timer that uses it is one of its producers.\<close>

definition lists_ok :: "('d, 'c) timerset \<Rightarrow> bool" where
  "lists_ok s \<longleftrightarrow>
     (\<forall>l xs. ts_lists s l = Some xs \<longrightarrow> gwlist_ok xs \<and> int (card (users s l)) \<le> gl_num_producers xs) \<and>
     (\<forall>l. users s l \<noteq> {} \<longrightarrow> ts_lists s l \<noteq> None)"

definition tinv :: "('d, 'c) timerset \<Rightarrow> timer_ref list \<Rightarrow> bool" where
  "tinv s xs \<longleftrightarrow> harr s xs \<and> heap_ord (key s) xs \<and> finite (dom (ts_timers s)) \<and> lists_ok s \<and>
     (\<forall>r t. ts_timers s r = Some t \<longrightarrow> status_ok (r \<in> set xs) t) \<and>
     (\<forall>r t. ts_timers s r = Some t \<longrightarrow> r \<notin> set xs \<longrightarrow> tm_index t = -1)"

lemma users_finite: "finite (dom (ts_timers s)) \<Longrightarrow> finite (users s l)"
  by (rule finite_subset [of _ "dom (ts_timers s)"]) (auto simp: users_def)

text \<open>Moving timers about in the heap changes none of it.\<close>

lemma moved_timer:
  assumes "moved A s s'"
  shows "(ts_timers s r = None \<longleftrightarrow> ts_timers s' r = None)"
    and "ts_timers s' r = Some t' \<Longrightarrow> \<exists>t. ts_timers s r = Some t \<and> unplaced t = unplaced t'"
    and "ts_timers s r = Some t \<Longrightarrow> \<exists>t'. ts_timers s' r = Some t' \<and> unplaced t' = unplaced t"
proof -
  have *: "map_option unplaced (ts_timers s' r) = map_option unplaced (ts_timers s r)"
    using assms by (simp add: moved_def)
  then show "(ts_timers s r = None \<longleftrightarrow> ts_timers s' r = None)"
    by (metis option.map_disc_iff)
  show "ts_timers s' r = Some t' \<Longrightarrow> \<exists>t. ts_timers s r = Some t \<and> unplaced t = unplaced t'"
    using * by (cases "ts_timers s r") auto
  show "ts_timers s r = Some t \<Longrightarrow> \<exists>t'. ts_timers s' r = Some t' \<and> unplaced t' = unplaced t"
    using * by (cases "ts_timers s' r") auto
qed

lemma unplaced_fields:
  assumes "unplaced t = unplaced u"
  shows "tm_output t = tm_output u" "tm_callback t = tm_callback u" "tm_elapses t = tm_elapses u"
    "tm_data t = tm_data u" "tm_elapsed_data t = tm_elapsed_data u"
  using assms by (cases t, cases u, simp add: unplaced_def)+

lemma unplaced_abs: "unplaced t = unplaced u \<Longrightarrow> abs_timer t = abs_timer u"
  using unplaced_fields [of t u] by (simp add: abs_timer_def)

lemma unplaced_status: "unplaced t = unplaced u \<Longrightarrow> status_ok b t = status_ok b u"
  using unplaced_fields [of t u] by (simp add: status_ok_def)

lemma moved_abs:
  assumes "moved A s s'"
  shows "timers_abs s' = timers_abs s"
proof -
  have "map_option abs_timer (ts_timers s' r) = map_option abs_timer (ts_timers s r)" for r
    using moved_timer [OF assms, of r] by (cases "ts_timers s' r") (auto intro: unplaced_abs)
  then show ?thesis using assms by (simp add: timers_abs_def moved_def)
qed

lemma moved_users:
  assumes "moved A s s'"
  shows "users s' = users s"
proof
  fix l
  have "r \<in> users s' l \<longleftrightarrow> r \<in> users s l" for r
    using moved_timer [OF assms, of r]
    by (cases "ts_timers s r"; cases "ts_timers s' r") (auto simp: users_def dest: unplaced_fields(1))
  then show "users s' l = users s l" by blast
qed

lemma moved_dom: "moved A s s' \<Longrightarrow> dom (ts_timers s') = dom (ts_timers s)"
  unfolding dom_def by (simp add: moved_timer(1) [of A s s'])

lemma moved_lists_ok: "moved A s s' \<Longrightarrow> lists_ok s' = lists_ok s"
  using moved_users [of A s s'] by (simp add: lists_ok_def moved_def)

lemma tinv_moved:
  assumes "moved A s s'" "harr s' ys" "heap_ord (key s) ys" "finite (dom (ts_timers s))" "lists_ok s"
    and "\<And>r t. ts_timers s r = Some t \<Longrightarrow> status_ok (r \<in> set ys) t"
    and "\<And>r t. ts_timers s' r = Some t \<Longrightarrow> r \<notin> set ys \<Longrightarrow> tm_index t = -1"
  shows "tinv s' ys"
proof -
  have "status_ok (r \<in> set ys) t'" if "ts_timers s' r = Some t'" for r t'
    using moved_timer(2) [OF assms(1) that] assms(6) unplaced_status by metis
  then show ?thesis
    using assms moved_key [OF assms(1)] moved_dom [OF assms(1)] moved_lists_ok [OF assms(1)] by (simp add: tinv_def)
qed

section \<open>Changing a timer\<close>

text \<open>A change that leaves the position and the output list of a timer as they are.\<close>

lemma users_update:
  assumes "ts_timers s r = Some t" "tm_output (f t) = tm_output t"
  shows "users (s\<lparr>ts_timers := (ts_timers s)(r \<mapsto> f t)\<rparr>) = users s"
  using assms by (auto simp: users_def fun_eq_iff)

lemma lists_ok_update:
  assumes "lists_ok s" "ts_timers s r = Some t" "tm_output (f t) = tm_output t"
  shows "lists_ok (s\<lparr>ts_timers := (ts_timers s)(r \<mapsto> f t)\<rparr>)"
  using assms users_update [of s r t f] by (simp add: lists_ok_def)

lemma harr_update:
  assumes "harr s xs" "ts_timers s r = Some t" "tm_index (f t) = tm_index t"
  shows "harr (s\<lparr>ts_timers := (ts_timers s)(r \<mapsto> f t)\<rparr>) xs"
  using assms by (auto simp: harr_def heap_len_def index_of_def)

lemma abs_update:
  assumes "ts_timers s r = Some t" "abs_timer (f t) = g (abs_timer t)"
  shows "timers_abs (s\<lparr>ts_timers := (ts_timers s)(r \<mapsto> f t)\<rparr>) = a_set r g (timers_abs s)"
  using assms by (auto simp: timers_abs_def a_set_def)

lemma key_update:
  "key (s\<lparr>ts_timers := (ts_timers s)(r \<mapsto> t)\<rparr>) = (key s)(r := tm_elapses t)"
  by (auto simp: key_def)

lemma tinv_update:
  assumes "tinv s xs" "ts_timers s r = Some t" "tm_index (f t) = tm_index t" "tm_output (f t) = tm_output t"
    "tm_elapses (f t) = tm_elapses t" "status_ok (r \<in> set xs) (f t)"
  shows "tinv (s\<lparr>ts_timers := (ts_timers s)(r \<mapsto> f t)\<rparr>) xs"
proof -
  have "key s r = tm_elapses t" using assms(2) by (simp add: key_def)
  then have "key (s\<lparr>ts_timers := (ts_timers s)(r \<mapsto> f t)\<rparr>) = key s"
    using assms(5) by (auto simp: key_update)
  then show ?thesis
    using assms harr_update [of s xs r t f] lists_ok_update [of s r t f] by (auto simp: tinv_def)
qed

text \<open>A change of an output list that leaves the number of its producers.\<close>

lemma on_list_ok:
  assumes "tinv s xs" "ts_lists s l = Some q" "\<And>p. rep q p \<Longrightarrow> runs (f q) (\<lambda>q'. rep q' (g p) \<and> same_parties q q')"
  shows "runs (on_list l f s) (\<lambda>s'. tinv s' xs \<and> timers_abs s' = a_on_list (Some l) g (timers_abs s) \<and> ts_timers s' = ts_timers s)"
proof -
  have "gwlist_ok q" using assms(1,2) by (auto simp: tinv_def lists_ok_def)
  then have "rep q (items q)" by (simp add: rep_iff)
  then obtain q' where q': "f q = Some q'" "rep q' (g (items q))" "same_parties q q'"
    using assms(3) by (auto elim: runsE)
  let ?s = "s\<lparr>ts_lists := (ts_lists s)(l \<mapsto> q')\<rparr>"
  have "users ?s = users s" "key ?s = key s" "harr ?s xs = harr s xs"
    by (simp_all add: users_def [abs_def] key_def [abs_def] harr_def heap_len_def index_of_def)
  moreover have "lists_ok ?s"
    using assms(1,2) q' calculation(1) by (auto simp: tinv_def lists_ok_def rep_iff same_parties_def)
  ultimately have "tinv ?s xs" using assms(1) by (simp add: tinv_def)
  moreover have "timers_abs ?s = a_on_list (Some l) g (timers_abs s)"
    using assms(2) q' by (auto simp: timers_abs_def a_on_list_def rep_iff)
  ultimately show ?thesis using assms(2) q'(1) by (simp add: on_list_def)
qed

lemma output_list:
  assumes "tinv s xs" "ts_timers s r = Some t" "tm_output t = Some l"
  obtains q where "ts_lists s l = Some q"
proof -
  have "r \<in> users s l" using assms by (simp add: users_def)
  then have "ts_lists s l \<noteq> None" using assms(1) unfolding tinv_def lists_ok_def by blast
  then show ?thesis using that by blast
qed

lemma abs_timers: "a_timers (timers_abs s) r = map_option abs_timer (ts_timers s r)"
  by (simp add: timers_abs_def)

lemma forget_elapsed_ok:
  assumes "tinv s xs" "ts_timers s r = Some t"
  shows "runs (forget_elapsed r s) (\<lambda>s'. tinv s' xs \<and> timers_abs s' = a_forget r (timers_abs s))"
proof -
  let ?f = "\<lambda>t. t\<lparr>tm_elapsed_data := None\<rparr>"
  have "status_ok (r \<in> set xs) t" using assms by (simp add: tinv_def)
  then have "tinv (s\<lparr>ts_timers := (ts_timers s)(r \<mapsto> ?f t)\<rparr>) xs"
    by (intro tinv_update [OF assms]) (auto simp: status_ok_def)
  moreover have "timers_abs (s\<lparr>ts_timers := (ts_timers s)(r \<mapsto> ?f t)\<rparr>) = a_forget r (timers_abs s)"
    unfolding a_forget_def by (rule abs_update [OF assms(2)]) (simp add: abs_timer_def)
  ultimately show ?thesis using assms(2) by (simp add: forget_elapsed_def put_timer_def)
qed

lemma abort_elapsed_ok:
  assumes "tinv s xs" "ts_timers s r = Some t"
  shows "runs (abort_elapsed r s) (\<lambda>s'. tinv s' xs \<and> timers_abs s' = a_abort r (timers_abs s))"
proof (cases "tm_elapsed_data t = None")
  case True
  then show ?thesis using assms by (simp add: abort_elapsed_def a_abort_def abs_timers abs_timer_def)
next
  case False
  let ?take = "filter (\<lambda>x. x \<noteq> tm_elapsed_data t)"
  have "runs (case tm_output t of None \<Rightarrow> Some s
      | Some l \<Rightarrow> on_list l (\<lambda>xs. do { (xs, _) \<leftarrow> gwlist_delete_equal xs (tm_elapsed_data t); Some xs }) s)
      (\<lambda>s'. tinv s' xs \<and> timers_abs s' = a_on_list (tm_output t) ?take (timers_abs s) \<and> ts_timers s' = ts_timers s)"
  proof (cases "tm_output t")
    case None
    then show ?thesis using assms by (simp add: a_on_list_def)
  next
    case (Some l)
    obtain q where q: "ts_lists s l = Some q" using output_list [OF assms Some] .
    show ?thesis unfolding Some option.case
      by (rule on_list_ok [OF assms(1) q])
        (use gwlist_delete_equal_rep in \<open>fastforce simp: runs_bind split_def elim!: runs_mono\<close>)
  qed
  then obtain s1 where s1: "(case tm_output t of None \<Rightarrow> Some s
      | Some l \<Rightarrow> on_list l (\<lambda>xs. do { (xs, _) \<leftarrow> gwlist_delete_equal xs (tm_elapsed_data t); Some xs }) s) = Some s1"
      "tinv s1 xs" "timers_abs s1 = a_on_list (tm_output t) ?take (timers_abs s)" "ts_timers s1 r = Some t"
    using assms(2) by (auto elim: runsE)
  show ?thesis
    using forget_elapsed_ok [OF s1(2,4)] assms(2) s1 False
    by (simp add: abort_elapsed_def a_abort_def abs_timers forget_elapsed_def abs_timer_def del: not_None_eq)
qed

section \<open>Starting and stopping\<close>

lemma tinv_place:
  assumes "tinv s xs" "ts_timers s r = Some t" "r \<in> set xs"
  obtains i where "i < length xs" "xs ! i = r" "tm_index t = int i"
  using assms that by (auto simp: tinv_def harr_def in_set_conv_nth index_of_def)

lemma tinv_active_iff:
  assumes "tinv s xs" "ts_timers s r = Some t"
  shows "tm_elapses t > 0 \<longleftrightarrow> r \<in> set xs"
proof -
  have "status_ok (r \<in> set xs) t" using assms by (simp add: tinv_def)
  then show ?thesis by (auto simp: status_ok_def split: if_splits)
qed

lemma tinv_timer: "tinv s xs \<Longrightarrow> x \<in> set xs \<Longrightarrow> \<exists>t. ts_timers s x = Some t \<and> tm_elapses t = key s x"
  by (rule harr_timer) (auto simp: tinv_def)

lemma deadline_abs:
  assumes "tinv s xs"
  shows "deadline (timers_abs s) r = (if r \<in> set xs then Some (key s r) else None)"
proof (cases "ts_timers s r")
  case None
  then have "r \<notin> set xs" using tinv_timer [OF assms, of r] by auto
  then show ?thesis using None by (simp add: deadline_def abs_timers)
next
  case (Some t)
  then show ?thesis
    using tinv_active_iff [OF assms Some] by (simp add: deadline_def abs_timers abs_timer_def key_def)
qed

lemma active_abs: "tinv s xs \<Longrightarrow> active (timers_abs s) = set xs"
  by (auto simp: active_def deadline_abs)

lemma heap_ord_cong: "heap_ord k xs \<Longrightarrow> (\<And>x. x \<in> set xs \<Longrightarrow> k' x = k x) \<Longrightarrow> heap_ord k' xs"
  unfolding heap_ord_def by (metis div_le_dividend nth_mem order_le_less_trans)

lemma timer_leave_heap_ok:
  assumes "tinv s xs" "ts_timers s r = Some t"
  shows "runs (timer_leave_heap r s) (\<lambda>s'. (\<exists>ys. tinv s' ys \<and> mset ys = mset xs - {#r#}) \<and>
    timers_abs s' = a_off r (timers_abs s) \<and> ts_timers s' r \<noteq> None)"
proof (cases "r \<in> set xs")
  case False
  then have "\<not> tm_elapses t > 0" using tinv_active_iff [OF assms] by simp
  moreover from this have "a_off r (timers_abs s) = timers_abs s"
    using assms(2) by (auto simp: a_off_def a_set_def timers_abs_def abs_timer_def)
  ultimately show ?thesis using assms False by (auto simp: timer_leave_heap_def intro!: exI [of _ xs])
next
  case True
  then have e: "tm_elapses t > 0" using tinv_active_iff [OF assms] by simp
  obtain i where i: "i < length xs" "xs ! i = r" "tm_index t = int i" using tinv_place [OF assms True] .
  let ?f = "\<lambda>t. t\<lparr>tm_elapses := -1\<rparr>"
  let ?s = "s\<lparr>ts_timers := (ts_timers s)(r \<mapsto> ?f t)\<rparr>"
  have inv: "harr s xs" "heap_ord (key s) xs" "finite (dom (ts_timers s))" "lists_ok s" "distinct xs"
    using assms(1) by (auto simp: tinv_def harr_def)
  have h: "harr ?s xs" by (rule harr_update [OF inv(1) assms(2)]) simp
  have hole: "hole (key ?s) xs i" using hole_change [OF inv(2,5) i(1)] i(2) by (simp add: key_update)
  have ab: "timers_abs ?s = a_off r (timers_abs s)"
    unfolding a_off_def by (rule abs_update [OF assms(2)]) (simp add: abs_timer_def)
  have l: "lists_ok ?s" by (rule lists_ok_update [OF inv(4) assms(2)]) simp
  obtain s' where s': "heap_delete ?s (int i) = Some s'" "taken ?s xs r s'"
    using heap_delete_ok [OF h i(1) hole] i(2) by (auto elim: runsE)
  then obtain ys where ys: "harr s' ys" "heap_ord (key ?s) ys" "mset xs = add_mset r (mset ys)"
    and m: "moved (set xs) ?s s'" and ix: "index_of s' r = Some (-1)"
    by (auto simp: taken_def)
  have sy: "set xs = insert r (set ys)" using arg_cong [OF ys(3), of set_mset] by simp
  have "r \<notin> set ys" using inv(5) ys(3) by (metis distinct.simps(2) mset.simps(2) mset_eq_imp_distinct_iff)
  have "tinv s' ys"
  proof (rule tinv_moved [OF m ys(1,2) _ l])
    show "finite (dom (ts_timers ?s))" using inv(3) by simp
  next
    fix x u assume u: "ts_timers ?s x = Some u"
    show "status_ok (x \<in> set ys) u"
    proof (cases "x = r")
      case True
      then show ?thesis using u \<open>r \<notin> set ys\<close> by (auto simp: status_ok_def)
    next
      case False
      then have "status_ok (x \<in> set xs) u" using u assms(1) by (simp add: tinv_def)
      then show ?thesis using False sy by simp
    qed
  next
    fix x u assume u: "ts_timers s' x = Some u" "x \<notin> set ys"
    show "tm_index u = -1"
    proof (cases "x = r")
      case True
      then show ?thesis using u ix by (simp add: index_of_def)
    next
      case False
      then have "x \<notin> set xs" using u sy by simp
      then have "ts_timers s x = Some u" using u m False by (auto simp: moved_def)
      then show ?thesis using \<open>x \<notin> set xs\<close> assms(1) by (simp add: tinv_def)
    qed
  qed
  moreover have "ts_timers s' r \<noteq> None" using ix by (auto simp: index_of_def)
  moreover have "heap_tab ?s (int i) = Some r" using heap_tab_at [OF h i(1)] i(2) by simp
  ultimately show ?thesis
    using assms(2) e i s'(1) ys(3) moved_abs [OF m] ab
    by (auto simp: timer_leave_heap_def put_timer_def intro!: exI [of _ ys])
qed

lemma a_set_a_set: "a_set r f (a_set r g a) = a_set r (f \<circ> g) a"
  by (simp add: a_set_def option.map_comp)

definition a_start ::
    "(timer_ref \<Rightarrow> ('d, 'c) atimers \<Rightarrow> ('d, 'c) atimers) \<Rightarrow> int \<Rightarrow> timer_ref \<Rightarrow> 'd option \<Rightarrow>
     ('d, 'c) atimers \<Rightarrow> ('d, 'c) atimers" where
  "a_start g e r d a = a_set r (\<lambda>t. t\<lparr>at_deadline := Some e, at_data := (if d = None then at_data t else d)\<rparr>)
     (if deadline a r = None then g r a else a)"

text \<open>The new deadline is earlier than every other: the timer thread must not sleep past it.\<close>

definition earliest :: "int \<Rightarrow> ('d, 'c) atimers \<Rightarrow> bool" where
  "earliest e a \<longleftrightarrow> (\<forall>r \<in> active a. e < the (deadline a r))"

lemma earliest_abs: "tinv s xs \<Longrightarrow> earliest e (timers_abs s) \<longleftrightarrow> (\<forall>x \<in> set xs. e < key s x)"
  by (simp add: earliest_def active_abs deadline_abs)

lemma set_deadline_abs:
  "ts_timers s r = Some t \<Longrightarrow> 0 < e \<Longrightarrow>
   timers_abs (s\<lparr>ts_timers := (ts_timers s)(r \<mapsto> t\<lparr>tm_elapses := e\<rparr>)\<rparr>) =
   a_set r (\<lambda>t. t\<lparr>at_deadline := Some e\<rparr>) (timers_abs s)"
  by (rule abs_update [of s r t "\<lambda>t. t\<lparr>tm_elapses := e\<rparr>"]) (simp_all add: abs_timer_def)

lemma restart_ok:
  assumes "tinv s xs" "ts_timers s r = Some t" "r \<in> set xs" "0 < e"
    and "s0 = s\<lparr>ts_timers := (ts_timers s)(r \<mapsto> t\<lparr>tm_elapses := e\<rparr>)\<rparr>"
  shows "runs (heap_adjust s0 (tm_index t)) (\<lambda>(b, s'). (\<exists>ys. tinv s' ys \<and> set ys = set xs) \<and>
    timers_abs s' = a_set r (\<lambda>t. t\<lparr>at_deadline := Some e\<rparr>) (timers_abs s) \<and>
    ((e < tm_elapses t \<and> tm_index t = 0) \<or> b \<longleftrightarrow> earliest e (timers_abs s)))"
proof -
  obtain i where i: "i < length xs" "xs ! i = r" "tm_index t = int i" using tinv_place [OF assms(1-3)] .
  have inv: "harr s xs" "heap_ord (key s) xs" "finite (dom (ts_timers s))" "lists_ok s" "distinct xs"
    using assms(1) by (auto simp: tinv_def harr_def)
  have k: "key s0 = (key s)(r := e)" using assms(5) by (simp add: key_update)
  have kr: "key s r = tm_elapses t" using assms(2) by (simp add: key_def)
  have h: "harr s0 xs" unfolding assms(5) by (rule harr_update [OF inv(1) assms(2)]) simp
  have hole: "hole (key s0) xs i" using hole_change [OF inv(2,5) i(1)] i(2) by (simp add: k)
  have l: "lists_ok s0" unfolding assms(5) by (rule lists_ok_update [OF inv(4) assms(2)]) simp
  obtain b s' ys where s': "heap_adjust s0 (int i) = Some (b, s')" "settled s0 xs ys s'"
      "b \<longleftrightarrow> 0 < i \<and> key s0 (xs ! i) < key s0 (xs ! 0)"
    using heap_adjust_ok [OF h i(1) hole] unfolding runs_def by blast
  have ys: "harr s' ys" "heap_ord (key s0) ys" "set ys = set xs" "moved (set xs) s0 s'"
    using s'(2) by (auto simp: settled_def dest: mset_eq_setD)
  have inv': "tinv s' ys"
  proof (rule tinv_moved [OF ys(4,1,2) _ l])
    show "finite (dom (ts_timers s0))" using inv(3) assms(5) by simp
  next
    fix x u assume u: "ts_timers s0 x = Some u"
    then show "status_ok (x \<in> set ys) u"
      using assms ys(3) by (cases "x = r") (auto simp: tinv_def status_ok_def split: if_splits)
  next
    fix x u assume u: "ts_timers s' x = Some u" "x \<notin> set ys"
    then have x: "x \<notin> set xs" "x \<noteq> r" using ys(3) assms(3) by auto
    then have "ts_timers s x = Some u" using u ys(4) assms(5) by (auto simp: moved_def)
    then show "tm_index u = -1" using x assms(1) by (simp add: tinv_def)
  qed
  have top: "(\<forall>x \<in> set xs. e < key s x) \<longleftrightarrow> e < key s (xs ! 0)"
    using heap_ord_top [OF inv(2)] i(1) by (metis less_le_trans length_pos_if_in_set nth_mem assms(3))
  have "i = 0 \<or> xs ! 0 \<noteq> r" using i inv(5) by (metis gr_zeroI nth_eq_iff_index_eq less_trans)
  then have "(e < tm_elapses t \<and> tm_index t = 0) \<or> b \<longleftrightarrow> earliest e (timers_abs s)"
    unfolding earliest_abs [OF assms(1)] top s'(3) using i kr by (auto simp: k)
  then show ?thesis
    using s'(1) i(3) inv' ys moved_abs [OF ys(4)] set_deadline_abs [OF assms(2,4)] assms(5) by auto
qed

lemma start_new_ok:
  assumes "tinv s xs" "ts_timers s r = Some t" "r \<notin> set xs" "0 < e" "tm_elapsed_data t = None"
    and "s0 = s\<lparr>ts_timers := (ts_timers s)(r \<mapsto> t\<lparr>tm_elapses := e\<rparr>)\<rparr>"
  shows "runs (heap_insert s0 r) (\<lambda>s'. (\<exists>ys. tinv s' ys \<and> set ys = insert r (set xs)) \<and>
    timers_abs s' = a_set r (\<lambda>t. t\<lparr>at_deadline := Some e\<rparr>) (timers_abs s) \<and>
    (index_of s' r = Some 0 \<longleftrightarrow> earliest e (timers_abs s)) \<and> ts_timers s' r \<noteq> None)"
proof -
  have inv: "harr s xs" "heap_ord (key s) xs" "finite (dom (ts_timers s))" "lists_ok s"
    using assms(1) by (auto simp: tinv_def)
  have k: "key s0 = (key s)(r := e)" using assms(6) by (simp add: key_update)
  have h: "harr s0 xs" unfolding assms(6) by (rule harr_update [OF inv(1) assms(2)]) simp
  have o: "heap_ord (key s0) xs" by (rule heap_ord_cong [OF inv(2)]) (use assms(3) k in auto)
  have l: "lists_ok s0" unfolding assms(6) by (rule lists_ok_update [OF inv(4) assms(2)]) simp
  obtain s' ys where s': "heap_insert s0 r = Some s'" "harr s' ys" "heap_ord (key s0) ys" "mset ys = add_mset r (mset xs)"
      "moved (insert r (set xs)) s0 s'" "index_of s' r = Some 0 \<longleftrightarrow> (\<forall>x \<in> set xs. key s0 r < key s0 x)"
    using heap_insert_ok [OF h o assms(3), of "t\<lparr>tm_elapses := e\<rparr>"] assms(6) unfolding runs_def by auto
  have sy: "set ys = insert r (set xs)" using arg_cong [OF s'(4), of set_mset] by simp
  have inv': "tinv s' ys"
  proof (rule tinv_moved [OF s'(5,2,3) _ l])
    show "finite (dom (ts_timers s0))" using inv(3) assms(6) by simp
  next
    fix x u assume u: "ts_timers s0 x = Some u"
    then show "status_ok (x \<in> set ys) u"
      using assms sy by (cases "x = r") (auto simp: tinv_def status_ok_def)
  next
    fix x u assume u: "ts_timers s' x = Some u" "x \<notin> set ys"
    then have "ts_timers s x = Some u" using sy s'(5) assms(6) by (auto simp: moved_def)
    then show "tm_index u = -1" using u sy assms(1) by (simp add: tinv_def)
  qed
  have "index_of s' r = Some 0 \<longleftrightarrow> earliest e (timers_abs s)"
    unfolding earliest_abs [OF assms(1)] s'(6) using assms(3) by (auto simp: k)
  moreover have "ts_timers s' r \<noteq> None"
    using moved_timer(1) [OF s'(5), of r] assms(6) by simp
  moreover have "timers_abs s' = a_set r (\<lambda>t. t\<lparr>at_deadline := Some e\<rparr>) (timers_abs s)"
    using moved_abs [OF s'(5)] set_deadline_abs [OF assms(2,4)] assms(6) by simp
  ultimately show ?thesis using s'(1) inv' sy by auto
qed

text \<open>
  The two ways of dealing with an event that may still be on the output list have this in common.
  What starts, stops and destroys a timer is built on it.
\<close>

locale settling =
  fixes settle :: "timer_ref \<Rightarrow> ('d, 'c) timerset \<Rightarrow> ('d, 'c) timerset option"
    and g :: "timer_ref \<Rightarrow> ('d, 'c) atimers \<Rightarrow> ('d, 'c) atimers"
  assumes settle_ok: "tinv s xs \<Longrightarrow> ts_timers s r = Some t \<Longrightarrow>
      runs (settle r s) (\<lambda>s'. tinv s' xs \<and> timers_abs s' = g r (timers_abs s))"
    and settle_timer: "a_timers a r = Some u \<Longrightarrow> a_timers (g r a) r = Some (u\<lparr>at_event := None\<rparr>)"
    and settle_deadline: "deadline (g r a) = deadline a"
begin

lemma settle_earliest: "earliest e (g r a) = earliest e a"
  by (simp add: earliest_def active_def settle_deadline)

lemma start_ok:
  assumes "tinv s xs" "ts_timers s r = Some t" "to_int (interval + now) = e" "0 < e"
  shows "runs (timer_start settle now r interval d s) (\<lambda>(w, s'). (\<exists>ys. tinv s' ys) \<and>
    timers_abs s' = a_start g e r d (timers_abs s) \<and> (w \<longleftrightarrow> earliest e (timers_abs s)))"
proof -
  let ?body = "if tm_elapses t > 0 then do {
         let wakeup = (e < tm_elapses t \<and> tm_index t = 0);
         ts \<leftarrow> put_timer r (\<lambda>t. t\<lparr>tm_elapses := e\<rparr>) s;
         gw_assert (tm_index t \<ge> 0);
         x \<leftarrow> heap_tab ts (tm_index t);
         gw_assert (x = r);
         (adjusted, ts) \<leftarrow> heap_adjust ts (tm_index t);
         Some (wakeup \<or> adjusted, ts) }
       else do {
         ts \<leftarrow> settle r s;
         ts \<leftarrow> put_timer r (\<lambda>t. t\<lparr>tm_elapses := e\<rparr>) ts;
         gw_assert (tm_index t < 0);
         ts \<leftarrow> heap_insert ts r;
         t \<leftarrow> ts_timers ts r;
         Some (tm_index t = 0, ts) }"
  have body: "runs ?body (\<lambda>(w, s'). (\<exists>ys. tinv s' ys \<and> r \<in> set ys) \<and>
      timers_abs s' = a_set r (\<lambda>t. t\<lparr>at_deadline := Some e\<rparr>)
        (if deadline (timers_abs s) r = None then g r (timers_abs s) else timers_abs s) \<and>
      (w \<longleftrightarrow> earliest e (timers_abs s)))"
  proof (cases "r \<in> set xs")
    case True
    let ?s = "s\<lparr>ts_timers := (ts_timers s)(r \<mapsto> t\<lparr>tm_elapses := e\<rparr>)\<rparr>"
    have pos: "tm_elapses t > 0" using tinv_active_iff [OF assms(1,2)] True by simp
    obtain i where i: "i < length xs" "xs ! i = r" "tm_index t = int i" using tinv_place [OF assms(1,2) True] .
    have "harr s xs" using assms(1) by (simp add: tinv_def)
    then have "heap_tab ?s (int i) = Some r" using heap_tab_at [of s xs i] i by (simp add: heap_tab_def)
    then show ?thesis
      using restart_ok [OF assms(1,2) True assms(4) refl] assms(2) pos i True
      by (auto simp: put_timer_def runs_bind split_def deadline_abs [OF assms(1)] elim!: runs_mono)
  next
    case False
    have neg: "\<not> tm_elapses t > 0" "tm_index t = -1"
      using tinv_active_iff [OF assms(1,2)] assms(1,2) False by (auto simp: tinv_def)
    obtain s1 where s1: "settle r s = Some s1" "tinv s1 xs" "timers_abs s1 = g r (timers_abs s)"
      using settle_ok [OF assms(1,2)] by (auto elim: runsE)
    have "a_timers (timers_abs s1) r = Some ((abs_timer t)\<lparr>at_event := None\<rparr>)"
      using settle_timer [of "timers_abs s" r] s1(3) assms(2) by (simp add: abs_timers)
    then obtain t1 where t1: "ts_timers s1 r = Some t1" "tm_elapsed_data t1 = None"
      by (auto simp: abs_timers abs_timer_def)
    let ?s = "s1\<lparr>ts_timers := (ts_timers s1)(r \<mapsto> t1\<lparr>tm_elapses := e\<rparr>)\<rparr>"
    obtain s2 ys t2 where s2: "heap_insert ?s r = Some s2" "tinv s2 ys" "set ys = insert r (set xs)"
        "timers_abs s2 = a_set r (\<lambda>t. t\<lparr>at_deadline := Some e\<rparr>) (timers_abs s1)"
        "index_of s2 r = Some 0 \<longleftrightarrow> earliest e (timers_abs s1)" "ts_timers s2 r = Some t2"
      using start_new_ok [OF s1(2) t1(1) False assms(4) t1(2) refl] unfolding runs_def by auto
    then have "tm_index t2 = 0 \<longleftrightarrow> earliest e (timers_abs s)"
      using s1(3) by (simp add: index_of_def settle_earliest)
    then show ?thesis
      using neg s1 t1 s2 False by (auto simp: put_timer_def deadline_abs [OF assms(1)])
  qed
  then obtain w s1 ys where s1: "?body = Some (w, s1)" "tinv s1 ys" "r \<in> set ys"
      "timers_abs s1 = a_set r (\<lambda>t. t\<lparr>at_deadline := Some e\<rparr>)
        (if deadline (timers_abs s) r = None then g r (timers_abs s) else timers_abs s)"
      "w \<longleftrightarrow> earliest e (timers_abs s)"
    unfolding runs_def by blast
  have run: "timer_start settle now r interval d s = do {
      s \<leftarrow> (if d \<noteq> None then put_timer r (\<lambda>t. t\<lparr>tm_data := d\<rparr>) s1 else Some s1); Some (w, s) }"
    using s1(1) assms(2,3) by (simp add: timer_start_def Let_def)
  obtain t1 where t1: "ts_timers s1 r = Some t1" using tinv_timer [OF s1(2,3)] by blast
  show ?thesis
  proof (cases "d = None")
    case True
    then show ?thesis using run s1 by (auto simp: a_start_def)
  next
    case False
    let ?s = "s1\<lparr>ts_timers := (ts_timers s1)(r \<mapsto> t1\<lparr>tm_data := d\<rparr>)\<rparr>"
    have "tinv ?s ys"
      by (rule tinv_update [OF s1(2) t1, of "\<lambda>t. t\<lparr>tm_data := d\<rparr>"])
        (use s1(2) t1 in \<open>auto simp: tinv_def status_ok_def\<close>)
    moreover have "timers_abs ?s = a_set r (\<lambda>t. t\<lparr>at_data := d\<rparr>) (timers_abs s1)"
      by (rule abs_update [OF t1, of "\<lambda>t. t\<lparr>tm_data := d\<rparr>"]) (simp add: abs_timer_def)
    then have "timers_abs ?s = a_start g e r d (timers_abs s)"
      using s1(4) False by (simp add: a_start_def a_set_a_set comp_def del: not_None_eq)
    ultimately show ?thesis using run False t1 s1(5) by (auto simp: put_timer_def)
  qed
qed

lemma stop_ok:
  assumes "tinv s xs" "ts_timers s r = Some t"
  shows "runs (do { s \<leftarrow> timer_leave_heap r s; settle r s }) (\<lambda>s'.
    (\<exists>ys. tinv s' ys \<and> mset ys = mset xs - {#r#}) \<and> timers_abs s' = g r (a_off r (timers_abs s)) \<and> ts_timers s' r \<noteq> None)"
proof -
  obtain s1 ys t1 where s1: "timer_leave_heap r s = Some s1" "tinv s1 ys" "mset ys = mset xs - {#r#}"
      "timers_abs s1 = a_off r (timers_abs s)" "ts_timers s1 r = Some t1"
    using timer_leave_heap_ok [OF assms] unfolding runs_def by auto
  obtain s2 where s2: "settle r s1 = Some s2" "tinv s2 ys" "timers_abs s2 = g r (timers_abs s1)"
    using settle_ok [OF s1(2,5)] by (auto elim: runsE)
  have "a_timers (timers_abs s2) r = Some ((abs_timer t1)\<lparr>at_event := None\<rparr>)"
    using settle_timer [of "timers_abs s1" r] s2(3) s1(5) by (simp add: abs_timers)
  then have "ts_timers s2 r \<noteq> None" by (auto simp: abs_timers)
  then show ?thesis using s1 s2 by auto
qed

end

lemma deadline_a_set: "(\<And>t. at_deadline (f t) = at_deadline t) \<Longrightarrow> deadline (a_set r f a) = deadline a"
  by (auto simp: deadline_def a_set_def fun_eq_iff split: option.splits bind_splits)

lemma a_timers_on_list [simp]: "a_timers (a_on_list out f a) = a_timers a"
  by (cases out) (simp_all add: a_on_list_def)

lemma deadline_forget: "deadline (a_forget r a) = deadline a"
  unfolding a_forget_def by (rule deadline_a_set) simp

lemma deadline_abort: "deadline (a_abort r a) = deadline a"
  by (auto simp: a_abort_def deadline_forget split: option.split) (simp add: deadline_def fun_eq_iff)

interpretation aborting: settling abort_elapsed a_abort
proof
  fix s :: "('d, 'c) timerset" and xs r t
  show "tinv s xs \<Longrightarrow> ts_timers s r = Some t \<Longrightarrow>
      runs (abort_elapsed r s) (\<lambda>s'. tinv s' xs \<and> timers_abs s' = a_abort r (timers_abs s))"
    by (rule abort_elapsed_ok)
next
  fix a :: "('d, 'c) atimers" and r u
  show "a_timers a r = Some u \<Longrightarrow> a_timers (a_abort r a) r = Some (u\<lparr>at_event := None\<rparr>)"
    by (cases u) (auto simp: a_abort_def a_forget_def a_set_def)
qed (rule deadline_abort)

interpretation forgetting: settling forget_elapsed a_forget
proof
  fix s :: "('d, 'c) timerset" and xs r t
  show "tinv s xs \<Longrightarrow> ts_timers s r = Some t \<Longrightarrow>
      runs (forget_elapsed r s) (\<lambda>s'. tinv s' xs \<and> timers_abs s' = a_forget r (timers_abs s))"
    by (rule forget_elapsed_ok)
next
  fix a :: "('d, 'c) atimers" and r u
  show "a_timers a r = Some u \<Longrightarrow> a_timers (a_forget r a) r = Some (u\<lparr>at_event := None\<rparr>)"
    by (simp add: a_forget_def a_set_def)
qed (rule deadline_forget)

section \<open>Creating and freeing\<close>

definition a_create :: "timer_ref \<Rightarrow> list_ref option \<Rightarrow> 'c option \<Rightarrow> ('d, 'c) atimers \<Rightarrow> ('d, 'c) atimers" where
  "a_create r out cb a = a\<lparr>a_timers := (a_timers a)(r \<mapsto>
     \<lparr>at_output = out, at_callback = cb, at_deadline = None, at_data = None, at_event = None\<rparr>)\<rparr>"

lemma harr_cong:
  "harr s xs \<Longrightarrow> ts_heap s' = ts_heap s \<Longrightarrow> (\<And>x. x \<in> set xs \<Longrightarrow> ts_timers s' x = ts_timers s x) \<Longrightarrow> harr s' xs"
  by (simp add: harr_def heap_len_def index_of_def)

lemma tinv_other:
  assumes "tinv s xs" "ts_heap s' = ts_heap s" "\<And>x. x \<noteq> r \<Longrightarrow> ts_timers s' x = ts_timers s x" "r \<notin> set xs"
    "lists_ok s'" "\<And>t. ts_timers s' r = Some t \<Longrightarrow> tm_elapses t = -1 \<and> tm_index t = -1"
  shows "tinv s' xs"
proof -
  have x: "ts_timers s' x = ts_timers s x" if "x \<in> set xs" for x using that assms(3,4) by metis
  have "harr s' xs" using harr_cong [of s xs s'] assms(1,2) x by (simp add: tinv_def)
  moreover have "heap_ord (key s') xs"
    by (rule heap_ord_cong [of "key s"]) (use assms(1) x in \<open>auto simp: tinv_def key_def\<close>)
  moreover have "dom (ts_timers s') \<subseteq> insert r (dom (ts_timers s))"
    using assms(3) by (metis domIff insertCI subsetI)
  then have "finite (dom (ts_timers s'))" using assms(1) by (auto simp: tinv_def intro: finite_subset)
  moreover have "status_ok (y \<in> set xs) t \<and> (y \<notin> set xs \<longrightarrow> tm_index t = -1)" if "ts_timers s' y = Some t" for y t
  proof (cases "y = r")
    case True
    then show ?thesis using that assms(4,6) by (simp add: status_ok_def)
  next
    case False
    then show ?thesis using that assms(1,3) by (simp add: tinv_def)
  qed
  ultimately show ?thesis using assms(5) by (simp add: tinv_def)
qed

lemma lists_ok_change:
  assumes "lists_ok s" "ts_lists s l = Some q" "rep q' (items q)" "ts_lists s' = (ts_lists s)(l \<mapsto> q')"
    "\<And>l'. l' \<noteq> l \<Longrightarrow> users s' l' = users s l'" "int (card (users s' l)) \<le> gl_num_producers q'"
  shows "lists_ok s'"
  unfolding lists_ok_def
proof (intro conjI allI impI)
  fix l' x assume x: "ts_lists s' l' = Some x"
  have "gwlist_ok x \<and> int (card (users s' l')) \<le> gl_num_producers x"
    using x assms by (cases "l' = l") (auto simp: rep_iff lists_ok_def)
  then show "gwlist_ok x" "int (card (users s' l')) \<le> gl_num_producers x" by blast+
next
  fix l' assume "users s' l' \<noteq> {}"
  then show "ts_lists s' l' \<noteq> None" using assms by (cases "l' = l") (auto simp: lists_ok_def)
qed

lemma gw_timer_create_ok:
  assumes "tinv s xs" "ts_timers s r = None" "\<And>l. out = Some l \<Longrightarrow> ts_lists s l \<noteq> None"
  shows "runs (gw_timer_create r s out cb) (\<lambda>s'. tinv s' xs \<and> timers_abs s' = a_create r out cb (timers_abs s))"
proof -
  have r: "r \<notin> set xs" using tinv_timer [OF assms(1), of r] assms(2) by auto
  let ?t = "\<lparr>tm_output = out, tm_callback = cb, tm_elapses = -1, tm_data = None, tm_elapsed_data = None, tm_index = -1\<rparr>"
  let ?s = "s\<lparr>ts_timers := (ts_timers s)(r \<mapsto> ?t)\<rparr>"
  have u: "users ?s l = (if out = Some l then insert r (users s l) else users s l)" for l
    using assms(2) by (auto simp: users_def)
  have ok: "lists_ok s" and fin: "finite (users s l)" for l
    using assms(1) users_finite by (auto simp: tinv_def)
  have ab: "timers_abs ?s = a_create r out cb (timers_abs s)"
    by (auto simp: timers_abs_def a_create_def abs_timer_def)
  show ?thesis
  proof (cases out)
    case None
    then have "users ?s = users s" using u by auto
    then have "lists_ok ?s" using ok by (simp add: lists_ok_def)
    then have "tinv ?s xs" using r by (intro tinv_other [OF assms(1)]) auto
    then show ?thesis using None ab by (simp add: gw_timer_create_def Let_def)
  next
    case (Some l)
    obtain q where q: "ts_lists s l = Some q" using assms(3) [OF Some] by blast
    let ?s' = "?s\<lparr>ts_lists := (ts_lists s)(l \<mapsto> gwlist_add_producer q)\<rparr>"
    have u': "users ?s' = users ?s" by (simp add: users_def [abs_def])
    have "rep q (items q)" using ok q by (simp add: lists_ok_def rep_iff)
    then have rq: "rep (gwlist_add_producer q) (items q)" by (simp add: gwlist_add_producer_def)
    have "int (card (users s l)) \<le> gl_num_producers q" using ok q by (simp add: lists_ok_def)
    moreover have "card (insert r (users s l)) \<le> Suc (card (users s l))" using fin [of l] by (simp add: card_insert_if)
    ultimately have "int (card (users ?s' l)) \<le> gl_num_producers (gwlist_add_producer q)"
      unfolding u' u using Some by (simp add: gwlist_add_producer_def)
    then have "lists_ok ?s'"
      using u' u Some by (intro lists_ok_change [OF ok q rq]) auto
    then have "tinv ?s' xs" using r by (intro tinv_other [OF assms(1)]) auto
    moreover have "timers_abs ?s' = timers_abs ?s" using rq q by (auto simp: timers_abs_def rep_iff)
    ultimately show ?thesis using Some ab q by (simp add: gw_timer_create_def Let_def on_list_def)
  qed
qed

lemma timer_free_ok:
  assumes "tinv s xs" "ts_timers s r = Some t" "r \<notin> set xs"
  shows "runs (timer_free r s) (\<lambda>s'. tinv s' xs \<and> timers_abs s' = a_free r (timers_abs s))"
proof -
  let ?s = "s\<lparr>ts_timers := (ts_timers s)(r := None)\<rparr>"
  have u: "users ?s l = users s l - {r}" for l by (auto simp: users_def)
  have ok: "lists_ok s" and fin: "finite (users s l)" for l
    using assms(1) users_finite by (auto simp: tinv_def)
  have ab: "timers_abs ?s = a_free r (timers_abs s)"
    by (auto simp: timers_abs_def a_free_def)
  show ?thesis
  proof (cases "tm_output t")
    case None
    then have "users ?s = users s" using u assms(2) by (auto simp: users_def fun_eq_iff)
    then have "lists_ok ?s" using ok by (simp add: lists_ok_def)
    then have "tinv ?s xs" using assms(3) by (intro tinv_other [OF assms(1)]) auto
    then show ?thesis using None ab assms(2) by (simp add: timer_free_def)
  next
    case (Some l)
    obtain q where q: "ts_lists s l = Some q" using output_list [OF assms(1,2) Some] .
    let ?q = "q\<lparr>gl_num_producers := gl_num_producers q - 1\<rparr>"
    let ?s' = "s\<lparr>ts_lists := (ts_lists s)(l \<mapsto> ?q), ts_timers := (ts_timers s)(r := None)\<rparr>"
    have u': "users ?s' = users ?s" by (simp add: users_def [abs_def])
    have rl: "r \<in> users s l" using Some assms(2) by (simp add: users_def)
    have le: "int (card (users s l)) \<le> gl_num_producers q" using ok q by (simp add: lists_ok_def)
    have pos: "0 < card (users s l)" using rl fin [of l] by (auto simp: card_gt_0_iff)
    have "rep q (items q)" using ok q by (simp add: lists_ok_def rep_iff)
    then have rq: "rep ?q (items q)" by simp
    have "users s l' - {r} = users s l'" if "l' \<noteq> l" for l'
      using that Some assms(2) by (auto simp: users_def)
    moreover have "int (card (users ?s' l)) \<le> gl_num_producers ?q"
      unfolding u' u using rl le pos fin [of l] by simp
    ultimately have "lists_ok ?s'"
      using u' u by (intro lists_ok_change [OF ok q rq]) auto
    then have "tinv ?s' xs" using assms(3) by (intro tinv_other [OF assms(1)]) auto
    moreover have "timers_abs ?s' = timers_abs ?s" using rq q by (auto simp: timers_abs_def rep_iff)
    ultimately show ?thesis using Some ab q assms(2) le pos by (simp add: timer_free_def on_list_def gwlist_remove_producer_def)
  qed
qed

section \<open>The order in which timers leave\<close>

definition by_deadline :: "('d, 'c) atimers \<Rightarrow> timer_ref set \<Rightarrow> timer_ref list \<Rightarrow> bool" where
  "by_deadline a A ps \<longleftrightarrow> distinct ps \<and> set ps = A \<and> sorted (map (\<lambda>r. the (deadline a r)) ps)"

lemma by_deadline_empty [simp]: "by_deadline a {} ps \<longleftrightarrow> ps = []"
  by (auto simp: by_deadline_def)

lemma by_deadline_Cons:
  assumes "by_deadline a' (A - {r}) ps" "\<And>x. x \<noteq> r \<Longrightarrow> deadline a' x = deadline a x" "r \<in> A"
    "\<And>x. x \<in> A \<Longrightarrow> the (deadline a r) \<le> the (deadline a x)"
  shows "by_deadline a A (r # ps)"
proof -
  have "map (\<lambda>r. the (deadline a' r)) ps = map (\<lambda>r. the (deadline a r)) ps"
    using assms(1,2) by (auto simp: by_deadline_def)
  then have "sorted (map (\<lambda>r. the (deadline a r)) ps)" "distinct ps" "set ps = A - {r}"
    using assms(1) unfolding by_deadline_def by metis+
  then show ?thesis using assms(3,4) by (auto simp: by_deadline_def)
qed

lemma deadline_off: "deadline (a_off r a) = (deadline a)(r := None)"
  by (auto simp: deadline_def a_off_def a_set_def fun_eq_iff split: bind_splits)

lemma deadline_on_list [simp]: "deadline (a_on_list out f a) = deadline a"
  by (simp add: deadline_def fun_eq_iff)

lemma deadline_elapse: "deadline (a_elapse r a) = (deadline a)(r := None)"
  by (auto simp: deadline_def a_elapse_def a_set_def fun_eq_iff split: bind_splits option.split)

lemma deadline_free: "deadline a r = None \<Longrightarrow> deadline (a_free r a) = deadline a"
  by (auto simp: deadline_def a_free_def fun_eq_iff)

lemma tinv_first:
  assumes "tinv s xs" "xs \<noteq> []"
  shows "heap_len s = int (length xs)" "heap_tab s 0 = Some (xs ! 0)" "xs ! 0 \<in> set xs"
    "elapses_at s 0 = Some (key s (xs ! 0))" "\<And>x. x \<in> set xs \<Longrightarrow> key s (xs ! 0) \<le> key s x"
proof -
  have h: "harr s xs" "heap_ord (key s) xs" using assms(1) by (simp_all add: tinv_def)
  show "heap_len s = int (length xs)" using h by (simp add: harr_def)
  show "heap_tab s 0 = Some (xs ! 0)" "elapses_at s 0 = Some (key s (xs ! 0))"
    using heap_tab_at [OF h(1), of 0] elapses_at_ok [OF h(1), of 0] assms(2) by simp_all
  show "xs ! 0 \<in> set xs" using assms(2) by simp
  show "\<And>x. x \<in> set xs \<Longrightarrow> key s (xs ! 0) \<le> key s x" by (rule heap_ord_top [OF h(2)])
qed

lemma tinv_empty: "tinv s [] \<Longrightarrow> heap_len s = 0"
  by (simp add: tinv_def harr_def)

lemma tinv_pop:
  assumes "tinv s xs" "tinv s' ys" "mset ys = mset xs - {#r#}" "r \<in> set xs"
  shows "set ys = set xs - {r}" "length ys < length xs"
proof -
  have "distinct xs" using assms(1) by (simp add: tinv_def harr_def)
  then show "set ys = set xs - {r}" using assms(3) by (metis distinct_remove1_removeAll mset_remove1 set_mset_mset set_remove1_eq)
  show "length ys < length xs"
    using arg_cong [OF assms(3), of size] assms(4) by (simp add: size_Diff_singleton) (use assms(4) length_pos_if_in_set in force)
qed

lemma pop_order:
  assumes "tinv s xs" "xs \<noteq> []" "deadline a' = (deadline (timers_abs s))(xs ! 0 := None)"
    "xs ! 0 \<in> A" "A \<subseteq> set xs" "by_deadline a' (A - {xs ! 0}) ps"
  shows "by_deadline (timers_abs s) A (xs ! 0 # ps)"
proof (rule by_deadline_Cons [OF assms(6) _ assms(4)])
  show "deadline a' x = deadline (timers_abs s) x" if "x \<noteq> xs ! 0" for x using that assms(3) by simp
  show "the (deadline (timers_abs s) (xs ! 0)) \<le> the (deadline (timers_abs s) x)" if "x \<in> A" for x
    using that assms(5) tinv_first(3,5) [OF assms(1,2)] by (auto simp: deadline_abs [OF assms(1)])
qed

text \<open>A loop that takes the first timer off the heap until it is empty.\<close>

lemma drain_ok:
  fixes loop :: "('d, 'c) timerset \<Rightarrow> ('d, 'c) timerset option"
  assumes loop: "\<And>s. loop s = (if heap_len s > 0 then do { r \<leftarrow> heap_tab s 0; s \<leftarrow> step r s; loop s } else Some s)"
    and step: "\<And>s xs r t. tinv s xs \<Longrightarrow> ts_timers s r = Some t \<Longrightarrow> r \<in> set xs \<Longrightarrow>
      runs (step r s) (\<lambda>s'. (\<exists>ys. tinv s' ys \<and> mset ys = mset xs - {#r#}) \<and> timers_abs s' = h r (timers_abs s))"
    and h: "\<And>r a. deadline (h r a) = (deadline a)(r := None)"
    and inv: "tinv s xs"
  shows "runs (loop s) (\<lambda>s'. tinv s' [] \<and>
    (\<exists>ps. by_deadline (timers_abs s) (active (timers_abs s)) ps \<and> timers_abs s' = fold h ps (timers_abs s)))"
  using inv
proof (induction "length xs" arbitrary: s xs rule: less_induct)
  case less
  show ?case
  proof (cases "xs = []")
    case True
    then show ?thesis using less.prems tinv_empty [of s] by (subst loop) (simp add: active_abs)
  next
    case False
    let ?r = "xs ! 0" and ?a = "timers_abs s"
    note first = tinv_first [OF less.prems False]
    obtain t where t: "ts_timers s ?r = Some t" using tinv_timer [OF less.prems first(3)] by blast
    obtain s1 ys where s1: "step ?r s = Some s1" "tinv s1 ys" "mset ys = mset xs - {#?r#}" "timers_abs s1 = h ?r ?a"
      using step [OF less.prems t first(3)] unfolding runs_def by auto
    note pop = tinv_pop [OF less.prems s1(2,3) first(3)]
    obtain s2 ps where s2: "loop s1 = Some s2" "tinv s2 []" "by_deadline (timers_abs s1) (active (timers_abs s1)) ps"
        "timers_abs s2 = fold h ps (timers_abs s1)"
      using less.hyps [OF pop(2) s1(2)] unfolding runs_def by auto
    have "by_deadline ?a (active ?a) (?r # ps)"
      using pop_order [OF less.prems False, of "timers_abs s1" "set xs" ps] s2(3) pop(1) s1(4) h first(3)
        active_abs [OF less.prems] active_abs [OF s1(2)] by simp
    moreover have "loop s = Some s2" using first False s1(1) s2(1) by (subst loop) simp
    moreover have "timers_abs s2 = fold h (?r # ps) ?a" using s2(4) s1(4) by simp
    ultimately show ?thesis using s2(2) unfolding runs_def by blast
  qed
qed

lemma break_loop_ok:
  assumes "tinv s xs" "rep ret rs"
  shows "runs (break_loop ret s) (\<lambda>(ret', s'). tinv s' [] \<and> (\<exists>ps. rep ret' (rs @ ps) \<and>
    by_deadline (timers_abs s) (active (timers_abs s)) ps \<and> timers_abs s' = fold a_off ps (timers_abs s)))"
  using assms
proof (induction "length xs" arbitrary: s xs ret rs rule: less_induct)
  case less
  show ?case
  proof (cases "xs = []")
    case True
    then show ?thesis using less.prems tinv_empty [of s] by (subst break_loop.simps) (auto simp: active_abs)
  next
    case False
    let ?r = "xs ! 0" and ?a = "timers_abs s"
    note first = tinv_first [OF less.prems(1) False]
    obtain t where t: "ts_timers s ?r = Some t" using tinv_timer [OF less.prems(1) first(3)] by blast
    have ev: "tm_elapsed_data t = None" using less.prems(1) t first(3) by (auto simp: tinv_def status_ok_def)
    obtain ret1 where ret1: "gwlist_append ret ?r = Some ret1" "rep ret1 (rs @ [?r])"
      using gwlist_append_rep [OF less.prems(2)] by (auto elim: runsE)
    obtain s1 ys where s1: "(do { s \<leftarrow> timer_leave_heap ?r s; abort_elapsed ?r s }) = Some s1" "tinv s1 ys"
        "mset ys = mset xs - {#?r#}" "timers_abs s1 = a_abort ?r (a_off ?r ?a)"
      using aborting.stop_ok [OF less.prems(1) t] unfolding runs_def by auto
    have ab: "timers_abs s1 = a_off ?r ?a"
      unfolding s1(4) using t ev by (simp add: a_abort_def a_off_def a_set_def abs_timers abs_timer_def)
    note pop = tinv_pop [OF less.prems(1) s1(2,3) first(3)]
    obtain ret2 s2 ps where s2: "break_loop ret1 s1 = Some (ret2, s2)" "tinv s2 []" "rep ret2 ((rs @ [?r]) @ ps)"
        "by_deadline (timers_abs s1) (active (timers_abs s1)) ps" "timers_abs s2 = fold a_off ps (timers_abs s1)"
      using less.hyps [OF pop(2) s1(2) ret1(2)] unfolding runs_def by auto
    have "by_deadline ?a (active ?a) (?r # ps)"
      using pop_order [OF less.prems(1) False, of "timers_abs s1" "set xs" ps] s2(4) pop(1) ab first(3)
        active_abs [OF less.prems(1)] active_abs [OF s1(2)] by (simp add: deadline_off)
    moreover have "break_loop ret s = Some (ret2, s2)"
      using first False s1(1) s2(1) ret1(1) by (subst break_loop.simps) (auto simp: bind_eq_Some_conv)
    ultimately show ?thesis
      using s2(2,3,5) ab by (auto intro!: exI [of _ "?r # ps"])
  qed
qed

section \<open>Elapsing\<close>

definition due :: "int \<Rightarrow> ('d, 'c) atimers \<Rightarrow> timer_ref set" where
  "due now a = {r \<in> active a. the (deadline a r) \<le> now}"

definition no_callbacks :: "('d, 'c) atimers \<Rightarrow> bool" where
  "no_callbacks a \<longleftrightarrow> (\<forall>r t. a_timers a r = Some t \<longrightarrow> at_deadline t \<noteq> None \<longrightarrow> at_callback t = None)"

lemma elapse_one_ok:
  assumes "tinv s xs" "xs \<noteq> []" "ts_timers s (xs ! 0) = Some t" "tm_callback t = None"
  shows "runs (do { s \<leftarrow> heap_delete s 0; elapse_timer call (xs ! 0) s })
    (\<lambda>s'. (\<exists>ys. tinv s' ys \<and> mset ys = mset xs - {#xs ! 0#}) \<and> timers_abs s' = a_elapse (xs ! 0) (timers_abs s))"
proof -
  let ?r = "xs ! 0"
  have inv: "harr s xs" "heap_ord (key s) xs" "finite (dom (ts_timers s))" "lists_ok s" "distinct xs" "0 < length xs"
    using assms(1,2) by (auto simp: tinv_def harr_def)
  have r: "?r \<in> set xs" using assms(2) by simp
  have hole: "hole (key s) xs 0" using hole_change [OF inv(2,5,6)] by simp
  obtain s1 where s1: "heap_delete s 0 = Some s1" "taken s xs ?r s1"
    using heap_delete_ok [OF inv(1,6) hole] by (auto elim: runsE)
  then obtain ys where ys: "harr s1 ys" "heap_ord (key s) ys" "mset xs = add_mset ?r (mset ys)"
    and m: "moved (set xs) s s1" and ix: "index_of s1 ?r = Some (-1)"
    by (auto simp: taken_def)
  have sy: "set xs = insert ?r (set ys)" using arg_cong [OF ys(3), of set_mset] by simp
  have ry: "?r \<notin> set ys" using inv(5) ys(3) by (metis distinct.simps(2) mset.simps(2) mset_eq_imp_distinct_iff)
  obtain t1 where t1: "ts_timers s1 ?r = Some t1" "unplaced t1 = unplaced t"
    using moved_timer(3) [OF m assms(3)] by blast
  note same = unplaced_fields [OF t1(2)]
  have ev: "tm_elapsed_data t = None" using assms(1,3) r by (auto simp: tinv_def status_ok_def)
  let ?f = "\<lambda>u. u\<lparr>tm_elapsed_data := tm_data t1, tm_elapses := -1\<rparr>"
  let ?s = "s1\<lparr>ts_timers := (ts_timers s1)(?r \<mapsto> ?f t1)\<rparr>"
  have inv1: "tinv ?s ys"
  proof -
    have "harr ?s ys" by (rule harr_update [OF ys(1) t1(1), of ?f]) simp
    moreover have "heap_ord (key ?s) ys"
      by (rule heap_ord_cong [OF ys(2)]) (use ry moved_key [OF m] in \<open>auto simp: key_update\<close>)
    moreover have "lists_ok ?s"
      by (rule lists_ok_update [OF _ t1(1), of ?f]) (use moved_lists_ok [OF m] inv(4) in simp_all)
    moreover have "finite (dom (ts_timers ?s))" using moved_dom [OF m] inv(3) by simp
    moreover have "status_ok (x \<in> set ys) u \<and> (x \<notin> set ys \<longrightarrow> tm_index u = -1)" if u: "ts_timers ?s x = Some u" for x u
    proof (cases "x = ?r")
      case True
      then show ?thesis using u ry ix t1 by (auto simp: status_ok_def index_of_def)
    next
      case False
      then have u1: "ts_timers s1 x = Some u" using u by simp
      obtain u0 where u0: "ts_timers s x = Some u0" "unplaced u0 = unplaced u"
        using moved_timer(2) [OF m u1] by blast
      have "status_ok (x \<in> set xs) u0" using u0(1) assms(1) by (simp add: tinv_def)
      then have "status_ok (x \<in> set ys) u" using False sy unplaced_status [OF u0(2)] by simp
      moreover have "tm_index u = -1" if "x \<notin> set ys"
      proof -
        have "x \<notin> set xs" using that False sy by simp
        then have "ts_timers s x = Some u" using m u1 by (auto simp: moved_def)
        then show ?thesis using \<open>x \<notin> set xs\<close> assms(1) by (simp add: tinv_def)
      qed
      ultimately show ?thesis by blast
    qed
    ultimately show ?thesis by (simp add: tinv_def)
  qed
  have ab: "timers_abs ?s = a_set ?r (\<lambda>t. t\<lparr>at_deadline := None, at_event := at_data t\<rparr>) (timers_abs s)"
    using abs_update [OF t1(1), of ?f "\<lambda>t. t\<lparr>at_deadline := None, at_event := at_data t\<rparr>"] moved_abs [OF m]
    by (simp add: abs_timer_def)
  have "runs (case tm_output t1 of None \<Rightarrow> Some ?s | Some l \<Rightarrow> on_list l (\<lambda>xs. gwlist_produce xs (tm_data t1)) ?s)
      (\<lambda>s'. tinv s' ys \<and> timers_abs s' = a_on_list (tm_output t1) (\<lambda>xs. xs @ [tm_data t1]) (timers_abs ?s))"
  proof (cases "tm_output t1")
    case None
    then show ?thesis using inv1 by (simp add: a_on_list_def)
  next
    case (Some l)
    have "ts_timers ?s ?r = Some (?f t1)" "tm_output (?f t1) = Some l" using Some by simp_all
    then obtain q where q: "ts_lists ?s l = Some q" using output_list [OF inv1] by blast
    show ?thesis unfolding Some option.case
      by (rule runs_mono [OF on_list_ok [OF inv1 q]])
        (use gwlist_append_rep in \<open>auto simp: gwlist_produce_def\<close>)
  qed
  then obtain s2 where s2: "(case tm_output t1 of None \<Rightarrow> Some ?s
      | Some l \<Rightarrow> on_list l (\<lambda>xs. gwlist_produce xs (tm_data t1)) ?s) = Some s2" "tinv s2 ys"
      "timers_abs s2 = a_on_list (tm_output t1) (\<lambda>xs. xs @ [tm_data t1]) (timers_abs ?s)"
    by (auto elim: runsE)
  have "tm_elapsed_data t1 = None" "tm_callback t1 = None" using same ev assms(4) by simp_all
  then have "elapse_timer call ?r s1 = Some s2"
    using s2(1) t1(1) by (simp add: elapse_timer_def put_timer_def Let_def)
  moreover have "timers_abs s2 = a_elapse ?r (timers_abs s)"
    unfolding s2(3) ab using assms(3) same by (simp add: a_elapse_def abs_timers abs_timer_def)
  moreover have "mset ys = mset xs - {#?r#}" using ys(3) by simp
  ultimately show ?thesis using s1(1) s2(2) by auto
qed

lemma no_callbacks_elapse: "no_callbacks a \<Longrightarrow> no_callbacks (a_elapse r a)"
  by (auto simp: no_callbacks_def a_elapse_def a_set_def split: option.splits if_splits)

lemma elapse_loop_ok:
  assumes "tinv s xs" "no_callbacks (timers_abs s)"
  shows "runs (elapse_loop call now s) (\<lambda>s'. (\<exists>ys. tinv s' ys) \<and> (\<exists>ps. by_deadline (timers_abs s) (due now (timers_abs s)) ps \<and>
    timers_abs s' = fold a_elapse ps (timers_abs s)) \<and> due now (timers_abs s') = {})"
  using assms
proof (induction "length xs" arbitrary: s xs rule: less_induct)
  case less
  show ?case
  proof (cases "xs = []")
    case True
    then have "due now (timers_abs s) = {}" using less.prems(1) by (simp add: due_def active_abs)
    then show ?thesis
      using True less.prems tinv_empty [of s] by (subst elapse_loop.simps) auto
  next
    case False
    let ?r = "xs ! 0" and ?a = "timers_abs s"
    note first = tinv_first [OF less.prems(1) False]
    have due: "due now ?a = {x \<in> set xs. key s x \<le> now}"
      by (auto simp: due_def active_abs [OF less.prems(1)] deadline_abs [OF less.prems(1)])
    show ?thesis
    proof (cases "key s ?r \<le> now")
      case False2: False
      then have "due now ?a = {}" unfolding due using first(5) by fastforce
      then show ?thesis
        using False False2 first less.prems(1) by (subst elapse_loop.simps) auto
    next
      case True
      obtain t where t: "ts_timers s ?r = Some t" "tm_elapses t = key s ?r"
        using tinv_timer [OF less.prems(1) first(3)] by blast
      have "0 < tm_elapses t" using tinv_active_iff [OF less.prems(1) t(1)] first(3) by simp
      then have "at_deadline (abs_timer t) \<noteq> None" "a_timers ?a ?r = Some (abs_timer t)"
        using t(1) by (simp_all add: abs_timers abs_timer_def)
      then have "at_callback (abs_timer t) = None" using less.prems(2) unfolding no_callbacks_def by blast
      then have cb: "tm_callback t = None" by (simp add: abs_timer_def)
      obtain s1 ys where s1: "(do { s \<leftarrow> heap_delete s 0; elapse_timer call ?r s }) = Some s1" "tinv s1 ys"
          "mset ys = mset xs - {#?r#}" "timers_abs s1 = a_elapse ?r ?a"
        using elapse_one_ok [OF less.prems(1) False t(1) cb, of call] unfolding runs_def by auto
      note pop = tinv_pop [OF less.prems(1) s1(2,3) first(3)]
      obtain s2 ps where s2: "elapse_loop call now s1 = Some s2" "\<exists>ys. tinv s2 ys"
          "by_deadline (timers_abs s1) (due now (timers_abs s1)) ps" "timers_abs s2 = fold a_elapse ps (timers_abs s1)"
          "due now (timers_abs s2) = {}"
        using less.hyps [OF pop(2) s1(2)] no_callbacks_elapse [OF less.prems(2), of ?r] s1(4) unfolding runs_def by metis
      have dl: "deadline (timers_abs s1) = (deadline ?a)(?r := None)" using s1(4) deadline_elapse by simp
      then have "due now (timers_abs s1) = due now ?a - {?r}" by (auto simp: due_def active_def)
      then have "by_deadline ?a (due now ?a) (?r # ps)"
        using pop_order [OF less.prems(1) False dl, of "due now ?a" ps] s2(3) due True first(3) by auto
      moreover have "elapse_loop call now s = Some s2"
        using first False True s1(1) s2(1) by (subst elapse_loop.simps) (auto simp: bind_eq_Some_conv)
      moreover have "timers_abs s2 = fold a_elapse (?r # ps) ?a" using s2(4) s1(4) by simp
      ultimately show ?thesis using s2(2,5) unfolding runs_def by blast
    qed
  qed
qed

section \<open>The operations\<close>

datatype variant = Plain | Elapsed | Elapsed_cb

datatype ('d, 'c) timer_op =
    TCreate timer_ref "list_ref option" "'c option"
  | TStart variant int timer_ref int "'d option"
  | TStop variant timer_ref
  | TDestroy variant "timer_ref option"
  | TData timer_ref
  | TCount
  | TBreak
  | TPass int
  | TShut variant

datatype 'd timer_res =
    TVoid | TWake bool | TItem "'d option" | TNumber int | TTimers "timer_ref list option" | TSleep "int option"

fun start_of :: "variant \<Rightarrow> int \<Rightarrow> timer_ref \<Rightarrow> int \<Rightarrow> 'd option \<Rightarrow> ('d, 'c) timerset \<Rightarrow> (bool \<times> ('d, 'c) timerset) option" where
  "start_of Plain = gw_timer_start"
| "start_of Elapsed = gw_timer_elapsed_start"
| "start_of Elapsed_cb = gw_timer_elapsed_start_cb"

fun stop_of :: "variant \<Rightarrow> timer_ref \<Rightarrow> ('d, 'c) timerset \<Rightarrow> ('d, 'c) timerset option" where
  "stop_of Plain = gw_timer_stop"
| "stop_of Elapsed = gw_timer_elapsed_stop"
| "stop_of Elapsed_cb = gw_timer_elapsed_stop_cb"

fun destroy_of :: "variant \<Rightarrow> timer_ref option \<Rightarrow> ('d, 'c) timerset \<Rightarrow> ('d, 'c) timerset option" where
  "destroy_of Plain = gw_timer_destroy"
| "destroy_of Elapsed = gw_timer_elapsed_destroy"
| "destroy_of Elapsed_cb = gw_timer_elapsed_destroy_cb"

text \<open>There is no third variant of the function that destroys a set.\<close>

fun shut_of :: "variant \<Rightarrow> ('d, 'c) timerset option \<Rightarrow> ('d, 'c) timerset option option" where
  "shut_of Plain = gw_timerset_destroy"
| "shut_of _ = gw_timerset_elapsed_destroy"

fun timer_call ::
    "('c \<Rightarrow> 'd option \<Rightarrow> ('d, 'c) timerset \<Rightarrow> ('d, 'c) timerset option) \<Rightarrow>
     ('d, 'c) timer_op \<Rightarrow> ('d, 'c) timerset \<Rightarrow> ('d timer_res \<times> ('d, 'c) timerset) option" where
  "timer_call call (TCreate r out cb) s = map_option (Pair TVoid) (gw_timer_create r s out cb)"
| "timer_call call (TStart v now r interval d) s =
     map_option (\<lambda>(w, s). (TWake w, s)) (start_of v now r interval d s)"
| "timer_call call (TStop v r) s = map_option (Pair TVoid) (stop_of v r s)"
| "timer_call call (TDestroy v r) s = map_option (Pair TVoid) (destroy_of v r s)"
| "timer_call call (TData r) s = map_option (\<lambda>d. (TItem d, s)) (gw_timer_data r s)"
| "timer_call call TCount s = Some (TNumber (gw_timerset_count s), s)"
| "timer_call call TBreak s = map_option (\<lambda>(ps, s). (TTimers (map_option items ps), s)) (gw_timer_break s)"
| "timer_call call (TPass now) s = map_option (\<lambda>(n, s). (TSleep n, s)) (watch_pass call now s)"
| "timer_call call (TShut v) s = do { s \<leftarrow> shut_of v (Some s); s \<leftarrow> s; Some (TVoid, s) }"

section \<open>The specification\<close>

fun a_settle :: "variant \<Rightarrow> timer_ref \<Rightarrow> ('d, 'c) atimers \<Rightarrow> ('d, 'c) atimers" where
  "a_settle Plain = a_abort"
| "a_settle _ = a_forget"

definition a_stop :: "variant \<Rightarrow> timer_ref \<Rightarrow> ('d, 'c) atimers \<Rightarrow> ('d, 'c) atimers" where
  "a_stop v r a = a_settle v r (a_off r a)"

fun a_shut :: "variant \<Rightarrow> timer_ref \<Rightarrow> ('d, 'c) atimers \<Rightarrow> ('d, 'c) atimers" where
  "a_shut Plain r a = a_stop Plain r a"
| "a_shut v r a = a_free r (a_stop v r a)"

text \<open>The time to sleep: until the first deadline, or very long when there is none.\<close>

definition sleeps :: "int \<Rightarrow> ('d, 'c) atimers \<Rightarrow> int \<Rightarrow> bool" where
  "sleeps now a n \<longleftrightarrow> (if active a = {} then n = 1000000
     else (\<exists>r. deadline a r = Some (now + n)) \<and> (\<forall>r \<in> active a. now + n \<le> the (deadline a r)))"

inductive allows :: "('d, 'c) timer_op \<Rightarrow> ('d, 'c) atimers \<Rightarrow> 'd timer_res \<Rightarrow> ('d, 'c) atimers \<Rightarrow> bool" where
  create: "allows (TCreate r out cb) a TVoid (a_create r out cb a)"
| start: "e = to_int (interval + now) \<Longrightarrow>
    allows (TStart v now r interval d) a (TWake (earliest e a)) (a_start (a_settle v) e r d a)"
| stop: "allows (TStop v r) a TVoid (a_stop v r a)"
| destroy_null: "allows (TDestroy v None) a TVoid a"
| destroy: "allows (TDestroy v (Some r)) a TVoid (a_free r (a_stop v r a))"
| data: "a_timers a r = Some t \<Longrightarrow> allows (TData r) a (TItem (at_data t)) a"
| count: "allows TCount a (TNumber (int (card (active a)))) a"
| break_none: "active a = {} \<Longrightarrow> allows TBreak a (TTimers None) a"
| break_some: "active a \<noteq> {} \<Longrightarrow> by_deadline a (active a) ps \<Longrightarrow>
    allows TBreak a (TTimers (Some ps)) (fold a_off ps a)"
| pass: "by_deadline a (due now a) ps \<Longrightarrow> a' = fold a_elapse ps a \<Longrightarrow> sleeps now a' n \<Longrightarrow> 0 < n \<Longrightarrow>
    allows (TPass now) a (TSleep (Some n)) a'"
| shut: "by_deadline a (active a) ps \<Longrightarrow>
    allows (TShut v) a TVoid ((fold (a_shut v) ps a)\<lparr>a_stopping := True\<rparr>)"

text \<open>
  What the caller owes: timers that exist, a set that was not destroyed, a deadline that fits
  into an \<open>int\<close>, and, for a turn of the timer thread, no callbacks.
\<close>

fun legal :: "('d, 'c) timer_op \<Rightarrow> ('d, 'c) atimers \<Rightarrow> bool" where
  "legal (TCreate r out cb) a \<longleftrightarrow>
     \<not> a_stopping a \<and> a_timers a r = None \<and> (case out of None \<Rightarrow> True | Some l \<Rightarrow> a_lists a l \<noteq> None)"
| "legal (TStart v now r interval d) a \<longleftrightarrow>
     \<not> a_stopping a \<and> a_timers a r \<noteq> None \<and> 0 < to_int (interval + now)"
| "legal (TStop v r) a \<longleftrightarrow> \<not> a_stopping a \<and> a_timers a r \<noteq> None"
| "legal (TDestroy v r) a \<longleftrightarrow> \<not> a_stopping a \<and> (case r of None \<Rightarrow> True | Some r \<Rightarrow> a_timers a r \<noteq> None)"
| "legal (TData r) a \<longleftrightarrow> \<not> a_stopping a \<and> a_timers a r \<noteq> None"
| "legal TCount a \<longleftrightarrow> \<not> a_stopping a"
| "legal TBreak a \<longleftrightarrow> \<not> a_stopping a"
| "legal (TPass now) a \<longleftrightarrow> \<not> a_stopping a \<and> no_callbacks a"
| "legal (TShut v) a \<longleftrightarrow> \<not> a_stopping a"

section \<open>The simulation\<close>

lemma start_of_ok:
  assumes "tinv s xs" "ts_timers s r = Some t" "0 < to_int (interval + now)"
  shows "runs (start_of v now r interval d s) (\<lambda>(w, s'). (\<exists>ys. tinv s' ys) \<and>
    timers_abs s' = a_start (a_settle v) (to_int (interval + now)) r d (timers_abs s) \<and>
    (w \<longleftrightarrow> earliest (to_int (interval + now)) (timers_abs s)))"
  using aborting.start_ok [OF assms(1,2) refl assms(3), of d] forgetting.start_ok [OF assms(1,2) refl assms(3), of d]
  by (cases v) (simp_all add: gw_timer_start_def gw_timer_elapsed_start_def gw_timer_elapsed_start_cb_def)

lemma stop_of_ok:
  assumes "tinv s xs" "ts_timers s r = Some t"
  shows "runs (stop_of v r s) (\<lambda>s'. (\<exists>ys. tinv s' ys \<and> mset ys = mset xs - {#r#}) \<and>
    timers_abs s' = a_stop v r (timers_abs s) \<and> ts_timers s' r \<noteq> None)"
  using aborting.stop_ok [OF assms] forgetting.stop_ok [OF assms]
  by (cases v) (simp_all add: gw_timer_stop_def gw_timer_elapsed_stop_def gw_timer_elapsed_stop_cb_def a_stop_def)

lemma destroy_of_eq:
  "destroy_of v (Some r) s = do { s \<leftarrow> stop_of v r s; timer_free r s }" "destroy_of v None s = Some s"
  by (cases v; simp add: gw_timer_destroy_def gw_timer_elapsed_destroy_def gw_timer_elapsed_destroy_cb_def)+

lemma not_left:
  assumes "tinv s xs" "mset ys = mset xs - {#r#}"
  shows "r \<notin> set ys"
proof -
  have "distinct xs" using assms(1) by (simp add: tinv_def harr_def)
  moreover have "set ys = set (remove1 r xs)" using assms(2) by (metis mset_remove1 set_mset_mset)
  ultimately show ?thesis by (simp add: set_remove1_eq)
qed

lemma destroy_of_ok:
  assumes "tinv s xs" "ts_timers s r = Some t"
  shows "runs (destroy_of v (Some r) s) (\<lambda>s'. (\<exists>ys. tinv s' ys \<and> mset ys = mset xs - {#r#}) \<and>
    timers_abs s' = a_free r (a_stop v r (timers_abs s)))"
proof -
  obtain s1 ys t1 where s1: "stop_of v r s = Some s1" "tinv s1 ys" "mset ys = mset xs - {#r#}"
      "timers_abs s1 = a_stop v r (timers_abs s)" "ts_timers s1 r = Some t1"
    using stop_of_ok [OF assms, of v] unfolding runs_def by auto
  show ?thesis
    using timer_free_ok [OF s1(2,5) not_left [OF assms(1) s1(3)]] s1
    by (auto simp: destroy_of_eq elim!: runs_mono)
qed

lemma deadline_stop: "deadline (a_stop v r a) = (deadline a)(r := None)"
  by (cases v) (simp_all add: a_stop_def deadline_abort deadline_forget deadline_off)

lemma deadline_shut: "deadline (a_shut v r a) = (deadline a)(r := None)"
  by (cases v) (simp_all add: deadline_stop deadline_free)

lemma tinv_stopping: "tinv (s\<lparr>ts_stopping := b\<rparr>) xs = tinv s xs"
  by (simp add: tinv_def harr_def heap_len_def index_of_def key_def [abs_def] lists_ok_def users_def)

lemma shut_of_ok:
  assumes "tinv s xs"
  shows "\<exists>s'. shut_of v (Some s) = Some (Some s') \<and> tinv s' [] \<and> allows (TShut v) (timers_abs s) TVoid (timers_abs s')"
proof -
  have abs: "timers_abs (u\<lparr>ts_stopping := True\<rparr>) = (timers_abs u)\<lparr>a_stopping := True\<rparr>" for u
    by (simp add: timers_abs_def)
  show ?thesis
  proof (cases "v = Plain")
    case True
    have "runs (stop_all_loop s) (\<lambda>s'. tinv s' [] \<and> (\<exists>ps. by_deadline (timers_abs s) (active (timers_abs s)) ps \<and>
        timers_abs s' = fold (a_shut Plain) ps (timers_abs s)))"
    proof (rule drain_ok [OF stop_all_loop.simps _ deadline_shut assms])
      fix s :: "('a, 'b) timerset" and xs r t
      assume "tinv s xs" "ts_timers s r = Some t"
      from stop_of_ok [OF this, of Plain]
      show "runs (gw_timer_stop r s) (\<lambda>s'. (\<exists>ys. tinv s' ys \<and> mset ys = mset xs - {#r#}) \<and>
          timers_abs s' = a_shut Plain r (timers_abs s))"
        by (auto elim!: runs_mono)
    qed
    then show ?thesis
      using True by (auto simp: gw_timerset_destroy_def tinv_stopping abs elim!: runsE intro: shut)
  next
    case False
    have "runs (elapsed_destroy_all_loop s) (\<lambda>s'. tinv s' [] \<and> (\<exists>ps. by_deadline (timers_abs s) (active (timers_abs s)) ps \<and>
        timers_abs s' = fold (a_shut v) ps (timers_abs s)))"
    proof (rule drain_ok [OF elapsed_destroy_all_loop.simps _ deadline_shut assms])
      fix s :: "('a, 'b) timerset" and xs r t
      assume "tinv s xs" "ts_timers s r = Some t"
      from destroy_of_ok [OF this, of Elapsed]
      show "runs (gw_timer_elapsed_destroy (Some r) s) (\<lambda>s'. (\<exists>ys. tinv s' ys \<and> mset ys = mset xs - {#r#}) \<and>
          timers_abs s' = a_shut v r (timers_abs s))"
        using False by (cases v) (auto simp: a_stop_def elim!: runs_mono)
    qed
    then show ?thesis
      using False by (cases v) (auto simp: gw_timerset_elapsed_destroy_def tinv_stopping abs elim!: runsE intro: shut)
  qed
qed

lemma watch_pass_ok:
  assumes "tinv s xs" "\<not> ts_stopping s" "no_callbacks (timers_abs s)"
  shows "\<exists>n s' ys. watch_pass call now s = Some (Some n, s') \<and> tinv s' ys \<and>
    allows (TPass now) (timers_abs s) (TSleep (Some n)) (timers_abs s')"
proof -
  obtain s' ys ps where s': "elapse_loop call now s = Some s'" "tinv s' ys"
      "by_deadline (timers_abs s) (due now (timers_abs s)) ps" "timers_abs s' = fold a_elapse ps (timers_abs s)"
      "due now (timers_abs s') = {}"
    using elapse_loop_ok [OF assms(1,3), of call now] unfolding runs_def by blast
  show ?thesis
  proof (cases "ys = []")
    case True
    then have "sleeps now (timers_abs s') 1000000" using s'(2) by (simp add: sleeps_def active_abs)
    then have "allows (TPass now) (timers_abs s) (TSleep (Some 1000000)) (timers_abs s')"
      by (intro pass [OF s'(3,4)]) simp_all
    moreover have "watch_pass call now s = Some (Some 1000000, s')"
      using s'(1,2) True assms(2) tinv_empty [of s'] by (simp add: watch_pass_def)
    ultimately show ?thesis using s'(2) by blast
  next
    case False
    note first = tinv_first [OF s'(2) False]
    let ?n = "key s' (ys ! 0) - now"
    have "sleeps now (timers_abs s') ?n"
      using first(3,5) False by (auto simp: sleeps_def active_abs [OF s'(2)] deadline_abs [OF s'(2)])
    moreover have "0 < ?n"
      using s'(5) first(3) by (auto simp: due_def active_abs [OF s'(2)] deadline_abs [OF s'(2)] not_le)
    ultimately have "allows (TPass now) (timers_abs s) (TSleep (Some ?n)) (timers_abs s')"
      by (intro pass [OF s'(3,4)])
    moreover have "watch_pass call now s = Some (Some ?n, s')"
      using s'(1) first False assms(2) by (simp add: watch_pass_def)
    ultimately show ?thesis using s'(2) by blast
  qed
qed

lemma gw_timer_break_ok:
  assumes "tinv s xs"
  shows "\<exists>ps s' ys. gw_timer_break s = Some (ps, s') \<and> tinv s' ys \<and>
    allows TBreak (timers_abs s) (TTimers (map_option items ps)) (timers_abs s')"
proof (cases "xs = []")
  case True
  then show ?thesis
    using assms tinv_empty [of s] by (auto simp: gw_timer_break_def active_abs intro!: break_none)
next
  case False
  then have act: "active (timers_abs s) \<noteq> {}" using active_abs [OF assms] by simp
  obtain ret s' ps where s': "break_loop gwlist_create s = Some (ret, s')" "tinv s' []" "rep ret ps"
      "by_deadline (timers_abs s) (active (timers_abs s)) ps" "timers_abs s' = fold a_off ps (timers_abs s)"
    using break_loop_ok [OF assms gwlist_create_rep] unfolding runs_def by auto
  then have "allows TBreak (timers_abs s) (TTimers (Some ps)) (timers_abs s')"
    using break_some [OF act s'(4)] by simp
  then show ?thesis
    using s' tinv_first(1) [OF assms False] False by (auto simp: gw_timer_break_def rep_iff)
qed

text \<open>The states that a set of timers can be in, and that every legal call answers as specified.\<close>

inductive timer_reach ::
    "('c \<Rightarrow> 'd option \<Rightarrow> ('d, 'c) timerset \<Rightarrow> ('d, 'c) timerset option) \<Rightarrow> ('d, 'c) timerset \<Rightarrow> bool"
  for call where
  fresh: "(\<And>l q. ls l = Some q \<Longrightarrow> gwlist_ok q \<and> 0 \<le> gl_num_producers q) \<Longrightarrow> gw_timerset_create ls = Some s \<Longrightarrow>
    timer_reach call s"
| further: "timer_reach call s \<Longrightarrow> legal x (timers_abs s) \<Longrightarrow> timer_call call x s = Some (r, s') \<Longrightarrow> timer_reach call s'"

lemma create_tinv:
  assumes "\<And>l q. ls l = Some q \<Longrightarrow> gwlist_ok q \<and> 0 \<le> gl_num_producers q" "gw_timerset_create ls = Some s"
  shows "tinv s []"
  using assms by (auto simp: gw_timerset_create_def heap_create_def gw_malloc_def tinv_def harr_def heap_len_def
    heap_ord_def lists_ok_def users_def)

lemma timer_call_ok:
  assumes "tinv s xs" "legal x (timers_abs s)"
  shows "\<exists>r s' ys. timer_call call x s = Some (r, s') \<and> tinv s' ys \<and> allows x (timers_abs s) r (timers_abs s')"
proof (cases x)
  case (TCreate r out cb)
  then have "runs (gw_timer_create r s out cb) (\<lambda>s'. tinv s' xs \<and> timers_abs s' = a_create r out cb (timers_abs s))"
    using assms by (intro gw_timer_create_ok) (auto simp: timers_abs_def split: option.splits)
  then show ?thesis using TCreate by (auto elim!: runsE intro: allows.create)
next
  case (TStart v now r interval d)
  then obtain t where "ts_timers s r = Some t" "0 < to_int (interval + now)" using assms(2) by (auto simp: abs_timers)
  from start_of_ok [OF assms(1) this, of v d] show ?thesis
    using TStart by (auto elim!: runsE intro: allows.start [OF refl])
next
  case (TStop v r)
  then obtain t where "ts_timers s r = Some t" using assms(2) by (auto simp: abs_timers)
  from stop_of_ok [OF assms(1) this, of v] show ?thesis
    using TStop by (auto elim!: runsE intro: allows.stop)
next
  case (TDestroy v r)
  show ?thesis
  proof (cases r)
    case None
    then show ?thesis using TDestroy assms(1) by (auto simp: destroy_of_eq intro: destroy_null)
  next
    case (Some r')
    then obtain t where "ts_timers s r' = Some t" using TDestroy assms(2) by (auto simp: abs_timers)
    from destroy_of_ok [OF assms(1) this, of v] show ?thesis
      using TDestroy Some by (auto elim!: runsE intro: destroy)
  qed
next
  case (TData r)
  then obtain t where t: "ts_timers s r = Some t" using assms(2) by (auto simp: abs_timers)
  then have "allows (TData r) (timers_abs s) (TItem (at_data (abs_timer t))) (timers_abs s)"
    by (intro data) (simp add: abs_timers)
  then show ?thesis using TData t assms(1) by (auto simp: gw_timer_data_def abs_timer_def)
next
  case TCount
  have "distinct xs" "heap_len s = int (length xs)" using assms(1) by (auto simp: tinv_def harr_def)
  then have "gw_timerset_count s = int (card (active (timers_abs s)))"
    using active_abs [OF assms(1)] by (simp add: gw_timerset_count_def distinct_card)
  then show ?thesis using TCount assms(1) count [of "timers_abs s"] by auto
next
  case TBreak
  then show ?thesis using gw_timer_break_ok [OF assms(1)] by auto
next
  case (TPass now)
  then have "\<not> ts_stopping s" "no_callbacks (timers_abs s)" using assms(2) by (auto simp: timers_abs_def)
  then show ?thesis using TPass watch_pass_ok [OF assms(1), of call now] by fastforce
next
  case (TShut v)
  then show ?thesis using shut_of_ok [OF assms(1), of v] by fastforce
qed

lemma timer_reach_inv: "timer_reach call s \<Longrightarrow> \<exists>xs. tinv s xs"
proof (induction rule: timer_reach.induct)
  case (fresh ls s)
  then show ?case using create_tinv by blast
next
  case (further s x r s')
  then show ?case using timer_call_ok [of s _ x call] by (metis option.inject prod.inject)
qed

end
