(* ===== verification/Timer_Properties.thy ===== *)
theory Timer_Properties
  imports Timer_Spec
begin

text \<open>
  What the timers of \<open>gwlib/gw-timer.c\<close> guarantee, and where a deadline does not fit.
\<close>

section \<open>Helper lemmas\<close>

inductive_simps allows_create: "allows (TCreate r out cb) a x a'"
inductive_simps allows_start: "allows (TStart v now r interval d) a x a'"
inductive_simps allows_pass: "allows (TPass now) a x a'"

text \<open>A set with one timer that puts 7 on its list at 105.\<close>

definition no_call :: "unit \<Rightarrow> int option \<Rightarrow> (int, unit) timerset \<Rightarrow> (int, unit) timerset option" where
  "no_call c d s = Some s"

definition sample_timers :: "(int, unit) atimers" where
  "sample_timers = \<lparr>
     a_timers = [1 \<mapsto> \<lparr>at_output = Some 0, at_callback = None, at_deadline = Some 105, at_data = Some 7, at_event = None\<rparr>],
     a_lists = [0 \<mapsto> []], a_stopping = False\<rparr>"

lemma to_int_105: "to_int 105 = 105"
  by (rule to_int_id) (simp_all add: INT_MAX_def)

definition idle_timers :: "(int, unit) atimers" where
  "idle_timers = \<lparr>
     a_timers = [1 \<mapsto> \<lparr>at_output = Some 0, at_callback = None, at_deadline = None, at_data = None, at_event = None\<rparr>],
     a_lists = [0 \<mapsto> []], a_stopping = False\<rparr>"

lemma idle_reach: "\<exists>s. timer_reach no_call s \<and> timers_abs s = idle_timers"
proof -
  let ?ls = "[0 \<mapsto> gwlist_create] :: list_ref \<Rightarrow> int option gwlist option"
  have ok: "rep (gwlist_create :: int option gwlist) []" by (rule gwlist_create_rep)
  obtain s0 :: "(int, unit) timerset" where s0: "gw_timerset_create ?ls = Some s0"
    by (auto simp: gw_timerset_create_def heap_create_def gw_malloc_def)
  have r0: "timer_reach no_call s0"
    by (rule timer_reach.fresh [OF _ s0]) (use ok in \<open>auto simp: rep_iff gwlist_create_def split: if_splits\<close>)
  have a0: "timers_abs s0 = \<lparr>a_timers = Map.empty, a_lists = [0 \<mapsto> []], a_stopping = False\<rparr>"
    using s0 ok by (auto simp: gw_timerset_create_def heap_create_def gw_malloc_def timers_abs_def rep_iff)
  let ?x = "TCreate 1 (Some 0) None"
  have l0: "legal ?x (timers_abs s0)" by (simp add: a0)
  then obtain y0 s1 where s1: "timer_call no_call ?x s0 = Some (y0, s1)" "allows ?x (timers_abs s0) y0 (timers_abs s1)"
    using timer_call_ok timer_reach_inv [OF r0] by blast
  have r1: "timer_reach no_call s1" by (rule timer_reach.further [OF r0 l0 s1(1)])
  have "timers_abs s1 = idle_timers" using s1(2) by (simp add: allows_create a0 a_create_def idle_timers_def)
  then show ?thesis using r1 by blast
qed

lemma sample_reach: "\<exists>s. timer_reach no_call s \<and> timers_abs s = sample_timers"
proof -
  obtain s1 where r1: "timer_reach no_call s1" and a1: "timers_abs s1 = idle_timers" using idle_reach by blast
  let ?y = "TStart Plain 100 1 5 (Some 7)"
  have l1: "legal ?y (timers_abs s1)" by (simp add: a1 idle_timers_def to_int_105)
  then obtain y1 s2 where s2: "timer_call no_call ?y s1 = Some (y1, s2)" "allows ?y (timers_abs s1) y1 (timers_abs s2)"
    using timer_call_ok timer_reach_inv [OF r1] by blast
  have r2: "timer_reach no_call s2" by (rule timer_reach.further [OF r1 l1 s2(1)])
  have "timers_abs s2 = sample_timers"
    using s2(2) by (simp add: allows_start a1 idle_timers_def to_int_105 a_start_def a_abort_def a_set_def
      deadline_def sample_timers_def)
  then show ?thesis using r2 by blast
qed

section \<open>Refinement\<close>

text \<open>
  C7: In every state that a set of timers can reach, every call that is legal runs without a
  failed assertion, a bad access or an endless loop, and does what \<open>gw-timer.h\<close> says: a timer has
  the deadline it was last started with, starting it wakes the timer thread exactly when its
  deadline is before all others, stopping it takes its event back, a turn of the timer thread
  elapses exactly the timers that are due, earliest first, each putting its data on its output
  list, and the thread then sleeps exactly until the next deadline.
\<close>

theorem timers_refine:
  assumes "timer_reach call s" "legal x (timers_abs s)"
  shows "\<exists>r s'. timer_call call x s = Some (r, s') \<and> allows x (timers_abs s) r (timers_abs s')"
  using timer_call_ok [of s _ x call] timer_reach_inv [OF assms(1)] assms(2) by blast

theorem timers_refine_witness:
  "\<exists>s r s'. timers_abs s = sample_timers \<and> timer_call no_call (TPass 200) s = Some (r, s') \<and>
    a_lists (timers_abs s') 0 = Some [Some 7]"
proof -
  obtain s where s: "timer_reach no_call s" "timers_abs s = sample_timers" using sample_reach by blast
  have "legal (TPass 200) (timers_abs s)" by (simp add: s(2) sample_timers_def no_callbacks_def)
  then obtain r s' where s': "timer_call no_call (TPass 200) s = Some (r, s')"
      "allows (TPass 200) sample_timers r (timers_abs s')"
    using timers_refine [OF s(1)] s(2) by metis
  have "due 200 sample_timers = {1}"
    by (auto simp: due_def active_def deadline_def sample_timers_def split: bind_splits if_splits)
  then obtain ps where ps: "by_deadline sample_timers {1} ps" "timers_abs s' = fold a_elapse ps sample_timers"
    using s'(2) by (auto simp: allows_pass)
  then have "ps = [1]" by (cases ps; cases "tl ps") (auto simp: by_deadline_def)
  then have "a_lists (timers_abs s') 0 = Some [Some 7]"
    using ps(2) by (simp add: sample_timers_def a_elapse_def a_set_def a_on_list_def)
  then show ?thesis using s(2) s'(1) by blast
qed

section \<open>The variants for elapsed timers\<close>






section \<open>Deadlines that do not fit\<close>





end
