(* ===== verification/Spec2Isabelle.thy ===== *)
theory Spec2Isabelle
  imports Prioqueue_Spec Dict_Spec Msg Parse Counter Charset Sms_Properties Sms_Queue Charset_Iconv Date Smpp_Properties Timer_Properties
begin

text \<open>
  Kamex is a gateway between SMS centres and HTTP services. A \<open>bearerbox\<close> process holds the
  connections to the SMS centres, \<open>smsbox\<close> processes serve HTTP, and both exchange messages. They are
  built on a library, \<open>gwlib\<close>, of lists, octet strings, hash tables, priority queues, timers, counters,
  parsers, dates and character sets. This development models the library bottom-up and, on top of it,
  the messages of the boxes (\<open>gw/msg.c\<close>), their coding and splitting (\<open>gw/sms.c\<close>) and the packets of
  the SMPP protocol (\<open>gw/smsc/smpp_pdu.c\<close>).

  \<^bold>\<open>Conventions\<close> (theory \<open>Prelude\<close>). A C function that may abort is a function into \<open>option\<close>; \<open>None\<close> is
  a failed \<open>gw_assert\<close>, a \<open>panic\<close>, an access outside an allocated area, a read of memory that was
  never written, or a loop that does not end. NULL and -1 that the C code returns are values inside.
  An allocated area is a list of cells, read and written with bounds checks. \<open>runs c P\<close> says that \<open>c\<close>
  returns, with a result that satisfies \<open>P\<close>. \<open>long\<close> is \<open>int\<close> where it cannot overflow, and a word of
  64 or 32 bits where the code depends on the width. Locks are not modelled: every function that takes
  one holds it for all its accesses, so a call is one step; the exception, waiting on a condition
  variable, is split into steps (\<open>Gwlist_Threads\<close>). Memory that is freed is not tracked.

  \<^bold>\<open>Lists\<close> (\<open>gwlib/list.c\<close>). \<open>Gwlist\<close> models the circular buffer with its growth, \<open>Gwlist_Sort\<close> the
  in-place quicksort, \<open>Gwlist_Threads\<close> producers and consumers as a step relation. \<open>Gwlist_Spec\<close> shows
  that every sequence of calls refines the same calls on a plain list, that the sort sorts for every
  comparison that is a total preorder (locale \<open>comparison\<close>), and that no interleaving loses, duplicates
  or reorders an item.

  \<^bold>\<open>Octet strings\<close> (\<open>gwlib/octstr.c\<close>). \<open>Octstr\<close> models the growable buffer, \<open>Octstr_Hex\<close>,
  \<open>Octstr_Url\<close>, \<open>Octstr_Base64\<close>, \<open>Octstr_Search\<close>, \<open>Octstr_Edit\<close> and \<open>Octstr_Uintvar\<close> the codecs, searches
  and edits, which work in place. \<open>Octstr_Spec\<close> and \<open>Octstr_Properties\<close> show the refinement to lists
  of octets, the aborting and endless calls included, and that the codecs are inverse. \<open>Ctype\<close> holds the
  character classes, \<open>Octets\<close> the calls as the components above see them, on lists of octets, each
  shown equal to the call on the buffer, and the number functions (\<open>strtol\<close>, \<open>sprintf\<close> of a decimal).

  \<^bold>\<open>Hash tables and priority queues\<close> (\<open>gwlib/dict.c\<close>, \<open>gwlib/gw-prioqueue.c\<close>). \<open>Dict\<close> is an array of
  buckets that are lists of \<open>gwlib/list.c\<close>; \<open>Dict_Spec\<close> shows that it is a finite map, that a traversal
  is complete and that every value is released once. \<open>Prioqueue\<close> is the binary heap in an array;
  \<open>Prioqueue_Spec\<close> shows that it serves the oldest item of highest priority.

  \<^bold>\<open>Small parts\<close>. \<open>Counter\<close> (\<open>gwlib/counter.c\<close>), \<open>Parse\<close> (\<open>gwlib/parse.c\<close>), \<open>Uuid\<close> (\<open>gwlib/gw_uuid.c\<close>)
  and \<open>Date\<close> (\<open>gwlib/date.c\<close>) model every function; shown are the bounds of the counters, that parsing
  stays within its limits and reads back what was written, the round trips of identifiers and dates,
  and where they end.

  \<^bold>\<open>Character sets\<close> (\<open>gwlib/charset.c\<close>). \<open>Charset\<close> has the tables and the conversions between GSM,
  Latin-1 and UTF-8 with their round trips; \<open>Charset_Iconv\<close> what is done around \<open>iconv\<close>, which is an
  argument: \<open>iconv_ok\<close> states its documented behaviour.

  \<^bold>\<open>Messages\<close>. \<open>Msg\<close> goes through the declarations of \<open>gw/msg-decl.h\<close> as the macros of \<open>gw/msg.c\<close> do
  and shows that unpacking inverts packing. \<open>Sms\<close> models \<open>gw/sms.c\<close>; the locale \<open>cutter\<close> of
  \<open>Sms_Split\<close> is the contract between the splitting loop and the two ways to cut a part, and
  \<open>Sms_Properties\<close> shows what text, size and headers the parts have. \<open>Sms_Queue\<close> composes the order of
  \<open>gw/sms.c\<close> with the priority queue: how long a message waits.

  \<^bold>\<open>SMPP\<close> (\<open>gw/smsc/smpp_pdu.c\<close>). \<open>Smpp_Def\<close> holds the declarations of \<open>smpp_pdu.def\<close> and
  \<open>smpp_pdu_opt.def\<close>, \<open>Smpp_Pdu\<close> the codec that goes through them, with the tables of configured
  parameters in hash tables of theory \<open>Dict\<close>. \<open>Smpp_Codec\<close> shows that unpacking never aborts and always
  ends, \<open>Smpp_Roundtrip\<close> that it inverts packing; \<open>Smpp_Properties\<close> states both and where a
  parameter is sent or read wrongly.

  \<^bold>\<open>Timers\<close> (\<open>gwlib/gw-timer.c\<close>). \<open>Timer\<close> holds the operations on a set of timers: the heap of
  addresses, the timers, which know their positions in it, and the output lists, which are lists of
  theory \<open>Gwlist\<close>. \<open>Timer_Heap\<close> shows that the heap is kept in order, \<open>Timer_Spec\<close> that every operation
  stays within a specification on deadlines and events, from which the order of equal deadlines is left
  out; what starts and stops timers is proved once, in a locale for the two ways of dealing with an
  event that may still be on the output list. \<open>Timer_Properties\<close> states the results, and what
  happens to a deadline after 2038.

  \<^bold>\<open>Bounds and fuel\<close>. No definition uses fuel. Loops with an evident measure are total functions; the
  others are partial functions in the \<open>option\<close> monad, and the theorems show that they return.

  \<^bold>\<open>Not modelled\<close>. Threads, sockets, TLS, files, databases and the C library's \<open>iconv\<close> are outside the
  sources or pure input and output. The boxes (\<open>gw/bearerbox.c\<close>, \<open>gw/smsbox.c\<close> and their parts), the
  drivers of the SMS centres, HTTP, MIME, configuration files and the add-ons are mostly threads
  around such calls.
\<close>

end
